(* ===== verification/Prelude.thy ===== *)
theory Prelude
  imports Main "HOL-Library.Word" "HOL-Library.Sublist"
begin

text \<open>
  Shared vocabulary of the development: the machine types of the C++ sources, the parts of the
  C++ standard library the sources use (\<open>std::map\<close> subscripting, \<open>std::string\<close> search, erase,
  replace and append, \<open>std::list\<close> search), the ways a C++ call can fail to return, and the
  generic lemmas and lemma collections the component theories share.
\<close>

unbundle bit_operations_syntax

section \<open>Machine types\<close>

type_synonym byte = "8 word"
type_synonym uint = "32 word"
type_synonym ull = "64 word"

section \<open>Lemma collections\<close>

named_theorems frame_simps "what an operation leaves unchanged"
named_theorems inv_intros "preservation of the invariants"
named_theorems string_simps "evaluation of the std::string operations"

section \<open>How a C++ operation ends\<close>

text \<open>
  \<open>Ret\<close> is a normal return.  \<open>Blocked\<close>: the thread waits on a lock and does not return.
  \<open>Aborted\<close>: a \<open>VERIFY\<close> of \<open>lang/verify.h\<close> failed.  \<open>Thrown\<close>: the library raised
  \<open>std::out_of_range\<close>, which nothing in the sources catches.  \<open>Undef\<close>: the C++ standard gives
  the step no meaning (an end iterator is dereferenced, memory outside an object is read).
\<close>

datatype 'a outcome = Ret 'a | Blocked | Aborted | Thrown | Undef

text \<open>A step and, when it returns, what follows it.\<close>

fun obind :: "'a outcome \<Rightarrow> ('a \<Rightarrow> 'b outcome) \<Rightarrow> 'b outcome" where
  "obind (Ret x) f = f x"
| "obind Blocked f = Blocked"
| "obind Aborted f = Aborted"
| "obind Thrown f = Thrown"
| "obind Undef f = Undef"

section \<open>std::map\<close>

text \<open>
  \<open>m[k]\<close> on a \<open>std::map\<close> yields the value stored at \<open>k\<close> and, when there is none, first inserts a
  default-constructed one.  \<open>subscript\<close> is the value, \<open>touch\<close> the map afterwards.
\<close>

definition subscript :: "'v \<Rightarrow> ('k \<rightharpoonup> 'v) \<Rightarrow> 'k \<Rightarrow> 'v" where
  "subscript d m k = (case m k of None \<Rightarrow> d | Some v \<Rightarrow> v)"

definition touch :: "'v \<Rightarrow> 'k \<Rightarrow> ('k \<rightharpoonup> 'v) \<Rightarrow> ('k \<rightharpoonup> 'v)" where
  "touch d k m = m(k \<mapsto> subscript d m k)"

lemma subscript_Some [simp]: "m k = Some v \<Longrightarrow> subscript d m k = v"
  by (simp add: subscript_def)

lemma subscript_None [simp]: "m k = None \<Longrightarrow> subscript d m k = d"
  by (simp add: subscript_def)

lemma subscript_upd: "subscript d (m(k \<mapsto> v)) k' = (if k' = k then v else subscript d m k')"
  by (simp add: subscript_def)

lemma subscript_touch [simp]: "subscript d (touch d k m) = subscript d m"
  by (auto simp: touch_def subscript_def fun_eq_iff split: option.splits)

lemma touch_known [simp]: "m k = Some v \<Longrightarrow> touch d k m = m"
  by (auto simp: touch_def)

lemma touch_other: "m k' = Some v \<Longrightarrow> touch d k m k' = Some v"
  by (auto simp: touch_def)

lemma dom_touch [simp]: "dom (touch d k m) = insert k (dom m)"
  by (auto simp: touch_def)

section \<open>std::string and std::list\<close>

text \<open>
  \<open>s.find(pat)\<close>: the position of the first occurrence, \<open>None\<close> for \<open>npos\<close>.
\<close>

fun str_find :: "'a list \<Rightarrow> 'a list \<Rightarrow> nat option" where
  "str_find [] pat = (if pat = [] then Some 0 else None)"
| "str_find (c # s) pat =
     (if prefix pat (c # s) then Some 0 else map_option Suc (str_find s pat))"

text \<open>
  \<open>s.erase(pos, n)\<close> and \<open>s.erase(pos)\<close>, \<open>s.replace(pos, n, t)\<close> and \<open>s.substr(pos, n)\<close>: each
  raises \<open>std::out_of_range\<close> (here \<open>None\<close>) for a position past the end and clips the count.
\<close>

definition str_erase :: "nat \<Rightarrow> nat \<Rightarrow> 'a list \<Rightarrow> 'a list option" where
  "str_erase pos n s = (if length s < pos then None else Some (take pos s @ drop (pos + n) s))"

definition str_erase_from :: "nat \<Rightarrow> 'a list \<Rightarrow> 'a list option" where
  "str_erase_from pos s = (if length s < pos then None else Some (take pos s))"

definition str_replace :: "nat \<Rightarrow> nat \<Rightarrow> 'a list \<Rightarrow> 'a list \<Rightarrow> 'a list option" where
  "str_replace pos n t s =
     (if length s < pos then None else Some (take pos s @ t @ drop (pos + n) s))"

definition str_substr :: "nat \<Rightarrow> nat \<Rightarrow> 'a list \<Rightarrow> 'a list option" where
  "str_substr pos n s = (if length s < pos then None else Some (take n (drop pos s)))"

text \<open>
  \<open>std::find\<close> over a vector: the suffix that starts at the first element equal to \<open>x\<close>; \<open>[]\<close> is
  the end iterator.
\<close>

fun iter_find :: "'a \<Rightarrow> 'a list \<Rightarrow> 'a list" where
  "iter_find x [] = []"
| "iter_find x (y # ys) = (if y = x then y # ys else iter_find x ys)"

lemmas str_op_defs [string_simps] =
  str_erase_def str_erase_from_def str_replace_def str_substr_def

lemma iter_find_append:
  "iter_find x (xs @ ys) = (if x \<in> set xs then iter_find x xs @ ys else iter_find x ys)"
  by (induction xs) auto

lemma iter_find_absent [simp]: "x \<notin> set xs \<Longrightarrow> iter_find x xs = []"
  by (induction xs) auto

lemma iter_find_Nil_iff: "iter_find x xs = [] \<longleftrightarrow> x \<notin> set xs"
  by (induction xs) auto

lemma str_find_None_iff: "str_find s pat = None \<longleftrightarrow> \<not> sublist pat s"
  by (induction s pat rule: str_find.induct) (auto simp: sublist_Cons_right)

lemma str_find_Nil_pat [simp]: "str_find s [] = Some 0"
  by (cases s) auto

lemma str_find_prefix: "prefix pat s \<Longrightarrow> str_find s pat = Some 0"
  by (cases s) auto

text \<open>
  The first occurrence of a pattern without the delimiter cannot straddle a delimiter: when the
  part before it does not contain the pattern, the search goes on behind it.
\<close>

lemma prefix_delim_free:
  assumes "prefix pat (c @ d # rest)" and "d \<notin> set pat"
  shows "prefix pat c"
proof (cases "length pat \<le> length c")
  case True
  with assms(1) show ?thesis
    by (metis append_eq_append_conv_if append_eq_conv_conj prefix_def take_is_prefix)
next
  case False
  from assms(1) obtain zs where zs: "c @ d # rest = pat @ zs"
    by (auto simp: prefix_def)
  have "(c @ d # rest) ! length c = d" by simp
  moreover from False zs have "(c @ d # rest) ! length c = pat ! length c"
    by (simp add: nth_append)
  ultimately show ?thesis
    using False assms(2) by (metis not_less nth_mem)
qed

lemma str_find_skip:
  assumes "d \<notin> set pat" and "pat \<noteq> []" and "\<not> sublist pat c"
  shows "str_find (c @ d # rest) pat
           = map_option (\<lambda>p. p + Suc (length c)) (str_find rest pat)"
  using assms(3)
proof (induction c)
  case Nil
  have "\<not> prefix pat (d # rest)"
    using assms(1,2) prefix_delim_free [of pat "[]" d rest] by auto
  then show ?case by (cases "str_find rest pat") auto
next
  case (Cons x c)
  then have "\<not> prefix pat (x # c)" and nc: "\<not> sublist pat c"
    by (auto simp: sublist_Cons_right)
  then have "\<not> prefix pat ((x # c) @ d # rest)"
    using assms(1) prefix_delim_free by metis
  then show ?case
    using Cons.IH [OF nc] by (cases "str_find rest pat") auto
qed

lemma sublist_delim:
  assumes "d \<notin> set pat" and "pat \<noteq> []"
  shows "sublist pat (c @ d # rest) \<longleftrightarrow> sublist pat c \<or> sublist pat rest"
proof (cases "sublist pat c")
  case True
  then have "sublist pat (c @ d # rest)"
    by (metis append.assoc sublist_def)
  with True show ?thesis by simp
next
  case False
  have "sublist pat (c @ d # rest) \<longleftrightarrow> str_find (c @ d # rest) pat \<noteq> None"
    by (simp add: str_find_None_iff)
  also have "\<dots> \<longleftrightarrow> str_find rest pat \<noteq> None"
    using str_find_skip [OF assms False] by simp
  finally show ?thesis using False by (simp add: str_find_None_iff)
qed

end
