(* ===== verification/Extent_Server.thy ===== *)
theory Extent_Server
  imports Prelude
begin

text \<open>
  The extent server (\<open>extent_protocol.h\<close>, \<open>extent_server.h\<close>, \<open>extent_server.cc\<close>,
  \<open>extent_smain.cc\<close>): the attribute and content store, the Unix-style permission check, the
  user-key table and the group table.  The handlers that take the server's mutex, and the ones
  that do not, are each one atomic step; \<open>time(NULL)\<close> and the indeterminate fields of an
  uninitialised \<open>attr\<close> are arguments.  \<open>extent_handle\<close> is the registration table of
  \<open>extent_smain.cc\<close>, \<open>extent_run\<close> a sequence of requests.
\<close>

section \<open>Protocol data\<close>

datatype extent_status = E_OK | E_RPCERR | E_NOENT | E_IOERR | E_NOACCESS

fun extent_status_code :: "extent_status \<Rightarrow> int" where
  "extent_status_code E_OK = 0"
| "extent_status_code E_RPCERR = 1"
| "extent_status_code E_NOENT = 2"
| "extent_status_code E_IOERR = 3"
| "extent_status_code E_NOACCESS = 4"

record attr =
  attr_atime :: uint
  attr_mtime :: uint
  attr_ctime :: uint
  attr_size :: uint
  attr_mode :: uint
  attr_uid :: uint
  attr_gid :: uint

section \<open>Server state\<close>

record extent_server =
  attrs :: "ull \<rightharpoonup> attr"
  contents :: "ull \<rightharpoonup> string"
  userkeys :: "uint \<rightharpoonup> string"
  groupusers :: "uint \<rightharpoonup> uint set"

definition root_inum :: ull where
  "root_inum = 1"

text \<open>The constructor: \<open>cur\<close> is \<open>time(NULL)\<close>, \<open>uid\<close> and \<open>gid\<close> those of the server process.\<close>

definition extent_server_init :: "uint \<Rightarrow> uint \<Rightarrow> uint \<Rightarrow> extent_server" where
  "extent_server_init cur uid gid =
     \<lparr>attrs = [root_inum \<mapsto> \<lparr>attr_atime = cur, attr_mtime = cur, attr_ctime = cur,
        attr_size = 0, attr_mode = 511, attr_uid = uid, attr_gid = gid\<rparr>],
      contents = [root_inum \<mapsto> []], userkeys = Map.empty, groupusers = Map.empty\<rparr>"

section \<open>Authentication, groups and permissions\<close>

definition authenticate :: "uint \<Rightarrow> string \<Rightarrow> extent_server \<Rightarrow> bool \<times> extent_server" where
  "authenticate userid userkey s =
     (subscript [] (userkeys s) userid = userkey,
      s\<lparr>userkeys := touch [] userid (userkeys s)\<rparr>)"

definition isadmin :: "uint \<Rightarrow> extent_server \<Rightarrow> bool \<times> extent_server" where
  "isadmin userid s = (True, s)"

definition ingroup :: "uint \<Rightarrow> uint \<Rightarrow> extent_server \<Rightarrow> bool \<times> extent_server" where
  "ingroup userid groupid s =
     (userid \<in> subscript {} (groupusers s) groupid,
      s\<lparr>groupusers := touch {} groupid (groupusers s)\<rparr>)"

text \<open>
  The three permission predicates have one body and differ in the mode bits they test, for
  others, the owner and the group, in the order the code tests them.
\<close>

definition has_perm ::
  "uint \<Rightarrow> uint \<Rightarrow> uint \<Rightarrow> ull \<Rightarrow> uint \<Rightarrow> string \<Rightarrow> extent_server \<Rightarrow> bool \<times> extent_server" where
  "has_perm other owner grp ident userid userkey s =
     (let (authentic, s1) = authenticate userid userkey s in
      if \<not> authentic then (False, s1)
      else case attrs s1 ident of
        None \<Rightarrow> (True, s1)
      | Some a \<Rightarrow>
          if attr_mode a AND other \<noteq> 0 then (True, s1)
          else if attr_uid a = userid \<and> attr_mode a AND owner \<noteq> 0 then (True, s1)
          else let (mem, s2) = ingroup userid (attr_gid a) s1
               in (mem \<and> attr_mode a AND grp \<noteq> 0, s2))"

definition has_read_perm :: "ull \<Rightarrow> uint \<Rightarrow> string \<Rightarrow> extent_server \<Rightarrow> bool \<times> extent_server" where
  "has_read_perm = has_perm 4 256 32"

definition has_write_perm :: "ull \<Rightarrow> uint \<Rightarrow> string \<Rightarrow> extent_server \<Rightarrow> bool \<times> extent_server" where
  "has_write_perm = has_perm 2 128 16"

definition has_execute_perm :: "ull \<Rightarrow> uint \<Rightarrow> string \<Rightarrow> extent_server \<Rightarrow> bool \<times> extent_server" where
  "has_execute_perm = has_perm 1 64 8"

section \<open>The extent handlers\<close>

text \<open>\<open>junk\<close> stands for the indeterminate fields of the local \<open>attr a\<close>.\<close>

definition extent_server_put ::
  "uint \<Rightarrow> attr \<Rightarrow> ull \<Rightarrow> string \<Rightarrow> uint \<Rightarrow> string \<Rightarrow> extent_server \<Rightarrow> extent_status \<times> extent_server" where
  "extent_server_put cur junk ident buf userid userkey s =
     (let a0 = (case attrs s ident of
                  None \<Rightarrow> junk\<lparr>attr_atime := cur, attr_mode := 511\<rparr>
                | Some a \<Rightarrow> a);
          a = a0\<lparr>attr_ctime := cur, attr_mtime := cur, attr_size := of_nat (length buf)\<rparr>;
          (permitted, s1) = has_write_perm ident userid userkey s
      in if \<not> permitted then (E_NOACCESS, s1)
         else (E_OK, s1\<lparr>attrs := (attrs s1)(ident \<mapsto> a),
                        contents := (contents s1)(ident \<mapsto> buf)\<rparr>))"

text \<open>\<open>buf\<close> is the caller's string, unchanged unless the call succeeds.\<close>

definition extent_server_get ::
  "uint \<Rightarrow> attr \<Rightarrow> ull \<Rightarrow> uint \<Rightarrow> string \<Rightarrow> string \<Rightarrow> extent_server
     \<Rightarrow> extent_status \<times> string \<times> extent_server" where
  "extent_server_get cur junk ident userid userkey buf s =
     (let (permitted, s1) = has_read_perm ident userid userkey s in
      if \<not> permitted then (E_NOACCESS, buf, s1)
      else case contents s1 ident of
        None \<Rightarrow> (E_NOENT, buf, s1)
      | Some c \<Rightarrow>
          (E_OK, c, s1\<lparr>attrs := (attrs s1)
             (ident \<mapsto> (subscript junk (attrs s1) ident)\<lparr>attr_atime := cur\<rparr>)\<rparr>))"

definition extent_server_getattr ::
  "attr \<Rightarrow> ull \<Rightarrow> uint \<Rightarrow> string \<Rightarrow> extent_server \<Rightarrow> extent_status \<times> attr \<times> extent_server" where
  "extent_server_getattr junk ident userid userkey s =
     (case contents s ident of
        None \<Rightarrow> (E_NOENT, \<lparr>attr_atime = 0, attr_mtime = 0, attr_ctime = 0, attr_size = 0,
                           attr_mode = 511, attr_uid = 0, attr_gid = 0\<rparr>, s)
      | Some c \<Rightarrow> (E_OK, subscript junk (attrs s) ident,
                   s\<lparr>attrs := touch junk ident (attrs s)\<rparr>))"

definition extent_server_setattr ::
  "attr \<Rightarrow> ull \<Rightarrow> attr \<Rightarrow> uint \<Rightarrow> string \<Rightarrow> extent_server \<Rightarrow> extent_status \<times> extent_server" where
  "extent_server_setattr junk ident a userid userkey s =
     (let (permitted, s1) = has_write_perm ident userid userkey s in
      if \<not> permitted then (E_NOACCESS, s1)
      else case contents s1 ident of
        None \<Rightarrow> (E_NOENT, s1)
      | Some c \<Rightarrow>
          (E_OK, s1\<lparr>attrs := (attrs s1)
             (ident \<mapsto> (subscript junk (attrs s1) ident)
               \<lparr>attr_mode := attr_mode a, attr_uid := attr_uid a, attr_gid := attr_gid a\<rparr>)\<rparr>))"

definition extent_server_remove ::
  "ull \<Rightarrow> uint \<Rightarrow> string \<Rightarrow> extent_server \<Rightarrow> extent_status \<times> extent_server" where
  "extent_server_remove ident userid userkey s =
     (let (permitted, s1) = has_write_perm ident userid userkey s in
      if \<not> permitted then (E_NOACCESS, s1)
      else case contents s1 ident of
        None \<Rightarrow> (E_NOENT, s1)
      | Some c \<Rightarrow> (E_OK, s1\<lparr>attrs := (attrs s1)(ident := None),
                            contents := (contents s1)(ident := None)\<rparr>))"

section \<open>The user and group handlers\<close>

definition extent_server_reg ::
  "uint \<Rightarrow> string \<Rightarrow> extent_server \<Rightarrow> extent_status \<times> extent_server" where
  "extent_server_reg userid userkey s =
     (if userkeys s userid = None
      then (E_OK, s\<lparr>userkeys := (userkeys s)(userid \<mapsto> userkey)\<rparr>)
      else let (authentic, s1) = authenticate userid userkey s
           in (if \<not> authentic then E_NOACCESS else E_OK, s1))"

text \<open>\<open>!isadmin(admin) || !authenticate(admin, adminkey)\<close>, negated, with its short circuit.\<close>

definition admin_check :: "uint \<Rightarrow> string \<Rightarrow> extent_server \<Rightarrow> bool \<times> extent_server" where
  "admin_check admin adminkey s =
     (let (adm, s1) = isadmin admin s in
      if \<not> adm then (False, s1) else authenticate admin adminkey s1)"

definition extent_server_groupadd ::
  "uint \<Rightarrow> uint \<Rightarrow> string \<Rightarrow> extent_server \<Rightarrow> extent_status \<times> extent_server" where
  "extent_server_groupadd gid admin adminkey s =
     (let (granted, s1) = admin_check admin adminkey s in
      if \<not> granted then (E_NOACCESS, s1)
      else (E_OK, s1\<lparr>groupusers := touch {} gid (groupusers s1)\<rparr>))"

definition extent_server_groupdel ::
  "uint \<Rightarrow> uint \<Rightarrow> string \<Rightarrow> extent_server \<Rightarrow> extent_status \<times> extent_server" where
  "extent_server_groupdel gid admin adminkey s =
     (let (granted, s1) = admin_check admin adminkey s in
      if \<not> granted then (E_NOACCESS, s1)
      else if groupusers s1 gid = None then (E_NOENT, s1)
      else (E_OK, s1\<lparr>groupusers := (groupusers s1)(gid := None)\<rparr>))"

definition extent_server_useradd ::
  "uint \<Rightarrow> uint \<Rightarrow> uint \<Rightarrow> string \<Rightarrow> extent_server \<Rightarrow> extent_status \<times> extent_server" where
  "extent_server_useradd userid gid admin adminkey s =
     (let (granted, s1) = admin_check admin adminkey s in
      if \<not> granted then (E_NOACCESS, s1)
      else (E_OK, s1\<lparr>groupusers := (groupusers s1)
                       (gid \<mapsto> insert userid (subscript {} (groupusers s1) gid))\<rparr>))"

definition extent_server_userdel ::
  "uint \<Rightarrow> uint \<Rightarrow> uint \<Rightarrow> string \<Rightarrow> extent_server \<Rightarrow> extent_status \<times> extent_server" where
  "extent_server_userdel userid gid admin adminkey s =
     (let (granted, s1) = admin_check admin adminkey s in
      if \<not> granted then (E_OK, s1)
      else case groupusers s1 gid of
        None \<Rightarrow> (E_NOENT, s1)
      | Some users \<Rightarrow>
          if userid \<notin> users then (E_NOENT, s1)
          else (E_OK, s1\<lparr>groupusers := (groupusers s1)(gid \<mapsto> users - {userid})\<rparr>))"

section \<open>The registration table\<close>

datatype ext_req =
    ReqPut ull string uint string
  | ReqGet ull uint string
  | ReqGetattr ull uint string
  | ReqSetattr ull attr uint string
  | ReqRemove ull uint string
  | ReqReg uint string
  | ReqGroupadd uint uint string
  | ReqGroupdel uint uint string
  | ReqUseradd uint uint uint string
  | ReqUserdel uint uint uint string

datatype ext_reply = RepInt | RepString string | RepAttr attr

text \<open>
  The handler each procedure number of \<open>extent_protocol.h\<close> is registered with.  \<open>cur\<close> and
  \<open>junk\<close> are the clock and the indeterminate memory at the time of the request.
\<close>

fun extent_handle ::
  "uint \<Rightarrow> attr \<Rightarrow> ext_req \<Rightarrow> extent_server \<Rightarrow> extent_status \<times> ext_reply \<times> extent_server" where
  "extent_handle cur junk (ReqPut i buf u k) s =
     (let (st, s1) = extent_server_put cur junk i buf u k s in (st, RepInt, s1))"
| "extent_handle cur junk (ReqGet i u k) s =
     (let (st, buf, s1) = extent_server_get cur junk i u k [] s in (st, RepString buf, s1))"
| "extent_handle cur junk (ReqGetattr i u k) s =
     (let (st, a, s1) = extent_server_getattr junk i u k s in (st, RepAttr a, s1))"
| "extent_handle cur junk (ReqSetattr i a u k) s =
     (let (st, s1) = extent_server_setattr junk i a u k s in (st, RepInt, s1))"
| "extent_handle cur junk (ReqRemove i u k) s =
     (let (st, s1) = extent_server_remove i u k s in (st, RepInt, s1))"
| "extent_handle cur junk (ReqReg u k) s =
     (let (st, s1) = extent_server_reg u k s in (st, RepInt, s1))"
| "extent_handle cur junk (ReqGroupadd g a k) s =
     (let (st, s1) = extent_server_groupadd g a k s in (st, RepInt, s1))"
| "extent_handle cur junk (ReqGroupdel g a k) s =
     (let (st, s1) = extent_server_groupdel g a k s in (st, RepInt, s1))"
| "extent_handle cur junk (ReqUseradd u g a k) s =
     (let (st, s1) = extent_server_useradd u g a k s in (st, RepInt, s1))"
| "extent_handle cur junk (ReqUserdel u g a k) s =
     (let (st, s1) = extent_server_userdel u g a k s in (st, RepInt, s1))"

fun extent_run :: "(uint \<times> attr \<times> ext_req) list \<Rightarrow> extent_server \<Rightarrow> extent_server" where
  "extent_run [] s = s"
| "extent_run ((cur, junk, q) # qs) s = extent_run qs (snd (snd (extent_handle cur junk q s)))"

text \<open>
  \<open>reg\<close> takes no mutex, so between its test of the key table and what it does next the other
  workers of the pool run.  \<open>reg_test\<close> is the test, \<open>reg_finish\<close> the store or the comparison
  behind it, and a worker in between is one \<open>reg_pc\<close>.
\<close>

datatype reg_pc = RegStore uint string | RegAuth uint string

definition reg_test :: "uint \<Rightarrow> string \<Rightarrow> extent_server \<Rightarrow> reg_pc" where
  "reg_test userid userkey s =
     (if userkeys s userid = None then RegStore userid userkey else RegAuth userid userkey)"

fun reg_finish :: "reg_pc \<Rightarrow> extent_server \<Rightarrow> extent_status \<times> extent_server" where
  "reg_finish (RegStore userid userkey) s =
     (E_OK, s\<lparr>userkeys := (userkeys s)(userid \<mapsto> userkey)\<rparr>)"
| "reg_finish (RegAuth userid userkey) s =
     (let (authentic, s1) = authenticate userid userkey s
      in (if \<not> authentic then E_NOACCESS else E_OK, s1))"

fun reg_user :: "reg_pc \<Rightarrow> uint" where
  "reg_user (RegStore u k) = u"
| "reg_user (RegAuth u k) = u"

fun reg_key :: "reg_pc \<Rightarrow> string" where
  "reg_key (RegStore u k) = k"
| "reg_key (RegAuth u k) = k"

text \<open>
  A run of the server whose registrations interleave with each other and with all other
  requests: the state, the registrations in flight, and the results returned so far, newest
  first.
\<close>

type_synonym reg_state = "extent_server \<times> reg_pc list \<times> (uint \<times> string \<times> extent_status) list"

inductive reg_step :: "reg_state \<Rightarrow> reg_state \<Rightarrow> bool" where
  reg_enter: "reg_step (s, P, R) (s, reg_test u k s # P, R)"
| reg_leave: "reg_finish p s = (r, s') \<Longrightarrow>
    reg_step (s, P @ p # Q, R) (s', P @ Q, (reg_user p, reg_key p, r) # R)"
| other_request: "(\<And>u k. q \<noteq> ReqReg u k) \<Longrightarrow>
    reg_step (s, P, R) (snd (snd (extent_handle cur junk q s)), P, R)"

section \<open>What the permission check decides\<close>

definition key_matches :: "extent_server \<Rightarrow> uint \<Rightarrow> string \<Rightarrow> bool" where
  "key_matches s u k \<longleftrightarrow> subscript [] (userkeys s) u = k"

definition in_group :: "extent_server \<Rightarrow> uint \<Rightarrow> uint \<Rightarrow> bool" where
  "in_group s u g \<longleftrightarrow> u \<in> subscript {} (groupusers s) g"

definition mode_grants :: "uint \<Rightarrow> uint \<Rightarrow> uint \<Rightarrow> extent_server \<Rightarrow> attr \<Rightarrow> uint \<Rightarrow> bool" where
  "mode_grants other owner grp s a u \<longleftrightarrow>
     attr_mode a AND other \<noteq> 0 \<or>
     (attr_uid a = u \<and> attr_mode a AND owner \<noteq> 0) \<or>
     (in_group s u (attr_gid a) \<and> attr_mode a AND grp \<noteq> 0)"

definition may_access ::
  "uint \<Rightarrow> uint \<Rightarrow> uint \<Rightarrow> extent_server \<Rightarrow> ull \<Rightarrow> uint \<Rightarrow> string \<Rightarrow> bool" where
  "may_access other owner grp s i u k \<longleftrightarrow>
     key_matches s u k \<and> (\<forall>a. attrs s i = Some a \<longrightarrow> mode_grants other owner grp s a u)"

definition may_read :: "extent_server \<Rightarrow> ull \<Rightarrow> uint \<Rightarrow> string \<Rightarrow> bool" where
  "may_read = may_access 4 256 32"

definition may_write :: "extent_server \<Rightarrow> ull \<Rightarrow> uint \<Rightarrow> string \<Rightarrow> bool" where
  "may_write = may_access 2 128 16"

text \<open>
  Two states no handler but \<open>reg\<close>, \<open>groupdel\<close> and \<open>userdel\<close> can tell apart: they differ only in
  default entries a subscript has inserted in the key and group tables.
\<close>

definition same_view :: "extent_server \<Rightarrow> extent_server \<Rightarrow> bool" where
  "same_view s t \<longleftrightarrow> attrs t = attrs s \<and> contents t = contents s \<and>
     subscript [] (userkeys t) = subscript [] (userkeys s) \<and>
     subscript {} (groupusers t) = subscript {} (groupusers s)"

lemma same_view_refl [simp]: "same_view s s"
  by (simp add: same_view_def)

lemma same_view_may:
  assumes "same_view s t"
  shows "may_read t = may_read s" "may_write t = may_write s" "key_matches t = key_matches s"
    "in_group t = in_group s" "mode_grants ot ow gr t = mode_grants ot ow gr s"
  using assms
  by (simp_all add: same_view_def may_read_def may_write_def may_access_def key_matches_def
      mode_grants_def in_group_def fun_eq_iff)

lemma authenticate_eq:
  "authenticate u k s = (key_matches s u k, s\<lparr>userkeys := touch [] u (userkeys s)\<rparr>)"
  by (simp add: authenticate_def key_matches_def)

lemma admin_check_eq: "admin_check = authenticate"
  by (simp add: admin_check_def isadmin_def fun_eq_iff)

text \<open>
  The check's verdict and its side effects, for all three kinds of access at once: a single
  lemma per fact, instantiated by the three predicates.
\<close>

lemma has_perm_verdict: "fst (has_perm ot ow gr i u k s) = may_access ot ow gr s i u k"
  by (auto simp: has_perm_def authenticate_eq ingroup_def may_access_def mode_grants_def
      in_group_def Let_def split: option.splits)

lemma has_perm_view: "same_view s (snd (has_perm ot ow gr i u k s))"
  by (auto simp: has_perm_def authenticate_eq ingroup_def same_view_def Let_def
      split: option.splits)

lemma has_perm_userkeys:
  "userkeys (snd (has_perm ot ow gr i u k s)) = touch [] u (userkeys s)"
  by (auto simp: has_perm_def authenticate_eq ingroup_def Let_def split: option.splits)

text \<open>The state a permission check leaves behind, and what it keeps.\<close>

definition after_read_check :: "ull \<Rightarrow> uint \<Rightarrow> string \<Rightarrow> extent_server \<Rightarrow> extent_server" where
  "after_read_check i u k s = snd (has_read_perm i u k s)"

definition after_write_check :: "ull \<Rightarrow> uint \<Rightarrow> string \<Rightarrow> extent_server \<Rightarrow> extent_server" where
  "after_write_check i u k s = snd (has_write_perm i u k s)"

lemma after_check_view:
  "same_view s (after_read_check i u k s)" "same_view s (after_write_check i u k s)"
  by (simp_all add: after_read_check_def after_write_check_def has_read_perm_def
      has_write_perm_def has_perm_view)

lemma after_check_frame [frame_simps, simp]:
  "attrs (after_read_check i u k s) = attrs s"
  "contents (after_read_check i u k s) = contents s"
  "userkeys (after_read_check i u k s) = touch [] u (userkeys s)"
  "subscript {} (groupusers (after_read_check i u k s)) = subscript {} (groupusers s)"
  "attrs (after_write_check i u k s) = attrs s"
  "contents (after_write_check i u k s) = contents s"
  "userkeys (after_write_check i u k s) = touch [] u (userkeys s)"
  "subscript {} (groupusers (after_write_check i u k s)) = subscript {} (groupusers s)"
  using after_check_view [of s i u k]
  by (simp_all add: same_view_def after_read_check_def after_write_check_def
      has_read_perm_def has_write_perm_def has_perm_userkeys)

lemma read_check_eq: "has_read_perm i u k s = (may_read s i u k, after_read_check i u k s)"
  by (simp add: prod_eq_iff after_read_check_def has_read_perm_def may_read_def has_perm_verdict)

lemma write_check_eq: "has_write_perm i u k s = (may_write s i u k, after_write_check i u k s)"
  by (simp add: prod_eq_iff after_write_check_def has_write_perm_def may_write_def
      has_perm_verdict)

section \<open>The handlers, branch by branch\<close>

text \<open>The attributes \<open>put\<close> stores, from those recorded before (if any).\<close>

definition put_attr :: "uint \<Rightarrow> attr \<Rightarrow> string \<Rightarrow> attr option \<Rightarrow> attr" where
  "put_attr cur junk buf old =
     (case old of None \<Rightarrow> junk\<lparr>attr_atime := cur, attr_mode := 511\<rparr> | Some a \<Rightarrow> a)
       \<lparr>attr_ctime := cur, attr_mtime := cur, attr_size := of_nat (length buf)\<rparr>"

lemma put_eq:
  "extent_server_put cur junk i buf u k s =
     (if may_write s i u k
      then (E_OK, (after_write_check i u k s)
              \<lparr>attrs := (attrs s)(i \<mapsto> put_attr cur junk buf (attrs s i)),
               contents := (contents s)(i \<mapsto> buf)\<rparr>)
      else (E_NOACCESS, after_write_check i u k s))"
  by (simp add: extent_server_put_def write_check_eq put_attr_def Let_def)

lemma get_eq:
  "extent_server_get cur junk i u k buf s =
     (if \<not> may_read s i u k then (E_NOACCESS, buf, after_read_check i u k s)
      else case contents s i of
        None \<Rightarrow> (E_NOENT, buf, after_read_check i u k s)
      | Some c \<Rightarrow> (E_OK, c, (after_read_check i u k s)\<lparr>attrs := (attrs s)
            (i \<mapsto> (subscript junk (attrs s) i)\<lparr>attr_atime := cur\<rparr>)\<rparr>))"
  by (simp add: extent_server_get_def read_check_eq Let_def split: option.split)

lemma setattr_eq:
  "extent_server_setattr junk i a u k s =
     (if \<not> may_write s i u k then (E_NOACCESS, after_write_check i u k s)
      else case contents s i of
        None \<Rightarrow> (E_NOENT, after_write_check i u k s)
      | Some c \<Rightarrow> (E_OK, (after_write_check i u k s)\<lparr>attrs := (attrs s)
            (i \<mapsto> (subscript junk (attrs s) i)
               \<lparr>attr_mode := attr_mode a, attr_uid := attr_uid a, attr_gid := attr_gid a\<rparr>)\<rparr>))"
  by (simp add: extent_server_setattr_def write_check_eq Let_def split: option.split)

lemma remove_eq:
  "extent_server_remove i u k s =
     (if \<not> may_write s i u k then (E_NOACCESS, after_write_check i u k s)
      else case contents s i of
        None \<Rightarrow> (E_NOENT, after_write_check i u k s)
      | Some c \<Rightarrow> (E_OK, (after_write_check i u k s)
            \<lparr>attrs := (attrs s)(i := None), contents := (contents s)(i := None)\<rparr>))"
  by (simp add: extent_server_remove_def write_check_eq Let_def split: option.split)

lemmas store_eqs = put_eq get_eq setattr_eq remove_eq extent_server_getattr_def

text \<open>The user and group handlers leave the extents alone.\<close>

lemmas group_handler_defs =
  extent_server_groupadd_def extent_server_groupdel_def extent_server_useradd_def
  extent_server_userdel_def admin_check_eq authenticate_eq Let_def

lemma reg_frame [frame_simps]:
  "attrs (snd (extent_server_reg u k s)) = attrs s"
  "contents (snd (extent_server_reg u k s)) = contents s"
  by (simp_all add: extent_server_reg_def authenticate_eq Let_def)

lemma group_frame [frame_simps]:
  "attrs (snd (extent_server_groupadd g a k s)) = attrs s"
  "contents (snd (extent_server_groupadd g a k s)) = contents s"
  "attrs (snd (extent_server_groupdel g a k s)) = attrs s"
  "contents (snd (extent_server_groupdel g a k s)) = contents s"
  "attrs (snd (extent_server_useradd u g a k s)) = attrs s"
  "contents (snd (extent_server_useradd u g a k s)) = contents s"
  "attrs (snd (extent_server_userdel u g a k s)) = attrs s"
  "contents (snd (extent_server_userdel u g a k s)) = contents s"
  by (simp_all add: group_handler_defs split: option.splits)

lemma group_userkeys [frame_simps]:
  "userkeys (snd (extent_server_groupadd g a k s)) = touch [] a (userkeys s)"
  "userkeys (snd (extent_server_groupdel g a k s)) = touch [] a (userkeys s)"
  "userkeys (snd (extent_server_useradd u g a k s)) = touch [] a (userkeys s)"
  "userkeys (snd (extent_server_userdel u g a k s)) = touch [] a (userkeys s)"
  by (simp_all add: group_handler_defs split: option.splits)

section \<open>Consistency of the store\<close>

text \<open>
  Attributes and contents are kept for the same extents, and the recorded size is the content's
  length (as an \<open>unsigned int\<close>).  In a consistent store no handler ever reads indeterminate
  attributes through a subscript.
\<close>

definition store_consistent :: "extent_server \<Rightarrow> bool" where
  "store_consistent s \<longleftrightarrow>
     dom (attrs s) = dom (contents s) \<and>
     (\<forall>i a c. attrs s i = Some a \<longrightarrow> contents s i = Some c \<longrightarrow>
        attr_size a = of_nat (length c))"

lemma store_consistent_init: "store_consistent (extent_server_init cur uid gid)"
  by (auto simp: store_consistent_def extent_server_init_def split: if_splits)

lemma consistent_attr:
  assumes "store_consistent s" and "contents s i = Some c"
  obtains a where "attrs s i = Some a" and "attr_size a = of_nat (length c)"
  using assms unfolding store_consistent_def by blast

lemma store_consistent_upd [inv_intros]:
  assumes "store_consistent s" and "attr_size a = of_nat (length c)"
    and "attrs t = (attrs s)(i \<mapsto> a)" and "contents t = (contents s)(i \<mapsto> c)"
  shows "store_consistent t"
  using assms unfolding store_consistent_def by (auto split: if_splits)

lemma store_consistent_attr_upd [inv_intros]:
  assumes "store_consistent s" and "contents s i = Some c"
    and "attr_size a = attr_size (subscript junk (attrs s) i)"
    and "attrs t = (attrs s)(i \<mapsto> a)" and "contents t = contents s"
  shows "store_consistent t"
proof -
  obtain b where b: "attrs s i = Some b" "attr_size b = of_nat (length c)"
    using assms(1,2) by (rule consistent_attr)
  with assms(2-5) have "attr_size a = of_nat (length c)"
    "contents t = (contents s)(i \<mapsto> c)"
    by (auto simp: fun_upd_idem)
  with assms(1,4) show ?thesis by (blast intro: store_consistent_upd)
qed

lemma store_consistent_frame [inv_intros]:
  assumes "store_consistent s" and "attrs t = attrs s" and "contents t = contents s"
  shows "store_consistent t"
  using assms by (simp add: store_consistent_def)

lemma store_consistent_del [inv_intros]:
  assumes "store_consistent s" and "attrs t = (attrs s)(i := None)"
    and "contents t = (contents s)(i := None)"
  shows "store_consistent t"
  using assms unfolding store_consistent_def by (auto split: if_splits)

lemma put_consistent [inv_intros]:
  assumes "store_consistent s"
  shows "store_consistent (snd (extent_server_put cur junk i buf u k s))"
proof (cases "may_write s i u k")
  case True
  show ?thesis
    by (rule store_consistent_upd [OF assms, of "put_attr cur junk buf (attrs s i)" buf])
      (simp_all add: put_eq put_attr_def True)
next
  case False
  show ?thesis
    by (rule store_consistent_frame [OF assms]) (simp_all add: put_eq False)
qed

lemma get_consistent [inv_intros]:
  assumes "store_consistent s"
  shows "store_consistent (snd (snd (extent_server_get cur junk i u k buf s)))"
proof (cases "may_read s i u k \<and> contents s i \<noteq> None")
  case True
  then obtain c where "may_read s i u k" and c: "contents s i = Some c" by auto
  then show ?thesis
    by (intro store_consistent_attr_upd [OF assms c, of
          "(subscript junk (attrs s) i)\<lparr>attr_atime := cur\<rparr>" junk]) (simp_all add: get_eq)
next
  case False
  then show ?thesis
    by (intro store_consistent_frame [OF assms]) (auto simp: get_eq)
qed

lemma getattr_consistent [inv_intros]:
  assumes "store_consistent s"
  shows "store_consistent (snd (snd (extent_server_getattr junk i u k s)))"
proof (cases "contents s i")
  case None
  with assms show ?thesis by (simp add: extent_server_getattr_def)
next
  case (Some c)
  show ?thesis
    by (rule store_consistent_attr_upd [OF assms Some, of "subscript junk (attrs s) i" junk])
      (simp_all add: extent_server_getattr_def Some touch_def)
qed

lemma setattr_consistent [inv_intros]:
  assumes "store_consistent s"
  shows "store_consistent (snd (extent_server_setattr junk i a u k s))"
proof (cases "may_write s i u k \<and> contents s i \<noteq> None")
  case True
  then obtain c where "may_write s i u k" and c: "contents s i = Some c" by auto
  then show ?thesis
    by (intro store_consistent_attr_upd [OF assms c, of "(subscript junk (attrs s) i)
          \<lparr>attr_mode := attr_mode a, attr_uid := attr_uid a, attr_gid := attr_gid a\<rparr>" junk])
      (simp_all add: setattr_eq)
next
  case False
  then show ?thesis
    by (intro store_consistent_frame [OF assms]) (auto simp: setattr_eq)
qed

lemma remove_consistent [inv_intros]:
  assumes "store_consistent s"
  shows "store_consistent (snd (extent_server_remove i u k s))"
proof (cases "may_write s i u k \<and> contents s i \<noteq> None")
  case True
  then show ?thesis
    by (intro store_consistent_del [OF assms, of _ i]) (auto simp: remove_eq)
next
  case False
  then show ?thesis
    by (intro store_consistent_frame [OF assms]) (auto simp: remove_eq)
qed

lemma extent_handle_consistent [inv_intros]:
  assumes "store_consistent s"
  shows "store_consistent (snd (snd (extent_handle cur junk q s)))"
proof -
  have frame: "store_consistent (snd (f s))"
    if "attrs (snd (f s)) = attrs s" "contents (snd (f s)) = contents s"
    for f :: "extent_server \<Rightarrow> extent_status \<times> extent_server"
    using assms that by (rule store_consistent_frame)
  show ?thesis
    using assms
    by (cases q) (simp_all add: case_prod_beta frame frame_simps put_consistent get_consistent
        getattr_consistent setattr_consistent remove_consistent)
qed

text \<open>
  C1: in every state the extent server can reach from its constructor, attributes and contents
  are kept for the same extents and every recorded size is the length of the content modulo
  \<open>2^32\<close>, whatever sequence of requests it serves.
\<close>

theorem extent_run_consistent:
  "store_consistent (extent_run qs (extent_server_init cur uid gid))"
proof -
  have "store_consistent s \<Longrightarrow> store_consistent (extent_run qs s)" for s
    by (induction qs s rule: extent_run.induct) (auto intro: extent_handle_consistent)
  then show ?thesis by (simp add: store_consistent_init)
qed

section \<open>The store as its clients see it\<close>

text \<open>
  What a client of an extent store relies on.  \<open>fetch\<close> reports the content without changing it or
  anybody's rights; \<open>store\<close> replaces the content of one extent and keeps the rights; \<open>erase\<close> drops
  it; each reports a missing right or a missing extent, and then changes nothing.
\<close>

locale extent_store =
  fixes ok :: "'s \<Rightarrow> bool"
    and content :: "'s \<Rightarrow> 'i \<Rightarrow> 'c option"
    and readable writable :: "'s \<Rightarrow> 'i \<Rightarrow> bool"
    and st_ok st_noent st_noaccess :: 'st
    and fetch :: "'i \<Rightarrow> 's \<Rightarrow> 'st \<times> 'c \<times> 's"
    and store :: "'i \<Rightarrow> 'c \<Rightarrow> 's \<Rightarrow> 'st \<times> 's"
    and erase :: "'i \<Rightarrow> 's \<Rightarrow> 'st \<times> 's"
  assumes fetch_keeps: "ok s \<Longrightarrow> fetch i s = (r, c, s') \<Longrightarrow>
      ok s' \<and> content s' = content s \<and> readable s' = readable s \<and> writable s' = writable s"
    and fetch_status: "ok s \<Longrightarrow> fetch i s = (r, c, s') \<Longrightarrow>
      r = (if \<not> readable s i then st_noaccess else if content s i = None then st_noent else st_ok)"
    and fetch_value: "ok s \<Longrightarrow> fetch i s = (st_ok, c, s') \<Longrightarrow> content s i = Some c"
    and store_keeps: "ok s \<Longrightarrow> store i c s = (r, s') \<Longrightarrow>
      ok s' \<and> readable s' = readable s \<and> writable s' = writable s"
    and store_status: "ok s \<Longrightarrow> store i c s = (r, s') \<Longrightarrow>
      r = (if writable s i then st_ok else st_noaccess)"
    and store_content: "ok s \<Longrightarrow> store i c s = (r, s') \<Longrightarrow>
      content s' = (if writable s i then (content s)(i \<mapsto> c) else content s)"
    and erase_ok: "ok s \<Longrightarrow> erase i s = (r, s') \<Longrightarrow> ok s'"
    and erase_status: "ok s \<Longrightarrow> erase i s = (r, s') \<Longrightarrow>
      r = (if \<not> writable s i then st_noaccess else if content s i = None then st_noent else st_ok)"
    and erase_content: "ok s \<Longrightarrow> erase i s = (r, s') \<Longrightarrow>
      content s' = (if writable s i then (content s)(i := None) else content s)"
    and st_distinct: "st_ok \<noteq> st_noent" "st_ok \<noteq> st_noaccess" "st_noent \<noteq> st_noaccess"
begin

text \<open>What was stored is fetched.\<close>

lemma fetch_after_store:
  assumes "ok s" and "readable s i" and "store i c s = (st_ok, s1)" and "fetch i s1 = (r, c', s2)"
  shows "r = st_ok \<and> c' = c"
proof -
  have w: "writable s i"
    using store_status [OF assms(1,3)] st_distinct by (auto split: if_splits)
  have s1: "ok s1" "readable s1 i" "content s1 i = Some c"
    using store_keeps [OF assms(1,3)] store_content [OF assms(1,3)] assms(2) w by auto
  then have "r = st_ok" using fetch_status [OF s1(1) assms(4)] by simp
  with fetch_value [OF s1(1)] assms(4) s1(3) show ?thesis by auto
qed

text \<open>A client that fetches an extent and stores a function of its content updates that extent.\<close>

lemma read_modify_write:
  assumes "ok s" and "readable s i" and "writable s i" and "content s i = Some c"
    and "fetch i s = (r, c', s1)" and "store i (f c') s1 = (r', s2)"
  shows "r = st_ok" "c' = c" "r' = st_ok" "content s2 = (content s)(i \<mapsto> f c)" "ok s2"
    "readable s2 = readable s" "writable s2 = writable s"
proof -
  note k = fetch_keeps [OF assms(1,5)]
  show r: "r = st_ok"
    using fetch_status [OF assms(1,5)] assms(2,4) by simp
  show c: "c' = c"
    using fetch_value [OF assms(1)] assms(4,5) r by auto
  from k have s1: "ok s1" by simp
  note k2 = store_keeps [OF s1 assms(6)]
  show "r' = st_ok" using store_status [OF s1 assms(6)] k assms(3) by simp
  show "content s2 = (content s)(i \<mapsto> f c)"
    using store_content [OF s1 assms(6)] k assms(3) c by simp
  show "ok s2" "readable s2 = readable s" "writable s2 = writable s"
    using k k2 by auto
qed

text \<open>A denied request changes no content.\<close>

lemma store_denied: "ok s \<Longrightarrow> store i c s = (st_noaccess, s') \<Longrightarrow> content s' = content s"
  using store_status store_content st_distinct by (metis (full_types))

end

text \<open>
  Rights depend on the key and group tables, up to default entries, and on the owner, group and
  mode of each extent.
\<close>

definition rights_of :: "attr \<Rightarrow> uint \<times> uint \<times> uint" where
  "rights_of a = (attr_mode a, attr_uid a, attr_gid a)"

lemma may_access_cong:
  assumes "subscript [] (userkeys t) = subscript [] (userkeys s)"
    and "subscript {} (groupusers t) = subscript {} (groupusers s)"
    and "\<And>j. map_option rights_of (attrs t j) = map_option rights_of (attrs s j)"
  shows "may_access ot ow gr t = may_access ot ow gr s"
proof -
  have "may_access ot ow gr t j u k = may_access ot ow gr s j u k" for j u k
    using assms(3) [of j]
    by (cases "attrs s j"; cases "attrs t j")
      (auto simp: may_access_def key_matches_def mode_grants_def in_group_def assms(1,2)
        rights_of_def)
  then show ?thesis by (simp add: fun_eq_iff)
qed

lemma get_keeps_rights:
  assumes "store_consistent s"
  shows "may_access ot ow gr (snd (snd (extent_server_get cur junk i u k buf s)))
       = may_access ot ow gr s"
proof (rule may_access_cong)
  show "map_option rights_of (attrs (snd (snd (extent_server_get cur junk i u k buf s))) j)
      = map_option rights_of (attrs s j)" for j
  proof (cases "contents s i")
    case None
    then show ?thesis by (simp add: get_eq)
  next
    case (Some c)
    with assms obtain a where "attrs s i = Some a" by (rule consistent_attr)
    with Some show ?thesis by (simp add: get_eq rights_of_def)
  qed
qed (simp_all add: get_eq split: option.split)

lemma put_keeps_rights:
  "may_read (snd (extent_server_put cur junk i buf u k s)) = may_read s"
  "may_write (snd (extent_server_put cur junk i buf u k s)) = may_write s"
proof -
  let ?t = "snd (extent_server_put cur junk i buf u k s)"
  have views: "subscript [] (userkeys ?t) = subscript [] (userkeys s)"
    "subscript {} (groupusers ?t) = subscript {} (groupusers s)"
    by (simp_all add: put_eq)
  have "may_access ot ow gr ?t j v l = may_access ot ow gr s j v l"
    if "(511 :: uint) AND ot \<noteq> 0" for ot ow gr j v l
  proof (cases "may_write s i u k \<and> j = i \<and> attrs s i = None")
    case True
    then have "attrs ?t j = Some (put_attr cur junk buf None)" by (simp add: put_eq)
    with True that show ?thesis
      by (simp add: may_access_def mode_grants_def put_attr_def key_matches_def views)
  next
    case False
    then have "map_option rights_of (attrs ?t j) = map_option rights_of (attrs s j)"
      by (auto simp: put_eq put_attr_def rights_of_def)
    then show ?thesis
      by (cases "attrs s j"; cases "attrs ?t j")
        (auto simp: may_access_def key_matches_def mode_grants_def in_group_def views rights_of_def)
  qed
  then show "may_read ?t = may_read s" "may_write ?t = may_write s"
    by (simp_all add: may_read_def may_write_def fun_eq_iff)
qed

interpretation es: extent_store store_consistent contents
    "\<lambda>s i. may_read s i u k" "\<lambda>s i. may_write s i u k" E_OK E_NOENT E_NOACCESS
    "\<lambda>i. extent_server_get cur junk i u k []" "\<lambda>i c. extent_server_put cur junk i c u k"
    "\<lambda>i. extent_server_remove i u k"
  for u k cur junk
proof
  fix s s' :: extent_server and i and c :: string and r
  assume ok: "store_consistent s"
  show "store_consistent s' \<and> contents s' = contents s \<and>
      (\<lambda>i. may_read s' i u k) = (\<lambda>i. may_read s i u k) \<and>
      (\<lambda>i. may_write s' i u k) = (\<lambda>i. may_write s i u k)"
    if "extent_server_get cur junk i u k [] s = (r, c, s')"
    using that get_consistent [OF ok, of cur junk i u k "[]"]
      get_keeps_rights [OF ok, of _ _ _ cur junk i u k "[]"]
    by (auto simp: may_read_def may_write_def get_eq split: option.splits if_splits)
  show "store_consistent s' \<and> (\<lambda>i. may_read s' i u k) = (\<lambda>i. may_read s i u k) \<and>
      (\<lambda>i. may_write s' i u k) = (\<lambda>i. may_write s i u k)"
    if "extent_server_put cur junk i c u k s = (r, s')"
    using that put_consistent [OF ok, of cur junk i c u k]
      put_keeps_rights [of cur junk i c u k s] by simp
  show "store_consistent s'" if "extent_server_remove i u k s = (r, s')"
    using that remove_consistent [OF ok, of i u k] by simp
qed (auto simp: get_eq put_eq remove_eq split: option.splits if_splits)

section \<open>Keys\<close>

lemma handle_userkeys_known:
  assumes "userkeys s v = Some kv"
  shows "userkeys (snd (snd (extent_handle cur junk q s))) v = Some kv"
  using assms
  by (cases q) (auto simp: store_eqs case_prod_beta frame_simps extent_server_reg_def
      authenticate_eq touch_other split: option.split)

lemma run_userkeys_known:
  "userkeys s v = Some kv \<Longrightarrow> userkeys (extent_run qs s) v = Some kv"
  by (induction qs s rule: extent_run.induct) (auto simp: handle_userkeys_known)

lemma reg_sections: "reg_finish (reg_test u k s) s = extent_server_reg u k s"
  by (simp add: reg_test_def extent_server_reg_def)

text \<open>The binding of a user as an invariant of the interleaved registrations.\<close>

definition reg_bound :: "uint \<Rightarrow> string \<Rightarrow> reg_state \<Rightarrow> bool" where
  "reg_bound u k x = (case x of (s, P, R) \<Rightarrow>
     userkeys s u = Some k \<and> (\<forall>k'. RegStore u k' \<notin> set P) \<and>
     (\<forall>k' r. (u, k', r) \<in> set R \<longrightarrow> r = (if k' = k then E_OK else E_NOACCESS)))"

lemma reg_bound_step:
  assumes "reg_step x y" and "reg_bound u k x"
  shows "reg_bound u k y"
  using assms
proof (induction rule: reg_step.induct)
  case (reg_enter s P R v k')
  then show ?case by (auto simp: reg_bound_def reg_test_def)
next
  case (reg_leave p s r s' P Q R)
  then show ?case
    by (cases p) (auto simp: reg_bound_def authenticate_eq key_matches_def touch_def
        split: if_splits)
next
  case (other_request q s P R cur junk)
  then show ?case by (auto simp: reg_bound_def handle_userkeys_known)
qed

lemma reg_bound_steps: "reg_step\<^sup>*\<^sup>* x y \<Longrightarrow> reg_bound u k x \<Longrightarrow> reg_bound u k y"
  by (induction rule: rtranclp_induct) (auto intro: reg_bound_step)

text \<open>Two first registrations that both test before either stores.\<close>

lemma reg_race:
  assumes "userkeys s u = None"
  shows "reg_step\<^sup>*\<^sup>* (s, [], [])
    (s\<lparr>userkeys := (userkeys s)(u \<mapsto> k2)\<rparr>, [], [(u, k2, E_OK), (u, k1, E_OK)])"
proof -
  let ?s1 = "s\<lparr>userkeys := (userkeys s)(u \<mapsto> k1)\<rparr>"
  have "reg_step (s, [], []) (s, [RegStore u k1], [])"
    using reg_enter [of s "[]" "[]" u k1] assms by (simp add: reg_test_def)
  moreover have "reg_step (s, [RegStore u k1], []) (s, [RegStore u k2, RegStore u k1], [])"
    using reg_enter [of s "[RegStore u k1]" "[]" u k2] assms by (simp add: reg_test_def)
  moreover have "reg_step (s, [RegStore u k2, RegStore u k1], []) (?s1, [RegStore u k2], [(u, k1, E_OK)])"
    using reg_leave [of "RegStore u k1" s E_OK ?s1 "[RegStore u k2]" "[]" "[]"] by simp
  moreover have "reg_step (?s1, [RegStore u k2], [(u, k1, E_OK)])
      (s\<lparr>userkeys := (userkeys s)(u \<mapsto> k2)\<rparr>, [], [(u, k2, E_OK), (u, k1, E_OK)])"
    using reg_leave [of "RegStore u k2" ?s1 E_OK _ "[]" "[]" "[(u, k1, E_OK)]"] by simp
  ultimately show ?thesis
    by (meson converse_rtranclp_into_rtranclp rtranclp.rtrancl_refl)
qed

text \<open>
  C4: when a key binding is permanent.  Once a user has a key and no first registration of the
  same user is still between its test and its store, no interleaving of registrations and other
  requests of anybody changes or removes the key, and every registration of the user that
  returns from then on succeeds with that key and is refused with any other.  The condition is
  needed, since \<open>reg\<close> takes no mutex: from any state in which a user has no key, two
  registrations that both test before either stores both succeed, and the key of the later
  store replaces the one that was registered.
\<close>

theorem reg_binding_permanent:
  assumes "userkeys s u = Some k" and "\<And>k'. RegStore u k' \<notin> set P"
    and "reg_step\<^sup>*\<^sup>* (s, P, []) (s', P', R)" and "userkeys s0 v = None"
  shows "userkeys s' u = Some k \<and>
    (\<forall>k' r. (u, k', r) \<in> set R \<longrightarrow> r = (if k' = k then E_OK else E_NOACCESS)) \<and>
    (\<forall>k1 k2. \<exists>s1. reg_step\<^sup>*\<^sup>* (s0, [], []) (s1, [], [(v, k2, E_OK), (v, k1, E_OK)]) \<and>
       userkeys s1 v = Some k2)"
proof -
  have "reg_bound u k (s', P', R)"
    using assms(1,2) by (intro reg_bound_steps [OF assms(3)]) (simp add: reg_bound_def)
  moreover have "\<exists>s1. reg_step\<^sup>*\<^sup>* (s0, [], []) (s1, [], [(v, k2, E_OK), (v, k1, E_OK)]) \<and>
      userkeys s1 v = Some k2" for k1 k2
    by (intro exI conjI) (rule reg_race [OF assms(4)], simp)
  ultimately show ?thesis by (auto simp: reg_bound_def)
qed

theorem reg_binding_permanent_witness:
  "userkeys (snd (extent_server_reg 7 ''k'' (extent_server_init 0 0 0))) 7 = Some ''k'' \<and>
   reg_step\<^sup>*\<^sup>* (snd (extent_server_reg 7 ''k'' (extent_server_init 0 0 0)), [], [])
     (snd (extent_server_reg 7 ''k'' (extent_server_init 0 0 0)), [], [(7, ''x'', E_NOACCESS)]) \<and>
   (\<exists>s1. reg_step\<^sup>*\<^sup>* (extent_server_init 0 0 0, [], []) (s1, [], [(7, ''b'', E_OK), (7, ''a'', E_OK)]) \<and>
       userkeys s1 7 = Some ''b'')"
proof -
  let ?fresh = "extent_server_init 0 0 0" and ?s = "snd (extent_server_reg 7 ''k'' (extent_server_init 0 0 0))"
  have s0: "userkeys ?fresh 7 = None"
    by (simp add: extent_server_init_def)
  then have s: "userkeys ?s 7 = Some ''k''"
    by (simp add: extent_server_reg_def)
  have "reg_step (?s, [], []) (?s, [RegAuth 7 ''x''], [])"
    using reg_enter [of ?s "[]" "[]" 7 "''x''"] s by (simp add: reg_test_def)
  moreover have "reg_step (?s, [RegAuth 7 ''x''], []) (?s, [], [(7, ''x'', E_NOACCESS)])"
    using reg_leave [of "RegAuth 7 ''x''" ?s E_NOACCESS ?s "[]" "[]" "[]"] s
    by (simp add: authenticate_eq key_matches_def touch_def fun_upd_idem)
  ultimately have run: "reg_step\<^sup>*\<^sup>* (?s, [], []) (?s, [], [(7, ''x'', E_NOACCESS)])"
    by (meson converse_rtranclp_into_rtranclp rtranclp.rtrancl_refl)
  show ?thesis
    using reg_binding_permanent [OF s _ run s0] s run by simp
qed

text \<open>
  C5: an identity nobody registered is not rejected.  The key table's subscript creates an empty
  key, so the empty key authenticates an unknown user, and one request under an unknown identity
  with any key binds that identity to the empty key for good: its owner can no longer register a
  non-empty key.
\<close>

theorem unregistered_identity:
  assumes "userkeys s u = None" and "k \<noteq> []"
  shows "key_matches s u [] \<and>
    fst (extent_server_reg u k
      (extent_run qs (snd (snd (extent_handle cur junk (ReqGet i u k') s))))) = E_NOACCESS"
proof -
  have "userkeys (snd (snd (extent_handle cur junk (ReqGet i u k') s))) u = Some []"
    using assms(1) by (auto simp: get_eq case_prod_beta touch_def split: option.split)
  then have "userkeys (extent_run qs (snd (snd (extent_handle cur junk (ReqGet i u k') s)))) u = Some []"
    by (rule run_userkeys_known)
  with assms show ?thesis
    by (simp add: extent_server_reg_def authenticate_eq key_matches_def)
qed

theorem unregistered_identity_witness:
  "userkeys (extent_server_init 0 0 0) 7 = None \<and> key_matches (extent_server_init 0 0 0) 7 [] \<and>
   fst (extent_server_reg 7 ''secret''
     (extent_run [] (snd (snd (extent_handle 0 undefined (ReqGet 1 7 ''guess'') (extent_server_init 0 0 0))))))
       = E_NOACCESS"
proof -
  have h: "userkeys (extent_server_init 0 0 0) 7 = None"
    by (simp add: extent_server_init_def)
  show ?thesis
    using h unregistered_identity [OF h, of "''secret''" "[]" 0 undefined 1 "''guess''"] by simp
qed

section \<open>A private extent\<close>

fun req_creds :: "ext_req \<Rightarrow> uint \<times> string" where
  "req_creds (ReqPut i buf u k) = (u, k)"
| "req_creds (ReqGet i u k) = (u, k)"
| "req_creds (ReqGetattr i u k) = (u, k)"
| "req_creds (ReqSetattr i a u k) = (u, k)"
| "req_creds (ReqRemove i u k) = (u, k)"
| "req_creds (ReqReg u k) = (u, k)"
| "req_creds (ReqGroupadd g u k) = (u, k)"
| "req_creds (ReqGroupdel g u k) = (u, k)"
| "req_creds (ReqUseradd v g u k) = (u, k)"
| "req_creds (ReqUserdel v g u k) = (u, k)"

text \<open>
  An extent of user \<open>v\<close>, registered with key \<open>kv\<close>, whose mode gives nothing to the group and to
  others.
\<close>

definition private_extent :: "extent_server \<Rightarrow> ull \<Rightarrow> uint \<Rightarrow> string \<Rightarrow> string \<Rightarrow> uint \<Rightarrow> bool" where
  "private_extent s i v kv c m \<longleftrightarrow>
     userkeys s v = Some kv \<and> contents s i = Some c \<and>
     (\<exists>a. attrs s i = Some a \<and> attr_uid a = v \<and> attr_mode a = m) \<and> m AND 63 = 0"

lemma mode_63:
  assumes "(m :: uint) AND 63 = 0"
  shows "m AND 4 = 0" "m AND 2 = 0" "m AND 32 = 0" "m AND 16 = 0"
proof -
  have "m AND b = 0" if "63 AND b = b" for b
  proof -
    have "m AND b = (m AND 63) AND b" by (simp only: and.assoc that)
    with assms show ?thesis by simp
  qed
  then show "m AND 4 = 0" "m AND 2 = 0" "m AND 32 = 0" "m AND 16 = 0"
    by simp_all
qed

lemma private_denied:
  assumes "private_extent s i v kv c m" and "(u, k) \<noteq> (v, kv)"
  shows "\<not> may_read s i u k" "\<not> may_write s i u k"
proof -
  obtain a where a: "attrs s i = Some a" "attr_uid a = v" "attr_mode a = m"
    and kv: "userkeys s v = Some kv" and m: "m AND 63 = 0"
    using assms(1) by (auto simp: private_extent_def)
  have "u \<noteq> v \<or> \<not> key_matches s u k"
    using assms(2) kv by (auto simp: key_matches_def)
  then show "\<not> may_read s i u k" "\<not> may_write s i u k"
    using a mode_63 [OF m] by (auto simp: may_read_def may_write_def may_access_def mode_grants_def)
qed

lemma private_step:
  assumes p: "private_extent s i v kv c m" and q: "req_creds q \<noteq> (v, kv)"
  shows "private_extent (snd (snd (extent_handle cur junk q s))) i v kv c m"
proof -
  note d = private_denied [OF p]
  have kv: "userkeys (snd (snd (extent_handle cur junk q s))) v = Some kv"
    using p by (auto simp: private_extent_def handle_userkeys_known)
  have "contents (snd (snd (extent_handle cur junk q s))) i = Some c \<and>
    (\<exists>a. attrs (snd (snd (extent_handle cur junk q s))) i = Some a \<and> attr_uid a = v \<and> attr_mode a = m)"
    using p q d
    by (cases q) (auto simp: private_extent_def store_eqs case_prod_beta frame_simps touch_other
        split: option.splits if_splits)
  with kv p show ?thesis by (auto simp: private_extent_def)
qed

lemma private_run:
  assumes "private_extent s i v kv c m" and "\<forall>(cur, junk, q) \<in> set qs. req_creds q \<noteq> (v, kv)"
  shows "private_extent (extent_run qs s) i v kv c m"
  using assms by (induction qs s rule: extent_run.induct) (auto intro: private_step)

lemma private_get_refused:
  assumes "private_extent s i v kv c m" and "(u, k) \<noteq> (v, kv)"
  shows "fst (extent_handle cur junk (ReqGet i u k) s) = E_NOACCESS"
  using private_denied(1) [OF assms] by (simp add: get_eq case_prod_beta)

text \<open>
  C6: a private extent stays private.  If a registered user's extent grants nothing to group and
  others, then no sequence of requests, however long, of which none carries the owner's identity
  and key together, changes its content, its owner or its mode, and none of these requests gets
  the content out of the server: a \<open>get\<close> of it is refused at every point of the sequence.
\<close>

theorem private_extent_protected:
  assumes "private_extent s i v kv c m"
    and "\<forall>(cur, junk, q) \<in> set qs. req_creds q \<noteq> (v, kv)" and "(u, k) \<noteq> (v, kv)"
  shows "private_extent (extent_run qs s) i v kv c m \<and>
    fst (extent_handle cur junk (ReqGet i u k) (extent_run qs s)) = E_NOACCESS"
  using private_run [OF assms(1,2)] private_get_refused [OF private_run [OF assms(1,2)] assms(3)] by blast

text \<open>User 7 owns extent 9 with mode 0600; user 8 tries to write, take over and read it.\<close>

definition private_example :: extent_server where
  "private_example = \<lparr>
     attrs = [9 \<mapsto> \<lparr>attr_atime = 0, attr_mtime = 0, attr_ctime = 0, attr_size = 2,
       attr_mode = 384, attr_uid = 7, attr_gid = 7\<rparr>],
     contents = [9 \<mapsto> ''hi''], userkeys = [7 \<mapsto> ''k7'', 8 \<mapsto> ''k8''], groupusers = Map.empty\<rparr>"

theorem private_extent_protected_witness:
  "private_extent private_example 9 7 ''k7'' ''hi'' 384 \<and>
   private_extent (extent_run [(1, undefined, ReqPut 9 ''no'' 8 ''k8''),
     (2, undefined, ReqUseradd 8 7 8 ''k8''), (3, undefined, ReqRemove 9 7 ''guess'')]
     private_example) 9 7 ''k7'' ''hi'' 384 \<and>
   fst (extent_handle 4 undefined (ReqGet 9 8 ''k8'')
     (extent_run [(1, undefined, ReqPut 9 ''no'' 8 ''k8''),
       (2, undefined, ReqUseradd 8 7 8 ''k8''), (3, undefined, ReqRemove 9 7 ''guess'')]
       private_example)) = E_NOACCESS"
proof -
  let ?qs = "[(1, undefined, ReqPut 9 ''no'' 8 ''k8''),
     (2, undefined, ReqUseradd 8 7 8 ''k8''), (3, undefined, ReqRemove 9 7 ''guess'')]"
  have p: "private_extent private_example 9 7 ''k7'' ''hi'' 384"
    by (simp add: private_extent_def private_example_def)
  have q: "\<forall>(cur, junk, q) \<in> set ?qs. req_creds q \<noteq> (7, ''k7'')" by simp
  have u: "((8 :: uint), ''k8'') \<noteq> (7, ''k7'')" by simp
  show ?thesis
    using p private_extent_protected [OF p q u, of 4 undefined] by simp
qed

section \<open>Mediation and groups\<close>

text \<open>
  C7: complete mediation.  Whatever request arrives in whatever state, if it changes the content
  of an extent, or its owner, group or mode, then it succeeded and its identity authenticated and
  had write permission for that very extent in the state before.
\<close>

theorem change_is_authorised:
  assumes "store_consistent s" and "extent_handle cur junk q s = (st, rep, s')"
    and "contents s' i \<noteq> contents s i \<or>
         map_option rights_of (attrs s' i) \<noteq> map_option rights_of (attrs s i)"
  shows "st = E_OK \<and> may_write s i (fst (req_creds q)) (snd (req_creds q))"
proof (cases q)
  case (ReqGet j u k)
  then show ?thesis
    using assms consistent_attr [OF assms(1), of j]
    by (fastforce simp: get_eq rights_of_def split: option.splits if_splits)
next
  case (ReqGetattr j u k)
  then show ?thesis
    using assms consistent_attr [OF assms(1), of j]
    by (fastforce simp: extent_server_getattr_def split: option.splits if_splits)
qed (use assms(2,3) in \<open>auto simp: put_eq setattr_eq remove_eq case_prod_beta frame_simps
    split: option.splits if_splits\<close>)

theorem change_is_authorised_witness:
  "store_consistent private_example \<and>
   contents (snd (snd (extent_handle 1 undefined (ReqPut 9 ''new'' 7 ''k7'') private_example))) 9
     = Some ''new'' \<and>
   fst (extent_handle 1 undefined (ReqPut 9 ''new'' 7 ''k7'') private_example) = E_OK \<and>
   may_write private_example 9 7 ''k7''"
proof -
  let ?q = "ReqPut 9 ''new'' 7 ''k7''" and ?s = private_example
  have c: "store_consistent ?s"
    by (auto simp: store_consistent_def private_example_def split: if_splits)
  have w: "may_write ?s 9 7 ''k7''"
    by (simp add: may_write_def may_access_def mode_grants_def key_matches_def private_example_def)
  then have n: "contents (snd (snd (extent_handle 1 undefined ?q ?s))) 9 = Some ''new''"
    by (simp add: put_eq)
  obtain st rep s' where h: "extent_handle 1 undefined ?q ?s = (st, rep, s')"
    by (metis prod_cases3)
  have "contents s' 9 \<noteq> contents ?s 9 \<or>
      map_option rights_of (attrs s' 9) \<noteq> map_option rights_of (attrs ?s 9)"
    using n h by (simp add: private_example_def)
  from change_is_authorised [OF c h this] c n h show ?thesis by simp
qed

text \<open>
  C8: the group table, seen as a membership relation, is changed only by requests whose identity
  authenticates, and then exactly as the request says: \<open>useradd\<close> adds one pair, \<open>userdel\<close> removes
  one pair, \<open>groupdel\<close> removes a whole group, and \<open>groupadd\<close> keeps an existing group's members.
\<close>

theorem group_requests_refine:
  "in_group (snd (extent_server_groupadd g a k s)) v h = in_group s v h \<and>
   in_group (snd (extent_server_useradd u g a k s)) v h
     = (in_group s v h \<or> key_matches s a k \<and> v = u \<and> h = g) \<and>
   in_group (snd (extent_server_userdel u g a k s)) v h
     = (in_group s v h \<and> \<not> (key_matches s a k \<and> v = u \<and> h = g)) \<and>
   in_group (snd (extent_server_groupdel g a k s)) v h
     = (in_group s v h \<and> \<not> (key_matches s a k \<and> h = g))"
  by (auto simp: group_handler_defs in_group_def subscript_def touch_def split: option.splits if_splits)

text \<open>
  C29: a group request with a wrong key changes no membership, and every one of them but \<open>userdel\<close>
  says so by answering \<open>NOACCESS\<close>; \<open>userdel\<close> answers \<open>OK\<close> although it removed nobody.
\<close>

theorem wrong_key_group_requests:
  assumes "\<not> key_matches s a k"
  shows "fst (extent_server_groupadd g a k s) = E_NOACCESS \<and>
    fst (extent_server_groupdel g a k s) = E_NOACCESS \<and>
    fst (extent_server_useradd u g a k s) = E_NOACCESS \<and>
    fst (extent_server_userdel u g a k s) = E_OK \<and>
    in_group (snd (extent_server_groupadd g a k s)) = in_group s \<and>
    in_group (snd (extent_server_groupdel g a k s)) = in_group s \<and>
    in_group (snd (extent_server_useradd u g a k s)) = in_group s \<and>
    in_group (snd (extent_server_userdel u g a k s)) = in_group s"
  using assms by (simp add: group_handler_defs in_group_def fun_eq_iff)

theorem wrong_key_group_requests_witness:
  "let s = (extent_server_init 0 0 0)\<lparr>userkeys := [0 \<mapsto> ''root''], groupusers := [3 \<mapsto> {7}]\<rparr>
   in \<not> key_matches s 0 ''guess'' \<and>
      fst (extent_server_userdel 7 3 0 ''guess'' s) = E_OK \<and>
      in_group (snd (extent_server_userdel 7 3 0 ''guess'' s)) 7 3"
proof -
  let ?s = "(extent_server_init 0 0 0)\<lparr>userkeys := [0 \<mapsto> ''root''], groupusers := [3 \<mapsto> {7}]\<rparr>"
  have h: "\<not> key_matches ?s 0 ''guess''"
    by (simp add: key_matches_def)
  have "in_group ?s 7 3"
    by (simp add: in_group_def)
  then show ?thesis
    using h wrong_key_group_requests [OF h, of 3 7] by simp
qed

end
