(* ===== verification/Lock_Server.thy ===== *)
theory Lock_Server
  imports Prelude
begin

text \<open>
  The lock server (\<open>lock_protocol.h\<close>, \<open>lock_server.h\<close>, \<open>lock_server.cc\<close>) and the scoped lock its
  clients use (\<open>lock_client.cc\<close>, \<open>server_slock.h\<close>).  The handlers hold the server's mutex except
  while they wait on a lock's condition variable, so a handler is a sequence of atomic sections:
  the first section of \<open>acquire\<close>, one section per wake-up, and the whole of \<open>release\<close> and \<open>stat\<close>.
  \<open>lock_step\<close> interleaves the sections of any number of client threads.
\<close>

section \<open>State\<close>

datatype lock_status = L_OK | L_RETRY | L_RPCERR | L_NOENT | L_IOERR

fun lock_status_code :: "lock_status \<Rightarrow> int" where
  "lock_status_code L_OK = 0"
| "lock_status_code L_RETRY = 1"
| "lock_status_code L_RPCERR = 2"
| "lock_status_code L_NOENT = 3"
| "lock_status_code L_IOERR = 4"

record lock_entry =
  locked :: bool

definition lock_entry_init :: lock_entry where
  "lock_entry_init = \<lparr>locked = False\<rparr>"

record lock_server =
  locks :: "ull \<rightharpoonup> lock_entry"
  nacquire :: int

definition lock_server_init :: lock_server where
  "lock_server_init = \<lparr>locks = Map.empty, nacquire = 0\<rparr>"

definition set_locked :: "ull \<Rightarrow> bool \<Rightarrow> lock_server \<Rightarrow> lock_server" where
  "set_locked lid b s =
     s\<lparr>locks := (locks s)(lid \<mapsto> (subscript lock_entry_init (locks s) lid)\<lparr>locked := b\<rparr>)\<rparr>"

section \<open>The handlers\<close>

definition lock_server_stat :: "int \<Rightarrow> ull \<Rightarrow> lock_server \<Rightarrow> lock_status \<times> int \<times> lock_server" where
  "lock_server_stat clt lid s = (L_OK, nacquire s, s)"

text \<open>
  The test of the waiting loop, \<open>while (locks[lid].is_locked()) locks[lid].wait(&mutex_)\<close>,
  and the code behind it: \<open>(True, s)\<close> when the lock is taken, \<open>(False, s)\<close> when the thread
  goes to sleep on the condition variable.
\<close>

definition acquire_recheck :: "ull \<Rightarrow> lock_server \<Rightarrow> bool \<times> lock_server" where
  "acquire_recheck lid s =
     (if locked (subscript lock_entry_init (locks s) lid)
      then (False, s\<lparr>locks := touch lock_entry_init lid (locks s)\<rparr>)
      else (True, set_locked lid True s))"

text \<open>The section a call of \<open>acquire\<close> runs first.\<close>

definition acquire_enter :: "ull \<Rightarrow> lock_server \<Rightarrow> bool \<times> lock_server" where
  "acquire_enter lid s =
     (if locks s lid = None
      then (True, s\<lparr>locks := (locks s)(lid \<mapsto> lock_entry_init\<lparr>locked := True\<rparr>)\<rparr>)
      else acquire_recheck lid s)"

text \<open>The section of \<open>release\<close>; the signal it ends with is a step of the waiting threads.\<close>

definition lock_server_release :: "int \<Rightarrow> ull \<Rightarrow> lock_server \<Rightarrow> lock_status \<times> int \<times> lock_server" where
  "lock_server_release clt lid s = (L_OK, nacquire s, set_locked lid False s)"

text \<open>
  A whole call of \<open>acquire\<close> that nothing interleaves with: \<open>None\<close> when it does not return
  because the lock is taken.
\<close>

definition lock_server_acquire ::
  "int \<Rightarrow> ull \<Rightarrow> lock_server \<Rightarrow> (lock_status \<times> int \<times> lock_server) option" where
  "lock_server_acquire clt lid s =
     (let (granted, s1) = acquire_enter lid s
      in if granted then Some (L_OK, nacquire s, s1) else None)"

definition is_locked :: "lock_server \<Rightarrow> ull \<Rightarrow> bool" where
  "is_locked s lid \<longleftrightarrow> locked (subscript lock_entry_init (locks s) lid)"

lemmas lock_defs = is_locked_def set_locked_def acquire_recheck_def acquire_enter_def
  lock_entry_init_def lock_server_release_def lock_server_acquire_def

lemma is_locked_set [simp]: "is_locked (set_locked lid b s) = (is_locked s)(lid := b)"
  by (auto simp: lock_defs subscript_upd fun_eq_iff)

lemma is_locked_init [simp]: "is_locked lock_server_init = (\<lambda>_. False)"
  by (simp add: lock_defs lock_server_init_def fun_eq_iff)

lemma acquire_enter_verdict: "fst (acquire_enter lid s) \<longleftrightarrow> \<not> is_locked s lid"
  by (simp add: lock_defs)

lemma acquire_recheck_verdict: "fst (acquire_recheck lid s) \<longleftrightarrow> \<not> is_locked s lid"
  by (simp add: lock_defs)

lemma acquire_recheck_locks: "is_locked (snd (acquire_recheck lid s)) = (is_locked s)(lid := True)"
  by (auto simp: lock_defs subscript_upd fun_eq_iff)

lemma acquire_enter_locks: "is_locked (snd (acquire_enter lid s)) = (is_locked s)(lid := True)"
  by (auto simp: lock_defs subscript_upd fun_eq_iff)

section \<open>The lock service as its clients see it\<close>

text \<open>
  What a client may rely on: \<open>take\<close> succeeds exactly on a free lock and marks it, \<open>drop\<close> frees
  it, and neither touches another lock.
\<close>

locale lock_service =
  fixes held :: "'s \<Rightarrow> 'l \<Rightarrow> bool"
    and acq :: "'l \<Rightarrow> 's \<Rightarrow> 's option"
    and rel :: "'l \<Rightarrow> 's \<Rightarrow> 's"
  assumes acq_None_iff: "acq l s = None \<longleftrightarrow> held s l"
    and acq_held: "acq l s = Some s' \<Longrightarrow> held s' = (held s)(l := True)"
    and rel_held: "held (rel l s) = (held s)(l := False)"
begin

text \<open>A critical section between \<open>acq\<close> and \<open>rel\<close> that keeps the locks restores them all.\<close>

lemma scoped_balance:
  assumes "acq l s = Some s1" and "held s2 = held s1"
  shows "held (rel l s2) = held s"
proof -
  have "\<not> held s l" using assms(1) acq_None_iff by (metis option.distinct(1))
  then show ?thesis
    using assms by (auto simp: rel_held acq_held fun_eq_iff)
qed

lemma no_reentry: "acq l s = Some s1 \<Longrightarrow> held s2 = held s1 \<Longrightarrow> acq l s2 = None"
  by (simp add: acq_None_iff acq_held)

lemma acq_free: "\<not> held s l \<Longrightarrow> \<exists>s'. acq l s = Some s'"
  using acq_None_iff by auto

end

definition lock_take :: "int \<Rightarrow> ull \<Rightarrow> lock_server \<Rightarrow> lock_server option" where
  "lock_take clt lid s = map_option (\<lambda>(_, _, s'). s') (lock_server_acquire clt lid s)"

definition lock_drop :: "int \<Rightarrow> ull \<Rightarrow> lock_server \<Rightarrow> lock_server" where
  "lock_drop clt lid s = snd (snd (lock_server_release clt lid s))"

interpretation lsrv: lock_service is_locked "lock_take clt" "lock_drop clt" for clt
proof
  show "lock_take clt l s = None \<longleftrightarrow> is_locked s l" for l s
    using acquire_enter_verdict [of l s]
    by (auto simp: lock_take_def lock_server_acquire_def case_prod_beta)
  show "lock_take clt l s = Some s' \<Longrightarrow> is_locked s' = (is_locked s)(l := True)" for l s s'
    using acquire_enter_locks [of l s]
    by (auto simp: lock_take_def lock_server_acquire_def case_prod_beta split: if_splits)
  show "is_locked (lock_drop clt l s) = (is_locked s)(l := False)" for l s
    by (simp add: lock_drop_def lock_server_release_def)
qed

section \<open>Interleaved handlers\<close>

text \<open>
  Each client thread has at most one lock call at the server.  \<open>Idle\<close>: none; \<open>Waiting lid\<close>: asleep
  on the condition variable of \<open>lid\<close>; \<open>Woken lid\<close>: woken, about to test the loop condition again.
  \<open>holds\<close> records the locks a thread was granted and has not released; the server does not know it.
\<close>

datatype thread_state = Idle | Waiting ull | Woken ull

record lock_sys =
  srv :: lock_server
  thr :: "nat \<Rightarrow> thread_state"
  holds :: "nat \<Rightarrow> ull set"

definition lock_sys_init :: lock_sys where
  "lock_sys_init = \<lparr>srv = lock_server_init, thr = (\<lambda>_. Idle), holds = (\<lambda>_. {})\<rparr>"

text \<open>
  \<open>release\<close> ends with \<open>pthread_cond_signal\<close>, which wakes at least one of the sleepers of that lock
  if there is one, and may wake more; a sleeper may also wake for no reason (\<open>spurious\<close>).  Clients
  release the locks they hold, as \<open>ServerScopedLock\<close> does.
\<close>

inductive lock_step :: "lock_sys \<Rightarrow> lock_sys \<Rightarrow> bool" where
  enter_granted: "thr s t = Idle \<Longrightarrow> acquire_enter lid (srv s) = (True, srv') \<Longrightarrow>
     lock_step s (s\<lparr>srv := srv', holds := (holds s)(t := insert lid (holds s t))\<rparr>)"
| enter_waits: "thr s t = Idle \<Longrightarrow> acquire_enter lid (srv s) = (False, srv') \<Longrightarrow>
     lock_step s (s\<lparr>srv := srv', thr := (thr s)(t := Waiting lid)\<rparr>)"
| spurious: "thr s t = Waiting lid \<Longrightarrow> lock_step s (s\<lparr>thr := (thr s)(t := Woken lid)\<rparr>)"
| recheck_granted: "thr s t = Woken lid \<Longrightarrow> acquire_recheck lid (srv s) = (True, srv') \<Longrightarrow>
     lock_step s (s\<lparr>srv := srv', thr := (thr s)(t := Idle),
       holds := (holds s)(t := insert lid (holds s t))\<rparr>)"
| recheck_waits: "thr s t = Woken lid \<Longrightarrow> acquire_recheck lid (srv s) = (False, srv') \<Longrightarrow>
     lock_step s (s\<lparr>srv := srv', thr := (thr s)(t := Waiting lid)\<rparr>)"
| release: "thr s t = Idle \<Longrightarrow> lid \<in> holds s t \<Longrightarrow>
     woken \<subseteq> {w. thr s w = Waiting lid} \<Longrightarrow>
     (woken = {} \<longrightarrow> {w. thr s w = Waiting lid} = {}) \<Longrightarrow>
     lock_step s (s\<lparr>srv := snd (snd (lock_server_release (int t) lid (srv s))),
       thr := (\<lambda>w. if w \<in> woken then Woken lid else thr s w),
       holds := (holds s)(t := holds s t - {lid})\<rparr>)"

inductive lock_reachable :: "lock_sys \<Rightarrow> bool" where
  lock_start: "lock_reachable lock_sys_init"
| lock_next: "lock_reachable s \<Longrightarrow> lock_step s t \<Longrightarrow> lock_reachable t"

inductive_cases lock_stepE: "lock_step s t"

text \<open>
  The invariant: a lock is marked at the server exactly when some thread holds it, no two threads
  hold one, and a free lock that threads sleep on has a woken thread on its way.
\<close>

definition lock_marked :: "lock_sys \<Rightarrow> bool" where
  "lock_marked s \<longleftrightarrow> (\<forall>lid. is_locked (srv s) lid \<longleftrightarrow> (\<exists>t. lid \<in> holds s t))"

definition lock_exclusive :: "lock_sys \<Rightarrow> bool" where
  "lock_exclusive s \<longleftrightarrow> (\<forall>lid t t'. lid \<in> holds s t \<longrightarrow> lid \<in> holds s t' \<longrightarrow> t = t')"

definition lock_awake :: "lock_sys \<Rightarrow> bool" where
  "lock_awake s \<longleftrightarrow> (\<forall>lid t. \<not> is_locked (srv s) lid \<longrightarrow> thr s t = Waiting lid \<longrightarrow>
     (\<exists>t'. thr s t' = Woken lid))"

definition lock_inv :: "lock_sys \<Rightarrow> bool" where
  "lock_inv s \<longleftrightarrow> lock_marked s \<and> lock_exclusive s \<and> lock_awake s"

lemmas lock_inv_defs = lock_inv_def lock_marked_def lock_exclusive_def lock_awake_def

lemma lock_inv_init: "lock_inv lock_sys_init"
  by (simp add: lock_inv_defs lock_sys_init_def)

lemma enter_facts:
  "acquire_enter lid s = (b, s') \<Longrightarrow>
     b = (\<not> is_locked s lid) \<and> is_locked s' = (is_locked s)(lid := True)"
  using acquire_enter_verdict [of lid s] acquire_enter_locks [of lid s] by simp

lemma recheck_facts:
  "acquire_recheck lid s = (b, s') \<Longrightarrow>
     b = (\<not> is_locked s lid) \<and> is_locked s' = (is_locked s)(lid := True)"
  using acquire_recheck_verdict [of lid s] acquire_recheck_locks [of lid s] by simp

lemma release_locks [simp]:
  "is_locked (snd (snd (lock_server_release c lid s))) = (is_locked s)(lid := False)"
  by (simp add: lock_server_release_def)

text \<open>
  A grant, a wait, a wake-up and a release each keep the invariant; the server's part of a step
  matters only through \<open>is_locked\<close>.
\<close>

lemma awakeD:
  assumes "lock_inv s" and "\<not> is_locked (srv s) l" and "thr s w0 = Waiting l"
  obtains w where "thr s w = Woken l"
  using assms by (auto simp: lock_inv_def lock_awake_def)

lemma lock_inv_grant:
  assumes inv: "lock_inv s" and free: "\<not> is_locked (srv s) lid"
    and locks: "is_locked (srv s') = (is_locked (srv s))(lid := True)"
    and holds: "holds s' = (holds s)(t := insert lid (holds s t))"
    and thrs: "thr s' = thr s \<or> (thr s t = Woken lid \<and> thr s' = (thr s)(t := Idle))"
  shows "lock_inv s'"
proof -
  have none: "lid \<notin> holds s w" for w
    using inv free by (auto simp: lock_inv_def lock_marked_def)
  have "\<exists>w. thr s' w = Woken l"
    if l: "l \<noteq> lid" "\<not> is_locked (srv s) l" "thr s' w0 = Waiting l" for l w0
  proof -
    have "thr s w0 = Waiting l" using thrs l(3) by (auto split: if_splits)
    with inv l(2) obtain w where "thr s w = Woken l" by (rule awakeD)
    with thrs l(1) have "thr s' w = Woken l" by (auto split: if_splits)
    then show ?thesis ..
  qed
  then have "lock_awake s'"
    by (auto simp: lock_awake_def locks)
  moreover have "lock_marked s'"
    using inv by (auto simp: lock_inv_def lock_marked_def locks holds)
  moreover have "lock_exclusive s'"
    using inv none by (auto simp: lock_inv_def lock_exclusive_def holds)
  ultimately show ?thesis by (simp add: lock_inv_def)
qed

lemma lock_inv_wait:
  assumes inv: "lock_inv s" and taken: "is_locked (srv s) lid"
    and locks: "is_locked (srv s') = (is_locked (srv s))(lid := True)"
    and thrs: "thr s t = Idle \<or> thr s t = Woken lid"
    and thr': "thr s' = (thr s)(t := Waiting lid)" and holds: "holds s' = holds s"
  shows "lock_inv s'"
proof -
  have locks': "is_locked (srv s') = is_locked (srv s)"
    using taken by (auto simp: locks fun_eq_iff)
  have "\<exists>w. thr s' w = Woken l"
    if l: "\<not> is_locked (srv s) l" "thr s' w0 = Waiting l" for l w0
  proof -
    have "thr s w0 = Waiting l" using l taken by (auto simp: thr' split: if_splits)
    with inv l(1) obtain w where w: "thr s w = Woken l" by (rule awakeD)
    with thrs taken l(1) have "w \<noteq> t" by auto
    with w show ?thesis by (auto simp: thr')
  qed
  then have "lock_awake s'" by (auto simp: lock_awake_def locks')
  then show ?thesis
    using inv by (simp add: lock_inv_def lock_marked_def lock_exclusive_def locks' holds)
qed

lemma lock_inv_wake:
  assumes inv: "lock_inv s" and "thr s t = Waiting lid"
    and thr': "thr s' = (thr s)(t := Woken lid)" and "srv s' = srv s" "holds s' = holds s"
  shows "lock_inv s'"
proof -
  have "\<exists>w. thr s' w = Woken l"
    if l: "\<not> is_locked (srv s) l" "thr s' w0 = Waiting l" for l w0
  proof -
    have "thr s w0 = Waiting l" using l by (auto simp: thr' split: if_splits)
    with inv l(1) obtain w where w: "thr s w = Woken l" by (rule awakeD)
    with assms(2) have "thr s' w = Woken l" by (auto simp: thr')
    then show ?thesis ..
  qed
  then show ?thesis
    using inv assms(4,5) by (auto simp: lock_inv_def lock_marked_def lock_exclusive_def lock_awake_def)
qed

lemma lock_inv_release:
  assumes inv: "lock_inv s" and held: "lid \<in> holds s t"
    and sub: "woken \<subseteq> {w. thr s w = Waiting lid}"
    and ne: "woken = {} \<longrightarrow> {w. thr s w = Waiting lid} = {}"
    and locks: "is_locked (srv s') = (is_locked (srv s))(lid := False)"
    and thr': "thr s' = (\<lambda>w. if w \<in> woken then Woken lid else thr s w)"
    and holds: "holds s' = (holds s)(t := holds s t - {lid})"
  shows "lock_inv s'"
proof -
  have only: "lid \<in> holds s w \<Longrightarrow> w = t" for w
    using inv held unfolding lock_inv_def lock_exclusive_def by blast
  have "lock_marked s'"
    using inv only by (auto simp: lock_inv_def lock_marked_def locks holds, metis)
  moreover have "lock_exclusive s'"
    using inv by (auto simp: lock_inv_def lock_exclusive_def holds)
  moreover have "\<exists>w. thr s' w = Woken l"
    if l: "\<not> is_locked (srv s') l" "thr s' w0 = Waiting l" for l w0
  proof (cases "l = lid")
    case True
    with l(2) have "thr s w0 = Waiting lid" by (simp add: thr' split: if_splits)
    with ne obtain w where "w \<in> woken" by auto
    with True show ?thesis by (auto simp: thr')
  next
    case False
    with l have "\<not> is_locked (srv s) l" "thr s w0 = Waiting l"
      by (auto simp: locks thr' split: if_splits)
    with inv obtain w where w: "thr s w = Woken l" by (rule awakeD)
    with sub have "w \<notin> woken" by auto
    with w show ?thesis by (auto simp: thr')
  qed
  ultimately show ?thesis by (auto simp: lock_inv_def lock_awake_def)
qed

lemma lock_step_inv:
  assumes "lock_step s s'" and "lock_inv s"
  shows "lock_inv s'"
  using assms
proof (induction rule: lock_step.induct)
  case (enter_granted s t lid srv')
  note f = enter_facts [OF enter_granted(2)]
  show ?case
    by (rule lock_inv_grant [OF enter_granted(3), of lid _ t]) (use f in simp_all)
next
  case (enter_waits s t lid srv')
  note f = enter_facts [OF enter_waits(2)]
  show ?case
    by (rule lock_inv_wait [OF enter_waits(3), of lid _ t]) (use f enter_waits(1) in simp_all)
next
  case (spurious s t lid)
  show ?case
    by (rule lock_inv_wake [OF spurious(2,1)]) simp_all
next
  case (recheck_granted s t lid srv')
  note f = recheck_facts [OF recheck_granted(2)]
  show ?case
    by (rule lock_inv_grant [OF recheck_granted(3), of lid _ t])
      (use f recheck_granted(1) in simp_all)
next
  case (recheck_waits s t lid srv')
  note f = recheck_facts [OF recheck_waits(2)]
  show ?case
    by (rule lock_inv_wait [OF recheck_waits(3), of lid _ t])
      (use f recheck_waits(1) in simp_all)
next
  case (release s t lid woken)
  show ?case
    by (rule lock_inv_release [OF release(5,2,3,4)]) simp_all
qed

lemma reachable_lock_inv: "lock_reachable s \<Longrightarrow> lock_inv s"
  by (induction rule: lock_reachable.induct) (auto intro: lock_inv_init lock_step_inv)

section \<open>Mutual exclusion and no lost wake-up\<close>

text \<open>
  C2: in every reachable state of the lock server with any number of client threads, however
  their calls interleave and however often sleepers wake up for no reason, at most one thread
  has been granted a lock and not released it, and the server has the lock marked.
\<close>

theorem lock_mutual_exclusion:
  assumes "lock_reachable s" and "lid \<in> holds s t"
  shows "{w. lid \<in> holds s w} = {t} \<and> is_locked (srv s) lid"
  using reachable_lock_inv [OF assms(1)] assms(2)
  by (auto simp: lock_inv_def lock_marked_def lock_exclusive_def)

definition lock_example :: lock_sys where
  "lock_example = lock_sys_init\<lparr>srv := snd (acquire_enter 5 lock_server_init),
     holds := (\<lambda>_. {})(0 := {5})\<rparr>"

lemma lock_example_reachable: "lock_reachable lock_example"
proof (rule lock_next [OF lock_start])
  have "acquire_enter 5 (srv lock_sys_init) = (True, snd (acquire_enter 5 lock_server_init))"
    by (simp add: prod_eq_iff acquire_enter_verdict lock_sys_init_def)
  from lock_step.enter_granted [OF _ this, of 0]
  show "lock_step lock_sys_init lock_example"
    by (simp add: lock_example_def lock_sys_init_def)
qed

theorem lock_mutual_exclusion_witness:
  "lock_reachable lock_example \<and> 5 \<in> holds lock_example 0 \<and>
   {w. 5 \<in> holds lock_example w} = {0} \<and> is_locked (srv lock_example) 5"
proof -
  have h: "5 \<in> holds lock_example 0" by (simp add: lock_example_def)
  show ?thesis
    using h lock_example_reachable lock_mutual_exclusion [OF lock_example_reachable h] by simp
qed

text \<open>
  C3: no wake-up is lost.  Whenever a lock is free while a thread sleeps on it, some thread has
  been woken for it, and letting that thread run grants it the lock.
\<close>

theorem lock_no_lost_wakeup:
  assumes "lock_reachable s" and "\<not> is_locked (srv s) lid" and "thr s t = Waiting lid"
  shows "\<exists>w s'. thr s w = Woken lid \<and> lock_step s s' \<and> lid \<in> holds s' w \<and> thr s' w = Idle"
proof -
  obtain w where w: "thr s w = Woken lid"
    using reachable_lock_inv [OF assms(1)] assms(2,3) by (rule awakeD)
  have "acquire_recheck lid (srv s) = (True, snd (acquire_recheck lid (srv s)))"
    using assms(2) by (simp add: prod_eq_iff acquire_recheck_verdict)
  from lock_step.recheck_granted [OF w this] w show ?thesis by fastforce
qed

text \<open>Two threads ask for lock 5; the second sleeps; the first releases it and wakes both sleepers.\<close>

definition lock_example_wait :: lock_sys where
  "lock_example_wait = lock_example\<lparr>srv := snd (acquire_enter 5 (srv lock_example)),
     thr := (\<lambda>_. Idle)(1 := Waiting 5)\<rparr>"

definition lock_example_wait2 :: lock_sys where
  "lock_example_wait2 = lock_example_wait\<lparr>srv := snd (acquire_enter 5 (srv lock_example_wait)),
     thr := (\<lambda>_. Idle)(1 := Waiting 5, 2 := Waiting 5)\<rparr>"

definition lock_example_freed :: lock_sys where
  "lock_example_freed =
     lock_example_wait2\<lparr>srv := snd (snd (lock_server_release 0 5 (srv lock_example_wait2))),
       thr := (\<lambda>_. Idle)(1 := Woken 5, 2 := Waiting 5), holds := (\<lambda>_. {})\<rparr>"

lemma enter_waits_eq:
  "is_locked s lid \<Longrightarrow> acquire_enter lid s = (False, snd (acquire_enter lid s))"
  by (simp add: prod_eq_iff acquire_enter_verdict)

lemma lock_example_freed_reachable: "lock_reachable lock_example_freed"
proof -
  have l0: "is_locked (srv lock_example) 5"
    by (simp add: lock_example_def acquire_enter_locks)
  then have l1: "is_locked (srv lock_example_wait) 5"
    by (simp add: lock_example_wait_def acquire_enter_locks)
  have t0: "thr lock_example = (\<lambda>_. Idle)"
    by (simp add: lock_example_def lock_sys_init_def)
  have "lock_step lock_example lock_example_wait"
    using lock_step.enter_waits [OF _ enter_waits_eq [OF l0], of 1] t0
    by (simp add: lock_example_wait_def fun_upd_def)
  moreover have "lock_step lock_example_wait lock_example_wait2"
    using lock_step.enter_waits [OF _ enter_waits_eq [OF l1], of 2]
    by (simp add: lock_example_wait2_def) (simp add: lock_example_wait_def)
  moreover have "lock_step lock_example_wait2 lock_example_freed"
  proof -
    have h: "holds lock_example_wait2 = (\<lambda>_. {})(0 := {5})"
      by (simp add: lock_example_wait2_def lock_example_wait_def lock_example_def)
    have w: "thr lock_example_wait2 = (\<lambda>_. Idle)(1 := Waiting 5, 2 := Waiting 5)"
      by (simp add: lock_example_wait2_def)
    have "thr lock_example_freed = (\<lambda>w. if w \<in> {1} then Woken 5 else thr lock_example_wait2 w)"
      by (auto simp: lock_example_freed_def w)
    moreover have "holds lock_example_freed
        = (holds lock_example_wait2)(0 := holds lock_example_wait2 0 - {5})"
      by (auto simp: lock_example_freed_def h)
    moreover have "srv lock_example_freed
        = snd (snd (lock_server_release (int 0) 5 (srv lock_example_wait2)))"
      by (simp add: lock_example_freed_def)
    ultimately have "lock_example_freed = lock_example_wait2
        \<lparr>srv := snd (snd (lock_server_release (int 0) 5 (srv lock_example_wait2))),
         thr := (\<lambda>w. if w \<in> {1} then Woken 5 else thr lock_example_wait2 w),
         holds := (holds lock_example_wait2)(0 := holds lock_example_wait2 0 - {5})\<rparr>"
      by simp
    moreover have "lock_step lock_example_wait2 \<dots>"
      by (rule lock_step.release) (auto simp: w h)
    ultimately show ?thesis by simp
  qed
  ultimately show ?thesis
    by (blast intro: lock_next lock_example_reachable)
qed

theorem lock_no_lost_wakeup_witness:
  "lock_reachable lock_example_freed \<and> \<not> is_locked (srv lock_example_freed) 5 \<and>
   thr lock_example_freed 2 = Waiting 5 \<and>
   (\<exists>w s'. thr lock_example_freed w = Woken 5 \<and> lock_step lock_example_freed s' \<and>
      5 \<in> holds s' w \<and> thr s' w = Idle)"
proof -
  have free: "\<not> is_locked (srv lock_example_freed) 5"
    by (simp add: lock_example_freed_def)
  have wait: "thr lock_example_freed 2 = Waiting 5"
    by (simp add: lock_example_freed_def)
  show ?thesis
    using free wait lock_example_freed_reachable
      lock_no_lost_wakeup [OF lock_example_freed_reachable free wait] by simp
qed

end
