(* ===== verification/Dir_Format.thy ===== *)
theory Dir_Format
  imports Prelude
begin

text \<open>
  The directory format of \<open>yfs_client.cc\<close>: a directory's content is the string
  \<open>name1/inum1/name2/inum2/...\<close>.  The string routines the client uses on it (\<open>split\<close>, \<open>n2i\<close>,
  \<open>filename\<close>) and the theory of well-formed directory strings: how they parse, where a search
  for a name ends up, and what erasing an entry leaves.
\<close>

section \<open>The string routines\<close>

text \<open>
  \<open>split\<close> is the \<open>std::getline\<close> loop: as long as a character is left, the next item runs up to
  the delimiter, which is consumed; a trailing delimiter produces no empty item.
\<close>

function split :: "string \<Rightarrow> char \<Rightarrow> string list" where
  "split s delim =
     (if s = [] then []
      else takeWhile (\<lambda>c. c \<noteq> delim) s # split (drop 1 (dropWhile (\<lambda>c. c \<noteq> delim) s)) delim)"
  by pat_completeness auto
termination
proof (relation "measure (\<lambda>(s, delim). length s)", goal_cases)
  case (2 s delim)
  have "length (dropWhile (\<lambda>c. c \<noteq> delim) s) \<le> length s"
    by (rule length_dropWhile_le)
  moreover have "0 < length s" using 2 by simp
  ultimately have "length (dropWhile (\<lambda>c. c \<noteq> delim) s) - 1 < length s" by linarith
  then show ?case by simp
qed simp

declare split.simps [simp del]

definition is_digit :: "char \<Rightarrow> bool" where
  "is_digit c \<longleftrightarrow> 48 \<le> (of_char c :: nat) \<and> (of_char c :: nat) \<le> 57"

definition is_space :: "char \<Rightarrow> bool" where
  "is_space c \<longleftrightarrow> (of_char c :: nat) = 32 \<or> 9 \<le> (of_char c :: nat) \<and> (of_char c :: nat) \<le> 13"

definition digit_value :: "char \<Rightarrow> nat" where
  "digit_value c = of_char c - 48"

definition digits_value :: "string \<Rightarrow> nat" where
  "digits_value ds = foldl (\<lambda>a c. 10 * a + digit_value c) 0 ds"

text \<open>
  \<open>n2i\<close> is \<open>std::istringstream >> unsigned long long\<close>: leading white space is skipped, a sign is
  accepted (a minus sign negates modulo \<open>2^64\<close>), the longest run of digits is read, the largest
  value is stored on overflow and 0 where there is no digit.
\<close>

definition n2i :: "string \<Rightarrow> ull" where
  "n2i n =
     (let s = dropWhile is_space n;
          neg = (s \<noteq> [] \<and> hd s = CHR ''-'');
          s1 = (if s \<noteq> [] \<and> (hd s = CHR ''-'' \<or> hd s = CHR ''+'') then tl s else s);
          ds = takeWhile is_digit s1;
          v = digits_value ds
      in if ds = [] then 0
         else if 2 ^ 64 \<le> v then - 1
         else if neg then - of_nat v else of_nat v)"

text \<open>\<open>filename\<close> is \<open>std::ostringstream << unsigned long long\<close>: the decimal digits.\<close>

fun dec_digits :: "nat \<Rightarrow> string" where
  "dec_digits n =
     (if n < 10 then [char_of (48 + n)] else dec_digits (n div 10) @ [char_of (48 + n mod 10)])"

declare dec_digits.simps [simp del]

definition filename :: "ull \<Rightarrow> string" where
  "filename inum = dec_digits (unat inum)"

section \<open>Printing and reading inode numbers\<close>

lemma is_digit_digit: "d < 10 \<Longrightarrow> is_digit (char_of (48 + d :: nat))"
  by (simp add: is_digit_def)

lemma digit_value_digit: "d < 10 \<Longrightarrow> digit_value (char_of (48 + d :: nat)) = d"
  by (simp add: digit_value_def)

lemma dec_digits_all: "\<forall>c \<in> set (dec_digits n). is_digit c"
proof (induction n rule: dec_digits.induct)
  case (1 n)
  then show ?case
    by (subst dec_digits.simps) (auto simp: is_digit_digit)
qed

lemma dec_digits_nonempty: "dec_digits n \<noteq> []"
  by (subst dec_digits.simps) simp

lemma digits_value_dec: "digits_value (dec_digits n) = n"
proof (induction n rule: dec_digits.induct)
  case (1 n)
  then show ?case
    by (subst dec_digits.simps) (auto simp: digits_value_def digit_value_digit)
qed

lemma digit_not_special:
  assumes "is_digit c"
  shows "\<not> is_space c" "c \<noteq> CHR ''-''" "c \<noteq> CHR ''+''" "c \<noteq> CHR ''/''"
  using assms by (auto simp: is_digit_def is_space_def)

lemma filename_digits: "c \<in> set (filename i) \<Longrightarrow> is_digit c"
  using dec_digits_all by (auto simp: filename_def)

lemma filename_nonempty [simp]: "filename i \<noteq> []"
  by (simp add: filename_def dec_digits_nonempty)

lemma filename_no_slash [simp]: "CHR ''/'' \<notin> set (filename i)"
  using filename_digits digit_not_special(4) by blast

lemma n2i_filename [simp]: "n2i (filename i) = i"
proof -
  let ?f = "filename i"
  have d: "is_digit (hd ?f)" by (rule filename_digits [of _ i]) simp
  have "dropWhile is_space ?f = ?f"
    using digit_not_special(1) [OF d] by (cases ?f) auto
  moreover have tw: "takeWhile is_digit ?f = ?f"
    using filename_digits by (simp add: takeWhile_eq_all_conv)
  moreover have "digits_value ?f = unat i"
    by (simp add: filename_def digits_value_dec)
  moreover have "unat i < 2 ^ 64"
    using unsigned_less [of i] by simp
  ultimately show ?thesis
    using digit_not_special(2,3) [OF d] by (simp add: n2i_def Let_def tw del: takeWhile_eq_all_conv)
qed

lemma filename_inj [simp]: "filename i = filename j \<longleftrightarrow> i = j"
  by (metis n2i_filename)

section \<open>Directory strings\<close>

record dirent =
  de_name :: string
  de_inum :: ull

definition entry_str :: "dirent \<Rightarrow> string" where
  "entry_str e = de_name e @ ''/'' @ filename (de_inum e) @ ''/''"

definition dir_str :: "dirent list \<Rightarrow> string" where
  "dir_str es = concat (map entry_str es)"

definition dir_comps :: "dirent list \<Rightarrow> string list" where
  "dir_comps es = concat (map (\<lambda>e. [de_name e, filename (de_inum e)]) es)"

lemma dir_str_simps [simp]:
  "dir_str [] = []" "dir_str (e # es) = entry_str e @ dir_str es"
  "dir_str (xs @ ys) = dir_str xs @ dir_str ys"
  by (simp_all add: dir_str_def)

lemma dir_comps_simps [simp]:
  "dir_comps [] = []" "dir_comps (e # es) = de_name e # filename (de_inum e) # dir_comps es"
  "dir_comps (xs @ ys) = dir_comps xs @ dir_comps ys"
  by (simp_all add: dir_comps_def)

lemma split_Nil [simp]: "split [] d = []"
  by (simp add: split.simps)

lemma takeWhile_delim: "d \<notin> set c \<Longrightarrow> takeWhile (\<lambda>x. x \<noteq> d) (c @ d # rest) = c"
  by (induction c) auto

lemma dropWhile_delim: "d \<notin> set c \<Longrightarrow> dropWhile (\<lambda>x. x \<noteq> d) (c @ d # rest) = d # rest"
  by (induction c) auto

lemma split_delim [simp]: "d \<notin> set c \<Longrightarrow> split (c @ d # rest) d = c # split rest d"
  by (subst split.simps) (simp add: takeWhile_delim dropWhile_delim)

lemma split_dir_str:
  "\<forall>e \<in> set es. CHR ''/'' \<notin> set (de_name e) \<Longrightarrow> split (dir_str es) (CHR ''/'') = dir_comps es"
proof (induction es)
  case (Cons e es)
  then show ?case
    using split_delim [of "CHR ''/''" "de_name e" "filename (de_inum e) @ ''/'' @ dir_str es"]
      split_delim [of "CHR ''/''" "filename (de_inum e)" "dir_str es"]
    by (simp add: entry_str_def)
qed simp

definition valid_name :: "string \<Rightarrow> bool" where
  "valid_name n \<longleftrightarrow> n \<noteq> [] \<and> CHR ''/'' \<notin> set n"

text \<open>
  \<open>fresh n es\<close> is what the substring test of \<open>create\<close> establishes; \<open>dir_ok\<close> is a directory in which
  every name was fresh for the entries before it.
\<close>

definition fresh :: "string \<Rightarrow> dirent list \<Rightarrow> bool" where
  "fresh n es \<longleftrightarrow> (\<forall>e \<in> set es. \<not> sublist n (de_name e) \<and> \<not> sublist n (filename (de_inum e)))"

fun dir_ok_after :: "dirent list \<Rightarrow> dirent list \<Rightarrow> bool" where
  "dir_ok_after before [] = True"
| "dir_ok_after before (e # es) =
     (valid_name (de_name e) \<and> fresh (de_name e) before \<and> dir_ok_after (before @ [e]) es)"

definition dir_ok :: "dirent list \<Rightarrow> bool" where
  "dir_ok es = dir_ok_after [] es"

lemma fresh_append [simp]: "fresh n (xs @ ys) \<longleftrightarrow> fresh n xs \<and> fresh n ys"
  by (auto simp: fresh_def)

lemma fresh_mono: "fresh n ys \<Longrightarrow> set xs \<subseteq> set ys \<Longrightarrow> fresh n xs"
  by (auto simp: fresh_def)

lemma fresh_Nil [simp]: "fresh n []"
  by (simp add: fresh_def)

lemma dir_ok_after_append:
  "dir_ok_after b (xs @ ys) \<longleftrightarrow> dir_ok_after b xs \<and> dir_ok_after (b @ xs) ys"
  by (induction xs arbitrary: b) auto

lemma dir_ok_snoc [simp]:
  "dir_ok (es @ [e]) \<longleftrightarrow> dir_ok es \<and> valid_name (de_name e) \<and> fresh (de_name e) es"
  by (auto simp: dir_ok_def dir_ok_after_append)

lemma dir_ok_after_mono: "dir_ok_after b es \<Longrightarrow> set b' \<subseteq> set b \<Longrightarrow> dir_ok_after b' es"
proof (induction es arbitrary: b b')
  case (Cons e es)
  from Cons.prems have "dir_ok_after (b @ [e]) es" and "set (b' @ [e]) \<subseteq> set (b @ [e])"
    by auto
  then have "dir_ok_after (b' @ [e]) es" by (rule Cons.IH)
  with Cons.prems show ?case using fresh_mono by auto
qed simp

lemma dir_ok_delete: "dir_ok (xs @ e # ys) \<Longrightarrow> dir_ok (xs @ ys)"
  unfolding dir_ok_def dir_ok_after_append
  by (auto intro: dir_ok_after_mono)

lemma dir_ok_entry:
  assumes "dir_ok (xs @ e # ys)"
  shows "valid_name (de_name e)" "fresh (de_name e) xs"
  using assms by (auto simp: dir_ok_def dir_ok_after_append)

lemma dir_ok_after_valid: "dir_ok_after b es \<Longrightarrow> e \<in> set es \<Longrightarrow> valid_name (de_name e)"
  by (induction es arbitrary: b) auto

lemma dir_ok_valid: "dir_ok es \<Longrightarrow> e \<in> set es \<Longrightarrow> valid_name (de_name e)"
  by (auto simp: dir_ok_def intro: dir_ok_after_valid)

lemma split_dir: "dir_ok es \<Longrightarrow> split (dir_str es) (CHR ''/'') = dir_comps es"
  by (rule split_dir_str) (auto dest: dir_ok_valid simp: valid_name_def)

section \<open>Searching a directory string\<close>

lemma sublist_entry:
  assumes "valid_name n"
  shows "sublist n (entry_str e @ rest) \<longleftrightarrow>
    sublist n (de_name e) \<or> sublist n (filename (de_inum e)) \<or> sublist n rest"
  using assms sublist_delim [of "CHR ''/''" n "de_name e" "filename (de_inum e) @ ''/'' @ rest"]
    sublist_delim [of "CHR ''/''" n "filename (de_inum e)" rest]
  by (simp add: entry_str_def valid_name_def)

lemma sublist_dir_str: "valid_name n \<Longrightarrow> sublist n (dir_str es) \<longleftrightarrow> \<not> fresh n es"
  by (induction es) (auto simp: sublist_entry fresh_def valid_name_def)

text \<open>The test of \<open>create\<close>, \<open>buf.find(fname) != npos\<close>, decides freshness.\<close>

lemma find_dir_None_iff: "valid_name n \<Longrightarrow> str_find (dir_str es) n = None \<longleftrightarrow> fresh n es"
  by (simp add: str_find_None_iff sublist_dir_str)

lemma find_skip_entry:
  assumes "valid_name n" "\<not> sublist n (de_name e)" "\<not> sublist n (filename (de_inum e))"
  shows "str_find (entry_str e @ rest) n
    = map_option (\<lambda>p. length (entry_str e) + p) (str_find rest n)"
  using assms str_find_skip [of "CHR ''/''" n "de_name e" "filename (de_inum e) @ ''/'' @ rest"]
    str_find_skip [of "CHR ''/''" n "filename (de_inum e)" rest]
  by (cases "str_find rest n") (simp_all add: entry_str_def valid_name_def)

text \<open>In a well-formed directory the first occurrence of a name is the start of its own entry.\<close>

lemma find_dir_entry:
  assumes "valid_name (de_name e)" and "fresh (de_name e) xs"
  shows "str_find (dir_str (xs @ e # ys)) (de_name e) = Some (length (dir_str xs))"
  using assms(2)
proof (induction xs)
  case Nil
  have "prefix (de_name e) (entry_str e @ dir_str ys)" by (simp add: entry_str_def)
  then show ?case by (simp add: str_find_prefix)
next
  case (Cons x xs)
  then have "\<not> sublist (de_name e) (de_name x)" "\<not> sublist (de_name e) (filename (de_inum x))"
    "fresh (de_name e) xs" by (auto simp: fresh_def)
  then show ?case
    using Cons.IH find_skip_entry [OF assms(1), of x "dir_str (xs @ e # ys)"] by simp
qed

lemma comps_not_fresh: "n \<in> set (dir_comps es) \<Longrightarrow> \<not> fresh n es"
  by (auto simp: dir_comps_def fresh_def)

lemma iter_find_entry:
  assumes "fresh (de_name e) xs"
  shows "iter_find (de_name e) (dir_comps (xs @ e # ys))
    = de_name e # filename (de_inum e) # dir_comps ys"
  using assms comps_not_fresh by (auto simp: iter_find_append)

text \<open>Erasing \<open>name/inum/\<close> at that position removes exactly the entry.\<close>

lemma erase_entry:
  "str_erase (length (dir_str xs)) (length (entry_str e)) (dir_str (xs @ e # ys))
     = Some (dir_str (xs @ ys))"
  by (simp add: str_erase_def)

lemma entry_str_length:
  "length (entry_str e) = length (de_name e) + 1 + length (filename (de_inum e)) + 1"
  by (simp add: entry_str_def)

end
