(* ===== verification/Rpc_Const.thy ===== *)
theory Rpc_Const
  imports Prelude
begin

text \<open>
  The failure codes of the RPC library (\<open>rpc_const\<close> of \<open>rpc/rpc.h\<close>) and what can become of one
  call as far as its caller and the server can tell.
\<close>

datatype rpc_failure =
    Timeout_failure
  | Unmarshal_args_failure
  | Unmarshal_reply_failure
  | Atmostonce_failure
  | Oldsrv_failure
  | Bind_failure
  | Cancel_failure

fun rpc_failure_code :: "rpc_failure \<Rightarrow> int" where
  "rpc_failure_code Timeout_failure = - 1"
| "rpc_failure_code Unmarshal_args_failure = - 2"
| "rpc_failure_code Unmarshal_reply_failure = - 3"
| "rpc_failure_code Atmostonce_failure = - 4"
| "rpc_failure_code Oldsrv_failure = - 5"
| "rpc_failure_code Bind_failure = - 6"
| "rpc_failure_code Cancel_failure = - 7"

definition rpc_bind_proc :: int where
  "rpc_bind_proc = 1"

lemma rpc_failure_code_neg [simp]: "rpc_failure_code e < 0"
  by (cases e) simp_all

lemma rpc_failure_code_inj: "rpc_failure_code e = rpc_failure_code f \<longleftrightarrow> e = f"
  by (cases e; cases f) simp_all

text \<open>
  \<open>Delivered\<close>: the handler ran once and its reply reached the caller.  \<open>Request_lost\<close>: the handler
  did not run and the call failed.  \<open>Reply_lost\<close>: the handler ran and the call failed all the same.
\<close>

datatype rpc_fate = Delivered | Request_lost rpc_failure | Reply_lost rpc_failure

end
