(* ===== verification/Yfs_Client.thy ===== *)
theory Yfs_Client
  imports Extent_Server Lock_Server Dir_Format Rpc_Const
begin

text \<open>
  The file system client (\<open>yfs_client.h\<close>, \<open>yfs_client.cc\<close>) over the stubs of \<open>extent_client.cc\<close>,
  \<open>lock_client.cc\<close> and \<open>server_slock.h\<close>.  A \<open>world\<close> holds the two servers and the client's
  identity; every remote call consumes one entry of a script that says whether the call is
  delivered, what the server's clock reads and what indeterminate memory holds.  Each operation
  is a function on worlds whose result is an \<open>outcome\<close>: it returns a status, blocks on a lock,
  fails a \<open>VERIFY\<close>, raises \<open>std::out_of_range\<close>, or has no defined behaviour.
\<close>

section \<open>The world\<close>

record world =
  w_ext :: extent_server
  w_locks :: lock_server
  w_clt :: int
  w_uid :: uint
  w_gid :: uint
  w_key :: string
  w_script :: "nat \<Rightarrow> rpc_fate \<times> uint \<times> attr"
  w_rpcs :: nat

fun seq :: "'a outcome \<times> world \<Rightarrow> ('a \<Rightarrow> world \<Rightarrow> 'b outcome \<times> world) \<Rightarrow> 'b outcome \<times> world" where
  "seq (Ret x, w) f = f x w"
| "seq (Blocked, w) f = (Blocked, w)"
| "seq (Aborted, w) f = (Aborted, w)"
| "seq (Thrown, w) f = (Thrown, w)"
| "seq (Undef, w) f = (Undef, w)"

definition w_fate :: "world \<Rightarrow> rpc_fate" where
  "w_fate w = fst (w_script w (w_rpcs w))"

definition w_now :: "world \<Rightarrow> uint" where
  "w_now w = fst (snd (w_script w (w_rpcs w)))"

definition w_junk :: "world \<Rightarrow> attr" where
  "w_junk w = snd (snd (w_script w (w_rpcs w)))"

section \<open>The extent client's stubs\<close>

text \<open>
  \<open>cl->call(proc, args, r)\<close>: the reply is unmarshalled into \<open>r\<close> when the call returns a handler's
  status, and \<open>r\<close> keeps its value \<open>r0\<close> when the call fails.
\<close>

definition extent_call ::
  "(extent_server \<Rightarrow> extent_status \<times> 'r \<times> extent_server) \<Rightarrow> 'r \<Rightarrow> world \<Rightarrow> int \<times> 'r \<times> world" where
  "extent_call h r0 w =
     (let w1 = w\<lparr>w_rpcs := Suc (w_rpcs w)\<rparr>; (st, r, s) = h (w_ext w) in
      case w_fate w of
        Delivered \<Rightarrow> (extent_status_code st, r, w1\<lparr>w_ext := s\<rparr>)
      | Request_lost e \<Rightarrow> (rpc_failure_code e, r0, w1)
      | Reply_lost e \<Rightarrow> (rpc_failure_code e, r0, w1\<lparr>w_ext := s\<rparr>))"

definition extent_client_get :: "ull \<Rightarrow> string \<Rightarrow> world \<Rightarrow> int \<times> string \<times> world" where
  "extent_client_get eid buf w =
     extent_call (extent_server_get (w_now w) (w_junk w) eid (w_uid w) (w_key w) []) buf w"

definition extent_client_getattr :: "ull \<Rightarrow> attr \<Rightarrow> world \<Rightarrow> int \<times> attr \<times> world" where
  "extent_client_getattr eid a w =
     extent_call (extent_server_getattr (w_junk w) eid (w_uid w) (w_key w)) a w"

definition extent_client_setattr :: "ull \<Rightarrow> attr \<Rightarrow> world \<Rightarrow> int \<times> world" where
  "extent_client_setattr eid a w =
     (let (r, _, w1) = extent_call (\<lambda>s. let (st, s1) =
        extent_server_setattr (w_junk w) eid a (w_uid w) (w_key w) s in (st, (), s1)) () w
      in (r, w1))"

definition extent_client_put :: "ull \<Rightarrow> string \<Rightarrow> world \<Rightarrow> int \<times> world" where
  "extent_client_put eid buf w =
     (let (r, _, w1) = extent_call (\<lambda>s. let (st, s1) =
        extent_server_put (w_now w) (w_junk w) eid buf (w_uid w) (w_key w) s in (st, (), s1)) () w
      in (r, w1))"

definition extent_client_remove :: "ull \<Rightarrow> world \<Rightarrow> int \<times> world" where
  "extent_client_remove eid w =
     (let (r, _, w1) = extent_call (\<lambda>s. let (st, s1) =
        extent_server_remove eid (w_uid w) (w_key w) s in (st, (), s1)) () w
      in (r, w1))"

text \<open>
  The constructor registers the user; \<open>NOACCESS\<close> ends the process, any other result (a failed
  call too) is ignored.
\<close>

definition extent_client_init :: "world \<Rightarrow> bool \<times> world" where
  "extent_client_init w =
     (let (r, _, w1) = extent_call (\<lambda>s. let (st, s1) =
        extent_server_reg (w_uid w) (w_key w) s in (st, (), s1)) () w
      in (r \<noteq> extent_status_code E_NOACCESS, w1))"

section \<open>The lock client's stubs and the scoped lock\<close>

text \<open>\<open>VERIFY (ret == lock_protocol::OK)\<close>: a call that fails aborts the client.\<close>

definition lock_client_acquire :: "ull \<Rightarrow> world \<Rightarrow> int outcome \<times> world" where
  "lock_client_acquire lid w =
     (let w1 = w\<lparr>w_rpcs := Suc (w_rpcs w)\<rparr> in
      case w_fate w of
        Request_lost e \<Rightarrow> (Aborted, w1)
      | Reply_lost e \<Rightarrow>
          (case lock_server_acquire (w_clt w) lid (w_locks w) of
             None \<Rightarrow> (Aborted, w1)
           | Some (st, r, ls) \<Rightarrow> (Aborted, w1\<lparr>w_locks := ls\<rparr>))
      | Delivered \<Rightarrow>
          (case lock_server_acquire (w_clt w) lid (w_locks w) of
             None \<Rightarrow> (Blocked, w1)
           | Some (st, r, ls) \<Rightarrow>
               (if lock_status_code st = 0 then Ret r else Aborted, w1\<lparr>w_locks := ls\<rparr>)))"

definition lock_client_release :: "ull \<Rightarrow> world \<Rightarrow> int outcome \<times> world" where
  "lock_client_release lid w =
     (let w1 = w\<lparr>w_rpcs := Suc (w_rpcs w)\<rparr>;
          (st, r, ls) = lock_server_release (w_clt w) lid (w_locks w) in
      case w_fate w of
        Request_lost e \<Rightarrow> (Aborted, w1)
      | Reply_lost e \<Rightarrow> (Aborted, w1\<lparr>w_locks := ls\<rparr>)
      | Delivered \<Rightarrow>
          (if lock_status_code st = 0 then Ret r else Aborted, w1\<lparr>w_locks := ls\<rparr>))"

definition lock_client_stat :: "ull \<Rightarrow> world \<Rightarrow> int outcome \<times> world" where
  "lock_client_stat lid w =
     (let w1 = w\<lparr>w_rpcs := Suc (w_rpcs w)\<rparr>;
          (st, r, ls) = lock_server_stat (w_clt w) lid (w_locks w) in
      case w_fate w of
        Delivered \<Rightarrow> (if lock_status_code st = 0 then Ret r else Aborted, w1\<lparr>w_locks := ls\<rparr>)
      | _ \<Rightarrow> (Aborted, w1))"

text \<open>
  \<open>ServerScopedLock\<close>: the constructor acquires, the destructor releases when the scope is left by
  a return.  An exception nothing catches ends the process without a release.
\<close>

definition scoped :: "ull \<Rightarrow> (world \<Rightarrow> 'a outcome \<times> world) \<Rightarrow> world \<Rightarrow> 'a outcome \<times> world" where
  "scoped lid body w =
     seq (lock_client_acquire lid w) (\<lambda>_ w1.
     seq (body w1) (\<lambda>x w2.
     seq (lock_client_release lid w2) (\<lambda>_ w3. (Ret x, w3))))"

section \<open>Data of the file system client\<close>

datatype yfs_status = Y_OK | Y_RPCERR | Y_NOENT | Y_IOERR | Y_EXIST | Y_NOACCESS

record fileinfo =
  fi_size :: ull
  fi_atime :: ull
  fi_mtime :: ull
  fi_ctime :: ull
  fi_mode :: ull
  fi_uid :: ull
  fi_gid :: ull

record dirinfo =
  di_atime :: ull
  di_mtime :: ull
  di_ctime :: ull
  di_mode :: ull
  di_uid :: ull
  di_gid :: ull

definition isfile :: "ull \<Rightarrow> bool" where
  "isfile inum \<longleftrightarrow> inum AND 0x80000000 \<noteq> 0"

definition isdir :: "ull \<Rightarrow> bool" where
  "isdir inum \<longleftrightarrow> \<not> isfile inum"

section \<open>Attributes\<close>

definition yfs_getfile :: "ull \<Rightarrow> fileinfo \<Rightarrow> world \<Rightarrow> (yfs_status \<times> fileinfo) outcome \<times> world" where
  "yfs_getfile inum fin = scoped inum (\<lambda>w.
     let (r, a, w1) = extent_client_getattr inum (w_junk w) w in
     if r = extent_status_code E_NOENT then (Ret (Y_NOENT, fin), w1)
     else (Ret (Y_OK, \<lparr>fi_size = ucast (attr_size a), fi_atime = ucast (attr_atime a),
        fi_mtime = ucast (attr_mtime a), fi_ctime = ucast (attr_ctime a),
        fi_mode = ucast (attr_mode a), fi_uid = ucast (attr_uid a),
        fi_gid = ucast (attr_gid a)\<rparr>), w1))"

definition yfs_getdir :: "ull \<Rightarrow> dirinfo \<Rightarrow> world \<Rightarrow> (yfs_status \<times> dirinfo) outcome \<times> world" where
  "yfs_getdir inum din = scoped inum (\<lambda>w.
     let (r, a, w1) = extent_client_getattr inum (w_junk w) w in
     if r = extent_status_code E_NOENT then (Ret (Y_NOENT, din), w1)
     else (Ret (Y_OK, \<lparr>di_atime = ucast (attr_atime a), di_mtime = ucast (attr_mtime a),
        di_ctime = ucast (attr_ctime a), di_mode = ucast (attr_mode a),
        di_uid = ucast (attr_uid a), di_gid = ucast (attr_gid a)\<rparr>), w1))"

text \<open>
  \<open>chmod\<close>, \<open>chuid\<close> and \<open>chgid\<close> are one body around the assignment of a field: only \<open>NOENT\<close> of
  \<open>getattr\<close> and \<open>NOACCESS\<close> of \<open>setattr\<close> are looked at.
\<close>

definition change_attr :: "ull \<Rightarrow> (attr \<Rightarrow> attr) \<Rightarrow> world \<Rightarrow> yfs_status outcome \<times> world" where
  "change_attr fnum f = scoped fnum (\<lambda>w.
     let (r, a, w1) = extent_client_getattr fnum (w_junk w) w in
     if r = extent_status_code E_NOENT then (Ret Y_NOENT, w1)
     else let (r2, w2) = extent_client_setattr fnum (f a) w1 in
       if r2 = extent_status_code E_NOACCESS then (Ret Y_NOACCESS, w2) else (Ret Y_OK, w2))"

definition yfs_chmod :: "ull \<Rightarrow> ull \<Rightarrow> world \<Rightarrow> yfs_status outcome \<times> world" where
  "yfs_chmod fnum mode = change_attr fnum (\<lambda>a. a\<lparr>attr_mode := ucast mode\<rparr>)"

definition yfs_chuid :: "ull \<Rightarrow> ull \<Rightarrow> world \<Rightarrow> yfs_status outcome \<times> world" where
  "yfs_chuid fnum uid = change_attr fnum (\<lambda>a. a\<lparr>attr_uid := ucast uid\<rparr>)"

definition yfs_chgid :: "ull \<Rightarrow> ull \<Rightarrow> world \<Rightarrow> yfs_status outcome \<times> world" where
  "yfs_chgid fnum gid = change_attr fnum (\<lambda>a. a\<lparr>attr_gid := ucast gid\<rparr>)"

section \<open>Directories\<close>

definition yfs_lookup :: "ull \<Rightarrow> string \<Rightarrow> ull \<Rightarrow> world \<Rightarrow> (yfs_status \<times> ull) outcome \<times> world" where
  "yfs_lookup pnum fname fnum = scoped pnum (\<lambda>w.
     let (r, buf, w1) = extent_client_get pnum [] w in
     if r = extent_status_code E_NOENT then (Ret (Y_IOERR, fnum), w1)
     else if r = extent_status_code E_NOACCESS then (Ret (Y_NOACCESS, fnum), w1)
     else case iter_find fname (split buf (CHR ''/'')) of
       [] \<Rightarrow> (Ret (Y_NOENT, 0), w1)
     | [it] \<Rightarrow> (Undef, w1)
     | it # next_it # _ \<Rightarrow> (Ret (Y_OK, n2i next_it), w1))"

text \<open>\<open>create\<close> holds the locks of the directory and of the new file around all of its work.\<close>

definition create_body :: "ull \<Rightarrow> ull \<Rightarrow> string \<Rightarrow> uint \<Rightarrow> world \<Rightarrow> yfs_status outcome \<times> world" where
  "create_body pnum fnum fname mode w =
     (let (r, buf, w1) = extent_client_get pnum [] w in
      if r = extent_status_code E_NOENT then (Ret Y_IOERR, w1)
      else if r = extent_status_code E_NOACCESS then (Ret Y_NOACCESS, w1)
      else if str_find buf fname \<noteq> None then (Ret Y_EXIST, w1)
      else let (r2, w2) = extent_client_put pnum (buf @ fname @ ''/'' @ filename fnum @ ''/'') w1 in
        if r2 = extent_status_code E_NOACCESS then (Ret Y_NOACCESS, w2)
        else let (r3, w3) = extent_client_put fnum [] w2 in
          if r3 = extent_status_code E_NOACCESS then (Ret Y_NOACCESS, w3)
          else let (r4, a, w4) = extent_client_getattr fnum (w_junk w3) w3;
                   (r5, w5) = extent_client_setattr fnum
                     (a\<lparr>attr_mode := mode, attr_uid := w_uid w4, attr_gid := w_gid w4\<rparr>) w4 in
            if r5 = extent_status_code E_NOACCESS then (Ret Y_NOACCESS, w5) else (Ret Y_OK, w5))"

definition yfs_create :: "ull \<Rightarrow> ull \<Rightarrow> string \<Rightarrow> uint \<Rightarrow> world \<Rightarrow> yfs_status outcome \<times> world" where
  "yfs_create pnum fnum fname mode = scoped pnum (scoped fnum (create_body pnum fnum fname mode))"

text \<open>The loop over the components, two at a time; an odd number dereferences the end iterator.\<close>

fun pair_up :: "string list \<Rightarrow> dirent list outcome" where
  "pair_up [] = Ret []"
| "pair_up [name] = Undef"
| "pair_up (name # num # rest) =
     (case pair_up rest of
        Ret es \<Rightarrow> Ret (\<lparr>de_name = name, de_inum = n2i num\<rparr> # es)
      | other \<Rightarrow> other)"

definition yfs_readdir ::
  "ull \<Rightarrow> dirent list \<Rightarrow> world \<Rightarrow> (yfs_status \<times> dirent list) outcome \<times> world" where
  "yfs_readdir num dirents = scoped num (\<lambda>w.
     let (r, buf, w1) = extent_client_get num [] w in
     if r = extent_status_code E_NOENT then (Ret (Y_IOERR, dirents), w1)
     else if r = extent_status_code E_NOACCESS then (Ret (Y_NOACCESS, dirents), w1)
     else seq (pair_up (split buf (CHR ''/'')), w1) (\<lambda>es w2. (Ret (Y_OK, dirents @ es), w2)))"

definition unlink_body :: "ull \<Rightarrow> string \<Rightarrow> world \<Rightarrow> yfs_status outcome \<times> world" where
  "unlink_body pnum fname w =
     (let (r, buf, w1) = extent_client_get pnum [] w in
      if r = extent_status_code E_NOENT then (Ret Y_NOENT, w1)
      else if r = extent_status_code E_NOACCESS then (Ret Y_NOACCESS, w1)
      else case iter_find fname (split buf (CHR ''/'')) of
        [] \<Rightarrow> (Ret Y_NOENT, w1)
      | [it] \<Rightarrow> (Undef, w1)
      | it # fnum_str # _ \<Rightarrow>
          (let npos = length fname + 1 + length fnum_str + 1 in
           case (case str_find buf fname of None \<Rightarrow> None | Some pos \<Rightarrow> str_erase pos npos buf) of
             None \<Rightarrow> (Thrown, w1)
           | Some buf' \<Rightarrow>
               let (r2, w2) = extent_client_put pnum buf' w1 in
               if r2 = extent_status_code E_NOACCESS then (Ret Y_NOACCESS, w2)
               else scoped (n2i fnum_str) (\<lambda>w3.
                 let (r4, w4) = extent_client_remove (n2i fnum_str) w3 in
                 if r4 = extent_status_code E_NOACCESS then (Ret Y_NOACCESS, w4)
                 else (Ret Y_OK, w4)) w2))"

definition yfs_unlink :: "ull \<Rightarrow> string \<Rightarrow> world \<Rightarrow> yfs_status outcome \<times> world" where
  "yfs_unlink pnum fname = scoped pnum (unlink_body pnum fname)"

section \<open>File contents\<close>

text \<open>\<open>(int) size\<close> keeps the low 32 bits and reads them as a signed number.\<close>

definition cast_int :: "nat \<Rightarrow> int" where
  "cast_int n = sint (of_nat n :: 32 word)"

text \<open>
  The new content \<open>write\<close> computes; \<open>None\<close> when the library raises an exception (a negative
  offset, or a gap computed as a huge unsigned number).
\<close>

definition write_content :: "int \<Rightarrow> string \<Rightarrow> string \<Rightarrow> string option" where
  "write_content off buf content =
     (let csize = length content in
      if off < cast_int csize
      then (if off < 0 then None else str_replace (nat off) (length buf) buf content)
      else if off < int csize then None
      else Some (content @ replicate (nat (off - int csize)) (CHR 0x00) @ buf))"

definition yfs_write :: "ull \<Rightarrow> int \<Rightarrow> string \<Rightarrow> world \<Rightarrow> yfs_status outcome \<times> world" where
  "yfs_write num off buf = scoped num (\<lambda>w.
     let (r, content, w1) = extent_client_get num [] w in
     if r = extent_status_code E_NOENT then (Ret Y_NOENT, w1)
     else if r = extent_status_code E_NOACCESS then (Ret Y_NOACCESS, w1)
     else case write_content off buf content of
       None \<Rightarrow> (Thrown, w1)
     | Some content' \<Rightarrow>
         let (r2, w2) = extent_client_put num content' w1 in
         if r2 = extent_status_code E_NOACCESS then (Ret Y_NOACCESS, w2) else (Ret Y_OK, w2))"

text \<open>\<open>buf.replace(0, size, content, off, size)\<close>.\<close>

definition yfs_read ::
  "ull \<Rightarrow> int \<Rightarrow> nat \<Rightarrow> string \<Rightarrow> world \<Rightarrow> (yfs_status \<times> string) outcome \<times> world" where
  "yfs_read num off sz buf = scoped num (\<lambda>w.
     let (r, content, w1) = extent_client_get num [] w in
     if r = extent_status_code E_NOENT then (Ret (Y_NOENT, buf), w1)
     else if r = extent_status_code E_NOACCESS then (Ret (Y_NOACCESS, buf), w1)
     else case (if off < 0 then None else str_substr (nat off) sz content) of
       None \<Rightarrow> (Thrown, w1)
     | Some part \<Rightarrow> (Ret (Y_OK, part @ drop sz buf), w1))"

text \<open>
  \<open>truncate\<close> is given the number of bytes to cut off; cutting more than there are wraps around
  and the library raises \<open>std::out_of_range\<close>.
\<close>

definition yfs_truncate :: "ull \<Rightarrow> nat \<Rightarrow> world \<Rightarrow> yfs_status outcome \<times> world" where
  "yfs_truncate num sz = scoped num (\<lambda>w.
     let (r, content, w1) = extent_client_get num [] w in
     if r = extent_status_code E_NOENT then (Ret Y_NOENT, w1)
     else if r = extent_status_code E_NOACCESS then (Ret Y_NOACCESS, w1)
     else if length content < sz then (Thrown, w1)
     else case str_erase_from (length content - sz) content of
       None \<Rightarrow> (Thrown, w1)
     | Some content' \<Rightarrow>
         let (r2, w2) = extent_client_put num content' w1 in
         if r2 = extent_status_code E_NOACCESS then (Ret Y_NOACCESS, w2) else (Ret Y_OK, w2))"

section \<open>Worlds in which calls are delivered\<close>

definition reliable :: "world \<Rightarrow> bool" where
  "reliable w \<longleftrightarrow> (\<forall>n. fst (w_script w n) = Delivered)"

definition w_ok :: "world \<Rightarrow> bool" where
  "w_ok w \<longleftrightarrow> reliable w \<and> store_consistent (w_ext w)"

definition w_contents :: "world \<Rightarrow> ull \<Rightarrow> string option" where
  "w_contents w = contents (w_ext w)"

definition w_readable :: "world \<Rightarrow> ull \<Rightarrow> bool" where
  "w_readable w i = may_read (w_ext w) i (w_uid w) (w_key w)"

definition w_writable :: "world \<Rightarrow> ull \<Rightarrow> bool" where
  "w_writable w i = may_write (w_ext w) i (w_uid w) (w_key w)"

definition w_locked :: "world \<Rightarrow> ull \<Rightarrow> bool" where
  "w_locked w = is_locked (w_locks w)"

text \<open>What a remote call keeps: the client's identity, the script, and, for extents, the locks.\<close>

definition same_client :: "world \<Rightarrow> world \<Rightarrow> bool" where
  "same_client w w' \<longleftrightarrow> w_clt w' = w_clt w \<and> w_uid w' = w_uid w \<and> w_gid w' = w_gid w \<and>
     w_key w' = w_key w \<and> w_script w' = w_script w"

lemma same_client_refl [simp]: "same_client w w"
  by (simp add: same_client_def)

lemma same_client_trans: "same_client u v \<Longrightarrow> same_client v w \<Longrightarrow> same_client u w"
  by (simp add: same_client_def)

lemma reliable_fate: "reliable w \<Longrightarrow> w_fate w = Delivered"
  by (simp add: reliable_def w_fate_def)

lemma same_client_reliable: "same_client w w' \<Longrightarrow> reliable w' = reliable w"
  by (simp add: same_client_def reliable_def)

lemma extent_call_reliable:
  assumes "reliable w" and "h (w_ext w) = (st, r, s)"
  shows "extent_call h r0 w
    = (extent_status_code st, r, w\<lparr>w_rpcs := Suc (w_rpcs w), w_ext := s\<rparr>)"
  using assms by (simp add: extent_call_def reliable_fate)

lemma extent_call_frame:
  assumes "extent_call h r0 w = (r, x, w')"
  shows "same_client w w' \<and> w_locks w' = w_locks w"
  using assms
  by (auto simp: extent_call_def same_client_def Let_def split: prod.splits rpc_fate.splits)

lemma extent_client_frame:
  "extent_client_get i buf w = (r, c, w') \<Longrightarrow> same_client w w' \<and> w_locks w' = w_locks w"
  "extent_client_getattr i a w = (r, a', w') \<Longrightarrow> same_client w w' \<and> w_locks w' = w_locks w"
  "extent_client_put i c w = (r, w') \<Longrightarrow> same_client w w' \<and> w_locks w' = w_locks w"
  "extent_client_setattr i a w = (r, w') \<Longrightarrow> same_client w w' \<and> w_locks w' = w_locks w"
  "extent_client_remove i w = (r, w') \<Longrightarrow> same_client w w' \<and> w_locks w' = w_locks w"
  by (auto simp: extent_client_get_def extent_client_getattr_def extent_client_put_def
      extent_client_setattr_def extent_client_remove_def dest!: extent_call_frame
      split: prod.splits)

lemma get_reliable:
  assumes "reliable w"
    and "extent_server_get (w_now w) (w_junk w) i (w_uid w) (w_key w) [] (w_ext w) = (st, c, s)"
  shows "extent_client_get i buf w
    = (extent_status_code st, c, w\<lparr>w_rpcs := Suc (w_rpcs w), w_ext := s\<rparr>)"
  using extent_call_reliable [OF assms(1), of "extent_server_get (w_now w) (w_junk w) i (w_uid w)
    (w_key w) []"] assms(2) by (simp add: extent_client_get_def)

lemma put_reliable:
  assumes "reliable w"
    and "extent_server_put (w_now w) (w_junk w) i c (w_uid w) (w_key w) (w_ext w) = (st, s)"
  shows "extent_client_put i c w
    = (extent_status_code st, w\<lparr>w_rpcs := Suc (w_rpcs w), w_ext := s\<rparr>)"
  using assms by (simp add: extent_client_put_def extent_call_reliable)

lemma remove_reliable:
  assumes "reliable w" and "extent_server_remove i (w_uid w) (w_key w) (w_ext w) = (st, s)"
  shows "extent_client_remove i w
    = (extent_status_code st, w\<lparr>w_rpcs := Suc (w_rpcs w), w_ext := s\<rparr>)"
  using assms by (simp add: extent_client_remove_def extent_call_reliable)

lemma status_code_eq [simp]: "extent_status_code a = extent_status_code b \<longleftrightarrow> a = b"
  by (cases a; cases b) simp_all

text \<open>
  The stubs of a client with a reliable network meet the contract of an extent store: its laws for
  the server carry over to the whole path of stub, call and handler.
\<close>

lemmas w_defs = w_ok_def w_contents_def w_readable_def w_writable_def

lemma reliable_upd [simp]:
  "reliable (w\<lparr>w_rpcs := n, w_ext := s\<rparr>) = reliable w"
  "reliable (w\<lparr>w_rpcs := n, w_locks := l\<rparr>) = reliable w"
  by (simp_all add: reliable_def)

interpretation ec: extent_store w_ok w_contents w_readable w_writable
    "extent_status_code E_OK" "extent_status_code E_NOENT" "extent_status_code E_NOACCESS"
    "\<lambda>i. extent_client_get i []" extent_client_put extent_client_remove
proof
  fix w w' :: world and i and c :: string and r
  assume ok: "w_ok w"
  then have rel: "reliable w" and con: "store_consistent (w_ext w)"
    by (simp_all add: w_ok_def)
  obtain st d s where g: "extent_server_get (w_now w) (w_junk w) i (w_uid w) (w_key w) [] (w_ext w)
      = (st, d, s)"
    by (metis prod_cases3)
  note get = get_reliable [OF rel g]
  show "w_ok w' \<and> w_contents w' = w_contents w \<and> w_readable w' = w_readable w \<and>
      w_writable w' = w_writable w"
    if "extent_client_get i [] w = (r, c, w')"
    using that get es.fetch_keeps [OF con g] rel by (auto simp: w_defs fun_eq_iff)
  show "r = (if \<not> w_readable w i then extent_status_code E_NOACCESS
       else if w_contents w i = None then extent_status_code E_NOENT else extent_status_code E_OK)"
    if "extent_client_get i [] w = (r, c, w')"
    using that get es.fetch_status [OF con g] by (auto simp: w_defs)
  show "w_contents w i = Some c" if "extent_client_get i [] w = (extent_status_code E_OK, c, w')"
    using that get es.fetch_value [OF con] g by (auto simp: w_defs simp del: extent_status_code.simps)
  obtain st2 s2 where p: "extent_server_put (w_now w) (w_junk w) i c (w_uid w) (w_key w) (w_ext w)
      = (st2, s2)"
    by (metis prod.exhaust)
  note put = put_reliable [OF rel p]
  show "w_ok w' \<and> w_readable w' = w_readable w \<and> w_writable w' = w_writable w"
    if "extent_client_put i c w = (r, w')"
    using that put es.store_keeps [OF con p] rel by (auto simp: w_defs fun_eq_iff)
  show "r = (if w_writable w i then extent_status_code E_OK else extent_status_code E_NOACCESS)"
    if "extent_client_put i c w = (r, w')"
    using that put es.store_status [OF con p] by (auto simp: w_defs)
  show "w_contents w' = (if w_writable w i then (w_contents w)(i \<mapsto> c) else w_contents w)"
    if "extent_client_put i c w = (r, w')"
    using that put es.store_content [OF con p] by (auto simp: w_defs)
  obtain st3 s3 where e: "extent_server_remove i (w_uid w) (w_key w) (w_ext w) = (st3, s3)"
    by (metis prod.exhaust)
  note rem = remove_reliable [OF rel e]
  show "w_ok w'" if "extent_client_remove i w = (r, w')"
    using that rem es.erase_ok [OF con e] rel by (auto simp: w_defs)
  show "r = (if \<not> w_writable w i then extent_status_code E_NOACCESS
       else if w_contents w i = None then extent_status_code E_NOENT else extent_status_code E_OK)"
    if "extent_client_remove i w = (r, w')"
    using that rem es.erase_status [OF con e] by (auto simp: w_defs)
  show "w_contents w' = (if w_writable w i then (w_contents w)(i := None) else w_contents w)"
    if "extent_client_remove i w = (r, w')"
    using that rem es.erase_content [OF con e] by (auto simp: w_defs)
qed simp_all

section \<open>Operations that achieve a result\<close>

text \<open>
  \<open>achieves op w Q\<close>: started in \<open>w\<close> the operation returns, every lock is as before, the client is the
  same, and the result and the extent server satisfy \<open>Q\<close>.
\<close>

definition achieves ::
  "(world \<Rightarrow> 'a outcome \<times> world) \<Rightarrow> world \<Rightarrow> ('a \<Rightarrow> extent_server \<Rightarrow> bool) \<Rightarrow> bool" where
  "achieves op w Q \<longleftrightarrow>
     (\<exists>x w'. op w = (Ret x, w') \<and> same_client w w' \<and> w_locked w' = w_locked w \<and> Q x (w_ext w'))"

lemma achievesI:
  "op w = (Ret x, w') \<Longrightarrow> same_client w w' \<Longrightarrow> w_locked w' = w_locked w \<Longrightarrow> Q x (w_ext w') \<Longrightarrow>
   achieves op w Q"
  by (auto simp: achieves_def)

lemma achieves_mono: "achieves op w Q \<Longrightarrow> (\<And>x s. Q x s \<Longrightarrow> R x s) \<Longrightarrow> achieves op w R"
  by (auto simp: achieves_def)

lemma lock_client_acquire_free:
  assumes "reliable w" and "\<not> w_locked w lid"
  obtains r ls where "lock_client_acquire lid w = (Ret r, w\<lparr>w_rpcs := Suc (w_rpcs w), w_locks := ls\<rparr>)"
    and "lock_take (w_clt w) lid (w_locks w) = Some ls"
proof -
  obtain ls where "lock_take (w_clt w) lid (w_locks w) = Some ls"
    using lsrv.acq_free assms(2) unfolding w_locked_def by blast
  moreover from this obtain r where
    "lock_server_acquire (w_clt w) lid (w_locks w) = Some (L_OK, r, ls)"
    by (auto simp: lock_take_def lock_server_acquire_def case_prod_beta split: if_splits)
  ultimately show thesis
    using that assms(1) by (simp add: lock_client_acquire_def reliable_fate)
qed

lemma lock_client_release_reliable:
  "reliable w \<Longrightarrow> lock_client_release lid w = (Ret (nacquire (w_locks w)),
     w\<lparr>w_rpcs := Suc (w_rpcs w), w_locks := lock_drop (w_clt w) lid (w_locks w)\<rparr>)"
  by (simp add: lock_client_release_def reliable_fate lock_server_release_def lock_drop_def)

lemma lock_client_acquire_taken:
  assumes "reliable w" and "w_locked w lid"
  shows "lock_client_acquire lid w = (Blocked, w\<lparr>w_rpcs := Suc (w_rpcs w)\<rparr>)"
proof -
  have "lock_take (w_clt w) lid (w_locks w) = None"
    using assms(2) lsrv.acq_None_iff by (simp add: w_locked_def)
  then show ?thesis
    using assms(1) by (auto simp: lock_client_acquire_def reliable_fate lock_take_def)
qed

lemma achieves_scoped:
  assumes rel: "reliable w" and free: "\<not> w_locked w lid"
    and body: "\<And>w1. w_ext w1 = w_ext w \<Longrightarrow> same_client w w1 \<Longrightarrow>
      w_locked w1 = (w_locked w)(lid := True) \<Longrightarrow> achieves body w1 Q"
  shows "achieves (scoped lid body) w Q"
proof -
  obtain r ls where acq: "lock_client_acquire lid w
      = (Ret r, w\<lparr>w_rpcs := Suc (w_rpcs w), w_locks := ls\<rparr>)"
    and take: "lock_take (w_clt w) lid (w_locks w) = Some ls"
    using rel free by (rule lock_client_acquire_free)
  let ?w1 = "w\<lparr>w_rpcs := Suc (w_rpcs w), w_locks := ls\<rparr>"
  have c1: "same_client w ?w1" by (simp add: same_client_def)
  have "achieves body ?w1 Q"
    using lsrv.acq_held [OF take] by (intro body) (simp_all add: c1 w_locked_def)
  then obtain x w2 where b: "body ?w1 = (Ret x, w2)" "same_client ?w1 w2"
    "w_locked w2 = w_locked ?w1" "Q x (w_ext w2)"
    by (auto simp: achieves_def)
  have c2: "same_client w w2" using c1 b(2) by (rule same_client_trans)
  let ?w3 = "w2\<lparr>w_rpcs := Suc (w_rpcs w2), w_locks := lock_drop (w_clt w2) lid (w_locks w2)\<rparr>"
  have "scoped lid body w = (Ret x, ?w3)"
    using same_client_reliable [OF c2] rel
    by (simp add: scoped_def acq b(1) lock_client_release_reliable)
  moreover have "w_locked ?w3 = w_locked w"
    using lsrv.scoped_balance [OF take, of "w_locks w2"] b(3) c2
    by (simp add: w_locked_def same_client_def)
  moreover have "same_client w ?w3" using c2 by (simp add: same_client_def)
  ultimately show ?thesis using b(4) by (auto intro: achievesI)
qed

text \<open>A lock the client itself or anybody else already holds blocks the operation.\<close>

lemma scoped_blocked:
  assumes "reliable w" and "w_locked w lid"
  shows "fst (scoped lid body w) = Blocked"
  using lock_client_acquire_taken [OF assms] by (simp add: scoped_def)

section \<open>Reading and updating one extent\<close>

text \<open>
  \<open>lookup\<close>, \<open>readdir\<close> and \<open>read\<close> fetch one extent under its lock and compute a result from it;
  \<open>write\<close> and \<open>truncate\<close> fetch it and store a function of it.
\<close>

definition read_extent ::
  "ull \<Rightarrow> 'a \<Rightarrow> 'a \<Rightarrow> (string \<Rightarrow> 'a outcome) \<Rightarrow> world \<Rightarrow> 'a outcome \<times> world" where
  "read_extent num noent noaccess g = scoped num (\<lambda>w.
     let (r, buf, w1) = extent_client_get num [] w in
     if r = extent_status_code E_NOENT then (Ret noent, w1)
     else if r = extent_status_code E_NOACCESS then (Ret noaccess, w1)
     else (g buf, w1))"

definition update_extent ::
  "ull \<Rightarrow> (string \<Rightarrow> string option) \<Rightarrow> world \<Rightarrow> yfs_status outcome \<times> world" where
  "update_extent num f = scoped num (\<lambda>w.
     let (r, content, w1) = extent_client_get num [] w in
     if r = extent_status_code E_NOENT then (Ret Y_NOENT, w1)
     else if r = extent_status_code E_NOACCESS then (Ret Y_NOACCESS, w1)
     else case f content of
       None \<Rightarrow> (Thrown, w1)
     | Some content' \<Rightarrow>
         let (r2, w2) = extent_client_put num content' w1 in
         if r2 = extent_status_code E_NOACCESS then (Ret Y_NOACCESS, w2) else (Ret Y_OK, w2))"

definition truncate_content :: "nat \<Rightarrow> string \<Rightarrow> string option" where
  "truncate_content sz content =
     (if length content < sz then None else str_erase_from (length content - sz) content)"

lemma yfs_write_eq: "yfs_write num off buf = update_extent num (write_content off buf)"
  by (simp add: yfs_write_def update_extent_def)

lemma yfs_truncate_eq: "yfs_truncate num sz = update_extent num (truncate_content sz)"
  by (auto simp: yfs_truncate_def update_extent_def truncate_content_def Let_def fun_eq_iff
      intro!: arg_cong2 [where f = "scoped num"] split: prod.splits option.splits)

lemma yfs_read_eq:
  "yfs_read num off sz buf = read_extent num (Y_NOENT, buf) (Y_NOACCESS, buf)
     (\<lambda>content. case (if off < 0 then None else str_substr (nat off) sz content) of
        None \<Rightarrow> Thrown | Some part \<Rightarrow> Ret (Y_OK, part @ drop sz buf))"
  unfolding yfs_read_def read_extent_def
  by (rule arg_cong [where f = "scoped num"]) (auto simp: fun_eq_iff split: prod.splits option.splits)

lemma yfs_lookup_eq:
  "yfs_lookup pnum fname fnum = read_extent pnum (Y_IOERR, fnum) (Y_NOACCESS, fnum)
     (\<lambda>buf. case iter_find fname (split buf (CHR ''/'')) of
        [] \<Rightarrow> Ret (Y_NOENT, 0) | [it] \<Rightarrow> Undef | it # n # _ \<Rightarrow> Ret (Y_OK, n2i n))"
  unfolding yfs_lookup_def read_extent_def
  by (rule arg_cong [where f = "scoped pnum"]) (auto simp: fun_eq_iff split: prod.splits list.splits)

lemma yfs_readdir_eq:
  "yfs_readdir num dirents = read_extent num (Y_IOERR, dirents) (Y_NOACCESS, dirents)
     (\<lambda>buf. case pair_up (split buf (CHR ''/'')) of
        Ret es \<Rightarrow> Ret (Y_OK, dirents @ es) | Blocked \<Rightarrow> Blocked | Aborted \<Rightarrow> Aborted
      | Thrown \<Rightarrow> Thrown | Undef \<Rightarrow> Undef)"
  unfolding yfs_readdir_def read_extent_def
  by (rule arg_cong [where f = "scoped num"]) (auto simp: fun_eq_iff split: prod.splits outcome.splits)

text \<open>
  \<open>stored w m s\<close>: the extent server now holds the contents \<open>m\<close>, consistently, and the client of
  \<open>w\<close> has the rights it had in \<open>w\<close>.
\<close>

definition stored :: "world \<Rightarrow> (ull \<rightharpoonup> string) \<Rightarrow> extent_server \<Rightarrow> bool" where
  "stored w m s \<longleftrightarrow> contents s = m \<and> store_consistent s \<and>
     (\<forall>j. may_read s j (w_uid w) (w_key w) = w_readable w j) \<and>
     (\<forall>j. may_write s j (w_uid w) (w_key w) = w_writable w j)"

lemma stored_same:
  assumes "w_ok w" and "w_ext v = w_ext w"
  shows "stored w (w_contents w) (w_ext v)"
  using assms by (simp add: stored_def w_defs)

lemma w_ok_reliable: "w_ok w \<Longrightarrow> reliable w"
  by (simp add: w_ok_def)

text \<open>The world-level reading of \<open>stored\<close>, both ways.\<close>

lemma stored_iff:
  assumes "reliable w" and "same_client w v"
  shows "stored w m (w_ext v) \<longleftrightarrow> w_ok v \<and> w_contents v = m \<and>
    w_readable v = w_readable w \<and> w_writable v = w_writable w"
  using assms same_client_reliable [OF assms(2)]
  by (auto simp: stored_def w_defs same_client_def fun_eq_iff)

text \<open>One stub call inside an operation that started in world \<open>w\<close> and has reached world \<open>v\<close>.\<close>

lemma get_step:
  assumes "reliable w" and c: "same_client w v" and st: "stored w m (w_ext v)"
  obtains r d v' where "extent_client_get i [] v = (r, d, v')" "same_client w v'"
    "w_locked v' = w_locked v" "stored w m (w_ext v')"
    "r = extent_status_code (if \<not> w_readable w i then E_NOACCESS
       else if m i = None then E_NOENT else E_OK)"
    "w_readable w i \<and> m i \<noteq> None \<longrightarrow> m i = Some d"
proof -
  obtain r d v' where g: "extent_client_get i [] v = (r, d, v')" by (metis prod_cases3)
  have ok: "w_ok v" and m: "w_contents v = m" and rw: "w_readable v = w_readable w"
    "w_writable v = w_writable w"
    using stored_iff [OF assms(1,2)] st by auto
  note fr = extent_client_frame(1) [OF g] and k = ec.fetch_keeps [OF ok g]
  have c': "same_client w v'" using c fr by (blast intro: same_client_trans)
  have r: "r = extent_status_code (if \<not> w_readable w i then E_NOACCESS
       else if m i = None then E_NOENT else E_OK)"
    using ec.fetch_status [OF ok g] rw m by simp
  show thesis
  proof (rule that [OF g c' _ _ r])
    show "w_locked v' = w_locked v" using fr by (simp add: w_locked_def)
    show "stored w m (w_ext v')" using stored_iff [OF assms(1) c'] k m rw by simp
    show "w_readable w i \<and> m i \<noteq> None \<longrightarrow> m i = Some d"
    proof
      assume "w_readable w i \<and> m i \<noteq> None"
      with r g have "extent_client_get i [] v = (extent_status_code E_OK, d, v')" by simp
      from ec.fetch_value [OF ok this] m show "m i = Some d" by simp
    qed
  qed
qed

lemma put_step:
  assumes "reliable w" and c: "same_client w v" and st: "stored w m (w_ext v)"
  obtains r v' where "extent_client_put i b v = (r, v')" "same_client w v'"
    "w_locked v' = w_locked v" "stored w (if w_writable w i then m(i \<mapsto> b) else m) (w_ext v')"
    "r = extent_status_code (if w_writable w i then E_OK else E_NOACCESS)"
proof -
  obtain r v' where p: "extent_client_put i b v = (r, v')" by (metis prod.exhaust)
  have ok: "w_ok v" and m: "w_contents v = m" and rw: "w_readable v = w_readable w"
    "w_writable v = w_writable w"
    using stored_iff [OF assms(1,2)] st by auto
  note fr = extent_client_frame(3) [OF p] and k = ec.store_keeps [OF ok p]
  have c': "same_client w v'" using c fr by (blast intro: same_client_trans)
  show thesis
  proof (rule that [OF p c'])
    show "w_locked v' = w_locked v" using fr by (simp add: w_locked_def)
    show "stored w (if w_writable w i then m(i \<mapsto> b) else m) (w_ext v')"
      using stored_iff [OF assms(1) c'] k m rw ec.store_content [OF ok p] by simp
    show "r = extent_status_code (if w_writable w i then E_OK else E_NOACCESS)"
      using ec.store_status [OF ok p] rw by simp
  qed
qed

lemma read_extent_achieves:
  assumes ok: "w_ok w" and free: "\<not> w_locked w num"
    and g: "\<And>c. w_readable w num \<Longrightarrow> w_contents w num = Some c \<Longrightarrow> g c = Ret (res c)"
  shows "achieves (read_extent num noent noaccess g) w
    (\<lambda>x s. x = (if \<not> w_readable w num then noaccess
               else case w_contents w num of None \<Rightarrow> noent | Some c \<Rightarrow> res c) \<and>
           stored w (w_contents w) s)"
  unfolding read_extent_def
proof (rule achieves_scoped [OF w_ok_reliable [OF ok] free])
  fix w1
  assume e: "w_ext w1 = w_ext w" and c: "same_client w w1"
  obtain r d v where "extent_client_get num [] w1 = (r, d, v)" "same_client w v"
    "w_locked v = w_locked w1" "stored w (w_contents w) (w_ext v)"
    "r = extent_status_code (if \<not> w_readable w num then E_NOACCESS
       else if w_contents w num = None then E_NOENT else E_OK)"
    "w_readable w num \<and> w_contents w num \<noteq> None \<longrightarrow> w_contents w num = Some d"
    by (rule get_step [OF w_ok_reliable [OF ok] c stored_same [OF ok e]])
  then show "achieves (\<lambda>w. let (r, buf, w1) = extent_client_get num [] w in
     if r = extent_status_code E_NOENT then (Ret noent, w1)
     else if r = extent_status_code E_NOACCESS then (Ret noaccess, w1)
     else (g buf, w1)) w1
    (\<lambda>x s. x = (if \<not> w_readable w num then noaccess
               else case w_contents w num of None \<Rightarrow> noent | Some c \<Rightarrow> res c) \<and>
           stored w (w_contents w) s)"
    using c g [of d] by (auto simp: achieves_def same_client_def split: option.split)
qed

lemma update_extent_achieves:
  assumes ok: "w_ok w" and free: "\<not> w_locked w num"
    and f: "\<And>c. w_readable w num \<Longrightarrow> w_contents w num = Some c \<Longrightarrow> f c = Some (upd c)"
  shows "achieves (update_extent num f) w
    (\<lambda>x s. if \<not> w_readable w num then x = Y_NOACCESS \<and> stored w (w_contents w) s
      else case w_contents w num of
        None \<Rightarrow> x = Y_NOENT \<and> stored w (w_contents w) s
      | Some c \<Rightarrow> if w_writable w num then x = Y_OK \<and> stored w ((w_contents w)(num \<mapsto> upd c)) s
                  else x = Y_NOACCESS \<and> stored w (w_contents w) s)"
    (is "achieves _ _ ?Q")
  unfolding update_extent_def
proof (rule achieves_scoped [OF w_ok_reliable [OF ok] free])
  fix w1
  assume e: "w_ext w1 = w_ext w" and c: "same_client w w1"
  note rel = w_ok_reliable [OF ok]
  obtain r d v where get: "extent_client_get num [] w1 = (r, d, v)" "same_client w v"
    "w_locked v = w_locked w1" "stored w (w_contents w) (w_ext v)"
    "r = extent_status_code (if \<not> w_readable w num then E_NOACCESS
       else if w_contents w num = None then E_NOENT else E_OK)"
    "w_readable w num \<and> w_contents w num \<noteq> None \<longrightarrow> w_contents w num = Some d"
    by (rule get_step [OF rel c stored_same [OF ok e]])
  obtain r2 v2 where put: "extent_client_put num (upd d) v = (r2, v2)" "same_client w v2"
    "w_locked v2 = w_locked v"
    "stored w (if w_writable w num then (w_contents w)(num \<mapsto> upd d) else w_contents w) (w_ext v2)"
    "r2 = extent_status_code (if w_writable w num then E_OK else E_NOACCESS)"
    by (rule put_step [OF rel get(2,4)])
  show "achieves (\<lambda>w. let (r, content, w1) = extent_client_get num [] w in
     if r = extent_status_code E_NOENT then (Ret Y_NOENT, w1)
     else if r = extent_status_code E_NOACCESS then (Ret Y_NOACCESS, w1)
     else case f content of
       None \<Rightarrow> (Thrown, w1)
     | Some content' \<Rightarrow>
         let (r2, w2) = extent_client_put num content' w1 in
         if r2 = extent_status_code E_NOACCESS then (Ret Y_NOACCESS, w2) else (Ret Y_OK, w2)) w1 ?Q"
    (is "achieves ?op _ _")
  proof (cases "w_readable w num \<and> w_contents w num \<noteq> None")
    case True
    then have d: "w_contents w num = Some d" and fd: "f d = Some (upd d)" using get(6) f by auto
    have eq: "?op w1 = (Ret (if w_writable w num then Y_OK else Y_NOACCESS), v2)"
      using True get(1,5) fd put(1,5) by simp
    have fr: "same_client w1 v2" "w_locked v2 = w_locked w1"
      using put(2,3) get(3) c by (simp_all add: same_client_def)
    show ?thesis
      by (rule achievesI [of ?op w1, OF eq fr]) (use True d put(4) in \<open>simp split: if_splits\<close>)
  next
    case False
    with get c show ?thesis
      by (auto simp: achieves_def same_client_def split: option.split)
  qed
qed

section \<open>The remaining stub calls\<close>

lemma getattr_step:
  assumes rel: "reliable w" and c: "same_client w v" and st: "stored w m (w_ext v)"
  obtains a v' where "extent_client_getattr i j v
      = (extent_status_code (if m i = None then E_NOENT else E_OK), a, v')"
    "same_client w v'" "w_locked v' = w_locked v" "w_ext v' = w_ext v"
    "m i \<noteq> None \<longrightarrow> attrs (w_ext v) i = Some a"
proof -
  let ?s = "w_ext v" and ?h = "extent_server_getattr (w_junk v) i (w_uid v) (w_key v)"
  have con: "store_consistent ?s" and m: "contents ?s = m" using st by (simp_all add: stored_def)
  have relv: "reliable v" using rel same_client_reliable [OF c] by simp
  obtain a where h: "?h ?s = (if m i = None then E_NOENT else E_OK, a, ?s)"
    and a: "m i \<noteq> None \<longrightarrow> attrs ?s i = Some a"
  proof (cases "m i")
    case None
    then show thesis using that by (simp add: extent_server_getattr_def m)
  next
    case (Some d)
    then obtain b where b: "attrs ?s i = Some b" using consistent_attr [OF con] m by metis
    then show thesis using that Some by (simp add: extent_server_getattr_def m)
  qed
  let ?v' = "v\<lparr>w_rpcs := Suc (w_rpcs v), w_ext := ?s\<rparr>"
  show thesis
    by (rule that [of a ?v'])
      (use extent_call_reliable [OF relv, of ?h, OF h] c a in
        \<open>simp_all add: extent_client_getattr_def same_client_def w_locked_def\<close>)
qed

text \<open>\<open>setattr\<close> on an existing extent: the three fields it sets, and nothing else of the store.\<close>

lemma setattr_step:
  assumes rel: "reliable w" and c: "same_client w v" and st: "stored w m (w_ext v)"
    and mi: "m i \<noteq> None"
  obtains v' where "extent_client_setattr i a v
      = (extent_status_code (if w_writable w i then E_OK else E_NOACCESS), v')"
    "same_client w v'" "w_locked v' = w_locked v" "store_consistent (w_ext v')"
    "contents (w_ext v') = m" "\<forall>j. j \<noteq> i \<longrightarrow> attrs (w_ext v') j = attrs (w_ext v) j"
    "map_option rights_of (attrs (w_ext v') i) = (if w_writable w i
       then Some (attr_mode a, attr_uid a, attr_gid a) else map_option rights_of (attrs (w_ext v) i))"
    "\<forall>j. j \<noteq> i \<longrightarrow> may_read (w_ext v') j (w_uid w) (w_key w) = w_readable w j \<and>
       may_write (w_ext v') j (w_uid w) (w_key w) = w_writable w j"
proof -
  let ?s = "w_ext v" and ?h = "extent_server_setattr (w_junk v) i a (w_uid v) (w_key v)"
  have con: "store_consistent ?s" and m: "contents ?s = m"
    and wr: "may_write ?s i (w_uid v) (w_key v) = w_writable w i"
    using st c by (simp_all add: stored_def same_client_def)
  have relv: "reliable v" using rel same_client_reliable [OF c] by simp
  obtain s' where h: "?h ?s = (if w_writable w i then E_OK else E_NOACCESS, s')"
    and f: "contents s' = m" "\<forall>j. j \<noteq> i \<longrightarrow> attrs s' j = attrs ?s j"
      "map_option rights_of (attrs s' i) = (if w_writable w i
         then Some (attr_mode a, attr_uid a, attr_gid a) else map_option rights_of (attrs ?s i))"
      and vw: "key_matches s' = key_matches ?s" "in_group s' = in_group ?s"
    using mi by (cases "w_writable w i")
      (auto simp: setattr_eq m wr rights_of_def key_matches_def in_group_def fun_eq_iff)
  have rights: "\<forall>j. j \<noteq> i \<longrightarrow> may_read s' j (w_uid w) (w_key w) = w_readable w j \<and>
       may_write s' j (w_uid w) (w_key w) = w_writable w j"
    using st f(2) vw
    by (simp add: stored_def may_read_def may_write_def may_access_def mode_grants_def)
  have con': "store_consistent s'"
    using setattr_consistent [OF con, of "w_junk v" i a "w_uid v" "w_key v"] h by simp
  show thesis
    by (rule that [of "v\<lparr>w_rpcs := Suc (w_rpcs v), w_ext := s'\<rparr>"])
      (use extent_call_reliable [OF relv, of "\<lambda>s. let (st, s1) = ?h s in (st, (), s1)"] h c f rights con'
        in \<open>simp_all add: extent_client_setattr_def same_client_def w_locked_def\<close>)
qed

lemma remove_step:
  assumes rel: "reliable w" and c: "same_client w v" and st: "stored w m (w_ext v)"
  obtains r v' where "extent_client_remove i v = (r, v')" "same_client w v'"
    "w_locked v' = w_locked v" "store_consistent (w_ext v')"
    "contents (w_ext v') = (if w_writable w i then m(i := None) else m)"
    "r = extent_status_code (if \<not> w_writable w i then E_NOACCESS
       else if m i = None then E_NOENT else E_OK)"
proof -
  obtain r v' where e: "extent_client_remove i v = (r, v')" by (metis prod.exhaust)
  have ok: "w_ok v" and m: "w_contents v = m" and rw: "w_writable v = w_writable w"
    using stored_iff [OF assms(1,2)] st by auto
  note fr = extent_client_frame(5) [OF e]
  have c': "same_client w v'" using c fr by (blast intro: same_client_trans)
  show thesis
    by (rule that [OF e c'])
      (use fr ec.erase_ok [OF ok e] ec.erase_content [OF ok e] ec.erase_status [OF ok e] m rw
        in \<open>simp_all add: w_locked_def w_ok_def w_contents_def\<close>)
qed

section \<open>File contents\<close>

text \<open>What a write at offset \<open>n\<close> means: a hole is filled with zeros, the rest is kept.\<close>

definition posix_write :: "nat \<Rightarrow> string \<Rightarrow> string \<Rightarrow> string" where
  "posix_write n buf c =
     take n c @ replicate (n - length c) (CHR 0x00) @ buf @ drop (n + length buf) c"

lemma cast_int_small: "n < 2 ^ 31 \<Longrightarrow> cast_int n = int n"
  by (simp add: cast_int_def signed_of_nat signed_take_bit_int_eq_self)

lemma cast_int_wraps:
  assumes "2 ^ 31 \<le> n" and "n < 2 ^ 32"
  shows "cast_int n < 0"
proof -
  have "signed_take_bit 31 (int n) = signed_take_bit 31 (int n - 2 ^ 32)"
    by (simp add: signed_take_bit_eq_iff_take_bit_eq take_bit_eq_mod)
  also have "\<dots> = int n - 2 ^ 32"
    using assms by (intro signed_take_bit_int_eq_self) auto
  finally show ?thesis using assms(2) by (simp add: cast_int_def signed_of_nat)
qed

lemma write_content_small:
  assumes "length c < 2 ^ 31"
  shows "write_content (int n) buf c = Some (posix_write n buf c)"
proof -
  have "nat (int n - int (length c)) = n - length c" by simp
  with assms show ?thesis
    by (simp add: write_content_def cast_int_small posix_write_def str_replace_def Let_def)
qed

lemma write_content_large:
  assumes "2 ^ 31 \<le> length c" "length c < 2 ^ 32" and "n < length c"
  shows "write_content (int n) buf c = None"
  using assms cast_int_wraps [OF assms(1,2)] by (simp add: write_content_def)

lemma posix_write_length: "length (posix_write n buf c) = max (n + length buf) (length c)"
  by (auto simp: posix_write_def max_def min_def)

lemma posix_write_part: "take (length buf) (drop n (posix_write n buf c)) = buf"
  by (simp add: posix_write_def)

lemma posix_write_outside:
  assumes "i < length c" and "i < n \<or> n + length buf \<le> i"
  shows "posix_write n buf c ! i = c ! i"
  using assms by (auto simp: posix_write_def nth_append min_def)

lemma posix_write_hole:
  assumes "length c \<le> i" and "i < n"
  shows "posix_write n buf c ! i = CHR 0x00"
  using assms diff_less_mono [OF assms(2,1)] by (simp add: posix_write_def nth_append)

text \<open>Read the world reached by an operation that achieves something.\<close>

lemma achievesD:
  assumes "achieves op w Q"
  obtains x w' where "op w = (Ret x, w')" "same_client w w'" "w_locked w' = w_locked w"
    "Q x (w_ext w')"
  using assms by (auto simp: achieves_def)

lemma write_achieves:
  assumes "w_ok w" and "\<not> w_locked w num" and "w_contents w num = Some c" and "length c < 2 ^ 31"
    and "w_readable w num" and "w_writable w num"
  shows "achieves (yfs_write num (int n) buf) w
    (\<lambda>x s. x = Y_OK \<and> stored w ((w_contents w)(num \<mapsto> posix_write n buf c)) s)"
  unfolding yfs_write_eq
  by (rule achieves_mono [OF update_extent_achieves [OF assms(1,2),
        where upd = "posix_write n buf"]]) (use assms in \<open>simp_all add: write_content_small\<close>)

lemma read_achieves:
  assumes "w_ok w" and "\<not> w_locked w num" and "w_contents w num = Some c" and "n \<le> length c"
    and "w_readable w num"
  shows "achieves (yfs_read num (int n) sz buf) w
    (\<lambda>x s. x = (Y_OK, take sz (drop n c) @ drop sz buf) \<and> stored w (w_contents w) s)"
  unfolding yfs_read_eq
  by (rule achieves_mono [OF read_extent_achieves [OF assms(1,2), where
        res = "\<lambda>c. (Y_OK, take sz (drop n c) @ drop sz buf)"]])
    (use assms in \<open>simp_all add: str_substr_def\<close>)

section \<open>Directories\<close>

definition dir_at :: "world \<Rightarrow> ull \<Rightarrow> dirent list \<Rightarrow> bool" where
  "dir_at w p es \<longleftrightarrow> w_contents w p = Some (dir_str es) \<and> dir_ok es"

lemma achieves_tail:
  assumes "achieves op' v Q" and "op w = op' v" and "same_client w v" and "w_locked v = w_locked w"
  shows "achieves op w Q"
  using assms by (auto simp: achieves_def intro: same_client_trans)

lemma lookup_found:
  assumes "w_ok w" and "\<not> w_locked w p" and d: "dir_at w p (xs @ e # ys)" and "w_readable w p"
  shows "achieves (yfs_lookup p (de_name e) f0) w
    (\<lambda>x s. x = (Y_OK, de_inum e) \<and> stored w (w_contents w) s)"
proof -
  have "iter_find (de_name e) (split (dir_str (xs @ e # ys)) (CHR ''/''))
      = de_name e # filename (de_inum e) # dir_comps ys"
    using d iter_find_entry [of e xs ys] dir_ok_entry(2) [of xs e ys]
    by (simp add: dir_at_def split_dir del: dir_str_simps dir_comps_simps)
  with assms show ?thesis
    unfolding yfs_lookup_eq
    by (intro achieves_mono [OF read_extent_achieves [OF assms(1,2), where
          res = "\<lambda>_. (Y_OK, de_inum e)"]])
      (auto simp: dir_at_def simp del: dir_str_simps)
qed

lemma lookup_absent:
  assumes "w_ok w" and "\<not> w_locked w p" and d: "dir_at w p es" and "w_readable w p"
    and n: "n \<notin> set (dir_comps es)"
  shows "achieves (yfs_lookup p n f0) w
    (\<lambda>x s. x = (Y_NOENT, 0) \<and> stored w (w_contents w) s)"
  using assms unfolding yfs_lookup_eq
  by (intro achieves_mono [OF read_extent_achieves [OF assms(1,2), where
        res = "\<lambda>_. (Y_NOENT, 0)"]])
    (auto simp: dir_at_def split_dir)

lemma pair_up_comps [simp]: "pair_up (dir_comps es) = Ret es"
  by (induction es) auto

lemma readdir_achieves:
  assumes "w_ok w" and "\<not> w_locked w p" and d: "dir_at w p es" and "w_readable w p"
  shows "achieves (yfs_readdir p ds) w (\<lambda>x s. x = (Y_OK, ds @ es) \<and> stored w (w_contents w) s)"
  using assms unfolding yfs_readdir_eq
  by (intro achieves_mono [OF read_extent_achieves [OF assms(1,2), where
        res = "\<lambda>_. (Y_OK, ds @ es)"]])
    (auto simp: dir_at_def split_dir)

text \<open>
  The body of \<open>create\<close> between its two locks: either the name occurs in the directory string and
  nothing happens, or the entry is appended, an empty extent is stored and its owner and mode are
  set.
\<close>

definition created :: "world \<Rightarrow> ull \<Rightarrow> ull \<Rightarrow> string \<Rightarrow> uint \<Rightarrow> dirent list \<Rightarrow> extent_server \<Rightarrow> bool" where
  "created w p f n mode es s \<longleftrightarrow>
     contents s = (w_contents w)(p \<mapsto> dir_str (es @ [\<lparr>de_name = n, de_inum = f\<rparr>]), f \<mapsto> []) \<and>
     store_consistent s \<and>
     map_option rights_of (attrs s f) = Some (mode, w_uid w, w_gid w) \<and>
     (\<forall>j. j \<noteq> f \<longrightarrow> may_read s j (w_uid w) (w_key w) = w_readable w j \<and>
        may_write s j (w_uid w) (w_key w) = w_writable w j)"

lemma create_body_achieves:
  assumes ok: "w_ok w" and e: "w_ext w1 = w_ext w" and c: "same_client w w1"
    and d: "dir_at w p es" and rd: "w_readable w p" and wr: "w_writable w p" "w_writable w f"
    and n: "valid_name n" "fresh n es"
  shows "achieves (create_body p f n mode) w1 (\<lambda>x s. x = Y_OK \<and> created w p f n mode es s)"
proof -
  note rel = w_ok_reliable [OF ok]
  let ?m2 = "(w_contents w)(p \<mapsto> dir_str (es @ [\<lparr>de_name = n, de_inum = f\<rparr>]))"
  let ?m3 = "?m2(f \<mapsto> [])"
  obtain b v1 where g: "extent_client_get p [] w1 = (extent_status_code E_OK, b, v1)"
    "same_client w v1" "w_locked v1 = w_locked w1" "stored w (w_contents w) (w_ext v1)"
    and b: "b = dir_str es"
    using get_step [OF rel c stored_same [OF ok e], of p] rd d by (simp add: dir_at_def) blast
  let ?b2 = "b @ n @ ''/'' @ filename f @ ''/''"
  obtain v2 where p2: "extent_client_put p ?b2 v1 = (extent_status_code E_OK, v2)"
    "same_client w v2" "w_locked v2 = w_locked v1" "stored w ?m2 (w_ext v2)"
    using put_step [OF rel g(2,4), of p ?b2] wr(1) by (auto simp: b entry_str_def)
  obtain v3 where p3: "extent_client_put f [] v2 = (extent_status_code E_OK, v3)"
    "same_client w v3" "w_locked v3 = w_locked v2" "stored w ?m3 (w_ext v3)"
    using put_step [OF rel p2(2,4), of f "[]"] wr(2) by auto
  obtain a v4 where p4: "extent_client_getattr f (w_junk v3) v3 = (extent_status_code E_OK, a, v4)"
    "same_client w v4" "w_locked v4 = w_locked v3" "w_ext v4 = w_ext v3"
    using getattr_step [OF rel p3(2,4), of f "w_junk v3"] by simp blast
  let ?a = "a\<lparr>attr_mode := mode, attr_uid := w_uid v4, attr_gid := w_gid v4\<rparr>"
  have s4: "stored w ?m3 (w_ext v4)" using p3(4) p4(4) by simp
  have mf: "?m3 f \<noteq> None" by simp
  obtain v5 where p5: "extent_client_setattr f ?a v4
      = (extent_status_code (if w_writable w f then E_OK else E_NOACCESS), v5)"
    "same_client w v5" "w_locked v5 = w_locked v4" "store_consistent (w_ext v5)"
    "contents (w_ext v5) = ?m3" "\<forall>j. j \<noteq> f \<longrightarrow> attrs (w_ext v5) j = attrs (w_ext v4) j"
    "map_option rights_of (attrs (w_ext v5) f) = (if w_writable w f
       then Some (attr_mode ?a, attr_uid ?a, attr_gid ?a)
       else map_option rights_of (attrs (w_ext v4) f))"
    "\<forall>j. j \<noteq> f \<longrightarrow> may_read (w_ext v5) j (w_uid w) (w_key w) = w_readable w j \<and>
       may_write (w_ext v5) j (w_uid w) (w_key w) = w_writable w j"
    by (rule setattr_step [OF rel p4(2) s4 mf, of ?a])
  have cr: "created w p f n mode es (w_ext v5)"
    using p5(4,5,7,8) wr(2) p4(2) by (simp add: created_def same_client_def)
  have nf: "str_find b n = None" using find_dir_None_iff [OF n(1)] n(2) b by simp
  show ?thesis
  proof (rule achievesI)
    show "create_body p f n mode w1 = (Ret Y_OK, v5)"
      using g(1) p2(1) p3(1) p4(1) p5(1) wr(2) nf by (simp add: create_body_def)
    show "same_client w1 v5" "w_locked v5 = w_locked w1"
      using p5(2,3) p4(3) p3(3) p2(3) g(3) c by (simp_all add: same_client_def)
  qed (use cr in simp)
qed

text \<open>Two nested scoped locks, on different numbers and both free, run the body.\<close>

lemma achieves_scoped2:
  assumes ok: "w_ok w" and free: "\<not> w_locked w p" "\<not> w_locked w f" and pf: "p \<noteq> f"
    and body: "\<And>w1. w_ext w1 = w_ext w \<Longrightarrow> same_client w w1 \<Longrightarrow> achieves body w1 Q"
  shows "achieves (scoped p (scoped f body)) w Q"
proof (rule achieves_scoped [OF w_ok_reliable [OF ok] free(1)])
  fix w0
  assume 0: "w_ext w0 = w_ext w" "same_client w w0" "w_locked w0 = (w_locked w)(p := True)"
  have rel0: "reliable w0" using w_ok_reliable [OF ok] same_client_reliable [OF 0(2)] by simp
  show "achieves (scoped f body) w0 Q"
    by (rule achieves_scoped [OF rel0])
      (use 0 free(2) pf in \<open>auto intro!: body intro: same_client_trans\<close>)
qed

lemma create_achieves:
  assumes "w_ok w" and "\<not> w_locked w p" "\<not> w_locked w f" and "p \<noteq> f" and "dir_at w p es"
    and "w_readable w p" and "w_writable w p" "w_writable w f" and "valid_name n" "fresh n es"
  shows "achieves (yfs_create p f n mode) w (\<lambda>x s. x = Y_OK \<and> created w p f n mode es s)"
  unfolding yfs_create_def
  by (rule achieves_scoped2 [OF assms(1-4)]) (rule create_body_achieves [OF assms(1) _ _ assms(5-10)])

lemma create_exists_achieves:
  assumes ok: "w_ok w" and "\<not> w_locked w p" "\<not> w_locked w f" and "p \<noteq> f" and d: "dir_at w p es"
    and rd: "w_readable w p" and n: "valid_name n" "\<not> fresh n es"
  shows "achieves (yfs_create p f n mode) w (\<lambda>x s. x = Y_EXIST \<and> stored w (w_contents w) s)"
  unfolding yfs_create_def
proof (rule achieves_scoped2 [OF assms(1-4)])
  fix w1
  assume e: "w_ext w1 = w_ext w" and c: "same_client w w1"
  obtain b v1 where g: "extent_client_get p [] w1 = (extent_status_code E_OK, b, v1)"
    "same_client w v1" "w_locked v1 = w_locked w1" "stored w (w_contents w) (w_ext v1)"
    and b: "b = dir_str es"
    using get_step [OF w_ok_reliable [OF ok] c stored_same [OF ok e], of p] rd d
    by (simp add: dir_at_def) blast
  have "str_find b n \<noteq> None" using find_dir_None_iff [OF n(1)] n(2) b by simp
  then have "create_body p f n mode w1 = (Ret Y_EXIST, v1)"
    using g(1) by (simp add: create_body_def)
  then show "achieves (create_body p f n mode) w1 (\<lambda>x s. x = Y_EXIST \<and> stored w (w_contents w) s)"
    by (rule achievesI) (use g c in \<open>simp_all add: same_client_def\<close>)
qed

text \<open>
  \<open>unlink\<close> of an entry that points outside its own directory: the entry goes, and the extent it
  names is removed when the client may write it.
\<close>

definition unlinked ::
  "world \<Rightarrow> ull \<Rightarrow> dirent list \<Rightarrow> ull \<Rightarrow> yfs_status \<Rightarrow> extent_server \<Rightarrow> bool" where
  "unlinked w p es f x s \<longleftrightarrow> store_consistent s \<and>
     (if w_writable w f
      then x = Y_OK \<and> contents s = (w_contents w)(p \<mapsto> dir_str es, f := None)
      else x = Y_NOACCESS \<and> contents s = (w_contents w)(p \<mapsto> dir_str es))"

lemma remove_locked_achieves:
  assumes rel: "reliable w" and c: "same_client w v" and free: "\<not> w_locked v f"
    and st: "stored w ((w_contents w)(p \<mapsto> dir_str es)) (w_ext v)"
  shows "achieves (scoped f (\<lambda>w3. let (r4, w4) = extent_client_remove f w3 in
      if r4 = extent_status_code E_NOACCESS then (Ret Y_NOACCESS, w4) else (Ret Y_OK, w4))) v
    (unlinked w p es f)"
proof (rule achieves_scoped [OF _ free])
  show "reliable v" using rel same_client_reliable [OF c] by simp
  fix v1
  assume 1: "w_ext v1 = w_ext v" "same_client v v1"
  have c1: "same_client w v1" using c 1(2) by (rule same_client_trans)
  obtain r v2 where 2: "extent_client_remove f v1 = (r, v2)" "same_client w v2"
    "w_locked v2 = w_locked v1" "store_consistent (w_ext v2)"
    "contents (w_ext v2) = (if w_writable w f then ((w_contents w)(p \<mapsto> dir_str es))(f := None)
       else (w_contents w)(p \<mapsto> dir_str es))"
    "r = extent_status_code (if \<not> w_writable w f then E_NOACCESS
       else if ((w_contents w)(p \<mapsto> dir_str es)) f = None then E_NOENT else E_OK)"
    by (rule remove_step [OF rel c1, of "(w_contents w)(p \<mapsto> dir_str es)" f]) (use st 1(1) in simp)
  show "achieves (\<lambda>w3. let (r4, w4) = extent_client_remove f w3 in
      if r4 = extent_status_code E_NOACCESS then (Ret Y_NOACCESS, w4) else (Ret Y_OK, w4)) v1
    (unlinked w p es f)" (is "achieves ?op _ _")
    by (rule achievesI [of ?op v1 "if w_writable w f then Y_OK else Y_NOACCESS" v2])
      (use 2 c1 in \<open>simp_all add: same_client_def unlinked_def\<close>)
qed

lemma unlink_achieves:
  assumes ok: "w_ok w" and free: "\<not> w_locked w p" "\<not> w_locked w (de_inum e)"
    and pf: "p \<noteq> de_inum e" and d: "dir_at w p (xs @ e # ys)"
    and rd: "w_readable w p" and wr: "w_writable w p"
  shows "achieves (yfs_unlink p (de_name e)) w (unlinked w p (xs @ ys) (de_inum e))"
  unfolding yfs_unlink_def
proof (rule achieves_scoped [OF w_ok_reliable [OF ok] free(1)])
  note rel = w_ok_reliable [OF ok]
  fix w1
  assume e1: "w_ext w1 = w_ext w" and c: "same_client w w1"
    and l1: "w_locked w1 = (w_locked w)(p := True)"
  obtain b v1 where g: "extent_client_get p [] w1 = (extent_status_code E_OK, b, v1)"
    "same_client w v1" "w_locked v1 = w_locked w1" "stored w (w_contents w) (w_ext v1)"
    and b: "b = dir_str (xs @ e # ys)"
    using get_step [OF rel c stored_same [OF ok e1], of p] rd d
    by (simp add: dir_at_def del: dir_str_simps) blast
  obtain v2 where p2: "extent_client_put p (dir_str (xs @ ys)) v1 = (extent_status_code E_OK, v2)"
    "same_client w v2" "w_locked v2 = w_locked v1"
    "stored w ((w_contents w)(p \<mapsto> dir_str (xs @ ys))) (w_ext v2)"
    using put_step [OF rel g(2,4), of p "dir_str (xs @ ys)"] wr
    by (auto simp del: dir_str_simps)
  have ok_dir: "dir_ok (xs @ e # ys)" using d by (simp add: dir_at_def)
  note ent = dir_ok_entry [OF ok_dir]
  have found: "iter_find (de_name e) (split b (CHR ''/'')) = de_name e # filename (de_inum e) # dir_comps ys"
    unfolding b split_dir [OF ok_dir] by (rule iter_find_entry [OF ent(2)])
  have pos: "str_find b (de_name e) = Some (length (dir_str xs))"
    unfolding b by (rule find_dir_entry [OF ent])
  have cut: "str_erase (length (dir_str xs)) (length (de_name e) + 1 + length (filename (de_inum e)) + 1) b
      = Some (dir_str (xs @ ys))"
    unfolding b entry_str_length [symmetric] by (rule erase_entry)
  let ?rm = "scoped (de_inum e) (\<lambda>w3. let (r4, w4) = extent_client_remove (de_inum e) w3 in
      if r4 = extent_status_code E_NOACCESS then (Ret Y_NOACCESS, w4) else (Ret Y_OK, w4))"
  show "achieves (unlink_body p (de_name e)) w1 (unlinked w p (xs @ ys) (de_inum e))"
  proof (rule achieves_tail [of ?rm v2])
    show "achieves ?rm v2 (unlinked w p (xs @ ys) (de_inum e))"
      by (rule remove_locked_achieves [OF rel p2(2) _ p2(4)])
        (use p2(3) g(3) l1 free(2) pf in simp)
    show "unlink_body p (de_name e) w1 = ?rm v2"
      using g(1) p2(1) found pos cut by (simp add: unlink_body_def del: dir_str_simps)
    show "same_client w1 v2" "w_locked v2 = w_locked w1"
      using p2(2,3) g(3) c by (simp_all add: same_client_def)
  qed
qed

end
