(* ===== verification/Yfs_Theorems.thy ===== *)
theory Yfs_Theorems
  imports Yfs_Client
begin

text \<open>
  What the file system client's operations do when every call is delivered, on files and on
  directories, and the runs in which they do not return or lose data.
\<close>

section \<open>Worlds reached by an operation\<close>

lemma stored_world:
  assumes "w_ok w" and "same_client w v" and "stored w m (w_ext v)"
  shows "w_ok v" "w_contents v = m" "w_readable v = w_readable w" "w_writable v = w_writable w"
  using stored_iff [OF w_ok_reliable [OF assms(1)] assms(2)] assms(3) by simp_all

text \<open>An operation that gets stuck behind its lock leaves the lock held.\<close>

lemma locked_get:
  assumes ok: "w_ok w" and free: "\<not> w_locked w num" and rd: "w_readable w num"
    and c: "w_contents w num = Some c"
  obtains r w1 v where "lock_client_acquire num w = (Ret r, w1)"
    "extent_client_get num [] w1 = (extent_status_code E_OK, c, v)" "w_locked v num"
proof -
  note rel = w_ok_reliable [OF ok]
  obtain r ls where acq: "lock_client_acquire num w
      = (Ret r, w\<lparr>w_rpcs := Suc (w_rpcs w), w_locks := ls\<rparr>)"
    and tk: "lock_take (w_clt w) num (w_locks w) = Some ls"
    using rel free by (rule lock_client_acquire_free)
  let ?w1 = "w\<lparr>w_rpcs := Suc (w_rpcs w), w_locks := ls\<rparr>"
  have 1: "same_client w ?w1" "w_ext ?w1 = w_ext w" "w_locked ?w1 num"
    using lsrv.acq_held [OF tk] by (simp_all add: same_client_def w_locked_def)
  obtain v where "extent_client_get num [] ?w1 = (extent_status_code E_OK, c, v)"
    "w_locked v = w_locked ?w1"
    using get_step [OF rel 1(1) stored_same [OF ok 1(2)], of num] rd c by simp blast
  then show thesis using that [OF acq] 1(3) by simp
qed

lemma read_extent_stuck:
  assumes "w_ok w" and "\<not> w_locked w num" and "w_readable w num"
    and "w_contents w num = Some c" and g: "g c = Thrown \<or> g c = Undef"
  shows "fst (read_extent num noent noaccess g w) = g c \<and>
    w_locked (snd (read_extent num noent noaccess g w)) num"
proof -
  obtain r w1 v where "lock_client_acquire num w = (Ret r, w1)"
    "extent_client_get num [] w1 = (extent_status_code E_OK, c, v)" and v: "w_locked v num"
    by (rule locked_get [OF assms(1-4)])
  then have "read_extent num noent noaccess g w = (g c, v)"
    using g by (auto simp: read_extent_def scoped_def)
  then show ?thesis using v by simp
qed

lemma update_extent_stuck:
  assumes "w_ok w" and "\<not> w_locked w num" and "w_readable w num"
    and "w_contents w num = Some c" and f: "f c = None"
  shows "fst (update_extent num f w) = Thrown \<and> w_locked (snd (update_extent num f w)) num"
proof -
  obtain r w1 v where "lock_client_acquire num w = (Ret r, w1)"
    "extent_client_get num [] w1 = (extent_status_code E_OK, c, v)" and v: "w_locked v num"
    by (rule locked_get [OF assms(1-4)])
  then have "update_extent num f w = (Thrown, v)"
    using f by (auto simp: update_extent_def scoped_def)
  then show ?thesis using v by simp
qed

section \<open>Files\<close>

text \<open>
  C10: what is written is read back.  On a file shorter than 2 GiB that the client may read and
  write, a write at any offset returns \<open>OK\<close>, replaces exactly the bytes it was given, keeps every
  other byte of the file and every other extent, fills a hole with zero bytes, frees the file's
  lock, and a following read of the same range returns the bytes written.
\<close>

theorem write_then_read:
  assumes "w_ok w" and "\<not> w_locked w num" and "w_contents w num = Some c" and "length c < 2 ^ 31"
    and "w_readable w num" and "w_writable w num"
  shows "\<exists>w1 d. yfs_write num (int n) buf w = (Ret Y_OK, w1) \<and>
    w_contents w1 = (w_contents w)(num \<mapsto> d) \<and> w_locked w1 = w_locked w \<and>
    length d = max (n + length buf) (length c) \<and>
    (\<forall>i < length c. i < n \<or> n + length buf \<le> i \<longrightarrow> d ! i = c ! i) \<and>
    (\<forall>i < n. length c \<le> i \<longrightarrow> d ! i = CHR 0x00) \<and>
    fst (yfs_read num (int n) (length buf) [] w1) = Ret (Y_OK, buf)"
proof -
  let ?d = "posix_write n buf c"
  obtain x w1 where 1: "yfs_write num (int n) buf w = (Ret x, w1)" "same_client w w1"
    "w_locked w1 = w_locked w" "x = Y_OK \<and> stored w ((w_contents w)(num \<mapsto> ?d)) (w_ext w1)"
    by (rule achievesD [OF write_achieves [OF assms, of n buf]])
  note s = stored_world [OF assms(1) 1(2) conjunct2 [OF 1(4)]]
  have "w_contents w1 num = Some ?d" "n \<le> length ?d" "\<not> w_locked w1 num" "w_readable w1 num"
    using s(2,3) 1(3) assms(2,5) by (simp_all add: posix_write_length)
  from achievesD [OF read_achieves [OF s(1) this(3,1,2,4), of "length buf" "[]"]]
  have "fst (yfs_read num (int n) (length buf) [] w1) = Ret (Y_OK, buf)"
    by (metis append_Nil2 drop_Nil fst_conv posix_write_part)
  with 1 s(2) show ?thesis
    by (auto intro!: exI [of _ ?d] simp: posix_write_length posix_write_outside posix_write_hole)
qed

text \<open>
  A world with two extents, a file and a directory, that user 7 owns; user 7 is the client and
  registered, nothing is locked, every call is delivered.
\<close>

definition demo_attr :: "nat \<Rightarrow> attr" where
  "demo_attr n = \<lparr>attr_atime = 0, attr_mtime = 0, attr_ctime = 0, attr_size = of_nat n,
     attr_mode = 384, attr_uid = 7, attr_gid = 7\<rparr>"

definition demo_world :: "string \<Rightarrow> dirent list \<Rightarrow> world" where
  "demo_world c es = \<lparr>
     w_ext = \<lparr>attrs = [9 \<mapsto> demo_attr (length c), 5 \<mapsto> demo_attr (length (dir_str es))],
              contents = [9 \<mapsto> c, 5 \<mapsto> dir_str es],
              userkeys = [7 \<mapsto> ''k''], groupusers = Map.empty\<rparr>,
     w_locks = lock_server_init, w_clt = 1, w_uid = 7, w_gid = 7, w_key = ''k'',
     w_script = (\<lambda>_. (Delivered, 0, demo_attr 0)), w_rpcs = 0\<rparr>"

lemma demo_world_ok:
  "w_ok (demo_world c es)" "\<not> w_locked (demo_world c es) i"
  "w_contents (demo_world c es) = [9 \<mapsto> c, 5 \<mapsto> dir_str es]"
  "w_readable (demo_world c es) i" "w_writable (demo_world c es) i"
  by (auto simp: demo_world_def demo_attr_def w_ok_def reliable_def store_consistent_def
      w_locked_def w_contents_def w_readable_def w_writable_def may_read_def may_write_def
      may_access_def mode_grants_def key_matches_def split: if_splits)

theorem write_then_read_witness:
  "\<exists>w1 d. yfs_write 9 (int 4) ''xy'' (demo_world ''ab'' []) = (Ret Y_OK, w1) \<and>
    length d = 6 \<and> w_contents w1 = (w_contents (demo_world ''ab'' []))(9 \<mapsto> d) \<and>
    fst (yfs_read 9 (int 4) 2 [] w1) = Ret (Y_OK, ''xy'')"
proof -
  have c: "w_contents (demo_world ''ab'' []) 9 = Some ''ab''" by (simp add: demo_world_ok)
  have l: "length ''ab'' < (2 :: nat) ^ 31" by simp
  have two: "length ''xy'' = 2" and six: "max (4 + length ''xy'') (length ''ab'') = 6" by simp_all
  show ?thesis
    using write_then_read [OF demo_world_ok(1,2) c l demo_world_ok(4,5), of 4 "''xy''"]
    unfolding six unfolding two by blast
qed

text \<open>
  C11: a read that starts behind the end of the file is not a short read: the string library
  raises an exception nothing catches, and the file's lock stays taken at the lock server.
\<close>

theorem read_past_end:
  assumes "w_ok w" and "\<not> w_locked w num" and "w_contents w num = Some c" and "w_readable w num"
    and "length c < n"
  shows "fst (yfs_read num (int n) sz buf w) = Thrown \<and> w_locked (snd (yfs_read num (int n) sz buf w)) num"
  unfolding yfs_read_eq
  using read_extent_stuck [OF assms(1,2,4,3), of "\<lambda>content. case (if int n < 0 then None
      else str_substr (nat (int n)) sz content) of None \<Rightarrow> Thrown
      | Some part \<Rightarrow> Ret (Y_OK, part @ drop sz buf)"] assms(5)
  by (simp add: str_substr_def)

theorem read_past_end_witness:
  "fst (yfs_read 9 (int 5) 10 [] (demo_world ''abcd'' [])) = Thrown \<and>
   w_locked (snd (yfs_read 9 (int 5) 10 [] (demo_world ''abcd'' []))) 9"
proof -
  have c: "w_contents (demo_world ''abcd'' []) 9 = Some ''abcd''" by (simp add: demo_world_ok)
  show ?thesis
    using read_past_end [OF demo_world_ok(1,2) c demo_world_ok(4), of 5] by simp
qed

text \<open>
  A write inside a file of 2 GiB or more never returns: the size is compared as an \<open>int\<close>,
  comes out negative, the hole to fill is computed as a huge unsigned number, and the exception
  leaves the file's lock taken.
\<close>

lemma write_large_file:
  assumes "w_ok w" and "\<not> w_locked w num" and "w_readable w num" and "w_contents w num = Some c"
    and "2 ^ 31 \<le> length c" and "length c < 2 ^ 32" and "n < length c"
  shows "fst (yfs_write num (int n) buf w) = Thrown \<and> w_locked (snd (yfs_write num (int n) buf w)) num"
  unfolding yfs_write_eq
  by (rule update_extent_stuck [where f = "write_content (int n) buf", OF assms(1-4)
        write_content_large [OF assms(5-7)]])

lemma write_large_file_demo:
  "fst (yfs_write 9 (int 5) ''x'' (demo_world (replicate (2 ^ 31) (CHR ''a'')) [])) = Thrown"
proof -
  let ?c = "replicate (2 ^ 31) (CHR ''a'')"
  have c: "w_contents (demo_world ?c []) 9 = Some ?c" by (simp add: demo_world_ok)
  have l: "2 ^ 31 \<le> length ?c" "length ?c < 2 ^ 32" "5 < length ?c"
    by (simp_all only: length_replicate) simp_all
  show ?thesis
    using write_large_file [OF demo_world_ok(1,2,4) c l, of "''x''"] by (rule conjunct1)
qed

section \<open>Directories\<close>

text \<open>
  C13: the directory string implements a directory.  In every directory string built by creating
  and unlinking entries (\<open>dir_ok\<close>), looking up the name of any entry returns that entry's number,
  listing returns the entries in order, and neither changes the store or keeps a lock.
\<close>

theorem directory_reads:
  assumes "w_ok w" and "\<not> w_locked w p" and "dir_at w p es" and "w_readable w p" and "e \<in> set es"
  shows "achieves (yfs_lookup p (de_name e) f0) w
      (\<lambda>x s. x = (Y_OK, de_inum e) \<and> stored w (w_contents w) s) \<and>
    achieves (yfs_readdir p []) w (\<lambda>x s. x = (Y_OK, es) \<and> stored w (w_contents w) s)"
proof -
  obtain xs ys where es: "es = xs @ e # ys" using assms(5) by (auto dest: split_list)
  show ?thesis
    using lookup_found [OF assms(1,2) _ assms(4), of xs e ys] assms(3) es
      readdir_achieves [OF assms(1-4), of "[]"] by simp
qed

definition demo_dir :: "dirent list" where
  "demo_dir = [\<lparr>de_name = ''f'', de_inum = 9\<rparr>, \<lparr>de_name = ''gh'', de_inum = 12\<rparr>]"

lemma demo_filenames: "filename 9 = ''9''" "filename 12 = ''12''"
  by code_simp+

lemma demo_dir_ok: "dir_ok demo_dir"
  by (simp add: demo_dir_def dir_ok_def valid_name_def fresh_def demo_filenames sublist_Cons_right)

lemma demo_dir_at: "dir_at (demo_world c demo_dir) 5 demo_dir"
  by (simp add: dir_at_def demo_dir_ok demo_world_ok)

theorem directory_reads_witness:
  "achieves (yfs_lookup 5 ''gh'' 0) (demo_world [] demo_dir) (\<lambda>x s. x = (Y_OK, 12) \<and>
     stored (demo_world [] demo_dir) (w_contents (demo_world [] demo_dir)) s)"
  using directory_reads [OF demo_world_ok(1,2) demo_dir_at demo_world_ok(4), of "demo_dir ! 1" 0]
  by (simp add: demo_dir_def)

text \<open>
  C14: creating refines adding an entry.  With a fresh name and write permission on the directory,
  \<open>create\<close> returns \<open>OK\<close>, the directory holds the old entries and the new one in a well-formed
  string, the new extent is empty and has the requested mode and the client's user and group, no
  other extent changes, and both locks are free again.  With a name that is not fresh it returns
  \<open>EXIST\<close> and changes nothing.
\<close>

theorem create_refines:
  assumes "w_ok w" and "\<not> w_locked w p" "\<not> w_locked w f" and "p \<noteq> f" and "dir_at w p es"
    and "w_readable w p" "w_writable w p" "w_writable w f" and "valid_name n"
  shows "achieves (yfs_create p f n mode) w (\<lambda>x s.
    if fresh n es
    then x = Y_OK \<and> created w p f n mode es s \<and> dir_ok (es @ [\<lparr>de_name = n, de_inum = f\<rparr>])
    else x = Y_EXIST \<and> stored w (w_contents w) s)"
proof (cases "fresh n es")
  case True
  then have "dir_ok (es @ [\<lparr>de_name = n, de_inum = f\<rparr>])"
    using assms(5,9) by (simp add: dir_at_def)
  with True show ?thesis
    using create_achieves [OF assms(1-9), of mode] by simp
next
  case False
  then show ?thesis
    using create_exists_achieves [OF assms(1-6,9), of mode] by simp
qed

theorem create_refines_witness:
  "achieves (yfs_create 5 20 ''new'' 420) (demo_world [] demo_dir) (\<lambda>x s.
     x = Y_OK \<and> created (demo_world [] demo_dir) 5 20 ''new'' 420 demo_dir s)"
proof -
  have n: "valid_name ''new''" by (simp add: valid_name_def)
  have fr: "fresh ''new'' demo_dir"
    by (simp add: demo_dir_def fresh_def demo_filenames sublist_Cons_right)
  have ne: "(5 :: ull) \<noteq> 20" by simp
  show ?thesis
    by (rule achieves_mono [OF create_refines [OF demo_world_ok(1,2,2) ne demo_dir_at
          demo_world_ok(4,5,5) n]]) (simp add: fr)
qed

text \<open>
  C15: unlinking refines removing an entry.  It removes exactly the entry from the directory, which
  stays well formed, and removes the extent the entry names when the client may write it;
  otherwise it returns \<open>NOACCESS\<close> with the entry gone all the same.
\<close>

theorem unlink_refines:
  assumes "w_ok w" and "\<not> w_locked w p" "\<not> w_locked w (de_inum e)" and "p \<noteq> de_inum e"
    and "dir_at w p (xs @ e # ys)" and "w_readable w p" and "w_writable w p"
  shows "dir_ok (xs @ ys) \<and>
    achieves (yfs_unlink p (de_name e)) w (\<lambda>x s. store_consistent s \<and>
      (if w_writable w (de_inum e)
       then x = Y_OK \<and> contents s = (w_contents w)(p \<mapsto> dir_str (xs @ ys), de_inum e := None)
       else x = Y_NOACCESS \<and> contents s = (w_contents w)(p \<mapsto> dir_str (xs @ ys))))"
proof -
  have "dir_ok (xs @ ys)" using assms(5) by (auto simp: dir_at_def intro: dir_ok_delete)
  then show ?thesis
    using achieves_mono [OF unlink_achieves [OF assms]] by (simp add: unlinked_def)
qed

theorem unlink_refines_witness:
  "achieves (yfs_unlink 5 ''f'') (demo_world ''data'' demo_dir) (\<lambda>x s. x = Y_OK \<and>
     contents s = [5 \<mapsto> ''gh/12/''])"
proof -
  let ?e = "\<lparr>de_name = ''f'', de_inum = 9\<rparr>" and ?ys = "[\<lparr>de_name = ''gh'', de_inum = 12\<rparr>]"
  have d: "dir_at (demo_world ''data'' demo_dir) 5 ([] @ ?e # ?ys)"
    using demo_dir_at [of "''data''"] by (simp add: demo_dir_def)
  have m: "(w_contents (demo_world ''data'' demo_dir))(5 \<mapsto> dir_str ?ys, 9 := None) = [5 \<mapsto> ''gh/12/'']"
    by (auto simp: demo_world_ok fun_eq_iff entry_str_def demo_filenames)
  have ne: "(5 :: ull) \<noteq> de_inum ?e" by simp
  note un = unlink_refines [OF demo_world_ok(1,2,2) ne d demo_world_ok(4,5)]
  show ?thesis
    using achieves_mono [OF conjunct2 [OF un], of "\<lambda>x s. x = Y_OK \<and> contents s = [5 \<mapsto> ''gh/12/'']"]
      m demo_world_ok(5) by simp
qed

lemma created_world:
  assumes ok: "w_ok w" and c: "same_client w v" and cr: "created w p f n mode es s"
    and s: "s = w_ext v" and pf: "p \<noteq> f" and d: "dir_ok (es @ [\<lparr>de_name = n, de_inum = f\<rparr>])"
  shows "w_ok v" "dir_at v p (es @ [\<lparr>de_name = n, de_inum = f\<rparr>])"
    "w_readable v p = w_readable w p" "w_writable v p = w_writable w p"
  using assms same_client_reliable [OF c]
  by (auto simp: created_def w_ok_def dir_at_def w_contents_def w_readable_def w_writable_def
      same_client_def)

lemma owner_may_write:
  assumes "map_option rights_of (attrs s i) = Some (mode, u, g)" and "mode AND 128 \<noteq> 0"
    and "key_matches s u k"
  shows "may_write s i u k"
  using assms by (auto simp: may_write_def may_access_def mode_grants_def rights_of_def)

lemma may_write_key: "may_write s i u k \<Longrightarrow> key_matches s u k"
  by (simp add: may_write_def may_access_def)

text \<open>
  C16: the life of a file.  After a successful \<open>create\<close> of a fresh name for an unused number, the
  name looks up to that number and is listed last, and unlinking it brings back the contents of
  all extents exactly as they were, provided the requested mode lets the owner write.
\<close>

theorem create_lookup_unlink:
  assumes "w_ok w" and "\<not> w_locked w p" "\<not> w_locked w f" and "p \<noteq> f" and "dir_at w p es"
    and "w_readable w p" "w_writable w p" "w_writable w f" and "valid_name n" "fresh n es"
    and "w_contents w f = None" and "mode AND 128 \<noteq> 0"
  shows "\<exists>w1 w2 w3 w4. yfs_create p f n mode w = (Ret Y_OK, w1) \<and>
    yfs_lookup p n 0 w1 = (Ret (Y_OK, f), w2) \<and>
    yfs_readdir p [] w1 = (Ret (Y_OK, es @ [\<lparr>de_name = n, de_inum = f\<rparr>]), w3) \<and>
    yfs_unlink p n w1 = (Ret Y_OK, w4) \<and> w_contents w4 = w_contents w \<and> w_locked w4 = w_locked w"
proof -
  let ?e = "\<lparr>de_name = n, de_inum = f\<rparr>"
  have dir: "dir_ok (es @ [?e])" using assms(5,9,10) by (simp add: dir_at_def)
  obtain x w1 where 1: "yfs_create p f n mode w = (Ret x, w1)" "same_client w w1"
    "w_locked w1 = w_locked w" "x = Y_OK \<and> created w p f n mode es (w_ext w1)"
    by (rule achievesD [OF create_achieves [OF assms(1-10), of mode]])
  note cw = created_world [OF assms(1) 1(2) conjunct2 [OF 1(4)] refl assms(4) dir]
  have free: "\<not> w_locked w1 p" "\<not> w_locked w1 f" using 1(3) assms(2,3) by simp_all
  have rw: "w_readable w1 p" "w_writable w1 p" using cw(3,4) assms(6,7) by simp_all
  have "key_matches (w_ext w1) (w_uid w) (w_key w)"
    using rw(2) 1(2) may_write_key by (auto simp: w_writable_def same_client_def)
  moreover have "map_option rights_of (attrs (w_ext w1) f) = Some (mode, w_uid w, w_gid w)"
    using 1(4) by (simp add: created_def)
  ultimately have wf: "w_writable w1 f"
    using owner_may_write [OF _ assms(12)] 1(2) by (simp only: w_writable_def same_client_def)
  obtain w2 where 2: "yfs_lookup p n 0 w1 = (Ret (Y_OK, f), w2)"
    using achievesD [OF lookup_found [OF cw(1) free(1) cw(2) rw(1), of 0]] by auto
  obtain w3 where 3: "yfs_readdir p [] w1 = (Ret (Y_OK, es @ [?e]), w3)"
    using achievesD [OF readdir_achieves [OF cw(1) free(1) cw(2) rw(1), of "[]"]] by auto
  have fe: "\<not> w_locked w1 (de_inum ?e)" "p \<noteq> de_inum ?e" using free(2) assms(4) by simp_all
  obtain y w4 where 4: "yfs_unlink p (de_name ?e) w1 = (Ret y, w4)" "w_locked w4 = w_locked w1"
    "unlinked w1 p (es @ []) (de_inum ?e) y (w_ext w4)"
    by (rule achievesD [OF unlink_achieves [OF cw(1) free(1) fe cw(2) rw]])
  have "w_contents w4 = w_contents w" "y = Y_OK"
    using 4(3) wf 1(4) assms(4,5,11)
    by (auto simp: unlinked_def created_def w_contents_def dir_at_def fun_eq_iff)
  with 1 2 3 4 show ?thesis by auto
qed

theorem create_lookup_unlink_witness:
  "\<exists>w1 w2 w3 w4. yfs_create 5 20 ''new'' 420 (demo_world [] demo_dir) = (Ret Y_OK, w1) \<and>
    yfs_lookup 5 ''new'' 0 w1 = (Ret (Y_OK, 20), w2) \<and>
    yfs_readdir 5 [] w1 = (Ret (Y_OK, demo_dir @ [\<lparr>de_name = ''new'', de_inum = 20\<rparr>]), w3) \<and>
    yfs_unlink 5 ''new'' w1 = (Ret Y_OK, w4) \<and>
    w_contents w4 = w_contents (demo_world [] demo_dir) \<and>
    w_locked w4 = w_locked (demo_world [] demo_dir)"
proof -
  have n: "valid_name ''new''" by (simp add: valid_name_def)
  have fr: "fresh ''new'' demo_dir"
    by (simp add: demo_dir_def fresh_def demo_filenames sublist_Cons_right)
  have ne: "(5 :: ull) \<noteq> 20" and m: "(420 :: uint) AND 128 \<noteq> 0"
    and unused: "w_contents (demo_world [] demo_dir) 20 = None"
    by (simp_all add: demo_world_ok)
  show ?thesis
    by (rule create_lookup_unlink [OF demo_world_ok(1,2,2) ne demo_dir_at demo_world_ok(4,5,5) n fr
          unused m])
qed

section \<open>Names the directory code gets wrong\<close>

text \<open>
  \<open>create\<close> refuses names that do not exist.  Any name that is a substring of an entry's name,
  or of the decimal digits of an entry's number, is answered \<open>EXIST\<close>, although looking it up
  answers \<open>NOENT\<close> when it is not itself a component.
\<close>

lemma create_substring_exists:
  assumes "w_ok w" and "\<not> w_locked w p" "\<not> w_locked w f" and "p \<noteq> f" and "dir_at w p es"
    and "w_readable w p" and "valid_name n" and "e \<in> set es"
    and "sublist n (de_name e) \<or> sublist n (filename (de_inum e))" and "n \<notin> set (dir_comps es)"
  shows "achieves (yfs_create p f n mode) w (\<lambda>x s. x = Y_EXIST \<and> stored w (w_contents w) s) \<and>
    achieves (yfs_lookup p n 0) w (\<lambda>x s. x = (Y_NOENT, 0) \<and> stored w (w_contents w) s)"
proof -
  have "\<not> fresh n es" using assms(8,9) by (auto simp: fresh_def)
  then show ?thesis
    using create_exists_achieves [OF assms(1-7)] lookup_absent [OF assms(1,2,5,6,10)] by simp
qed

lemma create_substring_exists_demo:
  "achieves (yfs_create 5 20 ''g'' 420) (demo_world [] demo_dir) (\<lambda>x s. x = Y_EXIST \<and>
     stored (demo_world [] demo_dir) (w_contents (demo_world [] demo_dir)) s)"
proof -
  have n: "valid_name ''g''" and ne: "(5 :: ull) \<noteq> 20" by (simp_all add: valid_name_def)
  have e: "demo_dir ! 1 \<in> set demo_dir" by (simp add: demo_dir_def)
  have s: "sublist ''g'' (de_name (demo_dir ! 1)) \<or> sublist ''g'' (filename (de_inum (demo_dir ! 1)))"
    by (simp add: demo_dir_def sublist_Cons_right)
  have c: "''g'' \<notin> set (dir_comps demo_dir)" by (simp add: demo_dir_def demo_filenames)
  show ?thesis
    by (rule conjunct1 [OF create_substring_exists [OF demo_world_ok(1,2,2) ne demo_dir_at
            demo_world_ok(4) n e s c]])
qed

text \<open>
  Looking up the decimal digits of the last entry's number, where no entry has that name,
  finds the number's own component and dereferences the end iterator behind it, with the
  directory's lock taken.
\<close>

lemma lookup_of_number:
  assumes "w_ok w" and "\<not> w_locked w p" and "dir_at w p (es @ [e])" and "w_readable w p"
    and "filename (de_inum e) \<notin> set (dir_comps es)" and "filename (de_inum e) \<noteq> de_name e"
  shows "fst (yfs_lookup p (filename (de_inum e)) f0 w) = Undef \<and>
    w_locked (snd (yfs_lookup p (filename (de_inum e)) f0 w)) p"
proof -
  have "iter_find (filename (de_inum e)) (split (dir_str (es @ [e])) (CHR ''/'')) = [filename (de_inum e)]"
    using assms(3,5,6) by (simp add: dir_at_def split_dir iter_find_append del: dir_str_simps)
  then show ?thesis
    unfolding yfs_lookup_eq
    using read_extent_stuck [OF assms(1,2,4), of "dir_str (es @ [e])" "\<lambda>buf.
        case iter_find (filename (de_inum e)) (split buf (CHR ''/'')) of
        [] \<Rightarrow> Ret (Y_NOENT, 0) | [it] \<Rightarrow> Undef | it # n # _ \<Rightarrow> Ret (Y_OK, n2i n)"] assms(3)
    by (simp add: dir_at_def del: dir_str_simps)
qed

lemma lookup_of_number_demo:
  "fst (yfs_lookup 5 ''12'' 0 (demo_world [] demo_dir)) = Undef"
proof -
  let ?es = "[\<lparr>de_name = ''f'', de_inum = 9\<rparr>]" and ?e = "\<lparr>de_name = ''gh'', de_inum = 12\<rparr>"
  have d: "dir_at (demo_world [] demo_dir) 5 (?es @ [?e])"
    using demo_dir_at [of "[]"] by (simp add: demo_dir_def)
  have n: "filename (de_inum ?e) \<notin> set (dir_comps ?es)" "filename (de_inum ?e) \<noteq> de_name ?e"
    by (simp_all add: demo_filenames)
  show ?thesis
    using lookup_of_number [OF demo_world_ok(1,2) d demo_world_ok(4) n, of 0]
    by (simp add: demo_filenames)
qed

text \<open>
  A file number equal to its directory's number locks the client out: \<open>create\<close> takes the
  directory's lock, asks for it again as the file's lock, and never returns.
\<close>

lemma create_self_deadlock:
  assumes "w_ok w" and "\<not> w_locked w p"
  shows "fst (yfs_create p p n mode w) = Blocked \<and> w_locked (snd (yfs_create p p n mode w)) p"
proof -
  note rel = w_ok_reliable [OF assms(1)]
  obtain r ls where acq: "lock_client_acquire p w
      = (Ret r, w\<lparr>w_rpcs := Suc (w_rpcs w), w_locks := ls\<rparr>)"
    and tk: "lock_take (w_clt w) p (w_locks w) = Some ls"
    using rel assms(2) by (rule lock_client_acquire_free)
  let ?w1 = "w\<lparr>w_rpcs := Suc (w_rpcs w), w_locks := ls\<rparr>"
  have l: "w_locked ?w1 p" using lsrv.acq_held [OF tk] by (simp add: w_locked_def)
  from lock_client_acquire_taken [OF _ l] rel
  have "lock_client_acquire p ?w1 = (Blocked, ?w1\<lparr>w_rpcs := Suc (w_rpcs ?w1)\<rparr>)" by simp
  then have "yfs_create p p n mode w = (Blocked, ?w1\<lparr>w_rpcs := Suc (w_rpcs ?w1)\<rparr>)"
    by (simp add: yfs_create_def scoped_def acq)
  then show ?thesis using l by (simp add: w_locked_def)
qed

lemma create_self_deadlock_demo:
  "fst (yfs_create 5 5 ''a'' 420 (demo_world [] [])) = Blocked"
  using create_self_deadlock [OF demo_world_ok(1,2)] by blast

section \<open>Failed calls\<close>

text \<open>Whatever becomes of a call, it changes the content of no extent but its own.\<close>

lemma stub_other_contents:
  "extent_client_put i c w = (r, w') \<Longrightarrow> j \<noteq> i \<Longrightarrow> w_contents w' j = w_contents w j"
  "extent_client_getattr i a w = (r, b, w') \<Longrightarrow> w_contents w' j = w_contents w j"
  "extent_client_setattr i a w = (r, w') \<Longrightarrow> w_contents w' j = w_contents w j"
  by (auto simp: extent_client_put_def extent_client_getattr_def extent_client_setattr_def
      extent_call_def store_eqs w_contents_def case_prod_beta Let_def
      split: rpc_fate.splits option.splits if_splits)

text \<open>
  C20: \<open>create\<close> looks at two error codes only.  When the call that fetches the directory fails in
  the network, the operation goes on with an empty string, in which every name is fresh, and
  stores a directory that holds the new entry and nothing else: all older entries are lost,
  whatever becomes of the calls that follow.
\<close>

theorem create_after_failed_get:
  assumes "w_fate w = Request_lost e" and "w_fate (w\<lparr>w_rpcs := Suc (w_rpcs w)\<rparr>) = Delivered"
    and "w_writable w p" and "p \<noteq> f" and "n \<noteq> []"
  shows "w_contents (snd (create_body p f n mode w)) p
    = Some (dir_str [\<lparr>de_name = n, de_inum = f\<rparr>])"
proof -
  let ?v = "w\<lparr>w_rpcs := Suc (w_rpcs w)\<rparr>" and ?b = "n @ ''/'' @ filename f @ ''/''"
  have g: "extent_client_get p [] w = (rpc_failure_code e, [], ?v)"
    using assms(1) by (simp add: extent_client_get_def extent_call_def case_prod_beta)
  have neg: "rpc_failure_code e \<noteq> extent_status_code E_NOENT"
    "rpc_failure_code e \<noteq> extent_status_code E_NOACCESS"
    by (cases e; simp)+
  obtain r2 w2 where p2: "extent_client_put p ?b ?v = (r2, w2)" by (metis prod.exhaust)
  then have c2: "w_contents w2 p = Some ?b" "r2 = extent_status_code E_OK"
    using assms(2,3)
    by (auto simp: extent_client_put_def extent_call_def put_eq w_contents_def w_writable_def)
  obtain r3 w3 where p3: "extent_client_put f [] w2 = (r3, w3)" by (metis prod.exhaust)
  obtain r4 a w4 where p4: "extent_client_getattr f (w_junk w3) w3 = (r4, a, w4)"
    by (metis prod_cases3)
  obtain r5 w5 where p5: "extent_client_setattr f
      (a\<lparr>attr_mode := mode, attr_uid := w_uid w4, attr_gid := w_gid w4\<rparr>) w4 = (r5, w5)"
    by (metis prod.exhaust)
  have "snd (create_body p f n mode w) \<in> {w3, w5}"
    using assms(5) g neg p2 c2(2) p3 p4 p5 by (simp add: create_body_def)
  moreover have "w_contents w3 p = Some ?b" "w_contents w5 p = Some ?b"
    using stub_other_contents(1) [OF p3 assms(4)] stub_other_contents(2) [OF p4, of p]
      stub_other_contents(3) [OF p5, of p] c2(1) by simp_all
  ultimately show ?thesis by (auto simp: entry_str_def)
qed

theorem create_after_failed_get_witness:
  "w_contents (snd (create_body 5 20 ''new'' 420 ((demo_world [] demo_dir)
     \<lparr>w_script := (\<lambda>n. (if n = 0 then Request_lost Timeout_failure else Delivered, 0, demo_attr 0))\<rparr>))) 5
     = Some (dir_str [\<lparr>de_name = ''new'', de_inum = 20\<rparr>])"
proof (rule create_after_failed_get)
  show "w_writable ((demo_world [] demo_dir)
     \<lparr>w_script := (\<lambda>n. (if n = 0 then Request_lost Timeout_failure else Delivered, 0, demo_attr 0))\<rparr>) 5"
    using demo_world_ok(5) [of "[]" demo_dir 5] by (simp add: w_writable_def)
qed (simp_all add: w_fate_def demo_world_def)

section \<open>Attributes\<close>

lemma getfile_achieves:
  assumes ok: "w_ok w" and free: "\<not> w_locked w num" and m: "w_contents w num = Some c"
    and len: "length c < 2 ^ 32" and a: "map_option rights_of (attrs (w_ext w) num) = Some (mo, u, g)"
  shows "achieves (yfs_getfile num fin) w (\<lambda>x s. fst x = Y_OK \<and>
      unat (fi_size (snd x)) = length c \<and> fi_mode (snd x) = ucast mo \<and>
      fi_uid (snd x) = ucast u \<and> fi_gid (snd x) = ucast g \<and> s = w_ext w)"
    (is "achieves _ _ ?Q")
  unfolding yfs_getfile_def
proof (rule achieves_scoped [OF w_ok_reliable [OF ok] free])
  fix w1
  assume e: "w_ext w1 = w_ext w" and c1: "same_client w w1"
  obtain b v where g: "extent_client_getattr num (w_junk w1) w1
      = (extent_status_code (if w_contents w num = None then E_NOENT else E_OK), b, v)"
    "same_client w v" "w_locked v = w_locked w1" "w_ext v = w_ext w1"
    "w_contents w num \<noteq> None \<longrightarrow> attrs (w_ext w1) num = Some b"
    by (rule getattr_step [OF w_ok_reliable [OF ok] c1 stored_same [OF ok e]])
  have b: "attrs (w_ext w) num = Some b" "rights_of b = (mo, u, g)" using g(5) e m a by simp_all
  have "store_consistent (w_ext w)" "contents (w_ext w) num = Some c"
    using ok m by (simp_all add: w_ok_def w_contents_def)
  then have sz: "attr_size b = of_nat (length c)"
    using consistent_attr [of "w_ext w" num c] b(1) by auto
  have "unat (ucast (attr_size b) :: ull) = length c"
    using len unfolding sz by (simp add: unsigned_ucast_eq take_bit_nat_eq_self unat_of_nat)
  then show "achieves (\<lambda>w. let (r, a, w1) = extent_client_getattr num (w_junk w) w in
     if r = extent_status_code E_NOENT then (Ret (Y_NOENT, fin), w1)
     else (Ret (Y_OK, \<lparr>fi_size = ucast (attr_size a), fi_atime = ucast (attr_atime a),
        fi_mtime = ucast (attr_mtime a), fi_ctime = ucast (attr_ctime a),
        fi_mode = ucast (attr_mode a), fi_uid = ucast (attr_uid a),
        fi_gid = ucast (attr_gid a)\<rparr>), w1)) w1 ?Q"
    using g(1-4) b(2) e m c1 by (simp add: achieves_def same_client_def rights_of_def)
qed

lemma change_attr_achieves:
  assumes ok: "w_ok w" and free: "\<not> w_locked w num" and m: "w_contents w num = Some c"
    and a: "map_option rights_of (attrs (w_ext w) num) = Some old"
    and f: "\<And>b. rights_of b = old \<Longrightarrow> rights_of (f b) = new"
  shows "achieves (change_attr num f) w (\<lambda>x s. contents s = w_contents w \<and>
      x = (if w_writable w num then Y_OK else Y_NOACCESS) \<and>
      map_option rights_of (attrs s num) = Some (if w_writable w num then new else old))"
    (is "achieves _ _ ?Q")
  unfolding change_attr_def
proof (rule achieves_scoped [OF w_ok_reliable [OF ok] free])
  note rel = w_ok_reliable [OF ok]
  fix w1
  assume e: "w_ext w1 = w_ext w" and c1: "same_client w w1"
  obtain b v where g: "extent_client_getattr num (w_junk w1) w1
      = (extent_status_code (if w_contents w num = None then E_NOENT else E_OK), b, v)"
    "same_client w v" "w_locked v = w_locked w1" "w_ext v = w_ext w1"
    "w_contents w num \<noteq> None \<longrightarrow> attrs (w_ext w1) num = Some b"
    by (rule getattr_step [OF rel c1 stored_same [OF ok e]])
  have ev: "w_ext v = w_ext w" using g(4) e by simp
  have b: "rights_of b = old" using g(5) e m a by simp
  have mn: "w_contents w num \<noteq> None" using m by simp
  obtain v' where s: "extent_client_setattr num (f b) v
      = (extent_status_code (if w_writable w num then E_OK else E_NOACCESS), v')"
    "same_client w v'" "w_locked v' = w_locked v" "contents (w_ext v') = w_contents w"
    "map_option rights_of (attrs (w_ext v') num) = (if w_writable w num
       then Some (attr_mode (f b), attr_uid (f b), attr_gid (f b))
       else map_option rights_of (attrs (w_ext v) num))"
    by (rule setattr_step [OF rel g(2) stored_same [OF ok ev] mn, of "f b"])
  show "achieves (\<lambda>w. let (r, a, w1) = extent_client_getattr num (w_junk w) w in
     if r = extent_status_code E_NOENT then (Ret Y_NOENT, w1)
     else let (r2, w2) = extent_client_setattr num (f a) w1 in
       if r2 = extent_status_code E_NOACCESS then (Ret Y_NOACCESS, w2) else (Ret Y_OK, w2)) w1 ?Q"
    (is "achieves ?op _ _")
  proof (rule achievesI [of ?op w1 "if w_writable w num then Y_OK else Y_NOACCESS" v'])
    show "?op w1 = (Ret (if w_writable w num then Y_OK else Y_NOACCESS), v')"
      using g(1) s(1) mn by simp
    show "same_client w1 v'" "w_locked v' = w_locked w1"
      using s(2,3) g(3) c1 by (simp_all add: same_client_def)
    show "?Q (if w_writable w num then Y_OK else Y_NOACCESS) (w_ext v')"
      using s(4,5) f [OF b] a ev by (auto simp: rights_of_def)
  qed
qed

text \<open>
  C21: \<open>getfile\<close> reports the size of the content of a file shorter than 4 GiB and the mode, owner
  and group last set, to anybody; \<open>chmod\<close>, \<open>chuid\<close> and \<open>chgid\<close> change their one field when the client may
  write the file and are refused with \<open>NOACCESS\<close> otherwise.
\<close>

theorem attributes_reported_and_changed:
  assumes "w_ok w" and "\<not> w_locked w num" and "w_contents w num = Some c" and "length c < 2 ^ 32"
    and "map_option rights_of (attrs (w_ext w) num) = Some (m, u, g)"
  shows "achieves (yfs_getfile num fin) w (\<lambda>x s. fst x = Y_OK \<and>
      unat (fi_size (snd x)) = length c \<and> fi_mode (snd x) = ucast m \<and>
      fi_uid (snd x) = ucast u \<and> fi_gid (snd x) = ucast g \<and> s = w_ext w) \<and>
    achieves (yfs_chmod num v) w (\<lambda>x s. contents s = w_contents w \<and>
      x = (if w_writable w num then Y_OK else Y_NOACCESS) \<and>
      map_option rights_of (attrs s num) = Some (if w_writable w num then ucast v else m, u, g)) \<and>
    achieves (yfs_chuid num v) w (\<lambda>x s. contents s = w_contents w \<and>
      x = (if w_writable w num then Y_OK else Y_NOACCESS) \<and>
      map_option rights_of (attrs s num) = Some (m, if w_writable w num then ucast v else u, g)) \<and>
    achieves (yfs_chgid num v) w (\<lambda>x s. contents s = w_contents w \<and>
      x = (if w_writable w num then Y_OK else Y_NOACCESS) \<and>
      map_option rights_of (attrs s num) = Some (m, u, if w_writable w num then ucast v else g))"
  unfolding yfs_chmod_def yfs_chuid_def yfs_chgid_def
proof (intro conjI getfile_achieves [OF assms], goal_cases)
  note ch = change_attr_achieves [OF assms(1-3,5)]
  case 1
  show ?case
    by (rule achieves_mono [OF ch [where new = "(ucast v, u, g)"]])
      (auto simp: rights_of_def split: if_splits)
  case 2
  show ?case
    by (rule achieves_mono [OF ch [where new = "(m, ucast v, g)"]])
      (auto simp: rights_of_def split: if_splits)
  case 3
  show ?case
    by (rule achieves_mono [OF ch [where new = "(m, u, ucast v)"]])
      (auto simp: rights_of_def split: if_splits)
qed

theorem attributes_reported_and_changed_witness:
  "achieves (yfs_chmod 9 448) (demo_world ''abc'' []) (\<lambda>x s. x = Y_OK \<and>
     map_option rights_of (attrs s 9) = Some (448, 7, 7))"
proof -
  have c: "w_contents (demo_world ''abc'' []) 9 = Some ''abc''" by (simp add: demo_world_ok)
  have l: "length ''abc'' < (2 :: nat) ^ 32" by simp
  have a: "map_option rights_of (attrs (w_ext (demo_world ''abc'' [])) 9) = Some (384, 7, 7)"
    by (simp add: demo_world_def demo_attr_def rights_of_def)
  note th = attributes_reported_and_changed [OF demo_world_ok(1,2) c l a, of _ 448]
  show ?thesis
    using achieves_mono [OF conjunct1 [OF conjunct2 [OF th]], of "\<lambda>x s. x = Y_OK \<and>
      map_option rights_of (attrs s 9) = Some (448, 7, 7)"] demo_world_ok(5) by simp
qed

end
