(* ===== verification/Fuse.thy ===== *)
theory Fuse
  imports Yfs_Theorems
begin

text \<open>
  The FUSE front end (\<open>fuse.cc\<close>): the handlers that turn the kernel's requests into calls of the
  file system client, each a function on worlds that gives the one reply it sends.  What the FUSE
  library supplies is an argument: the user and group of \<open>fuse_get_context\<close>, and the two
  functions that measure and encode a directory entry; \<open>to_set\<close> is the set of its flags.  The two
  results of \<open>rand\<close> are arguments of \<open>random_inum\<close>.  Tracing output is left out, and memory is
  unbounded.
\<close>

section \<open>Data\<close>

text \<open>The fields of \<open>struct stat\<close> the sources set or read; \<open>bzero\<close> clears all of them.\<close>

record fstat =
  st_ino :: ull
  st_mode :: uint
  st_nlink :: ull
  st_uid :: uint
  st_gid :: uint
  st_size :: int
  st_atim :: int
  st_mtim :: int
  st_ctim :: int

definition stat_zero :: fstat where
  "stat_zero = \<lparr>st_ino = 0, st_mode = 0, st_nlink = 0, st_uid = 0, st_gid = 0, st_size = 0,
     st_atim = 0, st_mtim = 0, st_ctim = 0\<rparr>"

definition S_IFREG :: ull where
  "S_IFREG = 32768"

definition S_IFDIR :: ull where
  "S_IFDIR = 16384"

record fuse_entry_param =
  ent_ino :: ull
  ent_generation :: ull
  ent_attr :: fstat
  ent_attr_timeout :: nat
  ent_entry_timeout :: nat

definition entry_zero :: fuse_entry_param where
  "entry_zero = \<lparr>ent_ino = 0, ent_generation = 0, ent_attr = stat_zero, ent_attr_timeout = 0,
     ent_entry_timeout = 0\<rparr>"

datatype errno = Success | ENOENT | EACCES | EEXIST | ENOTDIR | ENOSYS

record statvfs =
  f_namemax :: nat
  f_bsize :: nat

datatype fuse_reply =
    Reply_err errno
  | Reply_attr fstat
  | Reply_entry fuse_entry_param
  | Reply_create fuse_entry_param
  | Reply_buf string
  | Reply_write nat
  | Reply_open
  | Reply_statfs statvfs

datatype set_attr = SET_ATTR_MODE | SET_ATTR_UID | SET_ATTR_GID | SET_ATTR_SIZE

section \<open>Inode numbers\<close>

text \<open>
  \<open>(rand() << 16) | rand()\<close> is an \<open>int\<close>: the shift drops the high bits and the result is
  sign-extended to \<open>unsigned long\<close>.
\<close>

definition random_inum :: "bool \<Rightarrow> uint \<Rightarrow> uint \<Rightarrow> ull" where
  "random_inum is_file r1 r2 =
     (let r = scast (push_bit 16 r1 OR r2) :: ull;
          i = (if is_file then 0x80000000 OR r else 0x7FFFFFFF AND r)
      in i AND 0xFFFFFFFF)"

section \<open>Attributes\<close>

text \<open>
  \<open>info\<close> is uninitialised in the code and overwritten whenever the call returns \<open>OK\<close>; \<open>st\<close> keeps
  its number and zeros when it does not.
\<close>

definition info0 :: fileinfo where
  "info0 = \<lparr>fi_size = 0, fi_atime = 0, fi_mtime = 0, fi_ctime = 0, fi_mode = 0, fi_uid = 0, fi_gid = 0\<rparr>"

definition dinfo0 :: dirinfo where
  "dinfo0 = \<lparr>di_atime = 0, di_mtime = 0, di_ctime = 0, di_mode = 0, di_uid = 0, di_gid = 0\<rparr>"

definition fuse_getattr :: "ull \<Rightarrow> world \<Rightarrow> (yfs_status \<times> fstat) outcome \<times> world" where
  "fuse_getattr inum w =
     (let st = stat_zero\<lparr>st_ino := inum\<rparr> in
      if isfile inum
      then seq (yfs_getfile inum info0 w) (\<lambda>(ret, info) w1.
        if ret \<noteq> Y_OK then (Ret (ret, st), w1)
        else (Ret (Y_OK, st\<lparr>st_mode := ucast (S_IFREG OR fi_mode info), st_nlink := 1,
          st_atim := sint (fi_atime info), st_mtim := sint (fi_mtime info),
          st_ctim := sint (fi_ctime info), st_size := sint (fi_size info),
          st_uid := ucast (fi_uid info), st_gid := ucast (fi_gid info)\<rparr>), w1))
      else seq (yfs_getdir inum dinfo0 w) (\<lambda>(ret, info) w1.
        if ret \<noteq> Y_OK then (Ret (ret, st), w1)
        else (Ret (Y_OK, st\<lparr>st_mode := ucast (S_IFDIR OR di_mode info), st_nlink := 2,
          st_atim := sint (di_atime info), st_mtim := sint (di_mtime info),
          st_ctim := sint (di_ctime info),
          st_uid := ucast (di_uid info), st_gid := ucast (di_gid info)\<rparr>), w1)))"

definition fuseserver_getattr :: "ull \<Rightarrow> world \<Rightarrow> fuse_reply outcome \<times> world" where
  "fuseserver_getattr ino w = seq (fuse_getattr ino w) (\<lambda>(ret, st) w1.
     if ret \<noteq> Y_OK then (Ret (Reply_err ENOENT), w1) else (Ret (Reply_attr st), w1))"

text \<open>
  The four parts of \<open>setattr\<close> run one after the other, each overwriting \<open>ret\<close>; only the last
  status is looked at, and that of the second \<open>getattr\<close> is not.
\<close>

definition setattr_size :: "ull \<Rightarrow> fstat \<Rightarrow> int \<Rightarrow> world \<Rightarrow> yfs_status outcome \<times> world" where
  "setattr_size inum st sz =
     (if sz > st_size st
      then yfs_write inum (st_size st) (replicate (nat (sz - st_size st)) (CHR 0x00))
      else yfs_truncate inum (nat (st_size st - sz)))"

definition when_set ::
  "bool \<Rightarrow> (world \<Rightarrow> yfs_status outcome \<times> world) \<Rightarrow> yfs_status \<Rightarrow> world \<Rightarrow> yfs_status outcome \<times> world" where
  "when_set b op ret w = (if b then op w else (Ret ret, w))"

definition fuseserver_setattr ::
  "ull \<Rightarrow> fstat \<Rightarrow> set_attr set \<Rightarrow> world \<Rightarrow> fuse_reply outcome \<times> world" where
  "fuseserver_setattr ino a to_set w =
     seq (fuse_getattr ino w) (\<lambda>(ret, st) w1.
     if ret \<noteq> Y_OK then (Ret (Reply_err ENOENT), w1)
     else
       seq (when_set (SET_ATTR_SIZE \<in> to_set) (setattr_size ino st (st_size a)) ret w1) (\<lambda>ret w2.
       seq (when_set (SET_ATTR_MODE \<in> to_set) (yfs_chmod ino (ucast (st_mode a))) ret w2) (\<lambda>ret w3.
       seq (when_set (SET_ATTR_UID \<in> to_set) (yfs_chuid ino (ucast (st_uid a))) ret w3) (\<lambda>ret w4.
       seq (when_set (SET_ATTR_GID \<in> to_set) (yfs_chgid ino (ucast (st_gid a))) ret w4) (\<lambda>ret w5.
       if ret = Y_NOACCESS then (Ret (Reply_err EACCES), w5)
       else if ret = Y_IOERR then (Ret (Reply_err ENOENT), w5)
       else seq (fuse_getattr ino w5) (\<lambda>(_, st) w6. (Ret (Reply_attr st), w6)))))))"

text \<open>
  \<open>R_OK\<close> is 4, \<open>W_OK\<close> 2, \<open>X_OK\<close> 1 and \<open>F_OK\<close> 0, so the test of \<open>mask & F_OK\<close> never holds.
\<close>

definition class_ok :: "uint \<Rightarrow> uint \<Rightarrow> fstat \<Rightarrow> uint \<Rightarrow> uint \<Rightarrow> uint \<Rightarrow> bool" where
  "class_ok fc_uid fc_gid st other owner grp \<longleftrightarrow>
     st_mode st AND other \<noteq> 0 \<or> (st_uid st = fc_uid \<and> st_mode st AND owner \<noteq> 0) \<or>
     (st_gid st = fc_gid \<and> st_mode st AND grp \<noteq> 0)"

definition fuseserver_access ::
  "uint \<Rightarrow> uint \<Rightarrow> ull \<Rightarrow> uint \<Rightarrow> world \<Rightarrow> fuse_reply outcome \<times> world" where
  "fuseserver_access fc_uid fc_gid ino msk w =
     seq (fuse_getattr ino w) (\<lambda>(ret, st) w1.
     if ret \<noteq> Y_OK then (Ret (Reply_err ENOENT), w1)
     else if msk AND 0 \<noteq> 0 then (Ret (Reply_err Success), w1)
     else
       let read_ok = (msk AND 4 = 0 \<or> class_ok fc_uid fc_gid st 4 256 32);
           write_ok = (msk AND 2 = 0 \<or> class_ok fc_uid fc_gid st 2 128 16);
           exec_ok = (msk AND 1 = 0 \<or> class_ok fc_uid fc_gid st 1 64 8)
       in if read_ok \<and> write_ok \<and> exec_ok then (Ret (Reply_err Success), w1)
          else (Ret (Reply_err EACCES), w1))"

section \<open>File contents\<close>

definition fuseserver_read :: "ull \<Rightarrow> nat \<Rightarrow> int \<Rightarrow> world \<Rightarrow> fuse_reply outcome \<times> world" where
  "fuseserver_read ino sz off w =
     seq (fuse_getattr ino w) (\<lambda>(ret, st) w1.
     if ret \<noteq> Y_OK then (Ret (Reply_err ENOENT), w1)
     else seq (yfs_read ino off sz [] w1) (\<lambda>(ret, buf) w2.
       if ret = Y_NOACCESS then (Ret (Reply_err EACCES), w2)
       else if ret = Y_NOENT then (Ret (Reply_err ENOENT), w2)
       else (Ret (Reply_buf buf), w2)))"

definition fuseserver_write :: "ull \<Rightarrow> string \<Rightarrow> int \<Rightarrow> world \<Rightarrow> fuse_reply outcome \<times> world" where
  "fuseserver_write ino buf off w =
     seq (fuse_getattr ino w) (\<lambda>(ret, st) w1.
     if ret \<noteq> Y_OK then (Ret (Reply_err ENOENT), w1)
     else seq (yfs_write ino off buf w1) (\<lambda>ret w2.
       if ret = Y_NOACCESS then (Ret (Reply_err EACCES), w2)
       else if ret = Y_IOERR then (Ret (Reply_err ENOENT), w2)
       else (Ret (Reply_write (length buf)), w2)))"

section \<open>Directories\<close>

text \<open>\<open>None\<close>: the entry of the caller is left as it was, and the caller does not look at it.\<close>

definition fuseserver_createhelper ::
  "uint \<Rightarrow> uint \<Rightarrow> ull \<Rightarrow> string \<Rightarrow> uint \<Rightarrow> bool \<Rightarrow> world
     \<Rightarrow> (yfs_status \<times> fuse_entry_param option) outcome \<times> world" where
  "fuseserver_createhelper r1 r2 parent name mode is_file w =
     (let fnum = random_inum is_file r1 r2 in
      seq (yfs_create parent fnum name mode w) (\<lambda>ret w1.
      if ret \<noteq> Y_OK then (Ret (ret, None), w1)
      else seq (fuse_getattr fnum w1) (\<lambda>(ret, st) w2.
        if ret \<noteq> Y_OK then (Ret (ret, None), w2)
        else (Ret (ret, Some \<lparr>ent_ino = fnum, ent_generation = 0, ent_attr = st,
          ent_attr_timeout = 0, ent_entry_timeout = 0\<rparr>), w2))))"

text \<open>\<open>create\<close>, \<open>mknod\<close> and \<open>mkdir\<close> map the helper's status in the same way.\<close>

fun create_reply ::
  "(fuse_entry_param \<Rightarrow> fuse_reply) \<Rightarrow> yfs_status \<times> fuse_entry_param option \<Rightarrow> fuse_reply" where
  "create_reply good (Y_OK, Some e) = good e"
| "create_reply good (Y_EXIST, _) = Reply_err EEXIST"
| "create_reply good _ = Reply_err ENOENT"

definition fuseserver_create ::
  "uint \<Rightarrow> uint \<Rightarrow> ull \<Rightarrow> string \<Rightarrow> uint \<Rightarrow> world \<Rightarrow> fuse_reply outcome \<times> world" where
  "fuseserver_create r1 r2 parent name mode w =
     seq (fuseserver_createhelper r1 r2 parent name mode True w)
       (\<lambda>x w1. (Ret (create_reply Reply_create x), w1))"

definition fuseserver_mknod ::
  "uint \<Rightarrow> uint \<Rightarrow> ull \<Rightarrow> string \<Rightarrow> uint \<Rightarrow> world \<Rightarrow> fuse_reply outcome \<times> world" where
  "fuseserver_mknod r1 r2 parent name mode w =
     seq (fuseserver_createhelper r1 r2 parent name mode True w)
       (\<lambda>x w1. (Ret (create_reply Reply_entry x), w1))"

definition fuseserver_mkdir ::
  "uint \<Rightarrow> uint \<Rightarrow> ull \<Rightarrow> string \<Rightarrow> uint \<Rightarrow> world \<Rightarrow> fuse_reply outcome \<times> world" where
  "fuseserver_mkdir r1 r2 parent name mode w =
     seq (fuseserver_createhelper r1 r2 parent name mode False w)
       (\<lambda>x w1. (Ret (create_reply Reply_entry x), w1))"

text \<open>The number the code passes uninitialised to \<open>yfs->lookup\<close> is read only after an \<open>OK\<close>.\<close>

definition fuse_lookup ::
  "ull \<Rightarrow> string \<Rightarrow> world \<Rightarrow> (yfs_status \<times> fuse_entry_param) outcome \<times> world" where
  "fuse_lookup pnum fname w =
     seq (yfs_lookup pnum fname 0 w) (\<lambda>(ret, fnum) w1.
     if ret \<noteq> Y_OK then (Ret (ret, entry_zero), w1)
     else seq (fuse_getattr fnum w1) (\<lambda>(ret, st) w2.
       if ret \<noteq> Y_OK then (Ret (ret, entry_zero), w2)
       else (Ret (ret, \<lparr>ent_ino = fnum, ent_generation = 0, ent_attr = st,
         ent_attr_timeout = 0, ent_entry_timeout = 0\<rparr>), w2)))"

definition fuseserver_lookup :: "ull \<Rightarrow> string \<Rightarrow> world \<Rightarrow> fuse_reply outcome \<times> world" where
  "fuseserver_lookup parent name w =
     (if \<not> isdir parent then (Ret (Reply_err ENOTDIR), w)
      else seq (fuse_lookup parent name w) (\<lambda>(ret, e) w1.
        if ret = Y_OK then (Ret (Reply_entry e), w1)
        else if ret = Y_IOERR then (Ret (Reply_err EACCES), w1)
        else (Ret (Reply_err ENOENT), w1)))"

record dirbuf =
  db_p :: string
  db_size :: nat

text \<open>A \<open>std::string\<close> handed over as a C string ends at its first zero byte.\<close>

definition c_str :: "string \<Rightarrow> string" where
  "c_str s = takeWhile (\<lambda>c. c \<noteq> CHR 0x00) s"

text \<open>
  \<open>dsize\<close> is \<open>fuse_dirent_size\<close>; \<open>dadd name st off\<close> are the bytes \<open>fuse_add_dirent\<close> writes behind the
  old end of the buffer, which \<open>realloc\<close> has made room for.
\<close>

definition dirbuf_add ::
  "(nat \<Rightarrow> nat) \<Rightarrow> (string \<Rightarrow> fstat \<Rightarrow> nat \<Rightarrow> string) \<Rightarrow> string \<Rightarrow> ull \<Rightarrow> dirbuf \<Rightarrow> dirbuf" where
  "dirbuf_add dsize dadd name ino b =
     (let sz = db_size b + dsize (length name) in
      \<lparr>db_p = db_p b @ dadd name (stat_zero\<lparr>st_ino := ino\<rparr>) sz, db_size = sz\<rparr>)"

definition reply_buf_limited :: "string \<Rightarrow> nat \<Rightarrow> int \<Rightarrow> nat \<Rightarrow> fuse_reply" where
  "reply_buf_limited buf bufsize off maxsize =
     (if 0 \<le> off \<and> nat off < bufsize
      then Reply_buf (take (min (bufsize - nat off) maxsize) (drop (nat off) buf))
      else Reply_buf [])"

text \<open>The status of \<open>yfs->readdir\<close> is not looked at.\<close>

definition fuseserver_readdir ::
  "(nat \<Rightarrow> nat) \<Rightarrow> (string \<Rightarrow> fstat \<Rightarrow> nat \<Rightarrow> string) \<Rightarrow> ull \<Rightarrow> nat \<Rightarrow> int \<Rightarrow> world
     \<Rightarrow> fuse_reply outcome \<times> world" where
  "fuseserver_readdir dsize dadd ino sz off w =
     (if \<not> isdir ino then (Ret (Reply_err ENOTDIR), w)
      else seq (yfs_readdir ino [] w) (\<lambda>(_, dirents) w1.
        let b = fold (\<lambda>it. dirbuf_add dsize dadd (c_str (de_name it)) (de_inum it)) dirents
                  \<lparr>db_p = [], db_size = 0\<rparr>
        in (Ret (reply_buf_limited (db_p b) (db_size b) off sz), w1)))"

definition fuseserver_open :: "world \<Rightarrow> fuse_reply outcome \<times> world" where
  "fuseserver_open w = (Ret Reply_open, w)"

definition fuseserver_unlink :: "ull \<Rightarrow> string \<Rightarrow> world \<Rightarrow> fuse_reply outcome \<times> world" where
  "fuseserver_unlink parent name w =
     (if isfile parent then (Ret (Reply_err ENOSYS), w)
      else seq (yfs_unlink parent name w) (\<lambda>ret w1.
        if ret = Y_OK then (Ret (Reply_err Success), w1)
        else if ret = Y_NOENT then (Ret (Reply_err ENOENT), w1)
        else if ret = Y_NOACCESS then (Ret (Reply_err EACCES), w1)
        else (Ret (Reply_err ENOSYS), w1)))"

definition fuseserver_statfs :: "world \<Rightarrow> fuse_reply outcome \<times> world" where
  "fuseserver_statfs w = (Ret (Reply_statfs \<lparr>f_namemax = 255, f_bsize = 512\<rparr>), w)"

section \<open>The table of operations\<close>

datatype fuse_request =
    Fuse_getattr ull
  | Fuse_statfs
  | Fuse_readdir ull nat int
  | Fuse_lookup ull string
  | Fuse_create ull string uint
  | Fuse_mknod ull string uint
  | Fuse_open ull
  | Fuse_read ull nat int
  | Fuse_write ull string int
  | Fuse_setattr ull fstat "set_attr set"
  | Fuse_unlink ull string
  | Fuse_mkdir ull string uint
  | Fuse_access ull uint

text \<open>What the C library and the FUSE library supply while a request is served.\<close>

record fuse_env =
  fe_rand1 :: uint
  fe_rand2 :: uint
  fe_uid :: uint
  fe_gid :: uint
  fe_dsize :: "nat \<Rightarrow> nat"
  fe_dadd :: "string \<Rightarrow> fstat \<Rightarrow> nat \<Rightarrow> string"

fun fuseserver_oper :: "fuse_env \<Rightarrow> fuse_request \<Rightarrow> world \<Rightarrow> fuse_reply outcome \<times> world" where
  "fuseserver_oper v (Fuse_getattr i) = fuseserver_getattr i"
| "fuseserver_oper v Fuse_statfs = fuseserver_statfs"
| "fuseserver_oper v (Fuse_readdir i n off) = fuseserver_readdir (fe_dsize v) (fe_dadd v) i n off"
| "fuseserver_oper v (Fuse_lookup p name) = fuseserver_lookup p name"
| "fuseserver_oper v (Fuse_create p name m) = fuseserver_create (fe_rand1 v) (fe_rand2 v) p name m"
| "fuseserver_oper v (Fuse_mknod p name m) = fuseserver_mknod (fe_rand1 v) (fe_rand2 v) p name m"
| "fuseserver_oper v (Fuse_open i) = fuseserver_open"
| "fuseserver_oper v (Fuse_read i n off) = fuseserver_read i n off"
| "fuseserver_oper v (Fuse_write i buf off) = fuseserver_write i buf off"
| "fuseserver_oper v (Fuse_setattr i a to_set) = fuseserver_setattr i a to_set"
| "fuseserver_oper v (Fuse_unlink p name) = fuseserver_unlink p name"
| "fuseserver_oper v (Fuse_mkdir p name m) = fuseserver_mkdir (fe_rand1 v) (fe_rand2 v) p name m"
| "fuseserver_oper v (Fuse_access i msk) = fuseserver_access (fe_uid v) (fe_gid v) i msk"

section \<open>What the front end's building blocks do\<close>

lemma isfile_bit: "isfile i \<longleftrightarrow> bit i 31"
  using and_exp_eq_0_iff_not_bit [of i 31] by (simp add: isfile_def)

lemma low_mask: "x AND (0xFFFFFFFF :: ull) = take_bit 32 x" "0x7FFFFFFF AND (x :: ull) = take_bit 31 x"
  by (simp_all add: take_bit_eq_mask mask_eq_exp_minus_1 and.commute)

lemma random_inum_type:
  "isfile (random_inum b r1 r2) = b" "unat (random_inum b r1 r2) < 2 ^ 32"
proof -
  have hi: "bit (0x80000000 :: ull) 31" using bit_exp_iff [of 31 31, where 'a = ull] by simp
  show "isfile (random_inum b r1 r2) = b"
    by (auto simp: isfile_bit random_inum_def Let_def low_mask bit_take_bit_iff bit_or_iff hi)
  show "unat (random_inum b r1 r2) < 2 ^ 32"
    using order_less_le_trans [OF take_bit_nat_less_exp, of 31 "2 ^ 32" "unat (scast (push_bit 16 r1 OR r2) :: ull)"]
      take_bit_nat_less_exp [of 32 "unat (0x80000000 OR (scast (push_bit 16 r1 OR r2) :: ull))"]
    by (simp add: random_inum_def Let_def low_mask unsigned_take_bit_eq)
qed

lemma achieves_seq:
  assumes "achieves op w Q"
    and "\<And>x w1. same_client w w1 \<Longrightarrow> w_locked w1 = w_locked w \<Longrightarrow> Q x (w_ext w1) \<Longrightarrow>
      achieves (f x) w1 R"
  shows "achieves (\<lambda>w. seq (op w) f) w R"
proof -
  obtain x w1 where 1: "op w = (Ret x, w1)" "same_client w w1" "w_locked w1 = w_locked w"
    "Q x (w_ext w1)"
    using assms(1) by (rule achievesD)
  show ?thesis
    by (rule achieves_tail [OF assms(2) [OF 1(2,3,4)]]) (use 1 in simp_all)
qed

lemma achieves_return:
  "Q x (w_ext w) \<Longrightarrow> achieves (\<lambda>w. (Ret x, w)) w Q"
  by (rule achievesI) simp_all

text \<open>The attributes FUSE is told of an extent with the server's attributes \<open>a\<close>.\<close>

definition stat_of :: "ull \<Rightarrow> attr \<Rightarrow> fstat" where
  "stat_of i a = \<lparr>st_ino = i,
     st_mode = (if isfile i then 32768 else 16384) OR attr_mode a,
     st_nlink = (if isfile i then 1 else 2), st_uid = attr_uid a, st_gid = attr_gid a,
     st_size = (if isfile i then int (unat (attr_size a)) else 0),
     st_atim = int (unat (attr_atime a)), st_mtim = int (unat (attr_mtime a)),
     st_ctim = int (unat (attr_ctime a))\<rparr>"

lemma sint_ucast_uint: "sint (ucast (x :: uint) :: ull) = int (unat x)"
proof -
  have "unat x < 2 ^ 32" by (rule order_less_le_trans [OF unsigned_less]) simp
  then have "int (unat x) < 2 ^ 32" by (simp only: of_nat_less_iff [symmetric, where 'a = int]) simp
  then have "signed_take_bit 63 (int (unat x)) = int (unat x)"
    by (intro signed_take_bit_int_eq_self order_trans [OF _ of_nat_0_le_iff]) simp_all
  then show ?thesis by (simp add: signed_ucast_eq)
qed

lemma ucast_or: "ucast ((k :: ull) OR ucast (m :: uint)) = (ucast k OR m :: uint)"
  by (rule bit_word_eqI) (auto simp: bit_simps)

lemma ucast_up_down: "ucast (ucast (m :: uint) :: ull) = m"
  by (rule bit_word_eqI) (auto simp: bit_simps)

text \<open>Under its lock, reading the attributes of an extent changes nothing.\<close>

lemma attr_query_achieves:
  assumes ok: "w_ok w" and free: "\<not> w_locked w i"
  shows "achieves (scoped i (\<lambda>w. let (r, a, w1) = extent_client_getattr i (w_junk w) w in
      if r = extent_status_code E_NOENT then (Ret (Y_NOENT, d), w1) else (Ret (Y_OK, g a), w1))) w
    (\<lambda>x s. s = w_ext w \<and> (if w_contents w i = None then x = (Y_NOENT, d)
       else \<exists>a. attrs (w_ext w) i = Some a \<and> x = (Y_OK, g a)))"
proof (rule achieves_scoped [OF w_ok_reliable [OF ok] free])
  fix w1
  assume e: "w_ext w1 = w_ext w" and c1: "same_client w w1"
  obtain b v where g: "extent_client_getattr i (w_junk w1) w1
      = (extent_status_code (if w_contents w i = None then E_NOENT else E_OK), b, v)"
    "same_client w v" "w_locked v = w_locked w1" "w_ext v = w_ext w1"
    "w_contents w i \<noteq> None \<longrightarrow> attrs (w_ext w1) i = Some b"
    by (rule getattr_step [OF w_ok_reliable [OF ok] c1 stored_same [OF ok e]])
  show "achieves (\<lambda>w. let (r, a, w1) = extent_client_getattr i (w_junk w) w in
      if r = extent_status_code E_NOENT then (Ret (Y_NOENT, d), w1) else (Ret (Y_OK, g a), w1)) w1
    (\<lambda>x s. s = w_ext w \<and> (if w_contents w i = None then x = (Y_NOENT, d)
       else \<exists>a. attrs (w_ext w) i = Some a \<and> x = (Y_OK, g a)))"
    using g e c1 by (cases "w_contents w i = None") (auto simp: achieves_def same_client_def)
qed

definition file_info :: "attr \<Rightarrow> fileinfo" where
  "file_info a = \<lparr>fi_size = ucast (attr_size a), fi_atime = ucast (attr_atime a),
     fi_mtime = ucast (attr_mtime a), fi_ctime = ucast (attr_ctime a),
     fi_mode = ucast (attr_mode a), fi_uid = ucast (attr_uid a), fi_gid = ucast (attr_gid a)\<rparr>"

definition dir_info :: "attr \<Rightarrow> dirinfo" where
  "dir_info a = \<lparr>di_atime = ucast (attr_atime a), di_mtime = ucast (attr_mtime a),
     di_ctime = ucast (attr_ctime a), di_mode = ucast (attr_mode a),
     di_uid = ucast (attr_uid a), di_gid = ucast (attr_gid a)\<rparr>"

lemmas getfile_query = attr_query_achieves [where g = file_info,
    folded yfs_getfile_def [folded file_info_def]]
lemmas getdir_query = attr_query_achieves [where g = dir_info,
    folded yfs_getdir_def [folded dir_info_def]]

lemma getattr_achieves:
  assumes ok: "w_ok w" and free: "\<not> w_locked w i"
  shows "achieves (fuse_getattr i) w (\<lambda>x s. s = w_ext w \<and>
    (if w_contents w i = None then fst x = Y_NOENT
     else \<exists>a. attrs (w_ext w) i = Some a \<and> x = (Y_OK, stat_of i a)))"
proof (cases "isfile i")
  case True
  show ?thesis
    unfolding fuse_getattr_def Let_def if_P [OF True]
    by (rule achieves_seq [OF getfile_query [OF ok free]])
      (auto simp: True stat_of_def stat_zero_def sint_ucast_uint ucast_or ucast_up_down S_IFREG_def file_info_def
        split: if_splits intro!: achieves_return)
next
  case False
  show ?thesis
    unfolding fuse_getattr_def Let_def if_not_P [OF False]
    by (rule achieves_seq [OF getdir_query [OF ok free]])
      (auto simp: False stat_of_def stat_zero_def sint_ucast_uint ucast_or ucast_up_down S_IFDIR_def dir_info_def
        split: if_splits intro!: achieves_return)
qed

section \<open>Creating files and directories\<close>

lemma store_attr_size:
  assumes "store_consistent s" and "contents s i = Some c" and "length c < 2 ^ 32"
    and "attrs s i = Some a"
  shows "unat (attr_size a) = length c"
proof -
  have "attr_size a = of_nat (length c)"
    using consistent_attr [OF assms(1,2)] assms(4) by auto
  then show ?thesis using assms(3) by (simp add: unat_of_nat)
qed

lemma unused_writable:
  assumes "w_ok w" and "w_writable w p" and "w_contents w f = None"
  shows "w_writable w f"
proof -
  have "f \<notin> dom (attrs (w_ext w))"
    using assms(1,3) by (simp add: w_ok_def store_consistent_def w_contents_def domIff)
  then have "attrs (w_ext w) f = None" by (simp add: domIff)
  then show ?thesis
    using may_write_key assms(2) by (auto simp: w_writable_def may_write_def may_access_def)
qed

text \<open>The entry the kernel is given for a new inode.\<close>

definition new_entry :: "world \<Rightarrow> ull \<Rightarrow> uint \<Rightarrow> fuse_entry_param \<Rightarrow> bool" where
  "new_entry w f mode e \<longleftrightarrow> ent_ino e = f \<and> st_ino (ent_attr e) = f \<and>
     st_mode (ent_attr e) = (if isfile f then 32768 else 16384) OR mode \<and>
     st_nlink (ent_attr e) = (if isfile f then 1 else 2) \<and> st_size (ent_attr e) = 0 \<and>
     st_uid (ent_attr e) = w_uid w \<and> st_gid (ent_attr e) = w_gid w"

lemma getattr_created:
  assumes ok: "w_ok w" and c: "same_client w w1" and free: "\<not> w_locked w1 f"
    and cr: "created w p f n mode es (w_ext w1)"
  shows "achieves (fuse_getattr f) w1 (\<lambda>x s. s = w_ext w1 \<and> fst x = Y_OK \<and>
    new_entry w f mode \<lparr>ent_ino = f, ent_generation = 0, ent_attr = snd x,
      ent_attr_timeout = 0, ent_entry_timeout = 0\<rparr>)"
proof -
  have con: "store_consistent (w_ext w1)" and cf: "contents (w_ext w1) f = Some []"
    and rf: "map_option rights_of (attrs (w_ext w1) f) = Some (mode, w_uid w, w_gid w)"
    using cr by (simp_all add: created_def)
  have ok1: "w_ok w1"
    using con same_client_reliable [OF c] ok by (simp add: w_ok_def)
  have sz: "attr_size a = 0" if "attrs (w_ext w1) f = Some a" for a
    using store_attr_size [OF con cf _ that] by (simp add: unat_eq_0)
  show ?thesis
    by (rule achieves_mono [OF getattr_achieves [OF ok1 free]])
      (use cf rf sz in \<open>auto simp: w_contents_def new_entry_def stat_of_def rights_of_def\<close>)
qed

lemma createhelper_achieves:
  assumes ok: "w_ok w" and "\<not> w_locked w p" and free: "\<not> w_locked w f" and "p \<noteq> f"
    and "dir_at w p es" "w_readable w p" and wr: "w_writable w p" and un: "w_contents w f = None"
    and "valid_name n" and f: "f = random_inum b r1 r2"
  shows "achieves (fuseserver_createhelper r1 r2 p n mode b) w (\<lambda>x s.
    if fresh n es
    then \<exists>e. x = (Y_OK, Some e) \<and> new_entry w f mode e \<and> created w p f n mode es s
    else x = (Y_EXIST, None) \<and> stored w (w_contents w) s)"
proof (cases "fresh n es")
  case True
  show ?thesis
    unfolding fuseserver_createhelper_def Let_def f [symmetric]
    by (rule achieves_seq [OF create_achieves [OF assms(1-7)
            unused_writable [OF ok wr un] assms(9) True]])
      (auto simp: True intro!: achieves_return
        achieves_seq [OF getattr_created [OF ok, of _ f p n mode es]] simp: free)
next
  case False
  show ?thesis
    unfolding fuseserver_createhelper_def Let_def f [symmetric]
    by (rule achieves_seq [OF create_exists_achieves [OF assms(1-6,9) False]])
      (auto simp: False intro!: achieves_return)
qed

text \<open>
  C27: the kernel is told the truth about a new inode.  \<open>create\<close> and \<open>mkdir\<close> of a fresh name in a
  directory the client may read and write choose a 32-bit number whose type bit says file or
  directory as asked, add exactly that entry, and reply with that number, the matching type bits
  and the requested mode, size zero and the client's user and group; for a name that is not fresh
  they reply \<open>EEXIST\<close> and the store is as before.  All locks are free again.
\<close>

theorem new_inode_typed:
  assumes "w_ok w" and "\<not> w_locked w p" and "\<not> w_locked w f" and "p \<noteq> f"
    and "dir_at w p es" "w_readable w p" and "w_writable w p" and "w_contents w f = None"
    and "valid_name n" and "f = random_inum b r1 r2"
  shows "isfile f = b \<and> unat f < 2 ^ 32 \<and>
    achieves ((if b then fuseserver_create else fuseserver_mkdir) r1 r2 p n mode) w (\<lambda>x s.
      if fresh n es
      then (\<exists>e. x = (if b then Reply_create else Reply_entry) e \<and> ent_ino e = f \<and>
          st_mode (ent_attr e) = (if b then 32768 else 16384) OR mode \<and> st_size (ent_attr e) = 0 \<and>
          st_uid (ent_attr e) = w_uid w \<and> st_gid (ent_attr e) = w_gid w) \<and>
        created w p f n mode es s
      else x = Reply_err EEXIST \<and> stored w (w_contents w) s)"
proof -
  have t: "isfile f = b" "unat f < 2 ^ 32" unfolding assms(10) by (rule random_inum_type)+
  have op: "(if b then fuseserver_create else fuseserver_mkdir) r1 r2 p n mode
      = (\<lambda>w. seq (fuseserver_createhelper r1 r2 p n mode b w)
          (\<lambda>x w1. (Ret (create_reply (if b then Reply_create else Reply_entry) x), w1)))"
    by (simp add: fuseserver_create_def fuseserver_mkdir_def fun_eq_iff)
  show ?thesis
    unfolding op
    by (intro conjI t achieves_seq [OF createhelper_achieves [OF assms, of mode]] achieves_return)
      (auto simp: new_entry_def t split: if_splits)
qed

theorem new_inode_typed_witness:
  "achieves (fuseserver_create 1 2 5 ''new'' 420) (demo_world [] demo_dir) (\<lambda>x s.
     \<exists>e. x = Reply_create e \<and> ent_ino e = 0x80010002 \<and> st_mode (ent_attr e) = 33188)"
proof -
  have n: "valid_name ''new''" by (simp add: valid_name_def)
  have fr: "fresh ''new'' demo_dir"
    by (simp add: demo_dir_def fresh_def demo_filenames sublist_Cons_right)
  have ne: "(5 :: ull) \<noteq> 0x80010002"
    and un: "w_contents (demo_world [] demo_dir) 0x80010002 = None"
    by (simp_all add: demo_world_ok)
  have f: "(0x80010002 :: ull) = random_inum True 1 2" by code_simp
  note th = new_inode_typed [OF demo_world_ok(1,2,2) ne demo_dir_at demo_world_ok(4,5) un n f, of 420]
  show ?thesis
    using conjunct2 [OF conjunct2 [OF th]] fr by (auto elim!: achieves_mono)
qed

section \<open>Changing a file's size\<close>

definition resized :: "nat \<Rightarrow> string \<Rightarrow> string" where
  "resized n c = take n c @ replicate (n - length c) (CHR 0x00)"

lemma resized_length [simp]: "length (resized n c) = n"
  by (simp add: resized_def)

lemma setattr_size_achieves:
  assumes ok: "w_ok w" and free: "\<not> w_locked w i" and c: "w_contents w i = Some c"
    and len: "length c < 2 ^ 31" and st: "st_size st = int (length c)"
  shows "achieves (setattr_size i st (int n)) w (\<lambda>x s.
    if w_readable w i \<and> w_writable w i
    then x = Y_OK \<and> stored w ((w_contents w)(i \<mapsto> resized n c)) s
    else x = Y_NOACCESS \<and> stored w (w_contents w) s)"
proof -
  have up: "achieves (update_extent i f) w (\<lambda>x s.
      if w_readable w i \<and> w_writable w i
      then x = Y_OK \<and> stored w ((w_contents w)(i \<mapsto> resized n c)) s
      else x = Y_NOACCESS \<and> stored w (w_contents w) s)" if "f c = Some (resized n c)" for f
    by (rule achieves_mono [OF update_extent_achieves [OF ok free, where upd = "resized n"]])
      (use that c in \<open>auto split: if_splits\<close>)
  show ?thesis
  proof (cases "length c < n")
    case True
    have "setattr_size i st (int n)
        = update_extent i (write_content (int (length c)) (replicate (n - length c) (CHR 0x00)))"
      using True by (simp add: setattr_size_def st yfs_write_eq flip: of_nat_diff)
    moreover have "write_content (int (length c)) (replicate (n - length c) (CHR 0x00)) c
        = Some (resized n c)"
      using True by (simp add: write_content_small [OF len] posix_write_def resized_def)
    ultimately show ?thesis
      using up by simp
  next
    case False
    have "setattr_size i st (int n) = update_extent i (truncate_content (length c - n))"
      using False by (simp add: setattr_size_def st yfs_truncate_eq flip: of_nat_diff)
    moreover have "truncate_content (length c - n) c = Some (resized n c)"
      using False by (simp add: truncate_content_def str_erase_from_def resized_def)
    ultimately show ?thesis
      using up by simp
  qed
qed

lemma file_stat:
  assumes "w_ok w" and "\<not> w_locked w i" and "isfile i" and "w_contents w i = Some c"
    and "length c < 2 ^ 32"
  shows "achieves (fuse_getattr i) w (\<lambda>x s. s = w_ext w \<and> fst x = Y_OK \<and>
    st_ino (snd x) = i \<and> st_size (snd x) = int (length c))"
proof (rule achieves_mono [OF getattr_achieves [OF assms(1,2)]])
  fix x s
  assume a: "s = w_ext w \<and> (if w_contents w i = None then fst x = Y_NOENT
     else \<exists>a. attrs (w_ext w) i = Some a \<and> x = (Y_OK, stat_of i a))"
  then obtain a where x: "attrs (w_ext w) i = Some a" "x = (Y_OK, stat_of i a)" using assms(4) by auto
  have "unat (attr_size a) = length c"
    using store_attr_size [of "w_ext w" i c a] x(1) assms(1,4,5) by (simp add: w_ok_def w_contents_def)
  from arg_cong [OF this, of int] show "s = w_ext w \<and> fst x = Y_OK \<and> st_ino (snd x) = i \<and> st_size (snd x) = int (length c)"
    using a assms(3) x(2) by (simp add: stat_of_def)
qed

text \<open>With the size as the only flag, \<open>setattr\<close> is one change of size between two queries.\<close>

definition resize_and_reply ::
  "ull \<Rightarrow> fstat \<Rightarrow> yfs_status \<times> fstat \<Rightarrow> world \<Rightarrow> fuse_reply outcome \<times> world" where
  "resize_and_reply i a = (\<lambda>(ret, st) w1.
     if ret \<noteq> Y_OK then (Ret (Reply_err ENOENT), w1)
     else seq (setattr_size i st (st_size a) w1) (\<lambda>ret w5.
       if ret = Y_NOACCESS then (Ret (Reply_err EACCES), w5)
       else if ret = Y_IOERR then (Ret (Reply_err ENOENT), w5)
       else seq (fuse_getattr i w5) (\<lambda>(_, st) w6. (Ret (Reply_attr st), w6))))"

lemma setattr_size_only:
  "fuseserver_setattr i a {SET_ATTR_SIZE} = (\<lambda>w. seq (fuse_getattr i w) (resize_and_reply i a))"
  unfolding fuseserver_setattr_def resize_and_reply_def
  by (intro ext arg_cong [where f = "seq (fuse_getattr i w)" for w])
    (simp add: when_set_def split: prod.split)

lemma resize_reply:
  assumes "w_ok w" and "isfile i" and "n < 2 ^ 32" and "same_client w w2"
    and "\<not> w_locked w2 i" and st: "stored w ((w_contents w)(i \<mapsto> resized n c)) (w_ext w2)"
  shows "achieves (\<lambda>w. seq (fuse_getattr i w) (\<lambda>(_, st) w6. (Ret (Reply_attr st), w6))) w2
    (\<lambda>x s. (\<exists>st. x = Reply_attr st \<and> st_ino st = i \<and> st_size st = int n) \<and>
      contents s = (w_contents w)(i \<mapsto> resized n c) \<and> store_consistent s)"
proof -
  note sw = stored_world [OF assms(1,4) st]
  have "w_contents w2 i = Some (resized n c)" "length (resized n c) < 2 ^ 32"
    using assms(3) sw(2) by simp_all
  from file_stat [OF sw(1) assms(5,2) this] show ?thesis
    by (rule achieves_seq) (use st in \<open>auto simp: stored_def intro!: achieves_return\<close>)
qed

text \<open>
  C31: changing a file's size.  A \<open>setattr\<close> request for the size alone, on a file shorter than 2 GiB
  that the client may read and write, cuts the file off at the requested size or fills it up with
  zero bytes, changes no other extent, and replies with attributes that state the new size;
  without the permission it replies \<open>EACCES\<close> and changes no content.
\<close>

theorem setattr_resizes:
  assumes "w_ok w" and "\<not> w_locked w i" and "isfile i" and "w_contents w i = Some c"
    and "length c < 2 ^ 31" and "n < 2 ^ 32" and "st_size a = int n"
  shows "achieves (fuseserver_setattr i a {SET_ATTR_SIZE}) w (\<lambda>x s.
    if w_readable w i \<and> w_writable w i
    then (\<exists>st. x = Reply_attr st \<and> st_ino st = i \<and> st_size st = int n) \<and>
      contents s = (w_contents w)(i \<mapsto> take n c @ replicate (n - length c) (CHR 0x00)) \<and>
      store_consistent s
    else x = Reply_err EACCES \<and> contents s = w_contents w)"
    (is "achieves _ _ ?Q")
proof -
  have len: "length c < 2 ^ 32" using assms(5) by simp
  show ?thesis
    unfolding setattr_size_only
  proof (rule achieves_seq [OF file_stat [OF assms(1-4) len]])
    fix x :: "yfs_status \<times> fstat" and w1
    assume 1: "same_client w w1" "w_locked w1 = w_locked w" "w_ext w1 = w_ext w \<and> fst x = Y_OK \<and>
      st_ino (snd x) = i \<and> st_size (snd x) = int (length c)"
    obtain st where x: "x = (Y_OK, st)" "st_size st = int (length c)" using 1(3) by (cases x) simp
    have sw: "w_ok w1" "w_contents w1 = w_contents w" "w_readable w1 = w_readable w"
      "w_writable w1 = w_writable w"
      using stored_world [OF assms(1) 1(1) stored_same [OF assms(1)]] 1(3) by simp_all
    have free: "\<not> w_locked w1 i" and c: "w_contents w1 i = Some c"
      using 1(2) sw(2) assms(2,4) by simp_all
    show "achieves (resize_and_reply i a x) w1 ?Q"
      unfolding resize_and_reply_def x(1) assms(7) prod.case if_not_P [OF not_not [THEN iffD2, OF refl]]
    proof (rule achieves_seq [OF setattr_size_achieves [OF sw(1) free c assms(5) x(2)]])
      fix y w2
      assume 2: "same_client w1 w2" "w_locked w2 = w_locked w1"
        "if w_readable w1 i \<and> w_writable w1 i
         then y = Y_OK \<and> stored w1 ((w_contents w1)(i \<mapsto> resized n c)) (w_ext w2)
         else y = Y_NOACCESS \<and> stored w1 (w_contents w1) (w_ext w2)"
      have free2: "\<not> w_locked w2 i" using 2(2) free by simp
      show "achieves (\<lambda>w5. if y = Y_NOACCESS then (Ret (Reply_err EACCES), w5)
         else if y = Y_IOERR then (Ret (Reply_err ENOENT), w5)
         else seq (fuse_getattr i w5) (\<lambda>(_, st) w6. (Ret (Reply_attr st), w6))) w2 ?Q"
        using 2(3) resize_reply [OF sw(1) assms(3,6) 2(1) free2]
        by (auto simp: sw(2-4) resized_def stored_def intro!: achieves_return split: if_splits)
    qed
  qed
qed

text \<open>A world with one file, numbered as files are, that the client owns.\<close>

definition file_world :: "string \<Rightarrow> world" where
  "file_world c = (demo_world [] [])\<lparr>w_ext := \<lparr>attrs = [0x80000009 \<mapsto> demo_attr (length c)],
     contents = [0x80000009 \<mapsto> c], userkeys = [7 \<mapsto> ''k''], groupusers = [7 \<mapsto> {7}]\<rparr>\<rparr>"

lemma file_world_ok:
  "w_ok (file_world c)" "\<not> w_locked (file_world c) i"
  "w_contents (file_world c) = [0x80000009 \<mapsto> c]"
  "w_readable (file_world c) i" "w_writable (file_world c) i" "isfile 0x80000009"
  by (auto simp: file_world_def demo_world_def demo_attr_def w_ok_def reliable_def
      store_consistent_def w_locked_def w_contents_def w_readable_def w_writable_def may_read_def
      may_write_def may_access_def mode_grants_def key_matches_def isfile_def split: if_splits)

theorem setattr_resizes_witness:
  "achieves (fuseserver_setattr 0x80000009 (stat_zero\<lparr>st_size := 3\<rparr>) {SET_ATTR_SIZE}) (file_world ''a'')
    (\<lambda>x s. (\<exists>st. x = Reply_attr st \<and> st_size st = 3) \<and>
      contents s = [0x80000009 \<mapsto> [CHR ''a'', CHR 0x00, CHR 0x00]])"
proof -
  have c: "w_contents (file_world ''a'') 0x80000009 = Some ''a''" by (simp add: file_world_ok)
  have l: "length ''a'' < (2 :: nat) ^ 31" "3 < (2 :: nat) ^ 32"
    and a: "st_size (stat_zero\<lparr>st_size := 3\<rparr>) = int 3" by simp_all
  have r: "take 3 ''a'' @ replicate (3 - length ''a'') (CHR 0x00) = [CHR ''a'', CHR 0x00, CHR 0x00]"
    by (simp add: numeral_eq_Suc)
  show ?thesis
    using setattr_resizes [OF file_world_ok(1,2,6) c l a] unfolding r
    by (auto simp: file_world_ok elim!: achieves_mono)
qed

section \<open>Access checks\<close>

lemma or_test:
  assumes "(k :: uint) AND b = 0"
  shows "(k OR m) AND b = m AND b"
  using assms by (simp add: bit.conj_disj_distrib2)

lemma stat_mode_test:
  assumes "b \<in> {1, 2, 4, 8, 16, 32, 64, 128, 256}"
  shows "st_mode (stat_of i a) AND b = attr_mode a AND b"
  using assms by (auto simp: stat_of_def or_test)

lemma class_ok_grants:
  assumes "attrs s i = Some a" and "key_matches s u k"
    and "in_group s u (attr_gid a) \<longleftrightarrow> attr_gid a = g" and "{ot, ow, gr} \<subseteq> {1, 2, 4, 8, 16, 32, 64, 128, 256}"
  shows "class_ok u g (stat_of i a) ot ow gr \<longleftrightarrow> may_access ot ow gr s i u k"
proof -
  have "st_mode (stat_of i a) AND ot = attr_mode a AND ot"
    "st_mode (stat_of i a) AND ow = attr_mode a AND ow"
    "st_mode (stat_of i a) AND gr = attr_mode a AND gr"
    using assms(4) by (simp_all only: stat_mode_test insert_subset)
  moreover have "st_uid (stat_of i a) = attr_uid a" "st_gid (stat_of i a) = attr_gid a"
    by (simp_all add: stat_of_def)
  ultimately show ?thesis
    using assms(1-3) by (simp only: class_ok_def may_access_def mode_grants_def) auto
qed

text \<open>
  C40: the answer of \<open>access\<close> is the server's decision.  When the process FUSE asks for has the
  client's user number, the client's key is the registered one, and the server's group table has
  the user in the file's group exactly when that is the process's group, \<open>access\<close> replies success
  for a mask exactly when the extent server would grant every kind of access in it, and otherwise
  \<open>EACCES\<close>, and it changes nothing.
\<close>

theorem access_agrees_with_server:
  assumes "w_ok w" and "\<not> w_locked w i" and "attrs (w_ext w) i = Some a"
    and "key_matches (w_ext w) (w_uid w) (w_key w)"
    and "in_group (w_ext w) (w_uid w) (attr_gid a) \<longleftrightarrow> attr_gid a = g"
  shows "achieves (fuseserver_access (w_uid w) g i m) w (\<lambda>x s. s = w_ext w \<and>
    x = Reply_err (if (m AND 4 = 0 \<or> fst (has_read_perm i (w_uid w) (w_key w) (w_ext w))) \<and>
        (m AND 2 = 0 \<or> fst (has_write_perm i (w_uid w) (w_key w) (w_ext w))) \<and>
        (m AND 1 = 0 \<or> fst (has_execute_perm i (w_uid w) (w_key w) (w_ext w)))
      then Success else EACCES))"
proof -
  note g = class_ok_grants [OF assms(3-5)]
  have "i \<in> dom (contents (w_ext w))"
    using assms(1,3) by (auto simp: w_ok_def store_consistent_def)
  then have "w_contents w i \<noteq> None" by (simp add: w_contents_def domIff)
  then show ?thesis
    unfolding fuseserver_access_def has_read_perm_def has_write_perm_def has_execute_perm_def
      has_perm_verdict
    by (intro achieves_seq [OF getattr_achieves [OF assms(1,2)]])
      (auto simp: assms(3) Let_def g intro!: achieves_return)
qed

theorem access_agrees_with_server_witness:
  "achieves (fuseserver_access 7 7 0x80000009 6) (file_world ''a'') (\<lambda>x s. x = Reply_err Success)"
proof -
  have w: "w_uid (file_world ''a'') = 7" by (simp add: file_world_def demo_world_def)
  have a: "attrs (w_ext (file_world ''a'')) 0x80000009 = Some (demo_attr 1)"
    and k: "key_matches (w_ext (file_world ''a'')) (w_uid (file_world ''a'')) (w_key (file_world ''a''))"
    and g: "in_group (w_ext (file_world ''a'')) (w_uid (file_world ''a'')) (attr_gid (demo_attr 1))
      \<longleftrightarrow> attr_gid (demo_attr 1) = 7"
    by (simp_all add: file_world_def demo_world_def demo_attr_def key_matches_def in_group_def)
  have "w_readable (file_world ''a'') 0x80000009" "w_writable (file_world ''a'') 0x80000009"
    by (rule file_world_ok)+
  then have "fst (has_read_perm 0x80000009 7 (w_key (file_world ''a'')) (w_ext (file_world ''a'')))"
    "fst (has_write_perm 0x80000009 7 (w_key (file_world ''a'')) (w_ext (file_world ''a'')))"
    by (simp_all add: has_read_perm_def has_write_perm_def has_perm_verdict w_readable_def
        w_writable_def may_read_def may_write_def w)
  then show ?thesis
    using access_agrees_with_server [OF file_world_ok(1,2) a k g, of 6] by (auto simp: w elim!: achieves_mono)
qed

section \<open>Directory listings and removal\<close>

text \<open>
  The bytes of a listing: every entry is encoded with the offset at which the next one starts.
\<close>

definition listing_end :: "(nat \<Rightarrow> nat) \<Rightarrow> dirent list \<Rightarrow> nat" where
  "listing_end dsize es = (\<Sum>e\<leftarrow>es. dsize (length (c_str (de_name e))))"

fun dir_listing ::
  "(nat \<Rightarrow> nat) \<Rightarrow> (string \<Rightarrow> fstat \<Rightarrow> nat \<Rightarrow> string) \<Rightarrow> nat \<Rightarrow> dirent list \<Rightarrow> string" where
  "dir_listing dsize dadd off [] = []"
| "dir_listing dsize dadd off (e # es) =
     (let nxt = off + dsize (length (c_str (de_name e))) in
      dadd (c_str (de_name e)) (stat_zero\<lparr>st_ino := de_inum e\<rparr>) nxt @ dir_listing dsize dadd nxt es)"

lemma listing_fold:
  "fold (\<lambda>it. dirbuf_add dsize dadd (c_str (de_name it)) (de_inum it)) es b
    = \<lparr>db_p = db_p b @ dir_listing dsize dadd (db_size b) es,
       db_size = db_size b + listing_end dsize es\<rparr>"
  by (induction es arbitrary: b) (simp_all add: dirbuf_add_def listing_end_def Let_def)

lemma listing_append:
  "dir_listing dsize dadd off (xs @ ys)
    = dir_listing dsize dadd off xs @ dir_listing dsize dadd (off + listing_end dsize xs) ys"
  by (induction xs arbitrary: off) (simp_all add: listing_end_def Let_def add.assoc)

lemma listing_length:
  assumes "\<forall>name st off. length (dadd name st off) = dsize (length name)"
  shows "length (dir_listing dsize dadd off es) = listing_end dsize es"
  by (induction es arbitrary: off) (simp_all add: listing_end_def Let_def assms)

lemma reply_buf_suffix:
  "reply_buf_limited (a @ b) (length (a @ b)) (int (length a)) m = Reply_buf (take m b)"
  by (auto simp: reply_buf_limited_def min_def)

text \<open>
  C19: a listing can be read in pieces.  FUSE encodes a directory entry in as many bytes as it
  announces; then reading a directory at the offset told with some entry gives the encodings of
  exactly the entries behind it, in the order of the directory, cut at the size the kernel asked
  for, and nothing at the end of the directory; the store and the locks are as before.
\<close>

theorem readdir_resumes:
  assumes "w_ok w" and "\<not> w_locked w p" and "isdir p" and "dir_at w p (xs @ ys)"
    and "w_readable w p" and "\<forall>name st off. length (dadd name st off) = dsize (length name)"
  shows "achieves (fuseserver_readdir dsize dadd p m (int (listing_end dsize xs))) w (\<lambda>x s.
    x = Reply_buf (take m (dir_listing dsize dadd (listing_end dsize xs) ys)) \<and>
    stored w (w_contents w) s)"
proof -
  let ?a = "dir_listing dsize dadd 0 xs" and ?b = "dir_listing dsize dadd (listing_end dsize xs) ys"
  have e: "listing_end dsize (xs @ ys) = length (?a @ ?b)" "listing_end dsize xs = length ?a"
    by (simp_all add: listing_length [OF assms(6)] listing_end_def)
  have r: "reply_buf_limited (dir_listing dsize dadd 0 (xs @ ys)) (listing_end dsize (xs @ ys))
      (int (listing_end dsize xs)) m = Reply_buf (take m ?b)"
    using reply_buf_suffix [of ?a ?b m] by (simp only: listing_append e add_0)
  show ?thesis
    unfolding fuseserver_readdir_def
    using assms(3) by (auto simp: Let_def listing_fold r
        intro!: achieves_seq [OF readdir_achieves [OF assms(1,2,4,5)]] achieves_return)
qed

theorem readdir_resumes_witness:
  "achieves (fuseserver_readdir (\<lambda>n. Suc n) (\<lambda>name st off. name @ [char_of off]) 5 10 (int 2))
     (demo_world [] demo_dir) (\<lambda>x s. x = Reply_buf [CHR ''g'', CHR ''h'', CHR 0x05])"
proof -
  let ?xs = "[\<lparr>de_name = ''f'', de_inum = 9\<rparr>]" and ?ys = "[\<lparr>de_name = ''gh'', de_inum = 12\<rparr>]"
  have d: "dir_at (demo_world [] demo_dir) 5 (?xs @ ?ys)"
    using demo_dir_at [of "[]"] by (simp add: demo_dir_def)
  have p: "isdir 5" by (simp add: isdir_def isfile_def)
  have e: "listing_end (\<lambda>n. Suc n) ?xs = 2" by (simp add: listing_end_def c_str_def)
  have "dir_listing (\<lambda>n. Suc n) (\<lambda>name st off. name @ [char_of off]) 2 ?ys
      = [CHR ''g'', CHR ''h'', CHR 0x05]" by code_simp
  then show ?thesis
    using readdir_resumes [OF demo_world_ok(1,2) p d demo_world_ok(4),
        of "\<lambda>name st off. name @ [char_of off]" "\<lambda>n. Suc n" 10]
    unfolding e by (auto simp del: dir_listing.simps elim!: achieves_mono)
qed

text \<open>
  Removing an entry whose number names a directory: \<open>unlink\<close> has no test for it, the entry and the
  directory's extent are removed and the reply is success.
\<close>

lemma unlink_removes_directories:
  assumes "w_ok w" and "\<not> w_locked w p" "\<not> w_locked w (de_inum e)" and "p \<noteq> de_inum e"
    and "dir_at w p (xs @ e # ys)" and "w_readable w p" and "w_writable w p"
    and "isdir p" and "isdir (de_inum e)" and "w_writable w (de_inum e)"
  shows "achieves (fuseserver_unlink p (de_name e)) w (\<lambda>x s. x = Reply_err Success \<and>
    contents s = (w_contents w)(p \<mapsto> dir_str (xs @ ys), de_inum e := None))"
  unfolding fuseserver_unlink_def
  using assms(8-10) by (auto simp: isdir_def unlinked_def simp del: dir_str_simps
      intro!: achieves_seq [OF unlink_achieves [OF assms(1-7)]] achieves_return)

end
