(* ===== verification/Session.thy ===== *)
theory Session
  imports Fuse
begin

text \<open>
  The file system program as a whole (\<open>main\<close> of \<open>fuse.cc\<close>): it registers its user, mounts, and serves
  the kernel's requests one after the other until the session ends or a handler does not return.
  Whatever the network does, the extent server sees nothing of it but requests in the name of that
  user, so what the server promises about requests holds for whole sessions; and what the program
  answers does not depend on what its user may not read.  The other small client program,
  \<open>lock_demo.cc\<close>, is here too.
\<close>

section \<open>The program\<close>

text \<open>\<open>yfs_client::yfs_client\<close>: the identity comes from \<open>getuid()\<close> and the command line; a wrong key exits.\<close>

definition yfs_client_init :: "uint \<Rightarrow> string \<Rightarrow> world \<Rightarrow> bool \<times> world" where
  "yfs_client_init uid key w = extent_client_init (w\<lparr>w_uid := uid, w_key := key\<rparr>)"

text \<open>
  \<open>fuse_session_loop\<close> hands the requests to the table of operations: the replies sent, and \<open>Ret ()\<close>
  or the way a handler ended the process.
\<close>

fun session_loop :: "(fuse_env \<times> fuse_request) list \<Rightarrow> world \<Rightarrow> (fuse_reply list \<times> unit outcome) \<times> world" where
  "session_loop [] w = (([], Ret ()), w)"
| "session_loop ((v, q) # qs) w =
     (case fuseserver_oper v q w of
        (Ret r, w1) \<Rightarrow> (let ((rs, e), w2) = session_loop qs w1 in ((r # rs, e), w2))
      | (Blocked, w1) \<Rightarrow> (([], Blocked), w1)
      | (Aborted, w1) \<Rightarrow> (([], Aborted), w1)
      | (Thrown, w1) \<Rightarrow> (([], Thrown), w1)
      | (Undef, w1) \<Rightarrow> (([], Undef), w1))"

text \<open>What the FUSE library returns: the results of the calls of \<open>main\<close>, in their order.\<close>

record fuse_lib =
  parse_ret :: int
  mount_fd :: int
  session_made :: bool
  chan_made :: bool
  loop_err :: int

text \<open>The result is the replies sent and the exit status.\<close>

definition fuse_main ::
  "string list \<Rightarrow> uint \<Rightarrow> fuse_lib \<Rightarrow> (fuse_env \<times> fuse_request) list \<Rightarrow> world \<Rightarrow>
   (fuse_reply list \<times> int outcome) \<times> world" where
  "fuse_main argv uid l qs w =
     (if length argv \<noteq> 5 then (([], Ret 1), w)
      else let (ok, w1) = yfs_client_init uid (argv ! 4) w in
        if \<not> ok then (([], Ret 1), w1)
        else if parse_ret l = - 1 then (([], Ret 0), w1)
        else if mount_fd l = - 1 then (([], Ret 1), w1)
        else if \<not> session_made l then (([], Ret 1), w1)
        else if \<not> chan_made l then (([], Ret 1), w1)
        else let ((rs, e), w2) = session_loop qs w1
             in ((rs, obind e (\<lambda>_. Ret (if loop_err l \<noteq> 0 then 1 else 0))), w2))"

section \<open>The lock demo\<close>

text \<open>\<open>lock_demo.cc\<close>: the exit status and the number it prints.\<close>

definition lock_demo :: "string list \<Rightarrow> world \<Rightarrow> (int \<times> int option) outcome \<times> world" where
  "lock_demo argv w =
     (if length argv \<noteq> 2 then (Ret (1, None), w)
      else seq (lock_client_stat 1 w) (\<lambda>r w1. (Ret (0, Some r), w1)))"

text \<open>The demo prints the server's counter and changes nothing, or dies when its call fails.\<close>

lemma lock_demo_reads:
  assumes "length argv = 2"
  shows "lock_demo argv w = (if w_fate w = Delivered then Ret (0, Some (nacquire (w_locks w))) else Aborted,
    w\<lparr>w_rpcs := Suc (w_rpcs w)\<rparr>)"
  using assms by (cases "w_fate w") (simp_all add: lock_demo_def lock_client_stat_def lock_server_stat_def)

section \<open>Two runs side by side\<close>

text \<open>
  A result of an operation beside the result of the same operation in a changed world: the values
  agree, the worlds are related by \<open>T\<close>, and \<open>P\<close> holds of the first.
\<close>

definition sim2 :: "(world \<Rightarrow> world) \<Rightarrow> (world \<Rightarrow> bool) \<Rightarrow> 'a \<times> world \<Rightarrow> 'a \<times> world \<Rightarrow> bool" where
  "sim2 T P p q \<longleftrightarrow> fst q = fst p \<and> snd q = T (snd p) \<and> P (snd p)"

definition sim3 :: "(world \<Rightarrow> world) \<Rightarrow> (world \<Rightarrow> bool) \<Rightarrow> 'a \<times> 'b \<times> world \<Rightarrow> 'a \<times> 'b \<times> world \<Rightarrow> bool" where
  "sim3 T P p q \<longleftrightarrow> fst q = fst p \<and> fst (snd q) = fst (snd p) \<and> snd (snd q) = T (snd (snd p)) \<and> P (snd (snd p))"

text \<open>A change of the world that the stubs do not notice is noticed by no operation, handler or session.\<close>

locale world_sim =
  fixes T :: "world \<Rightarrow> world" and P :: "world \<Rightarrow> bool"
  assumes ids: "w_uid (T w) = w_uid w" "w_gid (T w) = w_gid w" "w_junk (T w) = w_junk w"
    and get_sim: "P w \<Longrightarrow> sim3 T P (extent_client_get i b w) (extent_client_get i b (T w))"
    and getattr_sim: "P w \<Longrightarrow> sim3 T P (extent_client_getattr i a w) (extent_client_getattr i a (T w))"
    and setattr_sim: "P w \<Longrightarrow> sim2 T P (extent_client_setattr i a w) (extent_client_setattr i a (T w))"
    and put_sim: "P w \<Longrightarrow> sim2 T P (extent_client_put i b w) (extent_client_put i b (T w))"
    and remove_sim: "P w \<Longrightarrow> sim2 T P (extent_client_remove i w) (extent_client_remove i (T w))"
    and acquire_sim: "P w \<Longrightarrow> sim2 T P (lock_client_acquire i w) (lock_client_acquire i (T w))"
    and release_sim: "P w \<Longrightarrow> sim2 T P (lock_client_release i w) (lock_client_release i (T w))"
begin

lemma seq_sim:
  assumes "sim2 T P p q" and "\<And>x w. P w \<Longrightarrow> sim2 T P (f x w) (g x (T w))"
  shows "sim2 T P (seq p f) (seq q g)"
proof -
  obtain x w where p: "p = (x, w)" by (cases p)
  then have "q = (x, T w)" "P w" using assms(1) by (auto simp: sim2_def prod_eq_iff)
  then show ?thesis using p assms(2) by (cases x) (auto simp: sim2_def)
qed

lemma ret_sim: "P w \<Longrightarrow> sim2 T P (r, w) (r, T w)"
  by (simp add: sim2_def)

lemma scoped_sim:
  "P w \<Longrightarrow> (\<And>v. P v \<Longrightarrow> sim2 T P (b v) (b' (T v))) \<Longrightarrow> sim2 T P (scoped l b w) (scoped l b' (T w))"
  unfolding scoped_def by (intro seq_sim acquire_sim release_sim ret_sim) auto

lemma case_sim:
  assumes "sim2 T P p q" and "\<And>a w. P w \<Longrightarrow> sim2 T P (f a w) (g a (T w))"
  shows "sim2 T P (case p of (a, w) \<Rightarrow> f a w) (case q of (a, w) \<Rightarrow> g a w)"
  using assms by (cases p; cases q) (simp add: sim2_def)

lemma case3_sim:
  assumes "sim3 T P p q" and "\<And>a b w. P w \<Longrightarrow> sim2 T P (f a b w) (g a b (T w))"
  shows "sim2 T P (case p of (a, b, w) \<Rightarrow> f a b w) (case q of (a, b, w) \<Rightarrow> g a b w)"
  using assms by (cases p; cases q) (simp add: sim2_def sim3_def)

lemma split_sim:
  "(\<And>a b. sim2 T P (h a b w) (h' a b w')) \<Longrightarrow> sim2 T P ((case x of (a, b) \<Rightarrow> h a b) w) ((case x of (a, b) \<Rightarrow> h' a b) w')"
  "sim2 T P x1 y1 \<Longrightarrow> sim2 T P x2 y2 \<Longrightarrow> sim2 T P (if B then x1 else x2) (if B then y1 else y2)"
  "sim2 T P n n' \<Longrightarrow> (\<And>x. sim2 T P (s x) (s' x)) \<Longrightarrow>
     sim2 T P (case z of None \<Rightarrow> n | Some x \<Rightarrow> s x) (case z of None \<Rightarrow> n' | Some x \<Rightarrow> s' x)"
  "sim2 T P n n' \<Longrightarrow> (\<And>x xs. sim2 T P (c x xs) (c' x xs)) \<Longrightarrow>
     sim2 T P (case ys of [] \<Rightarrow> n | x # xs \<Rightarrow> c x xs) (case ys of [] \<Rightarrow> n' | x # xs \<Rightarrow> c' x xs)"
  by (simp_all split: prod.splits option.splits list.splits)

lemma arg_sim:
  "P w \<Longrightarrow> a' = a \<Longrightarrow> sim3 T P (extent_client_getattr i a w) (extent_client_getattr i a' (T w))"
  "P w \<Longrightarrow> a' = a \<Longrightarrow> sim2 T P (extent_client_setattr i a w) (extent_client_setattr i a' (T w))"
  using getattr_sim setattr_sim by simp_all

lemmas sim_rules = seq_sim ret_sim scoped_sim case_sim case3_sim split_sim arg_sim get_sim put_sim remove_sim

lemma attr_ops:
  "P w \<Longrightarrow> sim2 T P (yfs_getfile i fin w) (yfs_getfile i fin (T w))"
  "P w \<Longrightarrow> sim2 T P (yfs_getdir i din w) (yfs_getdir i din (T w))"
  "P w \<Longrightarrow> sim2 T P (change_attr i f w) (change_attr i f (T w))"
  unfolding yfs_getfile_def yfs_getdir_def change_attr_def Let_def
  by (intro sim_rules; simp add: ids)+

lemma change_ops:
  "P w \<Longrightarrow> sim2 T P (yfs_chmod i m w) (yfs_chmod i m (T w))"
  "P w \<Longrightarrow> sim2 T P (yfs_chuid i m w) (yfs_chuid i m (T w))"
  "P w \<Longrightarrow> sim2 T P (yfs_chgid i m w) (yfs_chgid i m (T w))"
  unfolding yfs_chmod_def yfs_chuid_def yfs_chgid_def by (rule attr_ops(3); assumption)+

lemma dir_ops:
  "P w \<Longrightarrow> sim2 T P (yfs_lookup p n j w) (yfs_lookup p n j (T w))"
  "P w \<Longrightarrow> sim2 T P (yfs_readdir p es w) (yfs_readdir p es (T w))"
  "P w \<Longrightarrow> sim2 T P (yfs_create p j n m w) (yfs_create p j n m (T w))"
  "P w \<Longrightarrow> sim2 T P (yfs_unlink p n w) (yfs_unlink p n (T w))"
  unfolding yfs_lookup_def yfs_readdir_def yfs_create_def create_body_def yfs_unlink_def unlink_body_def Let_def
  by (intro sim_rules; simp add: ids)+

lemma file_ops:
  "P w \<Longrightarrow> sim2 T P (yfs_write i off buf w) (yfs_write i off buf (T w))"
  "P w \<Longrightarrow> sim2 T P (yfs_read i off sz b w) (yfs_read i off sz b (T w))"
  "P w \<Longrightarrow> sim2 T P (yfs_truncate i sz w) (yfs_truncate i sz (T w))"
  unfolding yfs_write_def yfs_read_def yfs_truncate_def Let_def
  by (intro sim_rules; simp add: ids)+

lemmas op_sim = attr_ops change_ops dir_ops file_ops

lemma fuse_getattr_sim: "P w \<Longrightarrow> sim2 T P (fuse_getattr i w) (fuse_getattr i (T w))"
  unfolding fuse_getattr_def Let_def by (intro sim_rules op_sim; assumption)

lemma when_set_sim:
  "P w \<Longrightarrow> (P w \<Longrightarrow> sim2 T P (f w) (f (T w))) \<Longrightarrow> sim2 T P (when_set b f r w) (when_set b f r (T w))"
  by (simp add: when_set_def ret_sim)

lemma setattr_size_sim: "P w \<Longrightarrow> sim2 T P (setattr_size i st sz w) (setattr_size i st sz (T w))"
  by (simp add: setattr_size_def op_sim)

lemmas handler_rules = sim_rules op_sim fuse_getattr_sim when_set_sim setattr_size_sim

lemma createhelper_sim:
  "P w \<Longrightarrow> sim2 T P (fuseserver_createhelper r1 r2 p n m b w) (fuseserver_createhelper r1 r2 p n m b (T w))"
  unfolding fuseserver_createhelper_def Let_def by (intro handler_rules; assumption)

lemma fuse_lookup_sim: "P w \<Longrightarrow> sim2 T P (fuse_lookup p n w) (fuse_lookup p n (T w))"
  unfolding fuse_lookup_def by (intro handler_rules; assumption)

lemmas handler_defs = fuseserver_getattr_def fuseserver_statfs_def fuseserver_readdir_def fuseserver_lookup_def
  fuseserver_create_def fuseserver_mknod_def fuseserver_open_def fuseserver_read_def fuseserver_write_def
  fuseserver_setattr_def fuseserver_unlink_def fuseserver_mkdir_def fuseserver_access_def

lemma oper_sim: "P w \<Longrightarrow> sim2 T P (fuseserver_oper v q w) (fuseserver_oper v q (T w))"
  by (cases q; simp only: fuseserver_oper.simps handler_defs Let_def;
      intro handler_rules createhelper_sim fuse_lookup_sim; assumption)

lemma session_sim: "P w \<Longrightarrow> sim2 T P (session_loop qs w) (session_loop qs (T w))"
proof (induction qs arbitrary: w)
  case (Cons vq qs)
  obtain v q r w1 where q: "vq = (v, q)" "fuseserver_oper v q w = (r, w1)" by (metis prod.exhaust)
  then have r: "fuseserver_oper v q (T w) = (r, T w1)" "P w1"
    using oper_sim [OF Cons.prems, of v q] by (auto simp: sim2_def prod_eq_iff)
  show ?case
  proof (cases r)
    case (Ret x)
    with Cons.IH [OF r(2)] q r show ?thesis by (auto simp: sim2_def split_beta)
  qed (use q r in \<open>simp_all add: sim2_def\<close>)
qed (simp add: ret_sim)

lemma main_sim:
  assumes "length argv = 5" and "sim2 T P (yfs_client_init uid (argv ! 4) w) (yfs_client_init uid (argv ! 4) (T w))"
  shows "sim2 T P (fuse_main argv uid l qs w) (fuse_main argv uid l qs (T w))"
  unfolding fuse_main_def Let_def
  by (simp only: assms(1) refl not_True_eq_False if_False)
    (intro case_sim split_sim ret_sim session_sim assms(2); assumption)

end

section \<open>Requests in the user's name\<close>

text \<open>
  \<open>w'\<close> comes from \<open>w\<close> by requests of the user that handlers have run, and by calls that do not
  concern the extent server.
\<close>

definition asks :: "world \<Rightarrow> world \<Rightarrow> bool" where
  "asks w w' \<longleftrightarrow> w_uid w' = w_uid w \<and> w_key w' = w_key w \<and>
     (\<exists>qs. (\<forall>(cur, junk, q) \<in> set qs. req_creds q = (w_uid w, w_key w)) \<and> w_ext w' = extent_run qs (w_ext w))"

lemma run_append: "extent_run (qs @ rs) s = extent_run rs (extent_run qs s)"
  by (induction qs s rule: extent_run.induct) simp_all

lemma asks_same: "w_uid w' = w_uid w \<Longrightarrow> w_key w' = w_key w \<Longrightarrow> w_ext w' = w_ext w \<Longrightarrow> asks w w'"
  unfolding asks_def by (intro conjI exI [of _ "[]"]) simp_all

lemma asks_trans:
  assumes "asks u v" "asks v w"
  shows "asks u w"
proof -
  obtain qs rs where "\<forall>(cur, junk, q) \<in> set qs. req_creds q = (w_uid u, w_key u)" "w_ext v = extent_run qs (w_ext u)"
    "\<forall>(cur, junk, q) \<in> set rs. req_creds q = (w_uid v, w_key v)" "w_ext w = extent_run rs (w_ext v)"
    using assms unfolding asks_def by blast
  with assms show ?thesis
    unfolding asks_def by (intro conjI exI [of _ "qs @ rs"]) (auto simp: run_append)
qed

text \<open>The world after a call whose handler is the handler of \<open>q\<close>.\<close>

lemma extent_call_world:
  "snd (snd (extent_call h r w)) = (case w_fate w of
     Request_lost e \<Rightarrow> w\<lparr>w_rpcs := Suc (w_rpcs w)\<rparr>
   | _ \<Rightarrow> w\<lparr>w_rpcs := Suc (w_rpcs w), w_ext := snd (snd (h (w_ext w)))\<rparr>)"
  by (simp add: extent_call_def Let_def split: prod.splits rpc_fate.splits)

lemma extent_call_asks:
  assumes "snd (snd (extent_handle cur junk q (w_ext w))) = snd (snd (h (w_ext w)))" and "req_creds q = (w_uid w, w_key w)"
  shows "asks w (snd (snd (extent_call h r w)))"
proof -
  have "asks w (w\<lparr>w_rpcs := n, w_ext := snd (snd (h (w_ext w)))\<rparr>)" for n
    unfolding asks_def using assms by (intro conjI exI [of _ "[(cur, junk, q)]"]) simp_all
  then show ?thesis unfolding extent_call_world by (auto simp: asks_same split: rpc_fate.splits)
qed

lemma stub_asks:
  "asks w (snd (snd (extent_client_get i b w)))" "asks w (snd (snd (extent_client_getattr i a w)))"
  "asks w (snd (extent_client_setattr i a w))" "asks w (snd (extent_client_put i b w))"
  "asks w (snd (extent_client_remove i w))" "asks w (snd (extent_client_init w))"
  "asks w (snd (lock_client_acquire i w))" "asks w (snd (lock_client_release i w))"
proof -
  note call = extent_call_asks [where w = w and cur = "w_now w" and junk = "w_junk w"]
  have snd_unit: "snd (let (r, _, w1) = p in (f r, w1)) = snd (snd p)" for p :: "int \<times> unit \<times> world" and f :: "int \<Rightarrow> 'b"
    by (simp add: split_beta)
  have pair: "snd (snd (let (st, s1) = p in (st, (), s1))) = snd p" for p :: "extent_status \<times> extent_server"
    by (simp add: split_beta)
  show "asks w (snd (snd (extent_client_get i b w)))"
    unfolding extent_client_get_def
    by (rule call [where q = "ReqGet i (w_uid w) (w_key w)"]) (simp_all add: split_beta)
  show "asks w (snd (snd (extent_client_getattr i a w)))"
    unfolding extent_client_getattr_def
    by (rule call [where q = "ReqGetattr i (w_uid w) (w_key w)"]) (simp_all add: split_beta)
  show "asks w (snd (extent_client_setattr i a w))"
    unfolding extent_client_setattr_def snd_unit
    by (rule call [where q = "ReqSetattr i a (w_uid w) (w_key w)"]) (simp_all add: split_beta)
  show "asks w (snd (extent_client_put i b w))"
    unfolding extent_client_put_def snd_unit
    by (rule call [where q = "ReqPut i b (w_uid w) (w_key w)"]) (simp_all add: split_beta)
  show "asks w (snd (extent_client_remove i w))"
    unfolding extent_client_remove_def snd_unit
    by (rule call [where q = "ReqRemove i (w_uid w) (w_key w)"]) (simp_all add: split_beta)
  show "asks w (snd (extent_client_init w))"
    unfolding extent_client_init_def snd_unit
    by (rule call [where q = "ReqReg (w_uid w) (w_key w)"]) (simp_all add: split_beta)
  show "asks w (snd (lock_client_acquire i w))" "asks w (snd (lock_client_release i w))"
    by (auto simp: lock_client_acquire_def lock_client_release_def Let_def asks_same split: prod.splits option.splits rpc_fate.splits)
qed

interpretation ask: world_sim "\<lambda>w. w" "asks u" for u
  by unfold_locales (auto simp: sim2_def sim3_def intro: asks_trans stub_asks)

section \<open>What a user may not read\<close>

text \<open>The server, and the world, with another content of extent \<open>i\<close>.\<close>

definition secret :: "ull \<Rightarrow> string \<Rightarrow> extent_server \<Rightarrow> extent_server" where
  "secret i c s = s\<lparr>contents := (contents s)(i \<mapsto> c)\<rparr>"

definition reveal :: "ull \<Rightarrow> string \<Rightarrow> world \<Rightarrow> world" where
  "reveal i c w = w\<lparr>w_ext := secret i c (w_ext w)\<rparr>"

definition locked_out :: "ull \<Rightarrow> uint \<Rightarrow> string \<Rightarrow> uint \<Rightarrow> world \<Rightarrow> bool" where
  "locked_out i v kv m w \<longleftrightarrow> (\<exists>c. private_extent (w_ext w) i v kv c m) \<and> (w_uid w, w_key w) \<noteq> (v, kv)"

lemma secret_perm:
  "snd (has_perm ot ow gr j u k (secret i c s)) = secret i c (snd (has_perm ot ow gr j u k s))"
  by (auto simp: has_perm_def authenticate_eq ingroup_def secret_def key_matches_def Let_def split: option.splits)

lemma secret_view:
  "may_read (secret i c s) = may_read s" "may_write (secret i c s) = may_write s"
  "after_read_check j u k (secret i c s) = secret i c (after_read_check j u k s)"
  "after_write_check j u k (secret i c s) = secret i c (after_write_check j u k s)"
  by (simp_all add: fun_eq_iff may_read_def may_write_def may_access_def mode_grants_def in_group_def key_matches_def
      after_read_check_def after_write_check_def has_read_perm_def has_write_perm_def secret_perm)
    (simp_all add: secret_def)

text \<open>To whom the extent is closed, the handlers answer the same and do the same.\<close>

lemma secret_handlers:
  assumes p: "private_extent s i v kv c0 m" and "(u, k) \<noteq> (v, kv)"
  shows
    "extent_server_get cur junk j u k b (secret i c s) = map_prod id (map_prod id (secret i c)) (extent_server_get cur junk j u k b s)"
    "extent_server_getattr junk j u k (secret i c s) = map_prod id (map_prod id (secret i c)) (extent_server_getattr junk j u k s)"
    "extent_server_setattr junk j a u k (secret i c s) = map_prod id (secret i c) (extent_server_setattr junk j a u k s)"
    "extent_server_put cur junk j b u k (secret i c s) = map_prod id (secret i c) (extent_server_put cur junk j b u k s)"
    "extent_server_remove j u k (secret i c s) = map_prod id (secret i c) (extent_server_remove j u k s)"
    "extent_server_reg u k (secret i c s) = map_prod id (secret i c) (extent_server_reg u k s)"
proof -
  have d: "\<not> may_read s i u k" "\<not> may_write s i u k" by (rule private_denied [OF assms])+
  have e: "contents s i = Some c0" using p by (simp add: private_extent_def)
  have c: "contents (secret i c s) = (contents s)(i \<mapsto> c)" "attrs (secret i c s) = attrs s" "userkeys (secret i c s) = userkeys s"
    by (simp_all add: secret_def)
  show "extent_server_get cur junk j u k b (secret i c s) = map_prod id (map_prod id (secret i c)) (extent_server_get cur junk j u k b s)"
    using d by (auto simp: get_eq secret_view c split: option.splits) (simp_all add: secret_def)
  show "extent_server_getattr junk j u k (secret i c s) = map_prod id (map_prod id (secret i c)) (extent_server_getattr junk j u k s)"
    using e by (auto simp: extent_server_getattr_def c split: option.splits) (simp_all add: secret_def)
  show "extent_server_setattr junk j a u k (secret i c s) = map_prod id (secret i c) (extent_server_setattr junk j a u k s)"
    using d by (auto simp: setattr_eq secret_view c split: option.splits) (simp_all add: secret_def)
  show "extent_server_put cur junk j b u k (secret i c s) = map_prod id (secret i c) (extent_server_put cur junk j b u k s)"
    using d by (cases "j = i") (simp_all add: put_eq secret_view c, simp_all add: secret_def fun_upd_twist)
  show "extent_server_remove j u k (secret i c s) = map_prod id (secret i c) (extent_server_remove j u k s)"
    using d by (auto simp: remove_eq secret_view c split: option.splits) (simp_all add: secret_def fun_upd_twist)
  show "extent_server_reg u k (secret i c s) = map_prod id (secret i c) (extent_server_reg u k s)"
    by (simp add: extent_server_reg_def authenticate_eq key_matches_def c) (simp_all add: secret_def)
qed

lemma reveal_frame [simp]:
  "w_uid (reveal i c w) = w_uid w" "w_gid (reveal i c w) = w_gid w" "w_key (reveal i c w) = w_key w"
  "w_clt (reveal i c w) = w_clt w" "w_locks (reveal i c w) = w_locks w" "w_rpcs (reveal i c w) = w_rpcs w"
  "w_fate (reveal i c w) = w_fate w" "w_now (reveal i c w) = w_now w" "w_junk (reveal i c w) = w_junk w"
  "w_ext (reveal i c w) = secret i c (w_ext w)"
  by (simp_all add: reveal_def w_fate_def w_now_def w_junk_def)

lemma extent_call_reveal:
  assumes "h (secret i c (w_ext w)) = map_prod id (map_prod id (secret i c)) (h (w_ext w))"
  shows "extent_call h r (reveal i c w) = map_prod id (map_prod id (reveal i c)) (extent_call h r w)"
proof -
  obtain st x s' where h: "h (w_ext w) = (st, x, s')" by (metis prod_cases3)
  then show ?thesis
    using assms by (cases "w_fate w") (simp_all add: extent_call_def, simp_all add: reveal_def)
qed

lemma locked_out_asks: "locked_out i v kv m w \<Longrightarrow> asks w w' \<Longrightarrow> locked_out i v kv m w'"
  unfolding locked_out_def asks_def using private_run [of "w_ext w" i v kv _ m] by (fastforce split: prod.splits)

lemma stub_reveal:
  assumes "locked_out i v kv m w"
  shows "extent_client_get j b (reveal i c w) = map_prod id (map_prod id (reveal i c)) (extent_client_get j b w)"
    "extent_client_getattr j a (reveal i c w) = map_prod id (map_prod id (reveal i c)) (extent_client_getattr j a w)"
    "extent_client_setattr j a (reveal i c w) = map_prod id (reveal i c) (extent_client_setattr j a w)"
    "extent_client_put j b (reveal i c w) = map_prod id (reveal i c) (extent_client_put j b w)"
    "extent_client_remove j (reveal i c w) = map_prod id (reveal i c) (extent_client_remove j w)"
    "extent_client_init (reveal i c w) = map_prod id (reveal i c) (extent_client_init w)"
    "lock_client_acquire j (reveal i c w) = map_prod id (reveal i c) (lock_client_acquire j w)"
    "lock_client_release j (reveal i c w) = map_prod id (reveal i c) (lock_client_release j w)"
proof -
  obtain c0 where p: "private_extent (w_ext w) i v kv c0 m" "(w_uid w, w_key w) \<noteq> (v, kv)"
    using assms by (auto simp: locked_out_def)
  show "extent_client_get j b (reveal i c w) = map_prod id (map_prod id (reveal i c)) (extent_client_get j b w)"
    "extent_client_getattr j a (reveal i c w) = map_prod id (map_prod id (reveal i c)) (extent_client_getattr j a w)"
    unfolding extent_client_get_def extent_client_getattr_def reveal_frame
    by (rule extent_call_reveal; simp add: secret_handlers(1,2) [OF p])+
  note calls = extent_client_setattr_def extent_client_put_def extent_client_remove_def extent_client_init_def
  show "extent_client_setattr j a (reveal i c w) = map_prod id (reveal i c) (extent_client_setattr j a w)"
    "extent_client_put j b (reveal i c w) = map_prod id (reveal i c) (extent_client_put j b w)"
    "extent_client_remove j (reveal i c w) = map_prod id (reveal i c) (extent_client_remove j w)"
    "extent_client_init (reveal i c w) = map_prod id (reveal i c) (extent_client_init w)"
    unfolding calls reveal_frame
    by (subst extent_call_reveal; simp add: secret_handlers(3-6) [OF p] split_beta)+
  show "lock_client_acquire j (reveal i c w) = map_prod id (reveal i c) (lock_client_acquire j w)"
    "lock_client_release j (reveal i c w) = map_prod id (reveal i c) (lock_client_release j w)"
    by (simp_all add: lock_client_acquire_def lock_client_release_def Let_def split: rpc_fate.splits option.splits prod.splits)
      (simp_all add: reveal_def)
qed

interpretation hide: world_sim "reveal i c" "locked_out i v kv m" for i c v kv m
  by unfold_locales
    (auto simp: sim2_def sim3_def stub_reveal map_prod_def split_beta intro: locked_out_asks stub_asks)

section \<open>A mounted file system keeps to its user's rights\<close>

lemma init_asks: "asks (w\<lparr>w_uid := uid, w_key := k\<rparr>) (snd (yfs_client_init uid k w))"
  unfolding yfs_client_init_def by (rule stub_asks)

lemma main_asks:
  assumes "length argv = 5"
  shows "asks (w\<lparr>w_uid := uid, w_key := argv ! 4\<rparr>) (snd (fuse_main argv uid l qs w))"
  using ask.main_sim [OF assms, where u = "w\<lparr>w_uid := uid, w_key := argv ! 4\<rparr>" and uid = uid and w = w] init_asks
  by (simp add: sim2_def)

lemma main_hides:
  assumes "private_extent (w_ext w) i v kv c m" and "(uid, argv ! 4) \<noteq> (v, kv)" and "length argv = 5"
  shows "sim2 (reveal i c') (locked_out i v kv m) (fuse_main argv uid l qs w) (fuse_main argv uid l qs (reveal i c' w))"
proof (rule hide.main_sim [OF assms(3)])
  let ?w = "w\<lparr>w_uid := uid, w_key := argv ! 4\<rparr>"
  have "locked_out i v kv m ?w" using assms(1,2) by (auto simp: locked_out_def)
  moreover have "(reveal i c' w)\<lparr>w_uid := uid, w_key := argv ! 4\<rparr> = reveal i c' ?w" by (simp add: reveal_def)
  ultimately show "sim2 (reveal i c') (locked_out i v kv m) (yfs_client_init uid (argv ! 4) w)
      (yfs_client_init uid (argv ! 4) (reveal i c' w))"
    using stub_reveal(6) [of i v kv m ?w c'] locked_out_asks [OF _ stub_asks(6), of i v kv m ?w]
    by (simp add: yfs_client_init_def sim2_def map_prod_def split_beta)
qed

text \<open>Another content of the same length leaves a consistent server.\<close>

lemma secret_consistent:
  assumes "store_consistent s" and "contents s i = Some c" and "length c' = length c"
  shows "store_consistent (secret i c' s)"
  using assms by (auto simp: store_consistent_def secret_def)

text \<open>What \<open>getattr\<close> tells anybody.\<close>

lemma getattr_tells_size:
  assumes "store_consistent s" and "private_extent s i v kv c m"
  shows "\<exists>a. extent_server_getattr junk i u k s = (E_OK, a, s) \<and> attr_size a = of_nat (length c) \<and>
    attr_uid a = v \<and> attr_mode a = m"
  using assms by (auto simp: private_extent_def store_consistent_def extent_server_getattr_def)

text \<open>
  C26: a mounted file system keeps to the rights of its user, whatever the kernel asks of it,
  whatever the network loses and whichever way the program ends.  Let an extent be private to \<open>v\<close>, and
  run the program under another identity or with another key.  Then the extent keeps its content,
  owner and mode (integrity); and had it another content of the same length, the program would have
  sent the same replies and ended in the same way, and the server would differ in that content only
  (confidentiality).  The length is not hidden: \<open>getattr\<close> checks no permission, and tells everybody
  the size, the owner and the mode.
\<close>

theorem mount_noninterference:
  assumes "store_consistent (w_ext w)" and "private_extent (w_ext w) i v kv c m" and "(uid, argv ! 4) \<noteq> (v, kv)"
    and "fuse_main argv uid l qs w = (r, w')" and "length c' = length c"
  shows "private_extent (w_ext w') i v kv c m \<and>
    store_consistent (w_ext (reveal i c' w)) \<and> private_extent (w_ext (reveal i c' w)) i v kv c' m \<and>
    fuse_main argv uid l qs (reveal i c' w) = (r, reveal i c' w') \<and>
    (\<exists>a. extent_server_getattr junk i uid (argv ! 4) (w_ext w) = (E_OK, a, w_ext w) \<and>
       attr_size a = of_nat (length c) \<and> attr_uid a = v \<and> attr_mode a = m)"
proof -
  have same: "store_consistent (w_ext (reveal i c' w))" "private_extent (w_ext (reveal i c' w)) i v kv c' m"
    using secret_consistent [OF assms(1) _ assms(5)] assms(2) by (simp_all add: private_extent_def) (simp add: secret_def)
  have "private_extent (w_ext w') i v kv c m \<and> fuse_main argv uid l qs (reveal i c' w) = (r, reveal i c' w')"
  proof (cases "length argv = 5")
    case True
    obtain rs where "\<forall>(cur, junk, q) \<in> set rs. req_creds q = (uid, argv ! 4)" "w_ext w' = extent_run rs (w_ext w)"
      using main_asks [OF True, of uid w l qs] assms(4) by (auto simp: asks_def)
    then have "private_extent (w_ext w') i v kv c m"
      using private_run [OF assms(2), of rs] assms(3) by (auto split: prod.splits)
    then show ?thesis using main_hides [OF assms(2,3) True, of c' l qs] assms(4) by (auto simp: sim2_def prod_eq_iff)
  next
    case False
    then show ?thesis using assms by (auto simp: fuse_main_def)
  qed
  with same show ?thesis using getattr_tells_size [OF assms(1,2)] by simp
qed

text \<open>User 8 mounts and tries to read, change and remove the private file of user 7.\<close>

definition intruder_world :: world where
  "intruder_world = \<lparr>w_ext = private_example, w_locks = lock_server_init, w_clt = 1, w_uid = 0, w_gid = 0, w_key = [],
     w_script = (\<lambda>n. (Delivered, 5, put_attr 0 undefined [] None)), w_rpcs = 0\<rparr>"

definition intruder_requests :: "(fuse_env \<times> fuse_request) list" where
  "intruder_requests = map (Pair \<lparr>fe_rand1 = 1, fe_rand2 = 2, fe_uid = 8, fe_gid = 8, fe_dsize = (\<lambda>n. n), fe_dadd = (\<lambda>n st off. n)\<rparr>)
     [Fuse_read 9 2 0, Fuse_write 9 ''no'' 0, Fuse_setattr 9 (stat_zero\<lparr>st_mode := 511\<rparr>) {SET_ATTR_MODE}, Fuse_unlink 9 ''x'']"

definition working_lib :: fuse_lib where
  "working_lib = \<lparr>parse_ret = 0, mount_fd = 3, session_made = True, chan_made = True, loop_err = 0\<rparr>"

theorem mount_noninterference_witness:
  "\<exists>r w'. fuse_main [''yfs'', ''/mnt'', ''1'', ''2'', ''k8''] 8 working_lib intruder_requests intruder_world = (r, w') \<and>
     private_extent (w_ext w') 9 7 ''k7'' ''hi'' 384 \<and>
     fuse_main [''yfs'', ''/mnt'', ''1'', ''2'', ''k8''] 8 working_lib intruder_requests (reveal 9 ''no'' intruder_world)
       = (r, reveal 9 ''no'' w')"
proof -
  let ?argv = "[''yfs'', ''/mnt'', ''1'', ''2'', ''k8'']"
  obtain r w' where m: "fuse_main ?argv 8 working_lib intruder_requests intruder_world = (r, w')" by (metis prod.exhaust)
  have p: "private_extent (w_ext intruder_world) 9 7 ''k7'' ''hi'' 384" "store_consistent (w_ext intruder_world)"
    by (simp_all add: private_extent_def private_example_def intruder_world_def store_consistent_def put_attr_def)
  have "(8 :: uint, ?argv ! 4) \<noteq> (7, ''k7'')" by simp
  from mount_noninterference [OF p(2,1) this m, of "''no''"] m show ?thesis by auto
qed

end
