(* ===== verification/Group_Util.thy ===== *)
theory Group_Util
  imports Yfs_Client
begin

text \<open>
  The administration program (\<open>group_util.h\<close>, \<open>group_util.cc\<close>): its four stubs and \<open>main\<close>, over the
  world of the file system client, whose script says what becomes of the one call it makes.  The
  password and group databases are arguments; a name they do not know is a null pointer, which
  \<open>main\<close> dereferences.
\<close>

section \<open>The stubs\<close>

definition status_call ::
  "(extent_server \<Rightarrow> extent_status \<times> extent_server) \<Rightarrow> world \<Rightarrow> int \<times> world" where
  "status_call h w =
     (let (r, _, w1) = extent_call (\<lambda>s. let (st, s1) = h s in (st, (), s1)) () w in (r, w1))"

definition group_util_groupadd :: "uint \<Rightarrow> uint \<Rightarrow> string \<Rightarrow> world \<Rightarrow> int \<times> world" where
  "group_util_groupadd gid adminid adminkey = status_call (extent_server_groupadd gid adminid adminkey)"

definition group_util_groupdel :: "uint \<Rightarrow> uint \<Rightarrow> string \<Rightarrow> world \<Rightarrow> int \<times> world" where
  "group_util_groupdel gid adminid adminkey = status_call (extent_server_groupdel gid adminid adminkey)"

definition group_util_useradd :: "uint \<Rightarrow> uint \<Rightarrow> uint \<Rightarrow> string \<Rightarrow> world \<Rightarrow> int \<times> world" where
  "group_util_useradd uid gid adminid adminkey =
     status_call (extent_server_useradd uid gid adminid adminkey)"

definition group_util_userdel :: "uint \<Rightarrow> uint \<Rightarrow> uint \<Rightarrow> string \<Rightarrow> world \<Rightarrow> int \<times> world" where
  "group_util_userdel uid gid adminid adminkey =
     status_call (extent_server_userdel uid gid adminid adminkey)"

section \<open>The program\<close>

text \<open>The result is the exit status; \<open>argv\<close> has the program's name in front.\<close>

definition group_main ::
  "(string \<Rightarrow> uint option) \<Rightarrow> (string \<Rightarrow> uint option) \<Rightarrow> string list \<Rightarrow> world \<Rightarrow> int outcome \<times> world" where
  "group_main pwnam grnam argv w =
     (if length argv \<noteq> 7 then (Ret 1, w)
      else
        let opn = argv ! 2; adminkey = argv ! 6 in
        case (pwnam (argv ! 3), pwnam (argv ! 5), grnam (argv ! 4)) of
          (Some uid, Some adminid, Some gid) \<Rightarrow>
            (let run = (\<lambda>(ret, w1). (Ret (if ret = extent_status_code E_OK then 0 else 1), w1)) in
             if opn = ''groupadd'' then run (group_util_groupadd gid adminid adminkey w)
             else if opn = ''groupdel'' then run (group_util_groupdel gid adminid adminkey w)
             else if opn = ''useradd'' then run (group_util_useradd uid gid adminid adminkey w)
             else if opn = ''userdel'' then run (group_util_userdel uid gid adminid adminkey w)
             else (Ret 1, w))
        | _ \<Rightarrow> (Undef, w))"

section \<open>What a run achieves\<close>

lemma status_call_reliable:
  assumes "reliable w" and "h (w_ext w) = (st, s)"
  shows "status_call h w = (extent_status_code st, w\<lparr>w_rpcs := Suc (w_rpcs w), w_ext := s\<rparr>)"
  using extent_call_reliable [OF assms(1), of "\<lambda>s. let (st, s1) = h s in (st, (), s1)" st "()" s "()"]
    assms(2) by (simp add: status_call_def)

text \<open>
  A run of \<open>useradd\<close> with the registered key of any user makes the named user a member of the group:
  the extents of the group that its members may read can be read under that user's name.
\<close>

lemma useradd_gives_access:
  assumes "reliable w" and "pwnam u = Some uid" "pwnam adm = Some adminid" "grnam g = Some gid"
    and "key_matches (w_ext w) adminid k"
  shows "\<exists>w'. group_main pwnam grnam [prog, dst, ''useradd'', u, g, adm, k] w = (Ret 0, w') \<and>
    in_group (w_ext w') uid gid \<and> contents (w_ext w') = contents (w_ext w) \<and>
    (\<forall>i a. attrs (w_ext w) i = Some a \<and> attr_gid a = gid \<and> attr_mode a AND 32 \<noteq> 0 \<longrightarrow>
      (\<forall>key. key_matches (w_ext w') uid key \<longrightarrow> may_read (w_ext w') i uid key))"
proof -
  let ?s = "w_ext w"
  let ?s1 = "?s\<lparr>userkeys := touch [] adminid (userkeys ?s)\<rparr>"
  let ?s2 = "?s1\<lparr>groupusers := (groupusers ?s1)(gid \<mapsto> insert uid (subscript {} (groupusers ?s1) gid))\<rparr>"
  have "extent_server_useradd uid gid adminid k ?s = (E_OK, ?s2)"
    using assms(5) by (simp add: extent_server_useradd_def admin_check_eq authenticate_eq)
  from status_call_reliable [OF assms(1), of "extent_server_useradd uid gid adminid k", OF this]
  have "group_main pwnam grnam [prog, dst, ''useradd'', u, g, adm, k] w
      = (Ret 0, w\<lparr>w_rpcs := Suc (w_rpcs w), w_ext := ?s2\<rparr>)"
    using assms(2-4) by (simp add: group_main_def group_util_useradd_def)
  moreover have "in_group ?s2 uid gid" by (simp add: in_group_def subscript_upd)
  ultimately show ?thesis
    by (auto simp: may_read_def may_access_def mode_grants_def)
qed

text \<open>With a wrong key \<open>userdel\<close> reports success, and the user is still a member.\<close>

lemma userdel_wrong_key_reports_success:
  assumes "reliable w" and "pwnam u = Some uid" "pwnam adm = Some adminid" "grnam g = Some gid"
    and "\<not> key_matches (w_ext w) adminid k"
  shows "\<exists>w'. group_main pwnam grnam [prog, dst, ''userdel'', u, g, adm, k] w = (Ret 0, w') \<and>
    groupusers (w_ext w') = groupusers (w_ext w)"
proof -
  let ?s = "w_ext w"
  have "extent_server_userdel uid gid adminid k ?s = (E_OK, ?s\<lparr>userkeys := touch [] adminid (userkeys ?s)\<rparr>)"
    using assms(5) by (simp add: extent_server_userdel_def admin_check_eq authenticate_eq)
  from status_call_reliable [OF assms(1), of "extent_server_userdel uid gid adminid k", OF this] show ?thesis
    using assms(2-4) by (simp add: group_main_def group_util_userdel_def)
qed

end
