(* ===== verification/Lock_Tester.thy ===== *)
theory Lock_Tester
  imports Lock_Server
begin

text \<open>
  The lock server's test program (\<open>lock_tester.cc\<close>): what its threads do is a list of operations, and
  the threads of one test interleave with the sections of the lock server.  The program exits with
  an error when a count of grants is wrong; the theorems say that it never does and that no test
  gets stuck.  \<open>printf\<close> and \<open>sleep\<close> have no effect on the state.
\<close>

section \<open>The tests\<close>

text \<open>\<open>Acq i l\<close> is \<open>lc[i]->acquire(l)\<close>, \<open>Rel i l\<close> is \<open>lc[i]->release(l)\<close>.\<close>

datatype tester_op = Acq nat ull | Check_grant ull | Check_release ull | Rel nat ull

definition lock_a :: ull where "lock_a = 1"
definition lock_b :: ull where "lock_b = 2"
definition lock_c :: ull where "lock_c = 3"

definition nt :: nat where "nt = 6"

definition test1 :: "tester_op list" where
  "test1 =
     [Acq 0 lock_a, Check_grant lock_a, Rel 0 lock_a, Check_release lock_a,
      Acq 0 lock_a, Check_grant lock_a, Rel 0 lock_a, Check_release lock_a,
      Acq 0 lock_a, Check_grant lock_a, Acq 0 lock_b, Check_grant lock_b,
      Rel 0 lock_b, Check_release lock_b, Rel 0 lock_a, Check_release lock_a]"

definition test2 :: "nat \<Rightarrow> tester_op list" where
  "test2 i = [Acq i lock_a, Check_grant lock_a, Check_release lock_a, Rel i lock_a]"

definition test3 :: "nat \<Rightarrow> tester_op list" where
  "test3 i = concat (replicate 10 [Acq i lock_a, Check_grant lock_a, Check_release lock_a, Rel i lock_a])"

definition test4 :: "nat \<Rightarrow> tester_op list" where
  "test4 i = concat (replicate 10 [Acq 0 lock_a, Check_grant lock_a, Check_release lock_a, Rel 0 lock_a])"

definition test5 :: "nat \<Rightarrow> tester_op list" where
  "test5 i = concat (replicate 10
     [if i < 5 then Acq 0 lock_a else Acq 1 lock_a, Check_grant lock_a, Check_release lock_a,
      if i < 5 then Rel 0 lock_a else Rel 1 lock_a])"

text \<open>
  \<open>main\<close>: the threads each test starts and joins, by thread number; \<open>test\<close> is the test asked for,
  0 for all.
\<close>

definition threads :: "nat \<Rightarrow> (nat \<Rightarrow> tester_op list) \<Rightarrow> nat \<Rightarrow> tester_op list" where
  "threads n p t = (if t < n then p t else [])"

definition tester_main :: "nat \<Rightarrow> (nat \<Rightarrow> tester_op list) list" where
  "tester_main test =
     (if test = 0 \<or> test = 1 then [threads 1 (\<lambda>_. test1)] else []) @
     (if test = 0 \<or> test = 2 then [threads nt test2] else []) @
     (if test = 0 \<or> test = 3 then [threads nt test3] else []) @
     (if test = 0 \<or> test = 4 then [threads 2 test4] else []) @
     (if test = 0 \<or> test = 5 then [threads nt test5] else [])"

section \<open>The counts\<close>

definition slot :: "ull \<Rightarrow> nat" where
  "slot lid = unat (lid AND 0xff)"

text \<open>\<open>None\<close>: the program prints an error and exits.\<close>

definition check_grant :: "ull \<Rightarrow> (nat \<Rightarrow> int) \<Rightarrow> (nat \<Rightarrow> int) option" where
  "check_grant lid ct =
     (let x = slot lid in if ct x \<noteq> 0 then None else Some (ct(x := ct x + 1)))"

definition check_release :: "ull \<Rightarrow> (nat \<Rightarrow> int) \<Rightarrow> (nat \<Rightarrow> int) option" where
  "check_release lid ct =
     (let x = slot lid in if ct x \<noteq> 1 then None else Some (ct(x := ct x - 1)))"

section \<open>Running a test\<close>

text \<open>
  \<open>todo\<close> is what is left of each thread, the operation it is in first; \<open>counted\<close> is a history: the
  locks a thread has counted as granted and not yet as released.
\<close>

record tester =
  lks :: lock_sys
  todo :: "nat \<Rightarrow> tester_op list"
  ct :: "nat \<Rightarrow> int"
  counted :: "nat \<Rightarrow> ull set"
  exited :: bool

definition tester_init :: "(nat \<Rightarrow> tester_op list) \<Rightarrow> lock_sys \<Rightarrow> (nat \<Rightarrow> int) \<Rightarrow> tester" where
  "tester_init p l c = \<lparr>lks = l, todo = p, ct = c, counted = (\<lambda>_. {}), exited = False\<rparr>"

definition pop :: "nat \<Rightarrow> tester \<Rightarrow> tester" where
  "pop t s = s\<lparr>todo := (todo s)(t := tl (todo s t))\<rparr>"

text \<open>
  One step of a thread.  In \<open>acquire\<close> the sections of the lock server run until the lock is granted;
  \<open>release\<close> wakes sleepers as in \<open>Lock_Server\<close>.
\<close>

inductive tester_step :: "tester \<Rightarrow> tester \<Rightarrow> bool" where
  acquire_granted: "\<lbrakk>\<not> exited s; todo s t = Acq i l # p; thr (lks s) t = Idle;
     acquire_enter l (srv (lks s)) = (True, v)\<rbrakk> \<Longrightarrow>
   tester_step s (pop t (s\<lparr>lks := (lks s)\<lparr>srv := v, holds := (holds (lks s))(t := insert l (holds (lks s) t))\<rparr>\<rparr>))"
| acquire_waits: "\<lbrakk>\<not> exited s; todo s t = Acq i l # p; thr (lks s) t = Idle;
     acquire_enter l (srv (lks s)) = (False, v)\<rbrakk> \<Longrightarrow>
   tester_step s (s\<lparr>lks := (lks s)\<lparr>srv := v, thr := (thr (lks s))(t := Waiting l)\<rparr>\<rparr>)"
| acquire_spurious: "\<lbrakk>\<not> exited s; thr (lks s) t = Waiting l\<rbrakk> \<Longrightarrow>
   tester_step s (s\<lparr>lks := (lks s)\<lparr>thr := (thr (lks s))(t := Woken l)\<rparr>\<rparr>)"
| acquire_regranted: "\<lbrakk>\<not> exited s; thr (lks s) t = Woken l; acquire_recheck l (srv (lks s)) = (True, v)\<rbrakk> \<Longrightarrow>
   tester_step s (pop t (s\<lparr>lks := (lks s)\<lparr>srv := v, thr := (thr (lks s))(t := Idle),
     holds := (holds (lks s))(t := insert l (holds (lks s) t))\<rparr>\<rparr>))"
| acquire_rewaits: "\<lbrakk>\<not> exited s; thr (lks s) t = Woken l; acquire_recheck l (srv (lks s)) = (False, v)\<rbrakk> \<Longrightarrow>
   tester_step s (s\<lparr>lks := (lks s)\<lparr>srv := v, thr := (thr (lks s))(t := Waiting l)\<rparr>\<rparr>)"
| granted: "\<lbrakk>\<not> exited s; todo s t = Check_grant l # p; check_grant l (ct s) = Some c\<rbrakk> \<Longrightarrow>
   tester_step s (pop t (s\<lparr>ct := c, counted := (counted s)(t := insert l (counted s t))\<rparr>))"
| granted_twice: "\<lbrakk>\<not> exited s; todo s t = Check_grant l # p; check_grant l (ct s) = None\<rbrakk> \<Longrightarrow>
   tester_step s (s\<lparr>exited := True\<rparr>)"
| released: "\<lbrakk>\<not> exited s; todo s t = Check_release l # p; check_release l (ct s) = Some c\<rbrakk> \<Longrightarrow>
   tester_step s (pop t (s\<lparr>ct := c, counted := (counted s)(t := counted s t - {l})\<rparr>))"
| released_unheld: "\<lbrakk>\<not> exited s; todo s t = Check_release l # p; check_release l (ct s) = None\<rbrakk> \<Longrightarrow>
   tester_step s (s\<lparr>exited := True\<rparr>)"
| release: "\<lbrakk>\<not> exited s; todo s t = Rel i l # p; thr (lks s) t = Idle;
     woken \<subseteq> {w. thr (lks s) w = Waiting l}; woken = {} \<longrightarrow> {w. thr (lks s) w = Waiting l} = {}\<rbrakk> \<Longrightarrow>
   tester_step s (pop t (s\<lparr>lks := (lks s)\<lparr>srv := snd (snd (lock_server_release (int i) l (srv (lks s)))),
     thr := (\<lambda>w. if w \<in> woken then Woken l else thr (lks s) w),
     holds := (holds (lks s))(t := holds (lks s) t - {l})\<rparr>\<rparr>))"

inductive tester_runs :: "tester \<Rightarrow> tester \<Rightarrow> bool" for s0 where
  tester_start: "tester_runs s0 s0"
| tester_next: "tester_runs s0 s \<Longrightarrow> tester_step s s' \<Longrightarrow> tester_runs s0 s'"

section \<open>What the tests keep\<close>

text \<open>
  A program is in order: it takes a lock it does not hold, counts a lock it holds once, takes the
  count back and releases what it holds, and ends with nothing.  A thread that runs alone may take
  two locks and may release a lock before it takes the count back.
\<close>

fun in_order :: "bool \<Rightarrow> ull set \<Rightarrow> ull set \<Rightarrow> tester_op list \<Rightarrow> bool" where
  "in_order solo H G [] \<longleftrightarrow> H = {} \<and> G = {}"
| "in_order solo H G (Acq i l # p) \<longleftrightarrow> l \<notin> H \<and> (solo \<or> H = {}) \<and> in_order solo (insert l H) G p"
| "in_order solo H G (Check_grant l # p) \<longleftrightarrow> l \<in> {lock_a, lock_b, lock_c} \<and> l \<in> H \<and> l \<notin> G \<and>
     in_order solo H (insert l G) p"
| "in_order solo H G (Check_release l # p) \<longleftrightarrow> l \<in> G \<and> in_order solo H (G - {l}) p"
| "in_order solo H G (Rel i l # p) \<longleftrightarrow> l \<in> H \<and> (solo \<or> l \<notin> G) \<and> in_order solo (H - {l}) G p"

lemma in_order_repeat:
  assumes "\<And>q. in_order solo {} {} q \<Longrightarrow> in_order solo {} {} (p @ q)"
  shows "in_order solo {} {} (concat (replicate n p))"
  by (induction n) (simp_all add: assms)

lemmas lock_names = lock_a_def lock_b_def lock_c_def

lemma tests_in_order:
  "in_order True {} {} test1" "in_order False {} {} (test2 i)" "in_order False {} {} (test3 i)"
  "in_order False {} {} (test4 i)" "in_order False {} {} (test5 i)"
proof -
  show "in_order True {} {} test1" by (simp add: test1_def lock_names)
  show "in_order False {} {} (test2 i)" by (simp add: test2_def)
  show "in_order False {} {} (test3 i)" unfolding test3_def by (rule in_order_repeat) simp
  show "in_order False {} {} (test4 i)" unfolding test4_def by (rule in_order_repeat) simp
  show "in_order False {} {} (test5 i)" unfolding test5_def by (rule in_order_repeat) simp
qed

text \<open>The invariant of a test in progress.\<close>

definition tester_inv :: "bool \<Rightarrow> tester \<Rightarrow> bool" where
  "tester_inv solo s \<longleftrightarrow> \<not> exited s \<and> lock_inv (lks s) \<and>
     (\<forall>t. in_order solo (holds (lks s) t) (counted s t) (todo s t)) \<and>
     (\<forall>t l. thr (lks s) t = Waiting l \<or> thr (lks s) t = Woken l \<longrightarrow> (\<exists>i p. todo s t = Acq i l # p)) \<and>
     (\<forall>x. ct s x = (if \<exists>t. \<exists>l \<in> counted s t. slot l = x then 1 else 0)) \<and>
     (\<forall>t. counted s t \<subseteq> {lock_a, lock_b, lock_c}) \<and>
     (if solo then \<forall>t. t \<noteq> 0 \<longrightarrow> todo s t = [] else \<forall>t. counted s t \<subseteq> holds (lks s) t)"

lemma tester_invD:
  assumes "tester_inv solo s"
  shows "\<not> exited s" "lock_inv (lks s)" "in_order solo (holds (lks s) t) (counted s t) (todo s t)"
    "thr (lks s) t = Waiting l \<or> thr (lks s) t = Woken l \<Longrightarrow> \<exists>i p. todo s t = Acq i l # p"
    "ct s x = (if \<exists>t. \<exists>l \<in> counted s t. slot l = x then 1 else 0)"
    "counted s t \<subseteq> {lock_a, lock_b, lock_c}" "solo \<Longrightarrow> t \<noteq> 0 \<Longrightarrow> todo s t = []"
    "\<not> solo \<Longrightarrow> counted s t \<subseteq> holds (lks s) t"
  using assms unfolding tester_inv_def by (blast | simp)+

lemma slot_inj: "l \<in> {lock_a, lock_b, lock_c} \<Longrightarrow> m \<in> {lock_a, lock_b, lock_c} \<Longrightarrow> slot l = slot m \<longleftrightarrow> l = m"
  by (auto simp: slot_def lock_names)

text \<open>Of a lock that a thread holds, nobody else has a count.\<close>

lemma counted_alone:
  assumes inv: "tester_inv solo s" and t: "l \<in> holds (lks s) t" "l \<notin> counted s t" and l: "l \<in> {lock_a, lock_b, lock_c}"
    and u: "m \<in> counted s u" "slot m = slot l"
  shows False
proof -
  have m: "m = l" using slot_inj [OF _ l] tester_invD(6) [OF inv, of u] u by blast
  show False
  proof (cases solo)
    case True
    have "todo s t \<noteq> []" "todo s u \<noteq> []"
      using tester_invD(3) [OF inv, of t] tester_invD(3) [OF inv, of u] t(1) u(1) by (cases "todo s t"; auto)+
    then have "t = 0" "u = 0" using tester_invD(7) [OF inv True] by blast+
    then show False using t(2) u(1) m by blast
  next
    case False
    then have "l \<in> holds (lks s) u" using tester_invD(8) [OF inv, of u] u(1) m by blast
    then have "t = u" using tester_invD(2) [OF inv] t(1) unfolding lock_inv_def lock_exclusive_def by blast
    then show False using t(2) u(1) m by blast
  qed
qed

lemma tester_invI:
  assumes "\<not> exited s" "lock_inv (lks s)" "\<And>t. in_order solo (holds (lks s) t) (counted s t) (todo s t)"
    "\<And>t l. thr (lks s) t = Waiting l \<or> thr (lks s) t = Woken l \<Longrightarrow> \<exists>i p. todo s t = Acq i l # p"
    "\<And>x. ct s x = (if \<exists>t. \<exists>l \<in> counted s t. slot l = x then 1 else 0)"
    "\<And>t. counted s t \<subseteq> {lock_a, lock_b, lock_c}" "\<And>t. solo \<Longrightarrow> t \<noteq> 0 \<Longrightarrow> todo s t = []"
    "\<And>t. \<not> solo \<Longrightarrow> counted s t \<subseteq> holds (lks s) t"
  shows "tester_inv solo s"
  using assms unfolding tester_inv_def by simp

lemma pop_simps [simp]:
  "lks (pop t s) = lks s" "ct (pop t s) = ct s" "counted (pop t s) = counted s" "exited (pop t s) = exited s"
  "todo (pop t s) = (todo s)(t := tl (todo s t))"
  by (simp_all add: pop_def)

text \<open>A thread whose next operation is not \<open>acquire\<close> is not in the lock server.\<close>

lemma thread_idle:
  assumes "tester_inv solo s" and "\<And>i l p. todo s t \<noteq> Acq i l # p"
  shows "thr (lks s) t = Idle"
  using tester_invD(4) [OF assms(1), of t] assms(2) by (cases "thr (lks s) t") auto

text \<open>A step that changes the lock system and takes the operation of \<open>t\<close> off, if any.\<close>

lemma lock_part_kept:
  assumes inv: "tester_inv solo s" and l: "lock_inv l'"
    and s': "lks s' = l'" "ct s' = ct s" "counted s' = counted s" "exited s' = exited s"
    and todo: "\<And>u. u \<noteq> t \<Longrightarrow> todo s' u = todo s u" "todo s' t = todo s t \<or> todo s' t = tl (todo s t)"
    and holds: "\<And>u. u \<noteq> t \<Longrightarrow> holds l' u = holds (lks s) u"
    and ord: "in_order solo (holds l' t) (counted s t) (todo s' t)"
    and thr: "\<And>u l. thr l' u = Waiting l \<or> thr l' u = Woken l \<Longrightarrow> \<exists>i p. todo s' u = Acq i l # p"
    and cnt: "\<not> solo \<Longrightarrow> counted s t \<subseteq> holds l' t"
  shows "tester_inv solo s'"
proof (rule tester_invI)
  show "\<not> exited s'" "lock_inv (lks s')" using tester_invD(1) [OF inv] l s' by simp_all
  show "in_order solo (holds (lks s') u) (counted s' u) (todo s' u)" for u
    using tester_invD(3) [OF inv, of u] ord holds todo(1) s' by (cases "u = t") simp_all
  show "\<exists>i p. todo s' u = Acq i l # p" if "thr (lks s') u = Waiting l \<or> thr (lks s') u = Woken l" for u l
    using thr [of u l] that s'(1) by simp
  show "ct s' x = (if \<exists>t. \<exists>l \<in> counted s' t. slot l = x then 1 else 0)" for x
    unfolding s' by (rule tester_invD(5) [OF inv])
  show "counted s' u \<subseteq> {lock_a, lock_b, lock_c}" for u unfolding s' by (rule tester_invD(6) [OF inv])
  show "todo s' u = []" if "solo" "u \<noteq> 0" for u
    using tester_invD(7) [OF inv that] todo by (cases "u = t") auto
  show "counted s' u \<subseteq> holds (lks s') u" if "\<not> solo" for u
    using tester_invD(8) [OF inv that, of u] cnt [OF that] holds s' by (cases "u = t") simp_all
qed

lemma acquire_kept:
  assumes inv: "tester_inv solo s" and todo: "todo s t = Acq i l # p"
    and thr: "thr (lks s) t = Idle \<or> thr (lks s) t = Woken l" and free: "\<not> is_locked (srv (lks s)) l"
    and v: "is_locked v = (is_locked (srv (lks s)))(l := True)"
    and k: "k = (lks s)\<lparr>srv := v, thr := (thr (lks s))(t := Idle),
      holds := (holds (lks s))(t := insert l (holds (lks s) t))\<rparr>"
  shows "tester_inv solo (pop t (s\<lparr>lks := k\<rparr>))"
proof (rule lock_part_kept [OF inv, of k _ t])
  have e: "(thr (lks s))(t := Idle) = thr (lks s) \<or> thr (lks s) t = Woken l" using thr by auto
  show "lock_inv k"
    by (rule lock_inv_grant [OF tester_invD(2) [OF inv] free, of _ t]) (use v k e in auto)
  show "in_order solo (holds k t) (counted s t) (todo (pop t (s\<lparr>lks := k\<rparr>)) t)"
    using tester_invD(3) [OF inv, of t] todo k by simp
  show "\<exists>i p. todo (pop t (s\<lparr>lks := k\<rparr>)) u = Acq i l' # p" if "thr k u = Waiting l' \<or> thr k u = Woken l'" for u l'
    using tester_invD(4) [OF inv, of u l'] that k by (auto split: if_splits)
  show "counted s t \<subseteq> holds k t" if "\<not> solo" using tester_invD(8) [OF inv that, of t] k by auto
qed (use k in auto)

lemma wait_kept:
  assumes inv: "tester_inv solo s" and todo: "todo s t = Acq i l # p" and l: "lock_inv k"
    and k: "thr k = (thr (lks s))(t := Waiting l) \<or> thr k = (thr (lks s))(t := Woken l)" "holds k = holds (lks s)"
  shows "tester_inv solo (s\<lparr>lks := k\<rparr>)"
proof (rule lock_part_kept [OF inv l, of _ t])
  show "in_order solo (holds k t) (counted s t) (todo (s\<lparr>lks := k\<rparr>) t)"
    using tester_invD(3) [OF inv, of t] k by simp
  show "\<exists>i p. todo (s\<lparr>lks := k\<rparr>) u = Acq i l' # p" if "thr k u = Waiting l' \<or> thr k u = Woken l'" for u l'
    using tester_invD(4) [OF inv, of u l'] that k(1) todo by (auto split: if_splits)
  show "counted s t \<subseteq> holds k t" if "\<not> solo" using tester_invD(8) [OF inv that, of t] k by auto
qed (use k in auto)

text \<open>The checks never fail, and keep the counts.\<close>

lemma grant_checked:
  assumes inv: "tester_inv solo s" and todo: "todo s t = Check_grant l # p"
  shows "check_grant l (ct s) = Some ((ct s)(slot l := 1))"
    "tester_inv solo (pop t (s\<lparr>ct := (ct s)(slot l := 1), counted := (counted s)(t := insert l (counted s t))\<rparr>))"
proof -
  have o: "l \<in> {lock_a, lock_b, lock_c}" "l \<in> holds (lks s) t" "l \<notin> counted s t"
    "in_order solo (holds (lks s) t) (insert l (counted s t)) p"
    using tester_invD(3) [OF inv, of t] todo by auto
  have zero: "ct s (slot l) = 0"
    using tester_invD(5) [OF inv, of "slot l"] counted_alone [OF inv o(2,3,1)] by auto
  then show "check_grant l (ct s) = Some ((ct s)(slot l := 1))" by (simp add: check_grant_def Let_def)
  let ?s' = "pop t (s\<lparr>ct := (ct s)(slot l := 1), counted := (counted s)(t := insert l (counted s t))\<rparr>)"
  have idle: "thr (lks s) t = Idle" by (rule thread_idle [OF inv]) (simp add: todo)
  show "tester_inv solo ?s'"
  proof (rule tester_invI)
    show "in_order solo (holds (lks ?s') u) (counted ?s' u) (todo ?s' u)" for u
      using tester_invD(3) [OF inv, of u] o(4) todo by simp
    show "\<exists>i p. todo ?s' u = Acq i m # p" if "thr (lks ?s') u = Waiting m \<or> thr (lks ?s') u = Woken m" for u m
      using tester_invD(4) [OF inv, of u m] that idle by (cases "u = t") auto
    show "ct ?s' x = (if \<exists>t. \<exists>l \<in> counted ?s' t. slot l = x then 1 else 0)" for x
      using tester_invD(5) [OF inv, of x] by auto
    show "counted ?s' u \<subseteq> {lock_a, lock_b, lock_c}" for u using tester_invD(6) [OF inv, of u] o(1) by (cases "u = t") simp_all
    show "todo ?s' u = []" if "solo" "u \<noteq> 0" for u using tester_invD(7) [OF inv that] todo by auto
    show "counted ?s' u \<subseteq> holds (lks ?s') u" if "\<not> solo" for u
      using tester_invD(8) [OF inv that, of u] o(2) by (cases "u = t") simp_all
  qed (use tester_invD(1,2) [OF inv] in simp_all)
qed

lemma release_checked:
  assumes inv: "tester_inv solo s" and todo: "todo s t = Check_release l # p"
  shows "check_release l (ct s) = Some ((ct s)(slot l := 0))"
    "tester_inv solo (pop t (s\<lparr>ct := (ct s)(slot l := 0), counted := (counted s)(t := counted s t - {l})\<rparr>))"
proof -
  have o: "l \<in> counted s t" "in_order solo (holds (lks s) t) (counted s t - {l}) p"
    using tester_invD(3) [OF inv, of t] todo by auto
  have l: "l \<in> {lock_a, lock_b, lock_c}" using tester_invD(6) [OF inv, of t] o(1) by blast
  have "ct s (slot l) = 1" using tester_invD(5) [OF inv, of "slot l"] o(1) by auto
  then show "check_release l (ct s) = Some ((ct s)(slot l := 0))" by (simp add: check_release_def Let_def)
  let ?s' = "pop t (s\<lparr>ct := (ct s)(slot l := 0), counted := (counted s)(t := counted s t - {l})\<rparr>)"
  have idle: "thr (lks s) t = Idle" by (rule thread_idle [OF inv]) (simp add: todo)
  have only: "u = t \<and> m = l" if "m \<in> counted s u" "slot m = slot l" for u m
  proof -
    have m: "m = l" using slot_inj [OF _ l] tester_invD(6) [OF inv, of u] that by blast
    have "u = t"
    proof (cases solo)
      case True
      have "todo s u \<noteq> []" using tester_invD(3) [OF inv, of u] that(1) by (cases "todo s u") auto
      then show ?thesis using tester_invD(7) [OF inv True, of u] tester_invD(7) [OF inv True, of t] todo by auto
    next
      case False
      then have "l \<in> holds (lks s) u" "l \<in> holds (lks s) t"
        using tester_invD(8) [OF inv] that(1) m o(1) by blast+
      then show ?thesis using tester_invD(2) [OF inv] unfolding lock_inv_def lock_exclusive_def by blast
    qed
    with m show ?thesis by simp
  qed
  show "tester_inv solo ?s'"
  proof (rule tester_invI)
    show "in_order solo (holds (lks ?s') u) (counted ?s' u) (todo ?s' u)" for u
      using tester_invD(3) [OF inv, of u] o(2) todo by simp
    show "\<exists>i p. todo ?s' u = Acq i m # p" if "thr (lks ?s') u = Waiting m \<or> thr (lks ?s') u = Woken m" for u m
      using tester_invD(4) [OF inv, of u m] that idle by (cases "u = t") auto
    show "ct ?s' x = (if \<exists>t. \<exists>l \<in> counted ?s' t. slot l = x then 1 else 0)" for x
    proof (cases "x = slot l")
      case True
      then have "\<not> (\<exists>u. \<exists>m \<in> counted ?s' u. slot m = x)" using only by (auto split: if_splits)
      then show ?thesis using True by simp
    next
      case False
      then have "(\<exists>u. \<exists>m \<in> counted ?s' u. slot m = x) \<longleftrightarrow> (\<exists>u. \<exists>m \<in> counted s u. slot m = x)"
        by (auto split: if_splits)
      then show ?thesis using tester_invD(5) [OF inv, of x] False by simp
    qed
    show "counted ?s' u \<subseteq> {lock_a, lock_b, lock_c}" for u using tester_invD(6) [OF inv, of u] by auto
    show "todo ?s' u = []" if "solo" "u \<noteq> 0" for u using tester_invD(7) [OF inv that] todo by auto
    show "counted ?s' u \<subseteq> holds (lks ?s') u" if "\<not> solo" for u
      using tester_invD(8) [OF inv that, of u] by auto
  qed (use tester_invD(1,2) [OF inv] in simp_all)
qed

lemma release_kept:
  assumes inv: "tester_inv solo s" and todo: "todo s t = Rel i l # p"
    and w: "woken \<subseteq> {w. thr (lks s) w = Waiting l}" "woken = {} \<longrightarrow> {w. thr (lks s) w = Waiting l} = {}"
    and k: "k = (lks s)\<lparr>srv := snd (snd (lock_server_release (int i) l (srv (lks s)))),
     thr := (\<lambda>w. if w \<in> woken then Woken l else thr (lks s) w),
     holds := (holds (lks s))(t := holds (lks s) t - {l})\<rparr>"
  shows "tester_inv solo (pop t (s\<lparr>lks := k\<rparr>))"
proof (rule lock_part_kept [OF inv, of k _ t])
  have o: "l \<in> holds (lks s) t" "solo \<or> l \<notin> counted s t" "in_order solo (holds (lks s) t - {l}) (counted s t) p"
    using tester_invD(3) [OF inv, of t] todo by auto
  have idle: "thr (lks s) t = Idle" by (rule thread_idle [OF inv]) (simp add: todo)
  show "lock_inv k"
    by (rule lock_inv_release [OF tester_invD(2) [OF inv] o(1) w]) (use k in simp_all)
  show "in_order solo (holds k t) (counted s t) (todo (pop t (s\<lparr>lks := k\<rparr>)) t)" using o(3) todo k by simp
  show "\<exists>i p. todo (pop t (s\<lparr>lks := k\<rparr>)) u = Acq i m # p" if "thr k u = Waiting m \<or> thr k u = Woken m" for u m
  proof -
    have "thr (lks s) u = Waiting m \<or> thr (lks s) u = Woken m" using that k w(1) by (auto split: if_splits)
    moreover from this idle have "u \<noteq> t" by auto
    ultimately show ?thesis using tester_invD(4) [OF inv, of u m] by simp
  qed
  show "counted s t \<subseteq> holds k t" if "\<not> solo" using tester_invD(8) [OF inv that, of t] o(2) that k by auto
qed (use k in auto)

lemma tester_step_kept:
  assumes "tester_step s s'" and inv: "tester_inv solo s"
  shows "tester_inv solo s'"
  using assms(1)
proof cases
  case (acquire_granted t i l p v)
  note e = enter_facts [OF acquire_granted(5)]
  have k: "(lks s)\<lparr>srv := v, holds := (holds (lks s))(t := insert l (holds (lks s) t))\<rparr> =
      (lks s)\<lparr>srv := v, thr := (thr (lks s))(t := Idle), holds := (holds (lks s))(t := insert l (holds (lks s) t))\<rparr>"
  proof -
    have "(thr (lks s))(t := Idle) = thr (lks s)" using acquire_granted(4) by auto
    then show ?thesis by (cases "lks s") simp
  qed
  show ?thesis unfolding acquire_granted(1)
    by (rule acquire_kept [OF inv acquire_granted(3) _ _ _ k]) (use e acquire_granted(4) in simp_all)
next
  case (acquire_waits t i l p v)
  note e = enter_facts [OF acquire_waits(5)]
  have "lock_inv ((lks s)\<lparr>srv := v, thr := (thr (lks s))(t := Waiting l)\<rparr>)"
    by (rule lock_inv_wait [OF tester_invD(2) [OF inv], of l _ t]) (use e acquire_waits(4) in simp_all)
  then show ?thesis unfolding acquire_waits(1) by (rule wait_kept [OF inv acquire_waits(3)]) auto
next
  case (acquire_spurious t l)
  have "lock_inv ((lks s)\<lparr>thr := (thr (lks s))(t := Woken l)\<rparr>)"
    by (rule lock_inv_wake [OF tester_invD(2) [OF inv] acquire_spurious(3)]) simp_all
  moreover obtain i p where "todo s t = Acq i l # p" using tester_invD(4) [OF inv] acquire_spurious(3) by blast
  ultimately show ?thesis unfolding acquire_spurious(1) by (intro wait_kept [OF inv]) auto
next
  case (acquire_regranted t l v)
  note e = recheck_facts [OF acquire_regranted(4)]
  obtain i p where "todo s t = Acq i l # p" using tester_invD(4) [OF inv] acquire_regranted(3) by blast
  then show ?thesis unfolding acquire_regranted(1)
    by (rule acquire_kept [OF inv _ _ _ _ refl]) (use e acquire_regranted(3) in simp_all)
next
  case (acquire_rewaits t l v)
  note e = recheck_facts [OF acquire_rewaits(4)]
  have "lock_inv ((lks s)\<lparr>srv := v, thr := (thr (lks s))(t := Waiting l)\<rparr>)"
    by (rule lock_inv_wait [OF tester_invD(2) [OF inv], of l _ t]) (use e acquire_rewaits(3) in simp_all)
  moreover obtain i p where "todo s t = Acq i l # p" using tester_invD(4) [OF inv] acquire_rewaits(3) by blast
  ultimately show ?thesis unfolding acquire_rewaits(1) by (intro wait_kept [OF inv]) auto
next
  case (granted t l p c)
  then show ?thesis using grant_checked [OF inv granted(3)] by simp
next
  case (granted_twice t l p)
  then show ?thesis using grant_checked(1) [OF inv granted_twice(3)] by simp
next
  case (released t l p c)
  then show ?thesis using release_checked [OF inv released(3)] by simp
next
  case (released_unheld t l p)
  then show ?thesis using release_checked(1) [OF inv released_unheld(3)] by simp
next
  case (release t i l p woken)
  then show ?thesis unfolding release(1) by (intro release_kept [OF inv release(3) release(5,6) refl])
qed

section \<open>The test program passes\<close>

text \<open>Some thread can finish the operation it is in.\<close>

definition can_go_on :: "tester \<Rightarrow> bool" where
  "can_go_on s \<longleftrightarrow> (\<exists>s' u. tester_step s s' \<and> todo s u \<noteq> [] \<and> todo s' = (todo s)(u := tl (todo s u)))"

lemma can_go_onI:
  "tester_step s (pop u s1) \<Longrightarrow> todo s1 = todo s \<Longrightarrow> todo s u \<noteq> [] \<Longrightarrow> can_go_on s"
  unfolding can_go_on_def by (intro exI [of _ "pop u s1"] exI [of _ u]) simp

lemma other_op_goes_on:
  assumes inv: "tester_inv solo s" and "todo s t \<noteq> []" and "\<And>i l p. todo s t \<noteq> Acq i l # p"
  shows "can_go_on s"
proof -
  note ne = tester_invD(1) [OF inv]
  obtain op p where p: "todo s t = op # p" using assms(2) by (cases "todo s t") auto
  show ?thesis
  proof (cases op)
    case (Acq i l)
    then show ?thesis using assms(3) p by blast
  next
    case (Check_grant l)
    show ?thesis
      by (rule can_go_onI [OF tester_step.granted [OF ne _ grant_checked(1) [OF inv]], of t])
        (use p Check_grant in simp_all)
  next
    case (Check_release l)
    show ?thesis
      by (rule can_go_onI [OF tester_step.released [OF ne _ release_checked(1) [OF inv]], of t])
        (use p Check_release in simp_all)
  next
    case (Rel i l)
    have idle: "thr (lks s) t = Idle" by (rule thread_idle [OF inv assms(3)])
    show ?thesis
      by (rule can_go_onI [OF tester_step.release [OF ne _ idle, of i l p "{w. thr (lks s) w = Waiting l}"]])
        (use p Rel in simp_all)
  qed
qed

lemma free_lock_goes_on:
  assumes inv: "tester_inv solo s" and p: "todo s t = Acq i l # p" and free: "\<not> is_locked (srv (lks s)) l"
  shows "can_go_on s"
proof -
  note ne = tester_invD(1) [OF inv]
  have woken: "can_go_on s" if w: "thr (lks s) u = Woken l" for u
  proof -
    have u: "todo s u \<noteq> []" using tester_invD(4) [OF inv] w by fastforce
    have "acquire_recheck l (srv (lks s)) = (True, snd (acquire_recheck l (srv (lks s))))"
      using acquire_recheck_verdict [of l "srv (lks s)"] free by (simp add: prod_eq_iff)
    from tester_step.acquire_regranted [OF ne w this] show ?thesis by (rule can_go_onI) (simp_all add: u)
  qed
  show ?thesis
  proof (cases "thr (lks s) t")
    case Idle
    have "acquire_enter l (srv (lks s)) = (True, snd (acquire_enter l (srv (lks s))))"
      using acquire_enter_verdict [of l "srv (lks s)"] free by (simp add: prod_eq_iff)
    from tester_step.acquire_granted [OF ne p Idle this] show ?thesis by (rule can_go_onI) (simp_all add: p)
  next
    case (Waiting m)
    then have "m = l" using tester_invD(4) [OF inv, of t m] p by simp
    then obtain u where "thr (lks s) u = Woken l"
      using Waiting free tester_invD(2) [OF inv] awakeD by blast
    then show ?thesis by (rule woken)
  next
    case (Woken m)
    then have "m = l" using tester_invD(4) [OF inv, of t m] p by simp
    then show ?thesis using woken Woken by blast
  qed
qed

lemma tester_goes_on:
  assumes inv: "tester_inv solo s" and t: "todo s t \<noteq> []"
  shows "can_go_on s"
proof (cases "\<exists>i l p. todo s t = Acq i l # p")
  case False
  then show ?thesis using other_op_goes_on [OF inv t] by blast
next
  case True
  then obtain i l p where p: "todo s t = Acq i l # p" by blast
  show ?thesis
  proof (cases "is_locked (srv (lks s)) l")
    case False
    then show ?thesis by (rule free_lock_goes_on [OF inv p])
  next
    case True
    then obtain u where u: "l \<in> holds (lks s) u"
      using tester_invD(2) [OF inv] by (auto simp: lock_inv_def lock_marked_def)
    have ou: "in_order solo (holds (lks s) u) (counted s u) (todo s u)" by (rule tester_invD(3) [OF inv])
    have ne: "todo s u \<noteq> []" using ou u by (cases "todo s u") auto
    show ?thesis
    proof (cases solo)
      case True
      then have "u = t" using tester_invD(7) [OF inv True] ne t by metis
      then show ?thesis using ou u p by simp
    next
      case False
      then have "todo s u \<noteq> Acq j m # r" for j m r using ou u by auto
      then show ?thesis using other_op_goes_on [OF inv ne] by blast
    qed
  qed
qed

text \<open>Nobody in the lock server, no lock held, all counts zero: between two tests.\<close>

definition quiet :: "lock_sys \<Rightarrow> (nat \<Rightarrow> int) \<Rightarrow> bool" where
  "quiet l c \<longleftrightarrow> lock_inv l \<and> (\<forall>t. thr l t = Idle \<and> holds l t = {}) \<and> (\<forall>x. c x = 0)"

lemma tester_inv_init:
  assumes "quiet l c" and "p \<in> set (tester_main test)"
  shows "\<exists>solo. tester_inv solo (tester_init p l c)"
proof -
  have "\<exists>solo. (\<forall>t. in_order solo {} {} (p t)) \<and> (solo \<longrightarrow> (\<forall>t. t \<noteq> 0 \<longrightarrow> p t = []))"
  proof -
    consider (one) "p = threads 1 (\<lambda>_. test1)"
      | (more) n q where "p = threads n q" "\<And>i. in_order False {} {} (q i)"
      using assms(2) tests_in_order unfolding tester_main_def by (auto split: if_splits)
    then show ?thesis
    proof cases
      case one
      then show ?thesis using tests_in_order(1) by (intro exI [of _ True]) (simp add: threads_def)
    next
      case more
      then show ?thesis by (intro exI [of _ False]) (simp add: threads_def)
    qed
  qed
  then obtain solo where "\<forall>t. in_order solo {} {} (p t)" "solo \<longrightarrow> (\<forall>t. t \<noteq> 0 \<longrightarrow> p t = [])" by blast
  then have "tester_inv solo (tester_init p l c)"
    using assms(1) by (simp add: tester_inv_def tester_init_def quiet_def)
  then show ?thesis ..
qed

lemma tester_runs_kept: "tester_runs s0 s \<Longrightarrow> tester_inv solo s0 \<Longrightarrow> tester_inv solo s"
  by (induction rule: tester_runs.induct) (auto intro: tester_step_kept)

lemma tester_done:
  assumes inv: "tester_inv solo s" and fin: "\<forall>t. todo s t = []"
  shows "quiet (lks s) (ct s)"
proof -
  have "holds (lks s) t = {} \<and> counted s t = {}" for t using tester_invD(3) [OF inv, of t] fin by simp
  moreover have "thr (lks s) t = Idle" for t by (rule thread_idle [OF inv]) (simp add: fin)
  ultimately show ?thesis
    using tester_invD(2,5) [OF inv] by (simp add: quiet_def)
qed

text \<open>
  C17: the lock tester passes.  Whatever test is asked for, in each of its phases and however its
  threads interleave with each other and in the lock server, the program never exits with an
  error; while a thread has something left, some thread can finish the operation it is in; and
  when all threads are done, no lock is held, nobody waits and all counts are zero, so that the
  next phase starts as this one did.
\<close>

theorem lock_tester_passes:
  assumes "p \<in> set (tester_main test)" and "quiet l c" and "tester_runs (tester_init p l c) s"
  shows "\<not> exited s \<and> ((\<exists>t. todo s t \<noteq> []) \<longrightarrow> can_go_on s) \<and>
    ((\<forall>t. todo s t = []) \<longrightarrow> quiet (lks s) (ct s))"
proof -
  obtain solo where "tester_inv solo (tester_init p l c)" using tester_inv_init [OF assms(2,1)] ..
  with tester_runs_kept [OF assms(3)] have "tester_inv solo s" .
  then show ?thesis using tester_invD(1) tester_goes_on tester_done by blast
qed

text \<open>Test 2 when two threads have entered the server: one holds the lock, one waits.\<close>

theorem lock_tester_passes_witness:
  "\<exists>s. tester_runs (tester_init (threads nt test2) lock_sys_init (\<lambda>_. 0)) s \<and>
     thr (lks s) 1 = Waiting lock_a \<and> holds (lks s) 0 = {lock_a} \<and> can_go_on s"
proof -
  let ?s0 = "tester_init (threads nt test2) lock_sys_init (\<lambda>_. 0)"
  let ?e = "acquire_enter lock_a (srv (lks ?s0))"
  let ?s1 = "pop 0 (?s0\<lparr>lks := (lks ?s0)\<lparr>srv := snd ?e, holds := (holds (lks ?s0))(0 := insert lock_a (holds (lks ?s0) 0))\<rparr>\<rparr>)"
  have e: "?e = (True, snd ?e)"
    by (simp add: prod_eq_iff acquire_enter_verdict tester_init_def lock_sys_init_def)
  have 1: "tester_step ?s0 ?s1"
    by (rule tester_step.acquire_granted [OF _ _ _ e, of _ 0])
      (simp_all add: tester_init_def threads_def nt_def test2_def lock_sys_init_def)
  let ?f = "acquire_enter lock_a (srv (lks ?s1))"
  have f: "?f = (False, snd ?f)"
    by (simp add: prod_eq_iff acquire_enter_verdict acquire_enter_locks)
  let ?s2 = "?s1\<lparr>lks := (lks ?s1)\<lparr>srv := snd ?f, thr := (thr (lks ?s1))(1 := Waiting lock_a)\<rparr>\<rparr>"
  have 2: "tester_step ?s1 ?s2"
    by (rule tester_step.acquire_waits [OF _ _ _ f, of 1])
      (simp_all add: tester_init_def threads_def nt_def test2_def lock_sys_init_def)
  have r: "tester_runs ?s0 ?s2" by (rule tester_next [OF tester_next [OF tester_start 1] 2])
  have q: "quiet lock_sys_init (\<lambda>_. 0)" by (simp add: quiet_def lock_inv_init) (simp add: lock_sys_init_def)
  have m: "threads nt test2 \<in> set (tester_main 2)" by (simp add: tester_main_def)
  have "todo ?s2 1 \<noteq> []" by (simp add: tester_init_def threads_def nt_def test2_def)
  then have "can_go_on ?s2" using lock_tester_passes [OF m q r] by blast
  then show ?thesis
    using r by (intro exI [of _ ?s2]) (simp add: tester_init_def lock_sys_init_def)
qed

end
