(* ===== verification/Marshall.thy ===== *)
theory Marshall
  imports Extent_Server
begin

text \<open>
  Marshalling (\<open>rpc/marshall.h\<close>, the \<open>marshall\<close> and \<open>unmarshall\<close> operators of \<open>rpc/rpc.cc\<close>, the
  attribute operators of \<open>extent_protocol.h\<close>).  A \<open>marshall\<close> owns a heap block of \<open>mcapa\<close> bytes, of
  which the ones not written yet are indeterminate (\<open>None\<close>); a store outside the block sets the
  ghost flag \<open>moob\<close>, a load outside the block of an \<open>unmarshall\<close> sets \<open>uoob\<close>.  The capacity and
  the head position are \<open>int\<close>s of 32 bits in the code: they are natural numbers here, and the ghost
  flag \<open>mover\<close> is set as soon as a value computed for one of them reaches 2 to the 31, where the
  code's signed arithmetic overflows and the model stops standing for it.  The length arithmetic
  the code does in \<open>unsigned int\<close> is done at that width.
\<close>

section \<open>Headers and constants\<close>

record req_header =
  rq_xid :: int
  rq_proc :: int
  rq_clt_nonce :: uint
  rq_srv_nonce :: uint
  rq_xid_rep :: int

record reply_header =
  rp_xid :: int
  rp_ret :: int

definition default_rpc_sz :: nat where
  "default_rpc_sz = 1024"

text \<open>\<open>static_max<sizeof(req_header), sizeof(reply_header)> + sizeof(rpc_sz_t)\<close>, no checksum.\<close>

definition rpc_header_sz :: nat where
  "rpc_header_sz = max 20 8 + 4"

section \<open>The marshaller\<close>

record marshall =
  mbuf :: "byte option list"
  mcapa :: nat
  mind :: nat
  moob :: bool
  mover :: bool

definition marshall_init :: marshall where
  "marshall_init = \<lparr>mbuf = replicate default_rpc_sz None, mcapa = default_rpc_sz,
     mind = rpc_header_sz, moob = False, mover = False\<rparr>"

definition m_realloc :: "nat \<Rightarrow> marshall \<Rightarrow> marshall" where
  "m_realloc n m = m\<lparr>mcapa := n, mbuf := take n (mbuf m) @ replicate (n - length (mbuf m)) None,
     mover := mover m \<or> 2 ^ 31 \<le> n\<rparr>"

text \<open>Store bytes at the head position and advance it.\<close>

definition m_store :: "byte list \<Rightarrow> marshall \<Rightarrow> marshall" where
  "m_store bs m =
     (let i = mind m; j = i + length bs; over = (mover m \<or> 2 ^ 31 \<le> j) in
      if j \<le> length (mbuf m)
      then m\<lparr>mbuf := take i (mbuf m) @ map Some bs @ drop j (mbuf m), mind := j, mover := over\<rparr>
      else m\<lparr>mind := j, moob := True, mover := over\<rparr>)"

definition m_rawbyte :: "byte \<Rightarrow> marshall \<Rightarrow> marshall" where
  "m_rawbyte x m = m_store [x] (if mcapa m \<le> mind m then m_realloc (mcapa m * 2) m else m)"

definition m_rawbytes :: "byte list \<Rightarrow> marshall \<Rightarrow> marshall" where
  "m_rawbytes p m =
     (let n = length p in
      m_store p
        (if mcapa m < mind m + n
         then m_realloc (if n < mcapa m then 2 * mcapa m else mcapa m + n) m else m))"

definition m_bool :: "bool \<Rightarrow> marshall \<Rightarrow> marshall" where
  "m_bool x = m_rawbyte (if x then 1 else 0)"

definition m_uchar :: "byte \<Rightarrow> marshall \<Rightarrow> marshall" where
  "m_uchar x = m_rawbyte x"

definition m_char :: "int \<Rightarrow> marshall \<Rightarrow> marshall" where
  "m_char x = m_uchar (word_of_int x)"

definition m_ushort :: "16 word \<Rightarrow> marshall \<Rightarrow> marshall" where
  "m_ushort x m = m_rawbyte (ucast (x AND 0xff)) (m_rawbyte (ucast (drop_bit 8 x AND 0xff)) m)"

definition m_short :: "int \<Rightarrow> marshall \<Rightarrow> marshall" where
  "m_short x = m_ushort (word_of_int x)"

definition m_uint :: "uint \<Rightarrow> marshall \<Rightarrow> marshall" where
  "m_uint x m =
     m_rawbyte (ucast (x AND 0xff))
      (m_rawbyte (ucast (drop_bit 8 x AND 0xff))
       (m_rawbyte (ucast (drop_bit 16 x AND 0xff))
        (m_rawbyte (ucast (drop_bit 24 x AND 0xff)) m)))"

definition m_int :: "int \<Rightarrow> marshall \<Rightarrow> marshall" where
  "m_int x = m_uint (word_of_int x)"

definition m_ull :: "ull \<Rightarrow> marshall \<Rightarrow> marshall" where
  "m_ull x m = m_uint (ucast x) (m_uint (ucast (drop_bit 32 x)) m)"

definition char_byte :: "char \<Rightarrow> byte" where
  "char_byte c = of_char c"

definition byte_char :: "byte \<Rightarrow> char" where
  "byte_char b = char_of (unat b)"

definition m_string :: "string \<Rightarrow> marshall \<Rightarrow> marshall" where
  "m_string s m = m_rawbytes (map char_byte s) (m_uint (of_nat (length s)) m)"

definition m_attr :: "attr \<Rightarrow> marshall \<Rightarrow> marshall" where
  "m_attr a m =
     m_uint (attr_gid a) (m_uint (attr_uid a) (m_uint (attr_mode a) (m_uint (attr_size a)
       (m_uint (attr_ctime a) (m_uint (attr_mtime a) (m_uint (attr_atime a) m))))))"

text \<open>\<open>pack\<close> works on the int itself: arithmetic shifts of the sign make no difference to the byte.\<close>

definition m_pack :: "int \<Rightarrow> marshall \<Rightarrow> marshall" where
  "m_pack x m =
     m_rawbyte (word_of_int (x AND 0xff))
      (m_rawbyte (word_of_int (drop_bit 8 x AND 0xff))
       (m_rawbyte (word_of_int (drop_bit 16 x AND 0xff))
        (m_rawbyte (word_of_int (drop_bit 24 x AND 0xff)) m)))"

text \<open>The headers are written behind the four bytes of the size, and the head is put back.\<close>

definition pack_req_header :: "req_header \<Rightarrow> marshall \<Rightarrow> marshall" where
  "pack_req_header h m =
     (let m5 = m_pack (rq_xid_rep h) (m_pack (sint (rq_srv_nonce h)) (m_pack (sint (rq_clt_nonce h))
                 (m_pack (rq_proc h) (m_pack (rq_xid h) (m\<lparr>mind := 4\<rparr>)))))
      in m5\<lparr>mind := mind m\<rparr>)"

definition pack_reply_header :: "reply_header \<Rightarrow> marshall \<Rightarrow> marshall" where
  "pack_reply_header h m =
     (let m2 = m_pack (rp_ret h) (m_pack (rp_xid h) (m\<lparr>mind := 4\<rparr>)) in m2\<lparr>mind := mind m\<rparr>)"

definition m_get_content :: "marshall \<Rightarrow> byte option list" where
  "m_get_content m = take (mind m - rpc_header_sz) (drop rpc_header_sz (mbuf m))"

text \<open>\<open>take_buf\<close>: the block and the number of bytes in use go to the caller.\<close>

definition m_take_buf :: "marshall \<Rightarrow> byte option list \<times> nat \<times> marshall" where
  "m_take_buf m = (mbuf m, mind m, m\<lparr>mbuf := [], mind := 0\<rparr>)"

section \<open>The unmarshaller\<close>

record unmarshall =
  ubuf :: "byte list"
  usz :: nat
  uind :: nat
  uok :: bool
  uoob :: bool

definition unmarshall_init :: unmarshall where
  "unmarshall_init = \<lparr>ubuf = [], usz = 0, uind = 0, uok = False, uoob = False\<rparr>"

definition unmarshall_of :: "byte list \<Rightarrow> unmarshall" where
  "unmarshall_of b = \<lparr>ubuf = b, usz = length b, uind = 0, uok = True, uoob = False\<rparr>"

text \<open>\<open>junk\<close> is what the header bytes of the fresh block hold.\<close>

definition take_content :: "byte list \<Rightarrow> string \<Rightarrow> unmarshall \<Rightarrow> unmarshall" where
  "take_content junk s u =
     u\<lparr>usz := length s + rpc_header_sz, uind := rpc_header_sz,
       ubuf := take rpc_header_sz (junk @ replicate rpc_header_sz 0) @ map char_byte s, uok := True\<rparr>"

definition u_take_buf :: "unmarshall \<Rightarrow> byte list \<times> nat \<times> unmarshall" where
  "u_take_buf u = (ubuf u, usz u, u\<lparr>usz := 0, uind := 0, ubuf := []\<rparr>)"

definition u_take_in :: "unmarshall \<Rightarrow> unmarshall \<Rightarrow> unmarshall \<times> unmarshall" where
  "u_take_in another u =
     (let (b, sz, another') = u_take_buf another
      in (u\<lparr>ubuf := b, usz := sz, uind := rpc_header_sz, uok := rpc_header_sz \<le> sz\<rparr>, another'))"

definition okdone :: "unmarshall \<Rightarrow> bool" where
  "okdone u \<longleftrightarrow> uok u \<and> uind u = usz u"

text \<open>\<open>char\<close> is signed: the byte is sign-extended to the \<open>unsigned int\<close> returned.\<close>

definition u_rawbyte :: "unmarshall \<Rightarrow> uint \<times> unmarshall" where
  "u_rawbyte u =
     (if usz u \<le> uind u then (0, u\<lparr>uok := False\<rparr>)
      else if length (ubuf u) \<le> uind u then (0, u\<lparr>uind := Suc (uind u), uoob := True\<rparr>)
      else (scast (ubuf u ! uind u), u\<lparr>uind := Suc (uind u)\<rparr>))"

definition u_rawbytes :: "string \<Rightarrow> uint \<Rightarrow> unmarshall \<Rightarrow> string \<times> unmarshall" where
  "u_rawbytes ss n u =
     (if of_nat (usz u) < of_nat (uind u) + n then (ss, u\<lparr>uok := False\<rparr>)
      else if length (ubuf u) < uind u + unat n then (ss, u\<lparr>uind := uind u + unat n, uoob := True\<rparr>)
      else (map byte_char (take (unat n) (drop (uind u) (ubuf u))), u\<lparr>uind := uind u + unat n\<rparr>))"

definition u_bool :: "unmarshall \<Rightarrow> bool \<times> unmarshall" where
  "u_bool u = (let (b, u1) = u_rawbyte u in (b \<noteq> 0, u1))"

definition u_uchar :: "unmarshall \<Rightarrow> byte \<times> unmarshall" where
  "u_uchar u = (let (b, u1) = u_rawbyte u in (ucast b, u1))"

definition u_char :: "unmarshall \<Rightarrow> int \<times> unmarshall" where
  "u_char u = (let (b, u1) = u_rawbyte u in (sint (ucast b :: byte), u1))"

definition u_ushort :: "unmarshall \<Rightarrow> 16 word \<times> unmarshall" where
  "u_ushort u =
     (let (b1, u1) = u_rawbyte u; (b2, u2) = u_rawbyte u1
      in (ucast (push_bit 8 (b1 AND 0xff)) OR ucast (b2 AND 0xff), u2))"

definition u_short :: "unmarshall \<Rightarrow> int \<times> unmarshall" where
  "u_short u =
     (let (b1, u1) = u_rawbyte u; (b2, u2) = u_rawbyte u1
      in (sint (ucast (push_bit 8 (b1 AND 0xff)) OR ucast (b2 AND 0xff) :: 16 word), u2))"

definition u_uint :: "unmarshall \<Rightarrow> uint \<times> unmarshall" where
  "u_uint u =
     (let (b1, u1) = u_rawbyte u; (b2, u2) = u_rawbyte u1;
          (b3, u3) = u_rawbyte u2; (b4, u4) = u_rawbyte u3
      in (push_bit 24 (b1 AND 0xff) OR push_bit 16 (b2 AND 0xff) OR push_bit 8 (b3 AND 0xff)
            OR (b4 AND 0xff), u4))"

definition u_int :: "unmarshall \<Rightarrow> int \<times> unmarshall" where
  "u_int u = (let (x, u1) = u_uint u in (sint x, u1))"

definition u_ull :: "unmarshall \<Rightarrow> ull \<times> unmarshall" where
  "u_ull u =
     (let (h, u1) = u_uint u; (l, u2) = u_uint u1 in (ucast l OR push_bit 32 (ucast h), u2))"

text \<open>The string keeps its old value \<open>s\<close> when the length is not there or does not fit.\<close>

definition u_string :: "string \<Rightarrow> unmarshall \<Rightarrow> string \<times> unmarshall" where
  "u_string s u = (let (sz, u1) = u_uint u in if uok u1 then u_rawbytes s sz u1 else (s, u1))"

definition u_attr :: "unmarshall \<Rightarrow> attr \<times> unmarshall" where
  "u_attr u =
     (let (a1, u1) = u_uint u; (a2, u2) = u_uint u1; (a3, u3) = u_uint u2; (a4, u4) = u_uint u3;
          (a5, u5) = u_uint u4; (a6, u6) = u_uint u5; (a7, u7) = u_uint u6
      in (\<lparr>attr_atime = a1, attr_mtime = a2, attr_ctime = a3, attr_size = a4, attr_mode = a5,
           attr_uid = a6, attr_gid = a7\<rparr>, u7))"

definition u_unpack :: "unmarshall \<Rightarrow> int \<times> unmarshall" where
  "u_unpack u =
     (let (b1, u1) = u_rawbyte u; (b2, u2) = u_rawbyte u1;
          (b3, u3) = u_rawbyte u2; (b4, u4) = u_rawbyte u3
      in (sint (push_bit 24 (b1 AND 0xff) OR push_bit 16 (b2 AND 0xff) OR push_bit 8 (b3 AND 0xff)
            OR (b4 AND 0xff)), u4))"

definition unpack_req_header :: "unmarshall \<Rightarrow> req_header \<times> unmarshall" where
  "unpack_req_header u =
     (let (x1, u1) = u_unpack (u\<lparr>uind := 4\<rparr>); (x2, u2) = u_unpack u1; (x3, u3) = u_unpack u2;
          (x4, u4) = u_unpack u3; (x5, u5) = u_unpack u4
      in (\<lparr>rq_xid = x1, rq_proc = x2, rq_clt_nonce = word_of_int x3, rq_srv_nonce = word_of_int x4,
           rq_xid_rep = x5\<rparr>, u5\<lparr>uind := rpc_header_sz\<rparr>))"

definition unpack_reply_header :: "unmarshall \<Rightarrow> reply_header \<times> unmarshall" where
  "unpack_reply_header u =
     (let (x1, u1) = u_unpack (u\<lparr>uind := 4\<rparr>); (x2, u2) = u_unpack u1
      in (\<lparr>rp_xid = x1, rp_ret = x2\<rparr>, u2\<lparr>uind := rpc_header_sz\<rparr>))"

text \<open>The templates for vectors, over the operators of the element type.\<close>

definition m_vector :: "('a \<Rightarrow> marshall \<Rightarrow> marshall) \<Rightarrow> 'a list \<Rightarrow> marshall \<Rightarrow> marshall" where
  "m_vector put v m = fold put v (m_uint (of_nat (length v)) m)"

fun u_elems :: "(unmarshall \<Rightarrow> 'a \<times> unmarshall) \<Rightarrow> nat \<Rightarrow> 'a list \<Rightarrow> unmarshall \<Rightarrow> 'a list \<times> unmarshall" where
  "u_elems get 0 v u = (v, u)"
| "u_elems get (Suc n) v u = (let (z, u1) = get u in u_elems get n (v @ [z]) u1)"

definition u_vector ::
  "(unmarshall \<Rightarrow> 'a \<times> unmarshall) \<Rightarrow> 'a list \<Rightarrow> unmarshall \<Rightarrow> 'a list \<times> unmarshall" where
  "u_vector get v u = (let (n, u1) = u_uint u in u_elems get (unat n) v u1)"

text \<open>
  The templates for maps.  A \<open>std::map\<close> is the list of its entries in the order of the keys, which
  is the order of its iterators; \<open>map_assign\<close> is \<open>d[a] = b\<close>.
\<close>

definition m_map ::
  "('a \<Rightarrow> marshall \<Rightarrow> marshall) \<Rightarrow> ('b \<Rightarrow> marshall \<Rightarrow> marshall) \<Rightarrow> ('a \<times> 'b) list \<Rightarrow> marshall \<Rightarrow> marshall" where
  "m_map putA putB d m = fold (\<lambda>(a, b) m. putB b (putA a m)) d (m_uint (of_nat (length d)) m)"

fun map_assign :: "'a :: linorder \<Rightarrow> 'b \<Rightarrow> ('a \<times> 'b) list \<Rightarrow> ('a \<times> 'b) list" where
  "map_assign a b [] = [(a, b)]"
| "map_assign a b ((x, y) # d) =
     (if a < x then (a, b) # (x, y) # d
      else if a = x then (a, b) # d
      else (x, y) # map_assign a b d)"

fun u_map_elems ::
  "(unmarshall \<Rightarrow> 'a :: linorder \<times> unmarshall) \<Rightarrow> (unmarshall \<Rightarrow> 'b \<times> unmarshall) \<Rightarrow> nat
     \<Rightarrow> ('a \<times> 'b) list \<Rightarrow> unmarshall \<Rightarrow> ('a \<times> 'b) list \<times> unmarshall" where
  "u_map_elems getA getB 0 d u = (d, u)"
| "u_map_elems getA getB (Suc n) d u =
     (let (a, u1) = getA u; (b, u2) = getB u1 in u_map_elems getA getB n (map_assign a b d) u2)"

text \<open>\<open>d.clear()\<close> drops what the map held.\<close>

definition u_map ::
  "(unmarshall \<Rightarrow> 'a :: linorder \<times> unmarshall) \<Rightarrow> (unmarshall \<Rightarrow> 'b \<times> unmarshall)
     \<Rightarrow> ('a \<times> 'b) list \<Rightarrow> unmarshall \<Rightarrow> ('a \<times> 'b) list \<times> unmarshall" where
  "u_map getA getB d u = (let (n, u1) = u_uint u in u_map_elems getA getB (unat n) [] u1)"

section \<open>What a marshalling operator writes\<close>

definition m_wf :: "marshall \<Rightarrow> bool" where
  "m_wf m \<longleftrightarrow> \<not> moob m \<and> length (mbuf m) = mcapa m \<and> mind m \<le> mcapa m \<and> 0 < mcapa m"

definition written :: "marshall \<Rightarrow> byte option list" where
  "written m = take (mind m) (mbuf m)"

text \<open>The capacity is an int, and nothing has overflowed.\<close>

definition in_range :: "marshall \<Rightarrow> bool" where
  "in_range m \<longleftrightarrow> \<not> mover m \<and> mcapa m < 2 ^ 31"

text \<open>
  \<open>emits bs f\<close>: on every well-formed marshaller \<open>f\<close> appends the bytes \<open>bs\<close> at the head, keeps what is
  before the head, stays inside the block, and, when the bytes fit, keeps what is behind them; as
  long as the head stays below 2 to the 30 the doubled capacity is an int, too.
\<close>

definition emits :: "byte list \<Rightarrow> (marshall \<Rightarrow> marshall) \<Rightarrow> bool" where
  "emits bs f \<longleftrightarrow> (\<forall>m. m_wf m \<longrightarrow>
     m_wf (f m) \<and> mind (f m) = mind m + length bs \<and> written (f m) = written m @ map Some bs \<and>
     (mind m + length bs \<le> mcapa m \<longrightarrow>
        drop (mind m + length bs) (mbuf (f m)) = drop (mind m + length bs) (mbuf m)) \<and>
     (in_range m \<and> mind m + length bs < 2 ^ 30 \<longrightarrow> in_range (f m)))"

lemma emitsD:
  assumes "emits bs f" and "m_wf m"
  shows "m_wf (f m)" "mind (f m) = mind m + length bs" "written (f m) = written m @ map Some bs"
    "mind m + length bs \<le> mcapa m \<Longrightarrow>
       drop (mind m + length bs) (mbuf (f m)) = drop (mind m + length bs) (mbuf m)"
    "in_range m \<Longrightarrow> mind m + length bs < 2 ^ 30 \<Longrightarrow> in_range (f m)"
  using assms by (simp_all add: emits_def)

lemma emits_store:
  assumes "m_wf m" and "mcapa m' = length (mbuf m')" and "mind m' = mind m" and "\<not> moob m'"
    and "mind m + length bs \<le> mcapa m'" and "mcapa m \<le> mcapa m'"
    and "take (mcapa m) (mbuf m') = mbuf m"
    and "mind m + length bs \<le> mcapa m \<Longrightarrow> m' = m"
    and "in_range m \<Longrightarrow> mind m + length bs < 2 ^ 30 \<Longrightarrow> in_range m'"
  shows "m_wf (m_store bs m') \<and> mind (m_store bs m') = mind m + length bs \<and>
    written (m_store bs m') = written m @ map Some bs \<and>
    (mind m + length bs \<le> mcapa m \<longrightarrow> drop (mind m + length bs) (mbuf (m_store bs m'))
       = drop (mind m + length bs) (mbuf m)) \<and>
    (in_range m \<and> mind m + length bs < 2 ^ 30 \<longrightarrow> in_range (m_store bs m'))"
proof -
  have "take (mind m) (mbuf m') = take (mind m) (mbuf m)"
    using assms(1,6,7) by (metis m_wf_def min.absorb1 take_take)
  then show ?thesis
    using assms by (auto simp: m_store_def m_wf_def written_def in_range_def Let_def)
qed

lemma realloc_fields:
  assumes "length (mbuf m) \<le> n"
  shows "mcapa (m_realloc n m) = n" "length (mbuf (m_realloc n m)) = n" "mind (m_realloc n m) = mind m"
    "moob (m_realloc n m) = moob m" "take (length (mbuf m)) (mbuf (m_realloc n m)) = mbuf m"
    "in_range (m_realloc n m) \<longleftrightarrow> \<not> mover m \<and> n < 2 ^ 31"
  using assms by (auto simp: m_realloc_def in_range_def)

lemma emits_rawbyte: "emits [x] (m_rawbyte x)"
proof -
  have "m_wf (m_rawbyte x m) \<and> mind (m_rawbyte x m) = mind m + length [x] \<and>
    written (m_rawbyte x m) = written m @ map Some [x] \<and>
    (mind m + length [x] \<le> mcapa m \<longrightarrow> drop (mind m + length [x]) (mbuf (m_rawbyte x m))
       = drop (mind m + length [x]) (mbuf m)) \<and>
    (in_range m \<and> mind m + length [x] < 2 ^ 30 \<longrightarrow> in_range (m_rawbyte x m))" if "m_wf m" for m
    unfolding m_rawbyte_def
    by (rule emits_store [OF that]) (use that realloc_fields [of m "mcapa m * 2"] in
        \<open>auto simp: m_wf_def in_range_def\<close>)
  then show ?thesis unfolding emits_def by blast
qed

lemma emits_rawbytes: "emits bs (m_rawbytes bs)"
proof -
  have "m_wf (m_rawbytes bs m) \<and> mind (m_rawbytes bs m) = mind m + length bs \<and>
    written (m_rawbytes bs m) = written m @ map Some bs \<and>
    (mind m + length bs \<le> mcapa m \<longrightarrow> drop (mind m + length bs) (mbuf (m_rawbytes bs m))
       = drop (mind m + length bs) (mbuf m)) \<and>
    (in_range m \<and> mind m + length bs < 2 ^ 30 \<longrightarrow> in_range (m_rawbytes bs m))" if "m_wf m" for m
    unfolding m_rawbytes_def Let_def
    by (rule emits_store [OF that]) (use that realloc_fields [of m "2 * mcapa m"]
          realloc_fields [of m "mcapa m + length bs"] in \<open>auto simp: m_wf_def in_range_def\<close>)
  then show ?thesis unfolding emits_def by blast
qed

lemma emits_comp:
  assumes f: "emits a f" and g: "emits b g"
  shows "emits (a @ b) (\<lambda>m. g (f m))"
  unfolding emits_def
proof (intro allI impI)
  fix m
  assume m: "m_wf m"
  note 1 = emitsD [OF f m] and 2 = emitsD [OF g emitsD(1) [OF f m]]
  have "drop (mind m + length (a @ b)) (mbuf (g (f m))) = drop (mind m + length (a @ b)) (mbuf m)"
    if le: "mind m + length (a @ b) \<le> mcapa m"
  proof -
    have len: "length (mbuf (f m)) = mcapa m"
    proof -
      have "length (drop (mind m + length a) (mbuf (f m))) = length (drop (mind m + length a) (mbuf m))"
        using 1(4) le by simp
      moreover have "mind m + length a \<le> length (mbuf (f m))" using 1(1,2) by (simp add: m_wf_def)
      ultimately show ?thesis using le m by (simp add: m_wf_def)
    qed
    have "drop (mind m + length (a @ b)) (mbuf (g (f m))) = drop (mind m + length (a @ b)) (mbuf (f m))"
      using 2(4) 1(1,2) len le by (simp add: m_wf_def add.assoc)
    also have "\<dots> = drop (length b) (drop (mind m + length a) (mbuf (f m)))"
      by (simp add: ac_simps)
    also have "\<dots> = drop (mind m + length (a @ b)) (mbuf m)"
      using 1(4) le by (simp add: ac_simps)
    finally show ?thesis .
  qed
  then show "m_wf (g (f m)) \<and> mind (g (f m)) = mind m + length (a @ b) \<and>
     written (g (f m)) = written m @ map Some (a @ b) \<and>
     (mind m + length (a @ b) \<le> mcapa m \<longrightarrow>
        drop (mind m + length (a @ b)) (mbuf (g (f m))) = drop (mind m + length (a @ b)) (mbuf m)) \<and>
     (in_range m \<and> mind m + length (a @ b) < 2 ^ 30 \<longrightarrow> in_range (g (f m)))"
    using 1 2 by simp
qed

lemma emits_nothing: "emits [] (\<lambda>m. m)"
  by (simp add: emits_def)

section \<open>What an unmarshalling operator reads\<close>

definition u_wf :: "unmarshall \<Rightarrow> bool" where
  "u_wf u \<longleftrightarrow> usz u = length (ubuf u) \<and> uind u \<le> usz u \<and> usz u < 2 ^ 31 \<and> uok u"

text \<open>\<open>reads bs get x\<close>: from a well-formed unmarshaller with \<open>bs\<close> next, \<open>get\<close> yields \<open>x\<close> and consumes \<open>bs\<close>.\<close>

definition reads :: "byte list \<Rightarrow> (unmarshall \<Rightarrow> 'a \<times> unmarshall) \<Rightarrow> 'a \<Rightarrow> bool" where
  "reads bs get x \<longleftrightarrow> (\<forall>u. u_wf u \<longrightarrow> prefix bs (drop (uind u) (ubuf u)) \<longrightarrow>
     get u = (x, u\<lparr>uind := uind u + length bs\<rparr>))"

lemma u_wf_advance:
  assumes "u_wf u" and "prefix bs (drop (uind u) (ubuf u))"
  shows "u_wf (u\<lparr>uind := uind u + length bs\<rparr>)"
  using assms prefix_length_le [OF assms(2)] by (auto simp: u_wf_def)

lemma reads_comp:
  assumes f: "reads a f x" and g: "reads b (g x) y"
  shows "reads (a @ b) (\<lambda>u. let (x, u1) = f u in g x u1) y"
  unfolding reads_def
proof (intro allI impI)
  fix u
  assume u: "u_wf u" and p: "prefix (a @ b) (drop (uind u) (ubuf u))"
  have pa: "prefix a (drop (uind u) (ubuf u))" using p by (rule append_prefixD)
  let ?u1 = "u\<lparr>uind := uind u + length a\<rparr>"
  obtain r where "drop (uind u) (ubuf u) = a @ b @ r" using p by (auto simp: prefix_def)
  then have "drop (uind ?u1) (ubuf ?u1) = b @ r"
    by (metis add.commute append_eq_conv_conj drop_drop unmarshall.select_convs(1,3)
        unmarshall.surjective unmarshall.update_convs(3))
  then have "g x ?u1 = (y, ?u1\<lparr>uind := uind ?u1 + length b\<rparr>)"
    using g u_wf_advance [OF u pa] by (simp add: reads_def)
  moreover have "f u = (x, ?u1)" using f u pa by (simp add: reads_def)
  ultimately show "(let (x, u1) = f u in g x u1) = (y, u\<lparr>uind := uind u + length (a @ b)\<rparr>)"
    by (simp add: add.assoc)
qed

lemma reads_map: "reads bs f x \<Longrightarrow> reads bs (\<lambda>u. let (x, u1) = f u in (h x, u1)) (h x)"
  by (auto simp: reads_def)

lemma reads_done: "reads [] (\<lambda>u. (x, u)) x"
  by (simp add: reads_def)

lemma reads_rawbyte: "reads [b] u_rawbyte (scast b)"
  by (auto simp: reads_def u_rawbyte_def u_wf_def prefix_def) (metis nth_via_drop)

text \<open>The bytes of the integers, most significant first.\<close>

definition ushort_bytes :: "16 word \<Rightarrow> byte list" where
  "ushort_bytes x = [ucast (drop_bit 8 x AND 0xff), ucast (x AND 0xff)]"

definition uint_bytes :: "uint \<Rightarrow> byte list" where
  "uint_bytes x = [ucast (drop_bit 24 x AND 0xff), ucast (drop_bit 16 x AND 0xff),
     ucast (drop_bit 8 x AND 0xff), ucast (x AND 0xff)]"

definition ull_bytes :: "ull \<Rightarrow> byte list" where
  "ull_bytes x = uint_bytes (ucast (drop_bit 32 x)) @ uint_bytes (ucast x)"

definition string_bytes :: "string \<Rightarrow> byte list" where
  "string_bytes s = uint_bytes (of_nat (length s)) @ map char_byte s"

definition attr_bytes :: "attr \<Rightarrow> byte list" where
  "attr_bytes a = uint_bytes (attr_atime a) @ uint_bytes (attr_mtime a) @ uint_bytes (attr_ctime a) @
     uint_bytes (attr_size a) @ uint_bytes (attr_mode a) @ uint_bytes (attr_uid a) @
     uint_bytes (attr_gid a)"

lemma uint_bytes_length [simp]: "length (uint_bytes x) = 4"
  by (simp add: uint_bytes_def)

lemma and_ff: "x AND 0xff = take_bit 8 (x :: 'a :: len word)" "y AND 0xff = take_bit 8 (y :: int)"
  by (simp_all add: take_bit_eq_mask mask_eq_exp_minus_1)

lemma scast_byte: "(scast (b :: byte) :: uint) AND 0xff = ucast b"
  unfolding and_ff
proof (rule bit_word_eqI)
  fix n :: nat
  consider "n < 7" | "n = 7" | "8 \<le> n" by linarith
  then show "bit (take_bit 8 (scast b :: uint)) n = bit (ucast b :: uint) n"
    using bit_imp_le_length [of b n] by cases (auto simp: bit_simps)
qed

lemma byte_back: "(ucast (ucast (w AND 0xff) :: byte) :: uint) = take_bit 8 w"
  unfolding and_ff
  by (rule bit_word_eqI) (auto simp: bit_simps)

lemma uint_join:
  "(push_bit 24 (ucast (ucast (drop_bit 24 x AND 0xff) :: byte)) OR
    push_bit 16 (ucast (ucast (drop_bit 16 x AND 0xff) :: byte)) OR
    push_bit 8 (ucast (ucast (drop_bit 8 x AND 0xff) :: byte)) OR
    ucast (ucast (x AND 0xff) :: byte) :: uint) = x"
  unfolding byte_back
proof (rule bit_word_eqI)
  fix n
  assume "n < LENGTH(32)"
  then consider "n < 8" | "8 \<le> n" "n < 16" | "16 \<le> n" "n < 24" | "24 \<le> n" "n < 32" by fastforce
  then show "bit (push_bit 24 (take_bit 8 (drop_bit 24 x)) OR push_bit 16 (take_bit 8 (drop_bit 16 x)) OR
    push_bit 8 (take_bit 8 (drop_bit 8 x)) OR take_bit 8 x) n = bit x n"
    by cases (simp_all add: bit_simps less_diff_conv2)
qed

lemma ushort_join:
  "(ucast (push_bit 8 (ucast (ucast (drop_bit 8 x AND 0xff) :: byte) :: uint)) OR
    ucast (ucast (ucast (x AND 0xff) :: byte) :: uint) :: 16 word) = x"
  unfolding and_ff
proof (rule bit_word_eqI)
  fix n
  assume "n < LENGTH(16)"
  then consider "n < 8" | "8 \<le> n" "n < 16" by fastforce
  then show "bit (ucast (push_bit 8 (ucast (ucast (take_bit 8 (drop_bit 8 x)) :: byte) :: uint)) OR
      ucast (ucast (ucast (take_bit 8 x) :: byte) :: uint) :: 16 word) n = bit x n"
    by cases (simp_all add: bit_simps less_diff_conv2)
qed

lemma ull_join: "(ucast (ucast x :: uint) OR push_bit 32 (ucast (ucast (drop_bit 32 x) :: uint)) :: ull) = x"
proof (rule bit_word_eqI)
  fix n
  assume "n < LENGTH(64)"
  then show "bit (ucast (ucast x :: uint) OR push_bit 32 (ucast (ucast (drop_bit 32 x) :: uint)) :: ull) n = bit x n"
    by (cases "n < 32") (simp_all add: bit_simps less_diff_conv2)
qed

lemma emits_uint: "emits (uint_bytes x) (m_uint x)"
  using emits_comp [OF emits_comp [OF emits_comp [OF emits_rawbyte emits_rawbyte] emits_rawbyte]
      emits_rawbyte, of "ucast (drop_bit 24 x AND 0xff)" "ucast (drop_bit 16 x AND 0xff)"
      "ucast (drop_bit 8 x AND 0xff)" "ucast (x AND 0xff)"]
  by (simp add: uint_bytes_def m_uint_def [abs_def])

lemma reads_bytes4:
  "reads [b1, b2, b3, b4] (\<lambda>u. let (b1, u1) = u_rawbyte u; (b2, u2) = u_rawbyte u1;
      (b3, u3) = u_rawbyte u2; (b4, u4) = u_rawbyte u3 in (f b1 b2 b3 b4, u4))
    (f (scast b1) (scast b2) (scast b3) (scast b4))"
  using reads_comp [OF reads_rawbyte reads_comp [OF reads_rawbyte reads_comp [OF reads_rawbyte
      reads_map [OF reads_rawbyte]]], of b1 b2 b3 b4 "\<lambda>x y z w. f x y z w"]
  by simp

lemma reads_uint: "reads (uint_bytes x) u_uint x"
  using reads_bytes4 [of "ucast (drop_bit 24 x AND 0xff)" "ucast (drop_bit 16 x AND 0xff)"
      "ucast (drop_bit 8 x AND 0xff)" "ucast (x AND 0xff)" "\<lambda>b1 b2 b3 b4. push_bit 24 (b1 AND 0xff)
      OR push_bit 16 (b2 AND 0xff) OR push_bit 8 (b3 AND 0xff) OR (b4 AND 0xff)"]
  by (simp only: scast_byte uint_join u_uint_def [abs_def] uint_bytes_def)

lemma reads_unpack: "reads (uint_bytes x) u_unpack (sint x)"
  using reads_bytes4 [of "ucast (drop_bit 24 x AND 0xff)" "ucast (drop_bit 16 x AND 0xff)"
      "ucast (drop_bit 8 x AND 0xff)" "ucast (x AND 0xff)" "\<lambda>b1 b2 b3 b4. sint (push_bit 24 (b1 AND 0xff)
      OR push_bit 16 (b2 AND 0xff) OR push_bit 8 (b3 AND 0xff) OR (b4 AND 0xff))"]
  by (simp only: scast_byte uint_join u_unpack_def [abs_def] uint_bytes_def)

text \<open>\<open>pack\<close> writes the bytes \<open><<\<close> writes.\<close>

lemma pack_byte:
  "word_of_int (drop_bit n (x :: int) AND 0xff) = (ucast (drop_bit n (word_of_int x :: uint) AND 0xff) :: byte)"
  if "n \<le> 24"
proof (rule bit_word_eqI)
  fix m
  assume "m < LENGTH(8)"
  then show "bit (word_of_int (drop_bit n x AND 0xff) :: byte) m
      = bit (ucast (drop_bit n (word_of_int x :: uint) AND 0xff) :: byte) m"
    using that unfolding and_ff by (simp add: bit_simps)
qed

lemma m_pack_uint: "m_pack x = m_uint (word_of_int x)"
  using pack_byte [of 24 x] pack_byte [of 16 x] pack_byte [of 8 x] pack_byte [of 0 x]
  by (simp add: m_pack_def [abs_def] m_uint_def [abs_def])

section \<open>The codec contract\<close>

text \<open>
  What a type's pair of operators promises: on the values in \<open>fits\<close>, the marshaller appends an
  encoding and the unmarshaller reads it back, whatever surrounds it.
\<close>

locale codec =
  fixes put :: "'a \<Rightarrow> marshall \<Rightarrow> marshall"
    and get :: "unmarshall \<Rightarrow> 'a \<times> unmarshall"
    and enc :: "'a \<Rightarrow> byte list"
    and fits :: "'a \<Rightarrow> bool"
  assumes put_emits: "fits x \<Longrightarrow> emits (enc x) (put x)"
    and get_reads: "fits x \<Longrightarrow> reads (enc x) get x"
begin

text \<open>A vector of such values is encoded with its length in front.\<close>

lemma fold_emits: "\<forall>x \<in> set xs. fits x \<Longrightarrow> emits (concat (map enc xs)) (fold put xs)"
proof (induction xs)
  case (Cons x xs)
  then show ?case
    using emits_comp [OF put_emits [of x] Cons.IH] by (simp add: comp_def)
qed (simp add: emits_def)

lemma vector_emits:
  assumes "\<forall>x \<in> set xs. fits x"
  shows "emits (uint_bytes (of_nat (length xs)) @ concat (map enc xs)) (m_vector put xs)"
  using emits_comp [OF emits_uint fold_emits [OF assms]] by (simp add: m_vector_def [abs_def])

lemma elems_reads:
  "\<forall>x \<in> set xs. fits x \<Longrightarrow> reads (concat (map enc xs)) (u_elems get (length xs) v) (v @ xs)"
proof (induction xs arbitrary: v)
  case (Cons x xs)
  then show ?case
    using reads_comp [OF get_reads [of x], of "concat (map enc xs)" "\<lambda>z. u_elems get (length xs) (v @ [z])"
        "v @ x # xs"] Cons.IH [of "v @ [x]"] by (simp add: u_elems.simps [abs_def])
qed (simp add: reads_def)

lemma vector_reads:
  assumes "\<forall>x \<in> set xs. fits x" and "length xs < 2 ^ 32"
  shows "reads (uint_bytes (of_nat (length xs)) @ concat (map enc xs)) (u_vector get []) xs"
proof -
  have "unat (of_nat (length xs) :: uint) = length xs"
    using assms(2) by (simp add: unat_of_nat take_bit_nat_eq_self)
  then show ?thesis
    using reads_comp [OF reads_uint, of "concat (map enc xs)" "\<lambda>n. u_elems get (unat n) []"
        "of_nat (length xs)" xs] elems_reads [OF assms(1), of "[]"]
    by (simp add: u_vector_def [abs_def])
qed

end

locale codec2 = A: codec putA getA encA fitsA + B: codec putB getB encB fitsB
  for putA :: "'a \<Rightarrow> marshall \<Rightarrow> marshall" and getA encA fitsA
    and putB :: "'b \<Rightarrow> marshall \<Rightarrow> marshall" and getB encB fitsB
begin

lemma pair_emits: "fitsA x \<Longrightarrow> fitsB y \<Longrightarrow> emits (encA x @ encB y) (\<lambda>m. putB y (putA x m))"
  by (rule emits_comp [OF A.put_emits B.put_emits])

lemma pair_reads:
  "fitsA x \<Longrightarrow> fitsB y \<Longrightarrow>
   reads (encA x @ encB y) (\<lambda>u. let (x, u1) = getA u in (let (y, u2) = getB u1 in ((x, y), u2))) (x, y)"
  by (rule reads_comp [where g = "\<lambda>x u1. let (y, u2) = getB u1 in ((x, y), u2)",
        OF A.get_reads reads_map [OF B.get_reads]])

end

text \<open>Two operands after each other are again an operand.\<close>

sublocale codec2 \<subseteq> pr: codec "\<lambda>(x, y) m. putB y (putA x m)"
    "\<lambda>u. let (x, u1) = getA u in (let (y, u2) = getB u1 in ((x, y), u2))"
    "\<lambda>(x, y). encA x @ encB y" "\<lambda>(x, y). fitsA x \<and> fitsB y"
  by unfold_locales (auto simp: pair_emits pair_reads [unfolded Let_def])

context codec2
begin

lemma pair_codec:
  "codec (\<lambda>(x, y) m. putB y (putA x m))
     (\<lambda>u. let (x, u1) = getA u in (let (y, u2) = getB u1 in ((x, y), u2)))
     (\<lambda>(x, y). encA x @ encB y) (\<lambda>(x, y). fitsA x \<and> fitsB y)"
  by (rule pr.codec_axioms)

end

section \<open>The operators meet the contract\<close>

lemma emits_bytes2: "emits [x, y] (\<lambda>m. m_rawbyte y (m_rawbyte x m))"
  using emits_comp [OF emits_rawbyte emits_rawbyte, of x y] by simp

lemma reads_bytes2:
  "reads [b1, b2] (\<lambda>u. let (b1, u1) = u_rawbyte u; (b2, u2) = u_rawbyte u1 in (f b1 b2, u2))
    (f (scast b1) (scast b2))"
  using reads_comp [OF reads_rawbyte reads_map [OF reads_rawbyte], of b1 b2 "\<lambda>x y. f x y"] by simp

lemma emits_ushort: "emits (ushort_bytes x) (m_ushort x)"
  using emits_bytes2 by (simp add: ushort_bytes_def m_ushort_def [abs_def])

lemma reads_ushort: "reads (ushort_bytes x) u_ushort x"
  using reads_bytes2 [of "ucast (drop_bit 8 x AND 0xff)" "ucast (x AND 0xff)"
      "\<lambda>b1 b2. ucast (push_bit 8 (b1 AND 0xff)) OR ucast (b2 AND 0xff) :: 16 word"]
  by (simp only: scast_byte ushort_join u_ushort_def [abs_def] ushort_bytes_def)

lemma reads_short: "reads (ushort_bytes x) u_short (sint x)"
  using reads_bytes2 [of "ucast (drop_bit 8 x AND 0xff)" "ucast (x AND 0xff)"
      "\<lambda>b1 b2. sint (ucast (push_bit 8 (b1 AND 0xff)) OR ucast (b2 AND 0xff) :: 16 word)"]
  by (simp only: scast_byte ushort_join u_short_def [abs_def] ushort_bytes_def)

lemma scast_ucast_byte: "(ucast (scast (b :: byte) :: uint) :: byte) = b"
proof (rule bit_word_eqI)
  fix n :: nat
  assume "n < LENGTH(8)"
  then consider "n < 7" | "n = 7" by fastforce
  then show "bit (ucast (scast b :: uint) :: byte) n = bit b n" by cases (simp_all add: bit_simps)
qed

lemma sint_of_int:
  "- (2 ^ (LENGTH('a) - 1)) \<le> x \<Longrightarrow> x < 2 ^ (LENGTH('a) - 1) \<Longrightarrow> sint (word_of_int x :: 'a :: len word) = x"
  by (simp add: signed_of_int signed_take_bit_int_eq_self)

interpretation bool_codec: codec m_bool u_bool "\<lambda>x. [if x then 1 else 0]" "\<lambda>_. True"
proof
  fix x
  show "emits [if x then 1 else 0] (m_bool x)" by (simp add: m_bool_def emits_rawbyte)
  show "reads [if x then 1 else 0] u_bool x"
    using reads_map [OF reads_rawbyte, of "if x then 1 else 0" "\<lambda>b. b \<noteq> 0"]
    by (cases x) (simp_all add: u_bool_def [abs_def])
qed

interpretation uchar_codec: codec m_uchar u_uchar "\<lambda>x. [x]" "\<lambda>_. True"
proof
  fix x :: byte
  show "emits [x] (m_uchar x)" by (simp add: m_uchar_def emits_rawbyte)
  show "reads [x] u_uchar x"
    using reads_map [OF reads_rawbyte, of x "\<lambda>b. ucast b :: byte"]
    by (simp add: u_uchar_def [abs_def] scast_ucast_byte)
qed

interpretation char_codec: codec m_char u_char "\<lambda>x. [word_of_int x]" "\<lambda>x. - 128 \<le> x \<and> x < 128"
proof
  fix x :: int
  assume x: "- 128 \<le> x \<and> x < 128"
  show "emits [word_of_int x] (m_char x)" by (simp add: m_char_def m_uchar_def emits_rawbyte)
  show "reads [word_of_int x] u_char x"
    using reads_map [OF reads_rawbyte, of "word_of_int x" "\<lambda>b. sint (ucast b :: byte)"] x
      sint_of_int [where 'a = 8, of x]
    by (simp add: u_char_def [abs_def] scast_ucast_byte)
qed

interpretation ushort_codec: codec m_ushort u_ushort ushort_bytes "\<lambda>_. True"
  by unfold_locales (simp_all add: emits_ushort reads_ushort)

interpretation short_codec: codec m_short u_short "\<lambda>x. ushort_bytes (word_of_int x)"
    "\<lambda>x. - (2 ^ 15) \<le> x \<and> x < 2 ^ 15"
proof
  fix x :: int
  assume x: "- (2 ^ 15) \<le> x \<and> x < 2 ^ 15"
  show "emits (ushort_bytes (word_of_int x)) (m_short x)" by (simp add: m_short_def emits_ushort)
  show "reads (ushort_bytes (word_of_int x)) u_short x"
    using reads_short [of "word_of_int x"] sint_of_int [where 'a = 16, of x] x by simp
qed

interpretation uint_codec: codec m_uint u_uint uint_bytes "\<lambda>_. True"
  by unfold_locales (simp_all add: emits_uint reads_uint)

interpretation int_codec: codec m_int u_int "\<lambda>x. uint_bytes (word_of_int x)"
    "\<lambda>x. - (2 ^ 31) \<le> x \<and> x < 2 ^ 31"
proof
  fix x :: int
  assume x: "- (2 ^ 31) \<le> x \<and> x < 2 ^ 31"
  show "emits (uint_bytes (word_of_int x)) (m_int x)" by (simp add: m_int_def emits_uint)
  show "reads (uint_bytes (word_of_int x)) u_int x"
    using reads_map [OF reads_uint, of "word_of_int x" sint] sint_of_int [where 'a = 32, of x] x
    by (simp add: u_int_def [abs_def])
qed

interpretation ull_codec: codec m_ull u_ull ull_bytes "\<lambda>_. True"
proof
  fix x :: ull
  show "emits (ull_bytes x) (m_ull x)"
    using emits_comp [OF emits_uint emits_uint, of "ucast (drop_bit 32 x)" "ucast x"]
    by (simp add: ull_bytes_def m_ull_def [abs_def])
  show "reads (ull_bytes x) u_ull x"
    using reads_comp [OF reads_uint reads_map [OF reads_uint], of "ucast (drop_bit 32 x)" "ucast x"
        "\<lambda>h l. ucast l OR push_bit 32 (ucast h) :: ull"]
    by (simp add: ull_bytes_def u_ull_def [abs_def] ull_join)
qed

lemma byte_char_byte [simp]: "byte_char (char_byte c) = c"
proof -
  have "char_byte c = of_nat (of_char c :: nat)" by (simp only: char_byte_def of_nat_of_char)
  moreover have "(of_char c :: nat) < 256" by (rule nat_of_char_less_256)
  ultimately have "unat (char_byte c) = of_char c"
    by (simp add: unat_of_nat take_bit_nat_eq_self)
  then show ?thesis by (simp add: byte_char_def)
qed

lemma reads_rawbytes:
  assumes "length s < 2 ^ 31"
  shows "reads (map char_byte s) (u_rawbytes t (of_nat (length s))) s"
  unfolding reads_def
proof (intro allI impI)
  fix u
  assume u: "u_wf u" and "prefix (map char_byte s) (drop (uind u) (ubuf u))"
  then obtain r where r: "drop (uind u) (ubuf u) = map char_byte s @ r" by (auto simp: prefix_def)
  have n: "unat (of_nat (length s) :: uint) = length s"
    using assms by (simp add: unat_of_nat take_bit_nat_eq_self)
  have "length (drop (uind u) (ubuf u)) = length s + length r" using r by simp
  then have le: "uind u + length s \<le> length (ubuf u)" using u by (auto simp: u_wf_def)
  have sum: "unat (of_nat (uind u) + of_nat (length s) :: uint) = uind u + length s"
    and szs: "unat (of_nat (usz u) :: uint) = usz u"
    using u le by (simp_all add: u_wf_def unat_of_nat take_bit_nat_eq_self flip: of_nat_add)
  have "\<not> (of_nat (usz u) :: uint) < of_nat (uind u) + of_nat (length s)"
    unfolding word_less_nat_alt sum szs using le u by (simp add: u_wf_def)
  then show "u_rawbytes t (of_nat (length s)) u = (s, u\<lparr>uind := uind u + length (map char_byte s)\<rparr>)"
    using le n r by (simp add: u_rawbytes_def comp_def)
qed

definition string_fits :: "string \<Rightarrow> bool" where
  "string_fits s \<longleftrightarrow> length s < 2 ^ 31"

text \<open>A string reads back whatever the string variable held before.\<close>

interpretation string_codec: codec m_string "u_string t" string_bytes string_fits for t
proof
  fix x :: string
  assume x: "string_fits x"
  show "emits (string_bytes x) (m_string x)"
    using emits_comp [OF emits_uint emits_rawbytes, of "of_nat (length x)" "map char_byte x"]
    by (simp add: string_bytes_def m_string_def [abs_def])
  have len: "reads (uint_bytes (of_nat (length x))) (\<lambda>u. let (sz, u1) = u_uint u in ((sz, uok u1), u1))
      (of_nat (length x), True)"
    using reads_uint [of "of_nat (length x)"] by (auto simp: reads_def u_wf_def)
  have "reads (string_bytes x) (\<lambda>u. let (p, u1) = (let (sz, u1) = u_uint u in ((sz, uok u1), u1))
      in if snd p then u_rawbytes t (fst p) u1 else (t, u1)) x"
    unfolding string_bytes_def
    by (rule reads_comp [OF len, where g = "\<lambda>p u1. if snd p then u_rawbytes t (fst p) u1 else (t, u1)"])
      (use reads_rawbytes x in \<open>simp add: string_fits_def\<close>)
  moreover have "(\<lambda>u. let (p, u1) = (let (sz, u1) = u_uint u in ((sz, uok u1), u1))
      in if snd p then u_rawbytes t (fst p) u1 else (t, u1)) = u_string t"
    by (auto simp: fun_eq_iff u_string_def split: prod.split)
  ultimately show "reads (string_bytes x) (u_string t) x" by simp
qed

lemma emits_attr: "emits (attr_bytes a) (m_attr a)"
  unfolding attr_bytes_def m_attr_def [abs_def]
  by (rule emits_comp [OF emits_uint emits_comp [OF emits_uint emits_comp [OF emits_uint
        emits_comp [OF emits_uint emits_comp [OF emits_uint emits_comp [OF emits_uint emits_uint]]]]]])

lemma reads_attr: "reads (attr_bytes a) u_attr a"
proof -
  have "reads (attr_bytes a) (\<lambda>u.
     let (a1, u1) = u_uint u in let (a2, u2) = u_uint u1 in let (a3, u3) = u_uint u2 in
     let (a4, u4) = u_uint u3 in let (a5, u5) = u_uint u4 in let (a6, u6) = u_uint u5 in
     let (a7, u7) = u_uint u6 in (\<lparr>attr_atime = a1, attr_mtime = a2, attr_ctime = a3,
       attr_size = a4, attr_mode = a5, attr_uid = a6, attr_gid = a7\<rparr>, u7))
     \<lparr>attr_atime = attr_atime a, attr_mtime = attr_mtime a, attr_ctime = attr_ctime a,
       attr_size = attr_size a, attr_mode = attr_mode a, attr_uid = attr_uid a, attr_gid = attr_gid a\<rparr>"
    unfolding attr_bytes_def by (intro reads_comp [OF reads_uint] reads_map [OF reads_uint])
  moreover have "\<lparr>attr_atime = attr_atime a, attr_mtime = attr_mtime a, attr_ctime = attr_ctime a,
       attr_size = attr_size a, attr_mode = attr_mode a, attr_uid = attr_uid a, attr_gid = attr_gid a\<rparr> = a"
    by simp
  ultimately show ?thesis by (simp only: u_attr_def [abs_def])
qed

interpretation attr_codec: codec m_attr u_attr attr_bytes "\<lambda>_. True"
  by unfold_locales (simp_all add: emits_attr reads_attr)

section \<open>Headers and whole messages\<close>

text \<open>
  \<open>carries m b\<close>: \<open>b\<close> is the message the block of \<open>m\<close> is sent as; bytes never written are sent as
  whatever the memory holds.
\<close>

definition carries :: "marshall \<Rightarrow> byte list \<Rightarrow> bool" where
  "carries m b \<longleftrightarrow> length b = mind m \<and>
     (\<forall>i < mind m. i < length (mbuf m) \<longrightarrow> (\<forall>x. mbuf m ! i = Some x \<longrightarrow> b ! i = x))"

lemma carries_written:
  assumes "m_wf m" and "carries m b" and "written m = pre @ map Some bs @ post"
  shows "take (length bs) (drop (length pre) b) = bs"
proof (rule nth_equalityI)
  have len: "mind m = length pre + length bs + length post"
    using assms(1,3) by (metis add.assoc length_append length_map length_take m_wf_def min.absorb2 written_def)
  then show "length (take (length bs) (drop (length pre) b)) = length bs"
    using assms(2) by (simp add: carries_def)
  fix i
  assume "i < length (take (length bs) (drop (length pre) b))"
  then have i: "i < length bs" by simp
  have "mbuf m ! (length pre + i) = written m ! (length pre + i)"
    using i len by (simp add: written_def)
  also have "\<dots> = Some (bs ! i)" using i by (simp add: assms(3) nth_append)
  finally have "b ! (length pre + i) = bs ! i"
    using assms(1,2) i len by (simp add: carries_def m_wf_def)
  then show "take (length bs) (drop (length pre) b) ! i = bs ! i"
    using i len assms(2) by (simp add: carries_def)
qed

lemma marshall_init_wf: "m_wf marshall_init" "length (written marshall_init) = rpc_header_sz"
  by (simp_all add: m_wf_def marshall_init_def written_def rpc_header_sz_def default_rpc_sz_def)

text \<open>The unmarshaller a received message is put into.\<close>

definition received :: "byte list \<Rightarrow> unmarshall" where
  "received b = fst (u_take_in (unmarshall_of b) unmarshall_init)"

lemma received_simps:
  "ubuf (received b) = b" "usz (received b) = length b" "uind (received b) = rpc_header_sz"
  "uok (received b) = (rpc_header_sz \<le> length b)" "uoob (received b) = False"
  by (simp_all add: received_def u_take_in_def u_take_buf_def unmarshall_of_def unmarshall_init_def)

definition req_header_bytes :: "req_header \<Rightarrow> byte list" where
  "req_header_bytes h = uint_bytes (word_of_int (rq_xid h)) @ uint_bytes (word_of_int (rq_proc h)) @
     uint_bytes (rq_clt_nonce h) @ uint_bytes (rq_srv_nonce h) @ uint_bytes (word_of_int (rq_xid_rep h))"

definition reply_header_bytes :: "reply_header \<Rightarrow> byte list" where
  "reply_header_bytes h = uint_bytes (word_of_int (rp_xid h)) @ uint_bytes (word_of_int (rp_ret h))"

definition req_header_fits :: "req_header \<Rightarrow> bool" where
  "req_header_fits h \<longleftrightarrow> (\<forall>x \<in> {rq_xid h, rq_proc h, rq_xid_rep h}. - (2 ^ 31) \<le> x \<and> x < 2 ^ 31)"

definition reply_header_fits :: "reply_header \<Rightarrow> bool" where
  "reply_header_fits h \<longleftrightarrow> (\<forall>x \<in> {rp_xid h, rp_ret h}. - (2 ^ 31) \<le> x \<and> x < 2 ^ 31)"

text \<open>Packing a header changes the header's bytes only.\<close>

lemma packed_header:
  assumes "emits hb f" and m: "m_wf m" and "4 + length hb \<le> rpc_header_sz" and ind: "rpc_header_sz \<le> mind m"
  shows "m_wf ((f (m\<lparr>mind := 4\<rparr>))\<lparr>mind := mind m\<rparr>)"
    "mbuf ((f (m\<lparr>mind := 4\<rparr>))\<lparr>mind := mind m\<rparr>)
       = take 4 (mbuf m) @ map Some hb @ drop (4 + length hb) (mbuf m)"
    "in_range m \<Longrightarrow> in_range ((f (m\<lparr>mind := 4\<rparr>))\<lparr>mind := mind m\<rparr>)"
proof -
  let ?m4 = "m\<lparr>mind := 4\<rparr>"
  have cap: "rpc_header_sz \<le> mcapa m" using m ind by (simp add: m_wf_def)
  have w: "m_wf ?m4" using m cap by (simp add: m_wf_def rpc_header_sz_def)
  note e = emitsD [OF assms(1) w]
  have buf: "mbuf (f ?m4) = take 4 (mbuf m) @ map Some hb @ drop (4 + length hb) (mbuf m)"
  proof -
    have "mbuf (f ?m4) = written (f ?m4) @ drop (mind (f ?m4)) (mbuf (f ?m4))"
      by (simp add: written_def)
    also have "\<dots> = (written ?m4 @ map Some hb) @ drop (4 + length hb) (mbuf (f ?m4))"
      using e(2,3) by simp
    also have "drop (4 + length hb) (mbuf (f ?m4)) = drop (4 + length hb) (mbuf m)"
      using e(4) cap assms(3) by simp
    finally show ?thesis by (simp add: written_def)
  qed
  then show "mbuf ((f ?m4)\<lparr>mind := mind m\<rparr>)
       = take 4 (mbuf m) @ map Some hb @ drop (4 + length hb) (mbuf m)" by simp
  have "length (mbuf (f ?m4)) = length (mbuf m)"
    using m cap assms(3) unfolding buf by (simp add: m_wf_def)
  then show "m_wf ((f ?m4)\<lparr>mind := mind m\<rparr>)"
    using e(1) m by (simp add: m_wf_def)
  show "in_range ((f ?m4)\<lparr>mind := mind m\<rparr>)" if "in_range m"
    using e(5) that assms(3) by (simp add: in_range_def rpc_header_sz_def)
qed

lemma emits_req_header:
  "emits (req_header_bytes h) (\<lambda>m. m_pack (rq_xid_rep h) (m_pack (sint (rq_srv_nonce h))
     (m_pack (sint (rq_clt_nonce h)) (m_pack (rq_proc h) (m_pack (rq_xid h) m)))))"
  unfolding req_header_bytes_def m_pack_uint of_int_sint scast_id id_apply
  by (rule emits_comp [OF emits_uint emits_comp [OF emits_uint emits_comp [OF emits_uint
        emits_comp [OF emits_uint emits_uint]]]])

lemma emits_reply_header:
  "emits (reply_header_bytes h) (\<lambda>m. m_pack (rp_ret h) (m_pack (rp_xid h) m))"
  unfolding reply_header_bytes_def m_pack_uint by (rule emits_comp [OF emits_uint emits_uint])

lemma header_bytes_length [simp]:
  "length (req_header_bytes h) = 20" "length (reply_header_bytes r) = 8"
  by (simp_all add: req_header_bytes_def reply_header_bytes_def)

lemma pack_req_header_spec:
  assumes "m_wf m" and "rpc_header_sz \<le> mind m"
  shows "m_wf (pack_req_header h m)" "mind (pack_req_header h m) = mind m"
    "mbuf (pack_req_header h m) = take 4 (mbuf m) @ map Some (req_header_bytes h) @ drop 24 (mbuf m)"
    "in_range m \<Longrightarrow> in_range (pack_req_header h m)"
  using packed_header [OF emits_req_header [of h] assms(1) _ assms(2)]
  by (simp_all add: pack_req_header_def Let_def rpc_header_sz_def)

lemma pack_reply_header_spec:
  assumes "m_wf m" and "rpc_header_sz \<le> mind m"
  shows "m_wf (pack_reply_header h m)" "mind (pack_reply_header h m) = mind m"
    "mbuf (pack_reply_header h m) = take 4 (mbuf m) @ map Some (reply_header_bytes h) @ drop 12 (mbuf m)"
    "in_range m \<Longrightarrow> in_range (pack_reply_header h m)"
  using packed_header [OF emits_reply_header [of h] assms(1) _ assms(2)]
  by (simp_all add: pack_reply_header_def Let_def rpc_header_sz_def)

text \<open>Headers read back.\<close>

definition read_req_header :: "unmarshall \<Rightarrow> req_header \<times> unmarshall" where
  "read_req_header u =
     (let (x1, u1) = u_unpack u in let (x2, u2) = u_unpack u1 in let (x3, u3) = u_unpack u2 in
      let (x4, u4) = u_unpack u3 in let (x5, u5) = u_unpack u4 in
      (\<lparr>rq_xid = x1, rq_proc = x2, rq_clt_nonce = word_of_int x3, rq_srv_nonce = word_of_int x4,
        rq_xid_rep = x5\<rparr>, u5))"

lemma sint_int_fits: "- (2 ^ 31) \<le> x \<and> x < 2 ^ 31 \<Longrightarrow> sint (word_of_int x :: uint) = x"
  using sint_of_int [where 'a = 32, of x] by simp

lemma reads_req_header:
  assumes "req_header_fits h"
  shows "reads (req_header_bytes h) read_req_header h"
proof -
  let ?h = "\<lparr>rq_xid = sint (word_of_int (rq_xid h) :: uint), rq_proc = sint (word_of_int (rq_proc h) :: uint),
     rq_clt_nonce = word_of_int (sint (rq_clt_nonce h)), rq_srv_nonce = word_of_int (sint (rq_srv_nonce h)),
     rq_xid_rep = sint (word_of_int (rq_xid_rep h) :: uint)\<rparr>"
  have "reads (req_header_bytes h) read_req_header ?h"
    unfolding req_header_bytes_def read_req_header_def [abs_def]
    by (intro reads_comp [OF reads_unpack] reads_map [OF reads_unpack])
  moreover have "?h = h"
    using assms by (simp add: req_header_fits_def sint_int_fits of_int_sint)
  ultimately show ?thesis by simp
qed

lemma reads_reply_header:
  assumes "reply_header_fits h"
  shows "reads (reply_header_bytes h) (\<lambda>u. let (x1, u1) = u_unpack u in let (x2, u2) = u_unpack u1 in
     (\<lparr>rp_xid = x1, rp_ret = x2\<rparr>, u2)) h"
proof -
  let ?h = "\<lparr>rp_xid = sint (word_of_int (rp_xid h) :: uint), rp_ret = sint (word_of_int (rp_ret h) :: uint)\<rparr>"
  have "reads (reply_header_bytes h) (\<lambda>u. let (x1, u1) = u_unpack u in let (x2, u2) = u_unpack u1 in
     (\<lparr>rp_xid = x1, rp_ret = x2\<rparr>, u2)) ?h"
    unfolding reply_header_bytes_def by (intro reads_comp [OF reads_unpack] reads_map [OF reads_unpack])
  moreover have "?h = h"
    using assms by (simp add: reply_header_fits_def sint_int_fits)
  ultimately show ?thesis by simp
qed

lemma unmarshall_of_at:
  "24 \<le> length b \<Longrightarrow> (unmarshall_of b)\<lparr>uind := rpc_header_sz\<rparr> = received b"
  by (simp add: unmarshall_of_def received_def u_take_in_def u_take_buf_def unmarshall_init_def
      rpc_header_sz_def)

lemma reads_at_header:
  assumes "reads hb g h" and "take (length hb) (drop 4 b) = hb" and "4 + length hb \<le> length b"
    and "length b < 2 ^ 31"
  shows "g ((unmarshall_of b)\<lparr>uind := 4\<rparr>) = (h, (unmarshall_of b)\<lparr>uind := 4 + length hb\<rparr>)"
proof -
  have "u_wf ((unmarshall_of b)\<lparr>uind := 4\<rparr>)"
    using assms(3,4) by (simp add: u_wf_def unmarshall_of_def)
  moreover have "prefix hb (drop 4 b)" using assms(2) by (metis take_is_prefix)
  ultimately show ?thesis using assms(1) by (simp add: reads_def unmarshall_of_def)
qed

lemma unpack_req_header_eq:
  "unpack_req_header u = (let (h, u1) = read_req_header (u\<lparr>uind := 4\<rparr>) in (h, u1\<lparr>uind := rpc_header_sz\<rparr>))"
  by (simp add: unpack_req_header_def read_req_header_def case_prod_beta Let_def)

lemma unpack_reply_header_eq:
  "unpack_reply_header u = (let (h, u1) = (\<lambda>u. let (x1, u1) = u_unpack u in let (x2, u2) = u_unpack u1 in
     (\<lparr>rp_xid = x1, rp_ret = x2\<rparr>, u2)) (u\<lparr>uind := 4\<rparr>) in (h, u1\<lparr>uind := rpc_header_sz\<rparr>))"
  by (simp add: unpack_reply_header_def case_prod_beta Let_def)

context codec
begin

lemma marshalled:
  assumes "fits x"
  shows "m_wf (put x marshall_init)" "mind (put x marshall_init) = rpc_header_sz + length (enc x)"
    "take (mind (put x marshall_init)) (mbuf (put x marshall_init))
       = written marshall_init @ map Some (enc x)"
    "rpc_header_sz + length (enc x) < 2 ^ 30 \<Longrightarrow> in_range (put x marshall_init)"
  using emitsD [OF put_emits [OF assms] marshall_init_wf(1)]
  by (simp_all add: written_def marshall_init_def in_range_def default_rpc_sz_def)

lemma body_read:
  assumes "fits x" and "take (length (enc x)) (drop rpc_header_sz b) = enc x"
    and "length b = rpc_header_sz + length (enc x)" and "length b < 2 ^ 31"
  shows "get (received b) = (x, (received b)\<lparr>uind := length b\<rparr>)" "okdone ((received b)\<lparr>uind := length b\<rparr>)"
proof -
  have "u_wf (received b)" using assms(3,4) by (simp add: u_wf_def received_simps)
  moreover have "prefix (enc x) (drop (uind (received b)) (ubuf (received b)))"
    using assms(2) by (metis received_simps(1,3) take_is_prefix)
  ultimately show "get (received b) = (x, (received b)\<lparr>uind := length b\<rparr>)"
    using get_reads [OF assms(1)] assms(3) by (simp add: reads_def received_simps)
  show "okdone ((received b)\<lparr>uind := length b\<rparr>)"
    using assms(3) by (simp add: okdone_def received_simps)
qed

text \<open>
  A whole message, with a request or a reply header, is read back at the other end: the header, the
  operand, and nothing left over.
\<close>

lemma header_then_body:
  assumes x: "fits x" and hb: "length hb \<le> 20"
    and m: "m_wf m" "mind m = mind (put x marshall_init)"
      "mbuf m = take 4 (mbuf (put x marshall_init)) @ map Some hb
         @ drop (4 + length hb) (mbuf (put x marshall_init))"
    and b: "carries m b"
  shows "take (length hb) (drop 4 b) = hb" "take (length (enc x)) (drop rpc_header_sz b) = enc x"
    "length b = rpc_header_sz + length (enc x)"
proof -
  let ?p = "put x marshall_init"
  note p = marshalled [OF x]
  have hs: "rpc_header_sz = 24" by (simp add: rpc_header_sz_def)
  have cap: "24 + length (enc x) \<le> length (mbuf ?p)" using p(1,2) by (simp add: m_wf_def hs)
  show "length b = rpc_header_sz + length (enc x)" using b m(2) p(2) by (simp add: carries_def)
  have "written m = take 4 (mbuf ?p) @ map Some hb
      @ drop (4 + length hb) (take (24 + length (enc x)) (mbuf ?p))"
    using cap hb by (simp add: written_def m(2,3) p(2) hs drop_take min_def)
  from carries_written [OF m(1) b this] cap
  show "take (length hb) (drop 4 b) = hb" by simp
  have "take (24 + length (enc x)) (mbuf ?p) = written marshall_init @ map Some (enc x)"
    using p(2,3) by (simp add: hs)
  then have tail: "drop 24 (take (24 + length (enc x)) (mbuf ?p)) = map Some (enc x)"
    using marshall_init_wf(2) by (simp add: hs)
  have "drop 24 (mbuf m) = drop 24 (mbuf ?p)"
    using cap hb by (simp add: m(3))
  then have "drop 24 (written m) = map Some (enc x)"
    using tail by (simp add: written_def m(2) p(2) hs drop_take)
  then have "written m = take 24 (written m) @ map Some (enc x) @ []"
    by (metis append_Nil2 append_take_drop_id)
  moreover have "length (take 24 (written m)) = 24"
    using m(1,2) p(2) by (simp add: written_def m_wf_def hs)
  ultimately show "take (length (enc x)) (drop rpc_header_sz b) = enc x"
    using carries_written [OF m(1) b, of "take 24 (written m)" "enc x" "[]"] by (simp add: hs)
qed

end

text \<open>The message as it leaves, when the indeterminate bytes happen to be zero.\<close>

definition sent :: "marshall \<Rightarrow> byte list" where
  "sent m = map (\<lambda>x. case x of None \<Rightarrow> 0 | Some y \<Rightarrow> y) (written m)"

lemma carries_sent: "m_wf m \<Longrightarrow> carries m (sent m)"
  by (simp add: carries_def sent_def written_def m_wf_def)

context codec
begin

lemma request_roundtrip:
  assumes "fits x" and "req_header_fits h" and "carries (pack_req_header h (put x marshall_init)) b"
    and "length b < 2 ^ 31"
  shows "unpack_req_header (unmarshall_of b) = (h, received b) \<and>
    get (received b) = (x, (received b)\<lparr>uind := length b\<rparr>) \<and> okdone ((received b)\<lparr>uind := length b\<rparr>)"
proof -
  note p = marshalled [OF assms(1)]
  have ge: "rpc_header_sz \<le> mind (put x marshall_init)" using p(2) by simp
  note h = pack_req_header_spec [OF p(1) ge, of h]
  note b = header_then_body [OF assms(1) _ h(1,2) _ assms(3), of "req_header_bytes h"]
  have b': "take 20 (drop 4 b) = req_header_bytes h" "24 \<le> length b"
    "take (length (enc x)) (drop rpc_header_sz b) = enc x" "length b = rpc_header_sz + length (enc x)"
    using b h(3) by (simp_all add: rpc_header_sz_def)
  have "read_req_header ((unmarshall_of b)\<lparr>uind := 4\<rparr>) = (h, (unmarshall_of b)\<lparr>uind := 24\<rparr>)"
    using reads_at_header [OF reads_req_header [OF assms(2)], of b] b'(1,2) assms(4) by simp
  then have "unpack_req_header (unmarshall_of b) = (h, received b)"
    using unmarshall_of_at [OF b'(2)] by (simp add: unpack_req_header_eq)
  then show ?thesis
    using body_read [OF assms(1) b'(3,4) assms(4)] by simp
qed

lemma reply_roundtrip:
  assumes "fits x" and "reply_header_fits h" and "carries (pack_reply_header h (put x marshall_init)) b"
    and "length b < 2 ^ 31"
  shows "unpack_reply_header (unmarshall_of b) = (h, received b) \<and>
    get (received b) = (x, (received b)\<lparr>uind := length b\<rparr>) \<and> okdone ((received b)\<lparr>uind := length b\<rparr>)"
proof -
  note p = marshalled [OF assms(1)]
  have ge: "rpc_header_sz \<le> mind (put x marshall_init)" using p(2) by simp
  note h = pack_reply_header_spec [OF p(1) ge, of h]
  note b = header_then_body [OF assms(1) _ h(1,2) _ assms(3), of "reply_header_bytes h"]
  have b': "take 8 (drop 4 b) = reply_header_bytes h" "24 \<le> length b"
    "take (length (enc x)) (drop rpc_header_sz b) = enc x" "length b = rpc_header_sz + length (enc x)"
    using b h(3) by (simp_all add: rpc_header_sz_def)
  have "unpack_reply_header (unmarshall_of b) = (h, received b)"
    using reads_at_header [OF reads_reply_header [OF assms(2)], of b] b'(1,2) assms(4)
      unmarshall_of_at [OF b'(2)] by (simp add: unpack_reply_header_eq)
  then show ?thesis
    using body_read [OF assms(1) b'(3,4) assms(4)] by simp
qed

end

section \<open>Round trip and overrun\<close>

text \<open>
  C22: a message survives the wire.  For every operand type whose operators meet the contract, a
  request message of less than 2 to the 30 bytes built from a header and an operand, whatever
  bytes were indeterminate when it was sent, is read back by the receiver as the same header and
  the same operand, with no byte left over; marshalling it never wrote outside its buffer, and
  neither the head position nor the doubled capacity left the range of \<open>int\<close>.
\<close>

theorem request_message_roundtrip:
  assumes "codec put get enc fits" and "fits x" and "req_header_fits h"
    and "carries (pack_req_header h (put x marshall_init)) b" and "length b < 2 ^ 30"
  shows "unpack_req_header (unmarshall_of b) = (h, received b) \<and>
    fst (get (received b)) = x \<and> okdone (snd (get (received b))) \<and>
    \<not> moob (pack_req_header h (put x marshall_init)) \<and>
    \<not> mover (pack_req_header h (put x marshall_init))"
proof -
  note m = codec.marshalled [OF assms(1,2)]
  note h = pack_req_header_spec [OF m(1), of h]
  have "length b = rpc_header_sz + length (enc x)"
    using assms(4) h(2) m(2) by (simp add: carries_def)
  then have "in_range (put x marshall_init)" using m(4) assms(5) by simp
  then have "\<not> moob (pack_req_header h (put x marshall_init))"
    "\<not> mover (pack_req_header h (put x marshall_init))"
    using h(1,4) m(2) by (simp_all add: m_wf_def in_range_def)
  then show ?thesis
    using codec.request_roundtrip [OF assms(1-4)] assms(5) by simp
qed

definition demo_req :: req_header where
  "demo_req = \<lparr>rq_xid = 5, rq_proc = 0x6002, rq_clt_nonce = 77, rq_srv_nonce = 0, rq_xid_rep = - 1\<rparr>"

theorem request_message_roundtrip_witness:
  "\<exists>b. fst (unpack_req_header (unmarshall_of b)) = demo_req \<and>
     fst (u_string [] (received b)) = ''key'' \<and> okdone (snd (u_string [] (received b)))"
proof -
  let ?m = "m_string ''key'' marshall_init"
  have f: "string_fits ''key''" "req_header_fits demo_req"
    by (simp_all add: string_fits_def req_header_fits_def demo_req_def)
  note p = string_codec.marshalled [OF f(1)]
  have w: "m_wf (pack_req_header demo_req ?m)" "mind (pack_req_header demo_req ?m) = 31"
    using pack_req_header_spec(1,2) [OF p(1), of demo_req] p(2)
    by (simp_all add: string_bytes_def rpc_header_sz_def)
  have "length (sent (pack_req_header demo_req ?m)) < 2 ^ 30"
    using carries_sent [OF w(1)] w(2) by (simp add: carries_def)
  note th = request_message_roundtrip [of m_string "u_string []" string_bytes string_fits, OF
      string_codec.codec_axioms f carries_sent [OF w(1)] this]
  show ?thesis
    by (rule exI [of _ "sent (pack_req_header demo_req ?m)"]) (use th in simp)
qed

lemma unat_of_nat_small: "n < 2 ^ 31 \<Longrightarrow> unat (of_nat n :: uint) = n"
  by (simp add: unat_of_nat take_bit_nat_eq_self)

text \<open>
  C23: the length check of strings wraps around.  A length field so large that adding it to the
  head position overflows 32 bits passes the check, and the copy reads far outside the message.
\<close>

theorem string_length_overrun:
  assumes "u_wf u" and "prefix (uint_bytes n) (drop (uind u) (ubuf u))"
    and "2 ^ 32 \<le> uind u + 4 + unat n"
  shows "uoob (snd (u_string t u))"
proof -
  let ?u1 = "u\<lparr>uind := uind u + 4\<rparr>"
  have u1: "u_uint u = (n, ?u1)" using reads_uint assms(1,2) by (simp add: reads_def)
  have wf: "u_wf ?u1" using u_wf_advance [OF assms(1,2)] by simp
  have n: "unat n < 2 ^ 32" using unsigned_less [of n] by simp
  have "uind ?u1 < 2 ^ 31" "usz u < 2 ^ 31" using wf by (auto simp: u_wf_def)
  note i = this [THEN unat_of_nat_small]
  have "unat (of_nat (uind ?u1) + n :: uint) = (uind ?u1 + unat n) mod 2 ^ 32"
    unfolding unat_word_ariths(1) i by simp
  also have "\<dots> = uind ?u1 + unat n - 2 ^ 32"
    using assms(3) n wf by (auto simp: u_wf_def le_mod_geq intro: mod_less)
  also have "\<dots> \<le> usz u" using n wf by (auto simp: u_wf_def)
  finally have ok: "\<not> (of_nat (usz ?u1) :: uint) < of_nat (uind ?u1) + n"
    by (simp add: word_less_nat_alt i(2))
  have "length (ubuf ?u1) < uind ?u1 + unat n" using assms(1,3) by (simp add: u_wf_def)
  then show ?thesis
    using ok assms(1) by (simp add: u_string_def u1 u_rawbytes_def u_wf_def)
qed

theorem string_length_overrun_witness:
  "uoob (snd (u_string [] (received (replicate 24 0 @ uint_bytes 0xffffffff))))"
  by (rule string_length_overrun [of _ "0xffffffff"])
    (simp_all add: u_wf_def received_simps rpc_header_sz_def)

section \<open>Maps\<close>

lemma map_assign_last: "\<forall>x \<in> fst ` set d. x < a \<Longrightarrow> map_assign a b d = d @ [(a, b)]"
  by (induction a b d rule: map_assign.induct) auto

lemma map_assign_lookup:
  "sorted_wrt (<) (map fst d) \<Longrightarrow> map_of (map_assign a b d) = (map_of d)(a \<mapsto> b)"
  by (induction a b d rule: map_assign.induct) (auto simp: fun_eq_iff)

lemma map_assign_keys: "fst ` set (map_assign a b d) = insert a (fst ` set d)"
  by (induction a b d rule: map_assign.induct) auto

lemma map_assign_sorted:
  "sorted_wrt (<) (map fst d) \<Longrightarrow> sorted_wrt (<) (map fst (map_assign a b d))"
proof (induction a b d rule: map_assign.induct)
  case (2 a b x y d)
  have "set (map fst (map_assign a b d)) = insert a (set (map fst d))"
    using map_assign_keys [of a b d] by simp
  with 2 show ?case by (auto simp: not_less_iff_gr_or_eq simp del: set_map intro: less_trans)
qed simp

locale map_codec = codec2 putA getA encA fitsA putB getB encB fitsB
  for putA :: "'a :: linorder \<Rightarrow> marshall \<Rightarrow> marshall" and getA encA fitsA
    and putB :: "'b \<Rightarrow> marshall \<Rightarrow> marshall" and getB encB fitsB
begin

abbreviation entry_fits :: "'a \<times> 'b \<Rightarrow> bool" where
  "entry_fits \<equiv> \<lambda>(x, y). fitsA x \<and> fitsB y"

abbreviation entry_enc :: "'a \<times> 'b \<Rightarrow> byte list" where
  "entry_enc \<equiv> \<lambda>(x, y). encA x @ encB y"

lemma map_emits:
  assumes "\<forall>e \<in> set d. entry_fits e"
  shows "emits (uint_bytes (of_nat (length d)) @ concat (map entry_enc d)) (m_map putA putB d)"
  using emits_comp [OF emits_uint pr.fold_emits [OF assms]] by (simp add: m_map_def [abs_def])

lemma map_elems_reads:
  "\<forall>e \<in> set d. entry_fits e \<Longrightarrow> sorted_wrt (<) (map fst (v @ d)) \<Longrightarrow>
   reads (concat (map entry_enc d)) (u_map_elems getA getB (length d) v) (v @ d)"
proof (induction d arbitrary: v)
  case (Cons e d)
  obtain a b where e: "e = (a, b)" by (cases e)
  have "map_assign a b v = v @ [e]"
    using Cons.prems(2) by (auto simp: e sorted_wrt_append intro!: map_assign_last)
  then have "reads (concat (map entry_enc d)) (u_map_elems getA getB (length d) (map_assign a b v)) (v @ e # d)"
    using Cons.IH [of "v @ [e]"] Cons.prems by simp
  moreover have "fitsA a" "fitsB b" using Cons.prems(1) by (simp_all add: e)
  ultimately show ?case
    using reads_comp [OF A.get_reads reads_comp [OF B.get_reads], of a b
        "concat (map entry_enc d)" "\<lambda>a b. u_map_elems getA getB (length d) (map_assign a b v)"]
    by (simp add: e u_map_elems.simps(2) [abs_def])
qed (simp add: reads_done u_map_elems.simps(1) [abs_def])

lemma map_reads:
  assumes "\<forall>e \<in> set d. entry_fits e" and "sorted_wrt (<) (map fst d)" and "length d < 2 ^ 32"
  shows "reads (uint_bytes (of_nat (length d)) @ concat (map entry_enc d)) (u_map getA getB d0) d"
proof -
  have "unat (of_nat (length d) :: uint) = length d"
    using assms(3) by (simp add: unat_of_nat take_bit_nat_eq_self)
  then show ?thesis
    using reads_comp [OF reads_uint, of "concat (map entry_enc d)" "\<lambda>n. u_map_elems getA getB (unat n) []"
        "of_nat (length d)" d] map_elems_reads [OF assms(1), of "[]"] assms(2)
    by (simp add: u_map_def [abs_def])
qed

end

text \<open>For example, maps from numbers to strings are sent and received faithfully.\<close>

interpretation um: map_codec m_uint u_uint uint_bytes "\<lambda>_. True" m_string "u_string t" string_bytes
    string_fits for t
  by unfold_locales

lemma uint_string_map_roundtrip:
  assumes "\<forall>e \<in> set d. string_fits (snd e)" and "sorted_wrt (<) (map fst d)" and "length d < 2 ^ 32"
  shows "emits (uint_bytes (of_nat (length d)) @ concat (map (\<lambda>(x, y). uint_bytes x @ string_bytes y) d))
      (m_map m_uint m_string d) \<and>
    reads (uint_bytes (of_nat (length d)) @ concat (map (\<lambda>(x, y). uint_bytes x @ string_bytes y) d))
      (u_map u_uint (u_string t) d0) d"
  using um.map_emits [of d] um.map_reads [of d t d0] assms by (auto simp: case_prod_beta)

end
