(* ===== verification/Rpc_Client.thy ===== *)
theory Rpc_Client
  imports Marshall Rpc_Const "HOL-Library.Signed_Division"
begin

text \<open>
  The RPC client \<open>rpcc\<close> (\<open>rpc/rpc.h\<close>, \<open>rpc/rpc.cc\<close>): the calls in progress, the window of
  acknowledged replies, the sections of \<open>call1\<close> that hold the client's mutex, the retry loop
  between them, the arrival of replies and the cancellation of all calls; and the time arithmetic
  the retry loop uses.  A \<open>caller\<close> lives on the stack of its thread and is reached through \<open>calls_\<close>;
  here \<open>calls\<close> holds it.
\<close>

section \<open>Time arithmetic\<close>

record timespec =
  tv_sec :: int
  tv_nsec :: int

definition cmp_timespec :: "timespec \<Rightarrow> timespec \<Rightarrow> int" where
  "cmp_timespec a b =
     (if tv_sec a > tv_sec b then 1
      else if tv_sec a < tv_sec b then - 1
      else if tv_nsec a > tv_nsec b then 1
      else if tv_nsec a < tv_nsec b then - 1
      else 0)"

text \<open>The loop of \<open>add_timespec\<close>.\<close>

function carry_nsec :: "timespec \<Rightarrow> timespec" where
  "carry_nsec r =
     (if tv_nsec r > 1000000000
      then carry_nsec (r\<lparr>tv_sec := tv_sec r + 1, tv_nsec := tv_nsec r - 1000000000\<rparr>) else r)"
  by pat_completeness auto
termination by (relation "measure (\<lambda>r. nat (tv_nsec r))") auto

declare carry_nsec.simps [simp del]

text \<open>\<open>b / 1000\<close> and \<open>b % 1000\<close> truncate towards zero; a negative \<open>tv_nsec\<close> fails the \<open>VERIFY\<close>.\<close>

definition add_timespec :: "timespec \<Rightarrow> int \<Rightarrow> timespec outcome" where
  "add_timespec a b =
     (let r = \<lparr>tv_sec = tv_sec a + b sdiv 1000, tv_nsec = tv_nsec a + (b smod 1000) * 1000000\<rparr> in
      if tv_nsec r < 0 then Aborted else Ret (carry_nsec r))"

definition diff_timespec :: "timespec \<Rightarrow> timespec \<Rightarrow> int outcome" where
  "diff_timespec e s =
     (let d = (if tv_sec e > tv_sec s then (tv_sec e - tv_sec s) * 1000 else 0) in
      if d = 0 \<and> tv_sec e \<noteq> tv_sec s then Aborted
      else Ret (if tv_nsec e > tv_nsec s then d + (tv_nsec e - tv_nsec s) sdiv 1000000
                else d - (tv_nsec s - tv_nsec e) sdiv 1000000))"

section \<open>The client's state\<close>

record caller =
  ca_xid :: uint
  ca_un :: unmarshall
  ca_intret :: int
  ca_done :: bool

record request =
  rq_buf :: "byte list"
  rq_id :: int

definition request_clear :: request where
  "request_clear = \<lparr>rq_buf = [], rq_id = - 1\<rparr>"

definition request_isvalid :: "request \<Rightarrow> bool" where
  "request_isvalid r \<longleftrightarrow> rq_id r \<noteq> - 1"

record rpcc =
  clt_nonce :: uint
  srv_nonce :: uint
  bind_done :: bool
  xid :: uint
  lossytest :: int
  retrans :: bool
  reachable :: bool
  destroy_wait :: bool
  calls :: "int \<rightharpoonup> caller"
  xid_rep_window :: "uint list"
  dup_req :: request
  xid_rep_done :: int

text \<open>The constructor; \<open>rnd\<close> is \<open>random()\<close>, \<open>loss\<close> the value of \<open>RPC_LOSSY\<close>.\<close>

definition rpcc_init :: "bool \<Rightarrow> uint \<Rightarrow> int \<Rightarrow> rpcc" where
  "rpcc_init retr rnd loss =
     \<lparr>clt_nonce = (if retr then rnd else 0), srv_nonce = 0, bind_done = False, xid = 1,
      lossytest = loss, retrans = retr, reachable = True, destroy_wait = False, calls = Map.empty,
      xid_rep_window = [0], dup_req = request_clear, xid_rep_done = - 1\<rparr>"

section \<open>The window of replies\<close>

text \<open>
  The search loop of \<open>update_xid_rep\<close>: insert before the first greater element, else at the back.
\<close>

fun window_insert :: "uint \<Rightarrow> uint list \<Rightarrow> uint list" where
  "window_insert x [] = [x]"
| "window_insert x (y # ys) = (if x < y then x # y # ys else y # window_insert x ys)"

text \<open>
  The compress loop: \<open>pre\<close> is the list up to the iterator.  While the front is one below the
  iterator's element the front is popped; the loop stops at the latest when the iterator's element
  is the front, which is not one below itself.
\<close>

fun window_compress :: "uint list \<Rightarrow> uint list \<Rightarrow> uint list" where
  "window_compress pre [] = pre"
| "window_compress pre (x # rest) =
     window_compress (dropWhile (\<lambda>f. f + 1 = x) pre @ [x]) rest"

definition window_update :: "uint \<Rightarrow> uint list \<Rightarrow> uint list" where
  "window_update x w =
     (if x \<le> hd w then w
      else let w1 = window_insert x w in window_compress [hd w1] (tl w1))"

definition update_xid_rep :: "uint \<Rightarrow> rpcc \<Rightarrow> rpcc" where
  "update_xid_rep x c = c\<lparr>xid_rep_window := window_update x (xid_rep_window c)\<rparr>"

section \<open>call1\<close>

text \<open>
  The first section: refuse a call before \<open>bind\<close> (or a second \<open>bind\<close>) and during \<open>cancel\<close>; otherwise
  give it the next number, enter it in \<open>calls\<close> and pack the header.  The result is the failure
  code, or the number, the message, and the acknowledged reply sent along.
\<close>

definition call1_begin ::
  "uint \<Rightarrow> marshall \<Rightarrow> unmarshall \<Rightarrow> rpcc \<Rightarrow> (int + uint \<times> marshall \<times> uint) \<times> rpcc" where
  "call1_begin proc req rep c =
     (if (proc \<noteq> 1 \<and> \<not> bind_done c) \<or> (proc = 1 \<and> bind_done c)
      then (Inl (rpc_failure_code Bind_failure), c)
      else if destroy_wait c then (Inl (rpc_failure_code Cancel_failure), c)
      else let x = xid c; front = hd (xid_rep_window c);
               h = \<lparr>rq_xid = sint x, rq_proc = sint proc, rq_clt_nonce = clt_nonce c,
                    rq_srv_nonce = srv_nonce c, rq_xid_rep = sint front\<rparr>
           in (Inr (x, pack_req_header h req, front),
               c\<lparr>xid := x + 1,
                 calls := (calls c)(sint x \<mapsto> \<lparr>ca_xid = x, ca_un = rep, ca_intret = 0, ca_done = False\<rparr>)\<rparr>))"

text \<open>
  The retransmission of an old request when \<open>RPC_LOSSY\<close> tests duplicates: sent before the request
  itself, once the server must have forgotten it.
\<close>

definition take_forgot :: "rpcc \<Rightarrow> request \<times> rpcc" where
  "take_forgot c =
     (if request_isvalid (dup_req c) \<and> xid_rep_done c > rq_id (dup_req c)
      then (dup_req c, c\<lparr>dup_req := request_clear\<rparr>) else (request_clear, c))"

text \<open>
  The inner loop around \<open>pthread_cond_timedwait\<close>, entered with \<open>ca.done\<close> as it is when the mutex
  of the caller has been taken.  A wait for a valid deadline releases the mutex and returns 0 or
  \<open>ETIMEDOUT\<close>, with \<open>ca.done\<close> as the thread then finds it; a deadline whose nanosecond count is out
  of range makes it return \<open>EINVAL\<close> at once, with the mutex held all the time, and the loop calls it
  again.  The result is \<open>ca.done\<close> behind the loop, \<open>None\<close> while the loop goes on.
\<close>

datatype timedwait = Wait_ok bool | Wait_timeout bool

definition valid_deadline :: "timespec \<Rightarrow> bool" where
  "valid_deadline t \<longleftrightarrow> 0 \<le> tv_nsec t \<and> tv_nsec t < 1000000000"

fun call1_wait :: "timespec \<Rightarrow> bool \<Rightarrow> timedwait list \<Rightarrow> bool option" where
  "call1_wait dl True ws = Some True"
| "call1_wait dl False [] = None"
| "call1_wait dl False (w # ws) =
     (if \<not> valid_deadline dl then call1_wait dl False ws
      else case w of
        Wait_timeout d \<Rightarrow> Some d
      | Wait_ok d \<Rightarrow> call1_wait dl d ws)"

text \<open>
  One round of the retry loop.  What happens outside is an observation: the clock at the head of
  the wait, whether the reply had come before it, the results of the waits, and whether there is
  no live connection behind them.
\<close>

record wait_obs =
  ob_now :: timespec
  ob_done :: bool
  ob_waits :: "timedwait list"
  ob_dead :: bool

record retry_state =
  rt_transmit :: bool
  rt_curr_to :: int
  rt_final :: timespec
  rt_sends :: nat
  rt_waits :: "timespec list"

datatype retry_step = Retry_break bool retry_state | Retry_next retry_state | Retry_waits | Retry_abort

definition call1_round :: "bool \<Rightarrow> wait_obs \<Rightarrow> retry_state \<Rightarrow> retry_step" where
  "call1_round retr ob st =
     (let st1 = (if rt_transmit st then st\<lparr>rt_sends := Suc (rt_sends st), rt_transmit := False\<rparr> else st) in
      if tv_sec (rt_final st1) = 0 then Retry_break False st1
      else case add_timespec (ob_now ob) (rt_curr_to st1) of
        Ret next0 \<Rightarrow>
          (let late = cmp_timespec next0 (rt_final st1) > 0;
               dl = (if late then rt_final st1 else next0);
               st2 = st1\<lparr>rt_final := (if late then (rt_final st1)\<lparr>tv_sec := 0\<rparr> else rt_final st1),
                         rt_waits := rt_waits st1 @ [dl]\<rparr>
           in case call1_wait dl (ob_done ob) (ob_waits ob) of
                None \<Rightarrow> Retry_waits
              | Some True \<Rightarrow> Retry_break True st2
              | Some False \<Rightarrow> Retry_next (st2\<lparr>rt_transmit := (if retr \<and> ob_dead ob then True else False),
                                   rt_curr_to := rt_curr_to st2 * 2\<rparr>))
      | _ \<Rightarrow> Retry_abort)"

text \<open>The loop; \<open>None\<close> when the observations run out before it ends, or the thread is left waiting.\<close>

fun call1_loop :: "bool \<Rightarrow> wait_obs list \<Rightarrow> retry_state \<Rightarrow> (bool \<times> retry_state) outcome option" where
  "call1_loop retr [] st = None"
| "call1_loop retr (ob # obs) st =
     (case call1_round retr ob st of
        Retry_break d st' \<Rightarrow> Some (Ret (d, st'))
      | Retry_next st' \<Rightarrow> call1_loop retr obs st'
      | Retry_waits \<Rightarrow> None
      | Retry_abort \<Rightarrow> Some Aborted)"

definition to_max :: int where
  "to_max = 120000"

definition to_min :: int where
  "to_min = 1000"

definition retry_init :: "timespec \<Rightarrow> retry_state" where
  "retry_init final = \<lparr>rt_transmit = True, rt_curr_to = to_min, rt_final = final, rt_sends = 0,
     rt_waits = []\<rparr>"

text \<open>
  The last sections: the call leaves \<open>calls\<close>, its number counts as replied to even when it timed
  out, a copy of the request is kept for the duplicate test, and the result is the reply's code or
  \<open>timeout_failure\<close>.  The flag says whether a waiting \<open>cancel\<close> is signalled.
\<close>

definition call1_end ::
  "uint \<Rightarrow> byte list \<Rightarrow> uint \<Rightarrow> rpcc \<Rightarrow> (int \<times> unmarshall \<times> bool) option \<times> rpcc" where
  "call1_end x buf xid_rep c =
     (case calls c (sint x) of
        None \<Rightarrow> (None, c)
      | Some ca \<Rightarrow>
          let c1 = update_xid_rep x (c\<lparr>calls := (calls c)(sint x := None)\<rparr>);
              c2 = (if ca_done ca \<and> lossytest c1 \<noteq> 0
                    then let c' = (if \<not> request_isvalid (dup_req c1)
                                   then c1\<lparr>dup_req := \<lparr>rq_buf = buf, rq_id = sint x\<rparr>\<rparr> else c1)
                         in if sint xid_rep > xid_rep_done c' then c'\<lparr>xid_rep_done := sint xid_rep\<rparr> else c'
                    else c1)
          in (Some (if ca_done ca then ca_intret ca else rpc_failure_code Timeout_failure, ca_un ca,
                    destroy_wait c), c2))"

section \<open>Replies, bind and cancel\<close>

definition rpcc_got_pdu :: "byte list \<Rightarrow> rpcc \<Rightarrow> rpcc" where
  "rpcc_got_pdu b c =
     (let (h, rep) = unpack_reply_header (unmarshall_of b) in
      if \<not> uok rep then c
      else let c1 = update_xid_rep (word_of_int (rp_xid h)) c in
        case calls c1 (rp_xid h) of
          None \<Rightarrow> c1
        | Some ca \<Rightarrow>
            if ca_done ca then c1
            else c1\<lparr>calls := (calls c1)(rp_xid h \<mapsto>
                   ca\<lparr>ca_un := fst (u_take_in rep (ca_un ca)), ca_intret := rp_ret h, ca_done := True\<rparr>)\<rparr>)"

text \<open>\<open>bind\<close> behind its call, which returned \<open>ret\<close> and the server's nonce \<open>r\<close>.\<close>

definition rpcc_bind :: "int \<Rightarrow> int \<Rightarrow> rpcc \<Rightarrow> rpcc" where
  "rpcc_bind ret r c = (if ret = 0 then c\<lparr>bind_done := True, srv_nonce := word_of_int r\<rparr> else c)"

text \<open>
  \<open>cancel\<close> up to its wait: every caller is failed, and new calls are refused while calls are left.
\<close>

definition rpcc_cancel :: "rpcc \<Rightarrow> rpcc" where
  "rpcc_cancel c =
     (let c1 = c\<lparr>calls := (\<lambda>x. map_option (\<lambda>ca. ca\<lparr>ca_done := True,
                  ca_intret := rpc_failure_code Cancel_failure\<rparr>) (calls c x))\<rparr>
      in if calls c1 = Map.empty then c1 else c1\<lparr>destroy_wait := True\<rparr>)"

section \<open>The window denotes a set of numbers\<close>

text \<open>
  The replies a window stands for: everything up to its front, and its elements.  A well-formed
  window is sorted and its front cannot be advanced.
\<close>

definition covered :: "uint list \<Rightarrow> uint set" where
  "covered w = {x. x \<le> hd w} \<union> set w"

definition window_ok :: "uint list \<Rightarrow> bool" where
  "window_ok w \<longleftrightarrow> w \<noteq> [] \<and> sorted w \<and> hd w + 1 \<notin> set w"

lemma window_insert_set [simp]: "set (window_insert x w) = insert x (set w)"
  by (induction w) auto

lemma window_insert_sorted: "sorted w \<Longrightarrow> sorted (window_insert x w)"
  by (induction w) auto

lemma window_insert_hd: "w \<noteq> [] \<Longrightarrow> hd w \<le> x \<Longrightarrow> hd (window_insert x w) = hd w \<and> window_insert x w \<noteq> []"
  by (cases w) auto

lemma word_next:
  fixes h p :: uint
  assumes "h \<le> p" and "p \<le> h + 1" and "p \<noteq> h + 1"
  shows "p = h"
  using assms by uint_arith

lemma below_next: "(h :: uint) \<le> h + 1 \<Longrightarrow> {y. y \<le> h + 1} = insert (h + 1) {y. y \<le> h}"
  by (auto; uint_arith)

lemma compress_step:
  fixes pre :: "uint list"
  assumes "pre \<noteq> []" and "sorted (pre @ [x])" and "hd pre + 1 \<notin> set pre"
  shows "dropWhile (\<lambda>f. f + 1 = x) pre = (if hd pre + 1 = x then [] else pre)"
proof (cases "hd pre + 1 = x")
  case True
  have "p = hd pre" if "p \<in> set pre" for p
  proof (rule word_next)
    show "hd pre \<le> p" using assms(1,2) that by (cases pre) auto
    show "p \<le> hd pre + 1" using assms(2) that True by (auto simp: sorted_append)
    show "p \<noteq> hd pre + 1" using assms(3) that by auto
  qed
  then have "\<forall>p \<in> set pre. p + 1 = x" using True by blast
  with True show ?thesis by (simp add: dropWhile_eq_Nil_conv)
next
  case False
  then show ?thesis using assms(1) by (cases pre) auto
qed

lemma window_compress_ok:
  assumes "pre \<noteq> []" and "sorted (pre @ rest)" and "hd pre + 1 \<notin> set pre"
  shows "window_ok (window_compress pre rest) \<and> covered (window_compress pre rest) = covered (pre @ rest) \<and>
    hd pre \<le> hd (window_compress pre rest)"
  using assms
proof (induction pre rest rule: window_compress.induct)
  case (1 pre)
  then show ?case by (simp add: window_ok_def)
next
  case (2 pre x rest)
  note ord = \<open>sorted (pre @ x # rest)\<close>
  have px: "sorted (pre @ [x])" "hd pre \<le> x" using ord 2(2) by (auto simp: sorted_append)
  note step = compress_step [OF 2(2) px(1) 2(4)]
  show ?case
  proof (cases "hd pre + 1 = x")
    case True
    have "\<forall>f \<in> set pre. f + 1 = hd pre + 1"
      using step True by (simp add: dropWhile_eq_Nil_conv)
    then have set: "set pre = {hd pre}" using 2(2) by auto
    have e: "dropWhile (\<lambda>f. f + 1 = x) pre @ [x] = [x]" using step True by simp
    have "window_ok (window_compress [x] rest) \<and> covered (window_compress [x] rest) = covered ([x] @ rest) \<and>
        hd [x] \<le> hd (window_compress [x] rest)"
      using 2(1) ord unfolding e by (simp add: sorted_append)
    moreover have "covered ([x] @ rest) = covered (pre @ x # rest)"
      using 2(2) below_next [of "hd pre"] px(2) True set by (auto simp: covered_def)
    moreover have "window_compress pre (x # rest) = window_compress [x] rest"
      using e by (simp only: window_compress.simps(2))
    ultimately show ?thesis using px(2) by (auto intro: order_trans)
  next
    case False
    then have "hd (pre @ [x]) + 1 \<notin> set (pre @ [x])" using 2(2,4) by simp
    then show ?thesis using 2(1) step False 2(2) ord by simp
  qed
qed

lemma window_update_ok:
  assumes "window_ok w"
  shows "window_ok (window_update x w)" "covered (window_update x w) = insert x (covered w)"
    "hd w \<le> hd (window_update x w)"
proof -
  let ?w1 = "window_insert x w"
  have w: "w \<noteq> []" "sorted w" "hd w + 1 \<notin> set w" using assms by (simp_all add: window_ok_def)
  have "window_ok (window_update x w) \<and> covered (window_update x w) = insert x (covered w) \<and>
    hd w \<le> hd (window_update x w)"
  proof (cases "x \<le> hd w")
    case True
    then show ?thesis using assms by (auto simp: window_update_def covered_def)
  next
    case False
    then have h: "hd ?w1 = hd w" "?w1 \<noteq> []" using window_insert_hd [OF w(1), of x] by auto
    have "sorted ([hd ?w1] @ tl ?w1)" using h(2) window_insert_sorted [OF w(2)] by simp
    note c = window_compress_ok [OF _ this]
    have "[hd ?w1] @ tl ?w1 = ?w1" using h(2) by simp
    moreover have "window_update x w = window_compress [hd ?w1] (tl ?w1)"
      using False by (simp add: window_update_def Let_def)
    moreover have "covered ?w1 = insert x (covered w)" using h(1) by (auto simp: covered_def)
    ultimately show ?thesis using c h(1) by simp
  qed
  then show "window_ok (window_update x w)" "covered (window_update x w) = insert x (covered w)"
    "hd w \<le> hd (window_update x w)" by simp_all
qed

text \<open>The front of a well-formed window is the largest number up to which every reply has come.\<close>

lemma window_front:
  assumes "window_ok w" and "hd w \<noteq> - 1"
  shows "hd w + 1 \<notin> covered w"
proof -
  have "1 + hd w \<noteq> 0" using assms(2) by (simp only: add_eq_0_iff not_False_eq_True)
  then have "unat (1 + hd w) = Suc (unat (hd w))" by (rule unatSuc)
  then have "\<not> hd w + 1 \<le> hd w" by (simp add: word_le_nat_alt add.commute)
  then show ?thesis using assms(1) by (simp add: window_ok_def covered_def)
qed

text \<open>
  What happens to a client, one section of its mutex after the other: calls begin, replies arrive,
  calls end, \<open>bind\<close> and \<open>cancel\<close> run.  \<open>noted\<close> collects the numbers that \<open>update_xid_rep\<close> is called
  with: those of the replies that arrive and those of the calls that end.
\<close>

datatype client_event =
    Begun uint marshall unmarshall
  | Got "byte list"
  | Ended uint "byte list" uint
  | Bound int int
  | Cancelled

fun client_event_step :: "client_event \<Rightarrow> rpcc \<Rightarrow> rpcc" where
  "client_event_step (Begun proc req rep) c = snd (call1_begin proc req rep c)"
| "client_event_step (Got b) c = rpcc_got_pdu b c"
| "client_event_step (Ended x buf front) c = snd (call1_end x buf front c)"
| "client_event_step (Bound ret r) c = rpcc_bind ret r c"
| "client_event_step Cancelled c = rpcc_cancel c"

fun noted_by :: "client_event \<Rightarrow> rpcc \<Rightarrow> uint set" where
  "noted_by (Got b) c =
     (let (h, rep) = unpack_reply_header (unmarshall_of b) in if uok rep then {word_of_int (rp_xid h)} else {})"
| "noted_by (Ended x buf front) c = (if calls c (sint x) = None then {} else {x})"
| "noted_by _ c = {}"

fun noted :: "client_event list \<Rightarrow> rpcc \<Rightarrow> uint set" where
  "noted [] c = {}"
| "noted (e # es) c = noted_by e c \<union> noted es (client_event_step e c)"

lemma event_window:
  assumes "window_ok (xid_rep_window c)"
  shows "window_ok (xid_rep_window (client_event_step e c)) \<and>
    covered (xid_rep_window (client_event_step e c)) = covered (xid_rep_window c) \<union> noted_by e c"
proof (cases e)
  case (Got b)
  then show ?thesis
    using assms window_update_ok [OF assms]
    by (auto simp: rpcc_got_pdu_def update_xid_rep_def Let_def split: prod.splits option.splits)
next
  case (Ended x buf front)
  then show ?thesis
    using assms window_update_ok [OF assms]
    by (auto simp: call1_end_def update_xid_rep_def Let_def split: option.splits)
qed (use assms in \<open>auto simp: call1_begin_def rpcc_bind_def rpcc_cancel_def Let_def\<close>)

lemma events_window:
  assumes "window_ok (xid_rep_window c)"
  shows "window_ok (xid_rep_window (fold client_event_step es c)) \<and>
    covered (xid_rep_window (fold client_event_step es c)) = covered (xid_rep_window c) \<union> noted es c"
  using assms
proof (induction es arbitrary: c)
  case (Cons e es)
  with event_window [OF Cons.prems, of e] show ?case by auto
qed simp

text \<open>
  C25: what a client acknowledges.  After any sequence of begun calls, replies in any order and
  repeated, ended calls, \<open>bind\<close> and \<open>cancel\<close>, the front of the window, which the next request will
  acknowledge, is the largest number up to which every call was answered or has ended.  Calls given
  up count: when the call after the front times out without a reply, the client acknowledges it all
  the same.
\<close>

theorem acknowledged_prefix:
  assumes "c = fold client_event_step es (rpcc_init retr rnd lossy)" and "w = xid_rep_window c"
    and "N = insert 0 (noted es (rpcc_init retr rnd lossy))"
  shows "(\<forall>y. y \<le> hd w \<longrightarrow> y \<in> N) \<and> (hd w \<noteq> - 1 \<longrightarrow> hd w + 1 \<notin> N) \<and>
    (\<forall>ca buf front. hd w \<noteq> - 1 \<and> calls c (sint (hd w + 1)) = Some ca \<and> \<not> ca_done ca \<longrightarrow>
       map_option fst (fst (call1_end (hd w + 1) buf front c)) = Some (rpc_failure_code Timeout_failure) \<and>
       hd w + 1 \<le> hd (xid_rep_window (snd (call1_end (hd w + 1) buf front c))))"
proof -
  have init: "window_ok (xid_rep_window (rpcc_init retr rnd lossy))"
    "covered (xid_rep_window (rpcc_init retr rnd lossy)) = {0}"
    by (auto simp: window_ok_def covered_def rpcc_init_def)
  from events_window [OF init(1), of es] init(2) have w: "window_ok w" "covered w = N"
    using assms by simp_all
  have "hd w + 1 \<le> hd (window_update (hd w + 1) w)" if "hd w \<noteq> - 1"
  proof -
    let ?v = "window_update (hd w + 1) w"
    have v: "window_ok ?v" "covered ?v = insert (hd w + 1) (covered w)" "hd w \<le> hd ?v"
      using window_update_ok [OF w(1)] by auto
    have "hd ?v \<noteq> hd w" using v(1,2) window_front [OF v(1)] that by auto
    with v(3) have "hd w < hd ?v" by simp
    then show ?thesis by (metis add.commute inc_le)
  qed
  then have "map_option fst (fst (call1_end (hd w + 1) buf front c)) = Some (rpc_failure_code Timeout_failure) \<and>
      hd w + 1 \<le> hd (xid_rep_window (snd (call1_end (hd w + 1) buf front c)))"
    if "hd w \<noteq> - 1" "calls c (sint (hd w + 1)) = Some ca" "\<not> ca_done ca" for ca buf front
    using that assms(2) by (simp add: call1_end_def update_xid_rep_def Let_def)
  then show ?thesis
    using w window_front [OF w(1)] by (auto simp: covered_def)
qed

theorem acknowledged_prefix_witness:
  "let c = fold client_event_step [Bound 0 9, Begun 7 marshall_init unmarshall_init] (rpcc_init True 77 0)
   in hd (xid_rep_window c) = 0 \<and>
      map_option fst (fst (call1_end 1 [] 0 c)) = Some (rpc_failure_code Timeout_failure) \<and>
      1 \<le> hd (xid_rep_window (snd (call1_end 1 [] 0 c)))"
proof -
  let ?es = "[Bound 0 9, Begun 7 marshall_init unmarshall_init]"
  define c where "c = fold client_event_step ?es (rpcc_init True 77 0)"
  have c: "hd (xid_rep_window c) = 0"
    "calls c 1 = Some \<lparr>ca_xid = 1, ca_un = unmarshall_init, ca_intret = 0, ca_done = False\<rparr>"
    by (simp_all add: c_def rpcc_init_def rpcc_bind_def call1_begin_def)
  from acknowledged_prefix [OF c_def refl refl] c
  have "map_option fst (fst (call1_end 1 [] 0 c)) = Some (rpc_failure_code Timeout_failure) \<and>
      1 \<le> hd (xid_rep_window (snd (call1_end 1 [] 0 c)))" by simp
  with c(1) show ?thesis unfolding c_def [symmetric] Let_def by blast
qed

section \<open>Replies reach their callers\<close>

lemma reply_parsed:
  assumes "codec put get enc fits" and "fits x" and "reply_header_fits h"
    and "carries (pack_reply_header h (put x marshall_init)) b" and "length b < 2 ^ 31"
  shows "unpack_reply_header (unmarshall_of b) = (h, received b)" "uok (received b)"
    "fst (u_take_in (received b) un) = (received b)\<lparr>uoob := uoob un\<rparr>"
  using codec.reply_roundtrip [OF assms] codec.body_read [OF assms(1,2)]
  by (simp_all add: okdone_def u_take_in_def u_take_buf_def received_simps)

text \<open>
  A reply reaches the call it answers, once.  When a reply message for call \<open>x\<close> with result
  code \<open>ret\<close> arrives while the call is in progress, ending the call returns \<open>ret\<close> and an
  unmarshaller from which the result value reads back; no other call in progress is touched; and a
  second copy of the reply changes none of the calls.
\<close>

lemma reply_delivered_once:
  assumes "codec put get enc fits" and "fits v" and "reply_header_fits \<lparr>rp_xid = sint x, rp_ret = ret\<rparr>"
    and "carries (pack_reply_header \<lparr>rp_xid = sint x, rp_ret = ret\<rparr> (put v marshall_init)) b"
    and "length b < 2 ^ 31" and "calls c (sint x) = Some ca" and "\<not> ca_done ca" and "\<not> uoob (ca_un ca)"
  shows "(\<exists>un dw. fst (call1_end x buf rep (rpcc_got_pdu b c)) = Some (ret, un, dw) \<and> fst (get un) = v \<and>
      okdone (snd (get un))) \<and>
    (\<forall>y. y \<noteq> sint x \<longrightarrow> calls (rpcc_got_pdu b c) y = calls c y) \<and>
    calls (rpcc_got_pdu b (rpcc_got_pdu b c)) = calls (rpcc_got_pdu b c)"
proof -
  note p = reply_parsed [OF assms(1-5)]
  have un: "fst (u_take_in (received b) (ca_un ca)) = received b"
    using p(3) [of "ca_un ca"] assms(8) received_simps(5) by simp
  have c1: "calls (rpcc_got_pdu b c) = (calls c)(sint x \<mapsto>
      ca\<lparr>ca_un := received b, ca_intret := ret, ca_done := True\<rparr>)"
    using p(1,2) un assms(6,7) by (simp add: rpcc_got_pdu_def update_xid_rep_def)
  have "fst (get (received b)) = v \<and> okdone (snd (get (received b)))"
    using codec.reply_roundtrip [OF assms(1-5)] by simp
  moreover have "calls (rpcc_got_pdu b (rpcc_got_pdu b c)) = calls (rpcc_got_pdu b c)"
    using p(1,2) c1 by (simp add: rpcc_got_pdu_def [of b "rpcc_got_pdu b c"] update_xid_rep_def)
  ultimately show ?thesis
    using c1 by (simp add: call1_end_def Let_def)
qed

definition demo_client :: rpcc where
  "demo_client = (rpcc_init True 77 0)\<lparr>bind_done := True, xid := 6,
     calls := [5 \<mapsto> \<lparr>ca_xid = 5, ca_un = unmarshall_init, ca_intret = 0, ca_done = False\<rparr>]\<rparr>"

lemma reply_delivered_once_demo:
  "\<exists>b un dw. fst (call1_end 5 [] 0 (rpcc_got_pdu b demo_client)) = Some (3, un, dw) \<and>
     fst (u_string [] un) = ''ok'' \<and> okdone (snd (u_string [] un))"
proof -
  let ?h = "\<lparr>rp_xid = sint (5 :: uint), rp_ret = 3\<rparr>"
  let ?m = "pack_reply_header ?h (m_string ''ok'' marshall_init)"
  have f: "string_fits ''ok''" "reply_header_fits ?h"
    by (simp_all add: string_fits_def reply_header_fits_def)
  note p = string_codec.marshalled [OF f(1)]
  have w: "m_wf ?m" "mind ?m = 30"
    using pack_reply_header_spec(1,2) [OF p(1), of ?h] p(2)
    by (simp_all add: string_bytes_def rpc_header_sz_def)
  have l: "length (sent ?m) < 2 ^ 31" using carries_sent [OF w(1)] w(2) by (simp add: carries_def)
  have c: "calls demo_client (sint (5 :: uint))
      = Some \<lparr>ca_xid = 5, ca_un = unmarshall_init, ca_intret = 0, ca_done = False\<rparr>"
    by (simp add: demo_client_def)
  have "\<exists>un dw. fst (call1_end 5 [] 0 (rpcc_got_pdu (sent ?m) demo_client)) = Some (3, un, dw) \<and>
     fst (u_string [] un) = ''ok'' \<and> okdone (snd (u_string [] un))"
    using reply_delivered_once [of m_string "u_string []" string_bytes string_fits, OF
        string_codec.codec_axioms f carries_sent [OF w(1)] l c, of "[]" 0]
    by (simp add: unmarshall_init_def)
  then show ?thesis by blast
qed

section \<open>The retry loop\<close>

lemma carry_nsec_spec:
  assumes "0 \<le> tv_nsec r"
  shows "tv_sec (carry_nsec r) * 1000000000 + tv_nsec (carry_nsec r) = tv_sec r * 1000000000 + tv_nsec r \<and>
    0 \<le> tv_nsec (carry_nsec r) \<and> tv_nsec (carry_nsec r) \<le> 1000000000 \<and> tv_sec r \<le> tv_sec (carry_nsec r)"
  using assms
proof (induction r rule: carry_nsec.induct)
  case (1 r)
  show ?case
  proof (cases "tv_nsec r > 1000000000")
    case True
    then show ?thesis using 1 by (subst (1 2 3 4 5) carry_nsec.simps) simp
  next
    case False
    then show ?thesis using 1(2) by (simp add: carry_nsec.simps)
  qed
qed

lemma add_timespec_eq:
  assumes "0 \<le> tv_nsec a" and "0 \<le> b"
  shows "add_timespec a b =
    Ret (carry_nsec \<lparr>tv_sec = tv_sec a + b div 1000, tv_nsec = tv_nsec a + (b mod 1000) * 1000000\<rparr>)"
proof -
  have "b sdiv 1000 = b div 1000" "b smod 1000 = b mod 1000"
    using assms by (auto simp: signed_divide_int_def signed_modulo_int_def sgn_if)
  moreover have "0 \<le> tv_nsec a + (b mod 1000) * 1000000" using assms by simp
  ultimately show ?thesis by (simp add: add_timespec_def)
qed

definition nanos :: "timespec \<Rightarrow> int" where
  "nanos t = tv_sec t * 1000000000 + tv_nsec t"

definition normal_time :: "timespec \<Rightarrow> bool" where
  "normal_time t \<longleftrightarrow> 0 \<le> tv_nsec t \<and> tv_nsec t < 1000000000"

lemma add_timespec_sum:
  assumes "normal_time a" and "0 \<le> b"
  obtains r where "add_timespec a b = Ret r" "nanos r = nanos a + b * 1000000" "0 \<le> tv_nsec r"
    "tv_nsec r \<le> 1000000000"
proof -
  let ?r = "\<lparr>tv_sec = tv_sec a + b div 1000, tv_nsec = tv_nsec a + (b mod 1000) * 1000000\<rparr>"
  have "b div 1000 * 1000000000 + b mod 1000 * 1000000 = b * 1000000" by presburger
  moreover have "0 \<le> tv_nsec ?r" using assms by (simp add: normal_time_def)
  ultimately show thesis
    using that [OF add_timespec_eq [of a b]] assms carry_nsec_spec [of ?r]
    by (simp add: nanos_def normal_time_def algebra_simps)
qed

text \<open>
  Adding a timeout to a normalised time is exact, and the loop of \<open>add_timespec\<close> ends; but its
  test is off by one: when the nanoseconds add up to exactly one second they stay at \<open>10^9\<close>, which
  is not a valid nanosecond count.
\<close>

lemma add_timespec_exact:
  assumes "0 \<le> tv_nsec a" and "tv_nsec a < 1000000000" and "0 \<le> b"
  shows "\<exists>r. add_timespec a b = Ret r \<and>
    tv_sec r * 1000000000 + tv_nsec r = tv_sec a * 1000000000 + tv_nsec a + b * 1000000 \<and>
    0 \<le> tv_nsec r \<and> tv_nsec r \<le> 1000000000 \<and>
    (tv_nsec a + (b mod 1000) * 1000000 = 1000000000 \<longrightarrow> tv_nsec r = 1000000000)"
proof -
  obtain r where r: "add_timespec a b = Ret r" "nanos r = nanos a + b * 1000000" "0 \<le> tv_nsec r"
    "tv_nsec r \<le> 1000000000"
    by (rule add_timespec_sum [of a b]) (use assms in \<open>simp_all add: normal_time_def\<close>)
  moreover have "tv_nsec r = 1000000000" if "tv_nsec a + (b mod 1000) * 1000000 = 1000000000"
    using r(1) that by (auto simp: add_timespec_eq [OF assms(1,3)] carry_nsec.simps)
  ultimately show ?thesis by (auto simp: nanos_def)
qed

lemma add_timespec_exact_demo:
  "add_timespec \<lparr>tv_sec = 5, tv_nsec = 999000000\<rparr> 2001 = Ret \<lparr>tv_sec = 7, tv_nsec = 1000000000\<rparr>"
proof -
  let ?a = "\<lparr>tv_sec = 5, tv_nsec = 999000000\<rparr>"
  obtain r where r: "add_timespec ?a 2001 = Ret r"
    "tv_sec r * 1000000000 + tv_nsec r = 8000000000" "tv_nsec r = 1000000000"
    using add_timespec_exact [of ?a 2001] by auto
  then have "r = \<lparr>tv_sec = 7, tv_nsec = 1000000000\<rparr>" by simp
  with r(1) show ?thesis by simp
qed

text \<open>
  The waits of a round end: the reply had come, or a wait timed out or found it.  A wait for a valid
  deadline that is never signalled does time out when the clock reaches the deadline.
\<close>

definition waits_end :: "wait_obs \<Rightarrow> bool" where
  "waits_end ob \<longleftrightarrow> ob_done ob \<or> (\<exists>w \<in> set (ob_waits ob). w \<noteq> Wait_ok False)"

lemma call1_wait_ends:
  assumes "valid_deadline dl" and "waits_end ob"
  shows "\<exists>d. call1_wait dl (ob_done ob) (ob_waits ob) = Some d"
proof -
  have "\<exists>d. call1_wait dl b ws = Some d" if "b \<or> (\<exists>w \<in> set ws. w \<noteq> Wait_ok False)" for b ws
    using that
  proof (induction ws arbitrary: b)
    case (Cons w ws)
    then show ?case using assms(1) by (cases b; cases w) auto
  qed auto
  with assms(2) show ?thesis by (simp add: waits_end_def)
qed

text \<open>With an invalid deadline the inner loop spins, with the mutex of the caller held.\<close>

lemma call1_wait_spins: "\<not> valid_deadline dl \<Longrightarrow> call1_wait dl False ws = None"
  by (induction ws) simp_all

text \<open>One round that does not find the final deadline used up, whose wait ends with \<open>d\<close>.\<close>

definition retry_next :: "bool \<Rightarrow> wait_obs \<Rightarrow> bool \<Rightarrow> timespec \<Rightarrow> retry_state \<Rightarrow> retry_state" where
  "retry_next retr ob d n0 st =
     (let late = cmp_timespec n0 (rt_final st) > 0 in
      st\<lparr>rt_sends := rt_sends st + (if rt_transmit st then 1 else 0),
         rt_transmit := (retr \<and> ob_dead ob \<and> \<not> d),
         rt_final := (if late then (rt_final st)\<lparr>tv_sec := 0\<rparr> else rt_final st),
         rt_waits := rt_waits st @ [if late then rt_final st else n0],
         rt_curr_to := (if d then 1 else 2) * rt_curr_to st\<rparr>)"

lemma round_next:
  assumes "tv_sec (rt_final st) \<noteq> 0" and "add_timespec (ob_now ob) (rt_curr_to st) = Ret n0"
    and "call1_wait (if cmp_timespec n0 (rt_final st) > 0 then rt_final st else n0) (ob_done ob) (ob_waits ob) = Some d"
  shows "call1_round retr ob st =
    (if d then Retry_break True (retry_next retr ob d n0 st) else Retry_next (retry_next retr ob d n0 st))"
  using assms by (auto simp: call1_round_def retry_next_def Let_def split: bool.splits)

text \<open>Timeouts of whole seconds keep the nanoseconds of the clock.\<close>

lemma add_timespec_seconds:
  assumes "normal_time a" and "0 \<le> b" and "b mod 1000 = 0" and "add_timespec a b = Ret r"
  shows "valid_deadline r"
  using assms add_timespec_eq [of a b]
  by (auto simp: normal_time_def valid_deadline_def carry_nsec.simps)

lemma round_last:
  assumes "tv_sec (rt_final st) = 0"
  shows "call1_round retr ob st = Retry_break False
    (st\<lparr>rt_sends := rt_sends st + (if rt_transmit st then 1 else 0), rt_transmit := False\<rparr>)"
  using assms by (simp add: call1_round_def Let_def)

lemma deadline_passed:
  assumes "0 \<le> tv_nsec n0" "tv_nsec n0 \<le> 1000000000" "0 \<le> tv_nsec f" "tv_nsec f \<le> 1000000000"
    and "nanos f + 8000000000 \<le> nanos n0"
  shows "cmp_timespec n0 f > 0"
  using assms by (simp add: cmp_timespec_def nanos_def)

lemma retry_loop_ends:
  assumes "rt_curr_to st = 1000 * 2 ^ k" and "k \<le> 7" and "9 - k \<le> length obs"
    and "rt_final st = final" and "tv_sec final \<noteq> 0" and "valid_deadline final"
    and "\<forall>ob \<in> set obs. normal_time (ob_now ob) \<and> nanos final \<le> nanos (ob_now ob) + 120000000000 \<and> waits_end ob"
  shows "\<exists>d st'. call1_loop retr obs st = Some (Ret (d, st')) \<and>
    (\<not> d \<longrightarrow> last (rt_waits st') = final) \<and>
    (\<not> retr \<longrightarrow> rt_sends st' = rt_sends st + (if rt_transmit st then 1 else 0))"
  using assms
proof (induction obs arbitrary: st k)
  case Nil
  then show ?case by simp
next
  case (Cons ob obs)
  have ob: "normal_time (ob_now ob)" "nanos final \<le> nanos (ob_now ob) + 120000000000" "waits_end ob"
    using Cons.prems(7) by simp_all
  obtain n0 where n0: "add_timespec (ob_now ob) (rt_curr_to st) = Ret n0"
    "nanos n0 = nanos (ob_now ob) + rt_curr_to st * 1000000" "0 \<le> tv_nsec n0" "tv_nsec n0 \<le> 1000000000"
    by (rule add_timespec_sum [OF ob(1), of "rt_curr_to st"]) (use Cons.prems(1) in simp_all)
  have v0: "valid_deadline n0"
    by (rule add_timespec_seconds [OF ob(1) _ _ n0(1)]) (use Cons.prems(1) in simp_all)
  let ?late = "cmp_timespec n0 final > 0"
  obtain d where d: "call1_wait (if ?late then final else n0) (ob_done ob) (ob_waits ob) = Some d"
    using call1_wait_ends [of _ ob] v0 Cons.prems(6) ob(3) by (metis (full_types))
  let ?st = "retry_next retr ob d n0 st"
  have rd: "call1_round retr ob st = (if d then Retry_break True ?st else Retry_next ?st)"
    by (rule round_next) (use Cons.prems(4,5) n0(1) d in \<open>auto split: if_splits\<close>)
  have f: "rt_sends ?st = rt_sends st + (if rt_transmit st then 1 else 0)"
    "rt_waits ?st = rt_waits st @ [if ?late then final else n0]"
    "rt_final ?st = (if ?late then final\<lparr>tv_sec := 0\<rparr> else final)"
    "\<not> retr \<Longrightarrow> \<not> rt_transmit ?st" "\<not> d \<Longrightarrow> rt_curr_to ?st = 2 * rt_curr_to st"
    using Cons.prems(4) by (simp_all add: retry_next_def Let_def)
  show ?case
  proof (cases d)
    case True
    then show ?thesis
      by (intro exI [of _ True] exI [of _ ?st]) (auto simp: rd f(1) [symmetric])
  next
    case False
    show ?thesis
    proof (cases ?late)
      case True
      with Cons.prems(2,3) obtain ob2 obs2 where obs: "obs = ob2 # obs2" by (cases obs) auto
      have "call1_round retr ob2 ?st = Retry_break False
          (?st\<lparr>rt_sends := rt_sends ?st + (if rt_transmit ?st then 1 else 0), rt_transmit := False\<rparr>)"
        by (rule round_last) (use f(3) True in simp)
      then show ?thesis using rd False obs f(1,2,4) True by auto
    next
      case nl: False
      have fv: "0 \<le> tv_nsec final" "tv_nsec final \<le> 1000000000"
        using Cons.prems(6) by (simp_all add: valid_deadline_def)
      have "k \<noteq> 7"
        using nl deadline_passed [OF n0(3,4) fv] n0(2) ob(2) Cons.prems(1) by auto
      then have "\<exists>d st'. call1_loop retr obs ?st = Some (Ret (d, st')) \<and>
          (\<not> d \<longrightarrow> last (rt_waits st') = final) \<and>
          (\<not> retr \<longrightarrow> rt_sends st' = rt_sends ?st + (if rt_transmit ?st then 1 else 0))"
        by (intro Cons.IH [of ?st "Suc k"]) (use Cons.prems f(3,5) False nl in auto)
      then obtain d' st' where ih: "call1_loop retr obs ?st = Some (Ret (d', st'))"
          "\<not> d' \<longrightarrow> last (rt_waits st') = final"
          "\<not> retr \<longrightarrow> rt_sends st' = rt_sends ?st + (if rt_transmit ?st then 1 else 0)"
        by blast
      show ?thesis
      proof (intro exI conjI)
        show "call1_loop retr (ob # obs) st = Some (Ret (d', st'))" using rd False ih(1) by simp
        show "\<not> retr \<longrightarrow> rt_sends st' = rt_sends st + (if rt_transmit st then 1 else 0)"
          using ih(3) f(1,4) by (cases retr) simp_all
      qed (rule ih(2))
    qed
  qed
qed

text \<open>The first wait is for a final deadline of less than a second; when that is invalid, the call spins.\<close>

lemma invalid_deadline_spins:
  assumes s: "normal_time s" "0 < tv_sec s" and "0 \<le> tmo" "tmo < 1000"
    and "tv_nsec s + tmo * 1000000 = 1000000000" and r: "add_timespec s tmo = Ret final"
    and obs: "\<forall>ob \<in> set obs. normal_time (ob_now ob) \<and> nanos s \<le> nanos (ob_now ob) \<and> \<not> ob_done ob"
  shows "call1_loop retr obs (retry_init final) = None"
proof (cases obs)
  case (Cons ob obs')
  then have ob: "normal_time (ob_now ob)" "nanos s \<le> nanos (ob_now ob)" "\<not> ob_done ob" using obs by simp_all
  have final: "final = \<lparr>tv_sec = tv_sec s, tv_nsec = 1000000000\<rparr>"
    using r add_timespec_eq [of s tmo] s(1) assms(3-5) by (simp add: normal_time_def carry_nsec.simps)
  obtain n0 where n0: "add_timespec (ob_now ob) 1000 = Ret n0"
    "nanos n0 = nanos (ob_now ob) + 1000000000" "0 \<le> tv_nsec n0" "tv_nsec n0 \<le> 1000000000"
    using add_timespec_sum [OF ob(1), of 1000] by auto
  have "valid_deadline n0" by (rule add_timespec_seconds [OF ob(1) _ _ n0(1)]) simp_all
  then have "cmp_timespec n0 final > 0"
    using n0(2) ob(1,2) s assms(4,5) final
    by (auto simp: cmp_timespec_def nanos_def normal_time_def valid_deadline_def)
  moreover have "\<not> valid_deadline final" using final by (simp add: valid_deadline_def)
  ultimately have "call1_round retr ob (retry_init final) = Retry_waits"
    using n0(1) ob(3) s(2) final call1_wait_spins [of final]
    by (simp add: call1_round_def retry_init_def to_min_def Let_def)
  then show ?thesis by (simp add: Cons)
qed simp

text \<open>
  C28: when a call returns.  Take a timeout of at most \<open>to_max\<close>, a clock that is normalised and does
  not go back behind the start of the call, a final deadline \<open>add_timespec\<close> computed with a valid
  nanosecond count (as it is for every timeout of whole seconds), and waits that end.  Then the
  retry loop ends after at most nine rounds, whatever the network and the peer do; it reports a
  timeout only after a wait for the final deadline itself; and a client that does not retransmit
  sends its request exactly once.  The validity is needed: when the nanoseconds of the final
  deadline add up to exactly one second, \<open>add_timespec\<close> leaves them there, and a call with a timeout
  below one second that has not been answered before its first wait never returns.
\<close>

theorem call1_returns:
  assumes "normal_time start" and "0 < tv_sec start" and "0 \<le> tmo" "tmo \<le> to_max"
    and "add_timespec start tmo = Ret final" and "valid_deadline final" and "9 \<le> length obs"
    and "\<forall>ob \<in> set obs. normal_time (ob_now ob) \<and> nanos start \<le> nanos (ob_now ob) \<and> waits_end ob"
  shows "(\<exists>d st. call1_loop retr obs (retry_init final) = Some (Ret (d, st)) \<and>
      (\<not> d \<longrightarrow> last (rt_waits st) = final) \<and> (\<not> retr \<longrightarrow> rt_sends st = 1)) \<and>
    (\<forall>s tmo' f obs'. normal_time s \<and> 0 < tv_sec s \<and> 0 \<le> tmo' \<and> tmo' < 1000 \<and>
       tv_nsec s + tmo' * 1000000 = 1000000000 \<and> add_timespec s tmo' = Ret f \<and>
       (\<forall>ob \<in> set obs'. normal_time (ob_now ob) \<and> nanos s \<le> nanos (ob_now ob) \<and> \<not> ob_done ob) \<longrightarrow>
       call1_loop retr obs' (retry_init f) = None)"
proof
  obtain r where r: "add_timespec start tmo = Ret r" "nanos r = nanos start + tmo * 1000000"
    by (rule add_timespec_sum [OF assms(1,3)])
  then have f: "nanos final = nanos start + tmo * 1000000" "nanos final \<le> nanos start + 120000000000"
    using assms(4,5) by (simp_all add: to_max_def)
  then have "tv_sec final \<noteq> 0"
    using assms(1-3,6) by (auto simp: nanos_def normal_time_def valid_deadline_def)
  with f(2) assms(6-8) show "\<exists>d st. call1_loop retr obs (retry_init final) = Some (Ret (d, st)) \<and>
      (\<not> d \<longrightarrow> last (rt_waits st) = final) \<and> (\<not> retr \<longrightarrow> rt_sends st = 1)"
    using retry_loop_ends [of "retry_init final" 0 obs final retr]
    by (fastforce simp: retry_init_def to_min_def)
qed (use invalid_deadline_spins in blast)

theorem call1_returns_witness:
  "let obs = replicate 9 \<lparr>ob_now = \<lparr>tv_sec = 100, tv_nsec = 0\<rparr>, ob_done = False,
       ob_waits = [Wait_ok False, Wait_timeout False], ob_dead = True\<rparr>;
       spin = replicate 5 \<lparr>ob_now = \<lparr>tv_sec = 100, tv_nsec = 999000000\<rparr>, ob_done = False,
       ob_waits = [Wait_timeout False], ob_dead = True\<rparr> in
   (\<exists>d st. call1_loop False obs (retry_init \<lparr>tv_sec = 220, tv_nsec = 0\<rparr>) = Some (Ret (d, st)) \<and>
     (d \<or> last (rt_waits st) = \<lparr>tv_sec = 220, tv_nsec = 0\<rparr>) \<and> rt_sends st = 1) \<and>
   call1_loop False spin (retry_init \<lparr>tv_sec = 100, tv_nsec = 1000000000\<rparr>) = None"
proof -
  let ?s = "\<lparr>tv_sec = 100, tv_nsec = 0\<rparr>" and ?f = "\<lparr>tv_sec = 220, tv_nsec = 0\<rparr>"
  let ?obs = "replicate 9 \<lparr>ob_now = ?s, ob_done = False, ob_waits = [Wait_ok False, Wait_timeout False],
    ob_dead = True\<rparr>"
  let ?t = "\<lparr>tv_sec = 100, tv_nsec = 999000000\<rparr>" and ?g = "\<lparr>tv_sec = 100, tv_nsec = 1000000000\<rparr>"
  let ?spin = "replicate 5 \<lparr>ob_now = ?t, ob_done = False, ob_waits = [Wait_timeout False], ob_dead = True\<rparr>"
  have a: "normal_time ?s" "0 < tv_sec ?s" "0 \<le> to_max" "to_max \<le> to_max" "valid_deadline ?f" "9 \<le> length ?obs"
    "\<forall>ob \<in> set ?obs. normal_time (ob_now ob) \<and> nanos ?s \<le> nanos (ob_now ob) \<and> waits_end ob"
    by (simp_all add: normal_time_def valid_deadline_def waits_end_def to_max_def)
  have f: "add_timespec ?s to_max = Ret ?f" "add_timespec ?t 1 = Ret ?g"
    by (simp_all add: add_timespec_def to_max_def carry_nsec.simps signed_divide_int_def signed_modulo_int_def)
  have t: "normal_time ?t \<and> 0 < tv_sec ?t \<and> 0 \<le> (1 :: int) \<and> (1 :: int) < 1000 \<and>
      tv_nsec ?t + 1 * 1000000 = 1000000000 \<and> add_timespec ?t 1 = Ret ?g \<and>
      (\<forall>ob \<in> set ?spin. normal_time (ob_now ob) \<and> nanos ?t \<le> nanos (ob_now ob) \<and> \<not> ob_done ob)"
    using f(2) by (simp add: normal_time_def)
  note th = call1_returns [OF a(1-4) f(1) a(5-7), of False]
  have "call1_loop False ?spin (retry_init ?g) = None" using th [THEN conjunct2] t by blast
  then show ?thesis using th [THEN conjunct1] by (simp only: Let_def simp_thms disj_imp)
qed

end
