(* ===== verification/Rpc_Typed.thy ===== *)
theory Rpc_Typed
  imports Marshall Rpc_Const Yfs_Client
begin

text \<open>
  The typed calls and handler registrations (the templates \<open>rpcc::call\<close> and \<open>rpcs::reg\<close> of
  \<open>rpc/rpc.h\<close>), one definition per number of arguments, over the operators of the argument and
  result types.  The last section puts stub, messages and handler together: what the file system
  client assumes of a delivered call is what marshalling, dispatching and unmarshalling do.
\<close>

section \<open>rpcc::call\<close>

type_synonym 'a putter = "'a \<Rightarrow> marshall \<Rightarrow> marshall"
type_synonym 'a getter = "unmarshall \<Rightarrow> 'a \<times> unmarshall"

text \<open>The messages the seven templates (and the one without arguments) hand to \<open>call_m\<close>.\<close>

definition call0 :: marshall where
  "call0 = marshall_init"

definition call1_req :: "'a putter \<Rightarrow> 'a \<Rightarrow> marshall" where
  "call1_req p1 a1 = p1 a1 marshall_init"

definition call2 :: "'a putter \<Rightarrow> 'b putter \<Rightarrow> 'a \<Rightarrow> 'b \<Rightarrow> marshall" where
  "call2 p1 p2 a1 a2 = p2 a2 (p1 a1 marshall_init)"

definition call3 :: "'a putter \<Rightarrow> 'b putter \<Rightarrow> 'c putter \<Rightarrow> 'a \<Rightarrow> 'b \<Rightarrow> 'c \<Rightarrow> marshall" where
  "call3 p1 p2 p3 a1 a2 a3 = p3 a3 (p2 a2 (p1 a1 marshall_init))"

definition call4 ::
  "'a putter \<Rightarrow> 'b putter \<Rightarrow> 'c putter \<Rightarrow> 'd putter \<Rightarrow> 'a \<Rightarrow> 'b \<Rightarrow> 'c \<Rightarrow> 'd \<Rightarrow> marshall" where
  "call4 p1 p2 p3 p4 a1 a2 a3 a4 = p4 a4 (p3 a3 (p2 a2 (p1 a1 marshall_init)))"

definition call5 ::
  "'a putter \<Rightarrow> 'b putter \<Rightarrow> 'c putter \<Rightarrow> 'd putter \<Rightarrow> 'e putter \<Rightarrow>
   'a \<Rightarrow> 'b \<Rightarrow> 'c \<Rightarrow> 'd \<Rightarrow> 'e \<Rightarrow> marshall" where
  "call5 p1 p2 p3 p4 p5 a1 a2 a3 a4 a5 = p5 a5 (p4 a4 (p3 a3 (p2 a2 (p1 a1 marshall_init))))"

definition call6 ::
  "'a putter \<Rightarrow> 'b putter \<Rightarrow> 'c putter \<Rightarrow> 'd putter \<Rightarrow> 'e putter \<Rightarrow> 'f putter \<Rightarrow>
   'a \<Rightarrow> 'b \<Rightarrow> 'c \<Rightarrow> 'd \<Rightarrow> 'e \<Rightarrow> 'f \<Rightarrow> marshall" where
  "call6 p1 p2 p3 p4 p5 p6 a1 a2 a3 a4 a5 a6 =
     p6 a6 (p5 a5 (p4 a4 (p3 a3 (p2 a2 (p1 a1 marshall_init)))))"

definition call7 ::
  "'a putter \<Rightarrow> 'b putter \<Rightarrow> 'c putter \<Rightarrow> 'd putter \<Rightarrow> 'e putter \<Rightarrow> 'f putter \<Rightarrow> 'g putter \<Rightarrow>
   'a \<Rightarrow> 'b \<Rightarrow> 'c \<Rightarrow> 'd \<Rightarrow> 'e \<Rightarrow> 'f \<Rightarrow> 'g \<Rightarrow> marshall" where
  "call7 p1 p2 p3 p4 p5 p6 p7 a1 a2 a3 a4 a5 a6 a7 =
     p7 a7 (p6 a6 (p5 a5 (p4 a4 (p3 a3 (p2 a2 (p1 a1 marshall_init))))))"

text \<open>
  \<open>call_m\<close> behind \<open>call1\<close>: \<open>intret\<close> and \<open>u\<close> are what \<open>call1\<close> returned, \<open>r\<close> the result variable.  A reply
  that does not parse as the result type fails the \<open>VERIFY(0)\<close>.
\<close>

definition call_m :: "'r getter \<Rightarrow> 'r \<Rightarrow> int \<Rightarrow> unmarshall \<Rightarrow> (int \<times> 'r) outcome" where
  "call_m g r intret u =
     (if intret < 0 then Ret (intret, r)
      else let (r', u') = g u in if \<not> okdone u' then Aborted else Ret (intret, r'))"

section \<open>rpcs::reg\<close>

text \<open>
  The wrapper \<open>h1::fn\<close> around a method \<open>meth\<close> of an object with state \<open>s\<close>; \<open>r0\<close> is the value of the
  default-constructed result variable.
\<close>

definition reg1_fn ::
  "'a getter \<Rightarrow> 'r putter \<Rightarrow> 'r \<Rightarrow> ('a \<Rightarrow> 'r \<Rightarrow> 's \<Rightarrow> int \<times> 'r \<times> 's) \<Rightarrow>
   unmarshall \<Rightarrow> marshall \<Rightarrow> 's \<Rightarrow> int \<times> marshall \<times> 's" where
  "reg1_fn g1 p r0 meth args ret s =
     (let (a1, u1) = g1 args in
      if \<not> okdone u1 then (rpc_failure_code Unmarshal_args_failure, ret, s)
      else let (b, r, s') = meth a1 r0 s in (b, p r ret, s'))"

definition reg2_fn ::
  "'a getter \<Rightarrow> 'b getter \<Rightarrow> 'r putter \<Rightarrow> 'r \<Rightarrow> ('a \<Rightarrow> 'b \<Rightarrow> 'r \<Rightarrow> 's \<Rightarrow> int \<times> 'r \<times> 's) \<Rightarrow>
   unmarshall \<Rightarrow> marshall \<Rightarrow> 's \<Rightarrow> int \<times> marshall \<times> 's" where
  "reg2_fn g1 g2 p r0 meth args ret s =
     (let (a1, u1) = g1 args; (a2, u2) = g2 u1 in
      if \<not> okdone u2 then (rpc_failure_code Unmarshal_args_failure, ret, s)
      else let (b, r, s') = meth a1 a2 r0 s in (b, p r ret, s'))"

definition reg3_fn ::
  "'a getter \<Rightarrow> 'b getter \<Rightarrow> 'c getter \<Rightarrow> 'r putter \<Rightarrow> 'r \<Rightarrow>
   ('a \<Rightarrow> 'b \<Rightarrow> 'c \<Rightarrow> 'r \<Rightarrow> 's \<Rightarrow> int \<times> 'r \<times> 's) \<Rightarrow> unmarshall \<Rightarrow> marshall \<Rightarrow> 's \<Rightarrow> int \<times> marshall \<times> 's" where
  "reg3_fn g1 g2 g3 p r0 meth args ret s =
     (let (a1, u1) = g1 args; (a2, u2) = g2 u1; (a3, u3) = g3 u2 in
      if \<not> okdone u3 then (rpc_failure_code Unmarshal_args_failure, ret, s)
      else let (b, r, s') = meth a1 a2 a3 r0 s in (b, p r ret, s'))"

definition reg4_fn ::
  "'a getter \<Rightarrow> 'b getter \<Rightarrow> 'c getter \<Rightarrow> 'd getter \<Rightarrow> 'r putter \<Rightarrow> 'r \<Rightarrow>
   ('a \<Rightarrow> 'b \<Rightarrow> 'c \<Rightarrow> 'd \<Rightarrow> 'r \<Rightarrow> 's \<Rightarrow> int \<times> 'r \<times> 's) \<Rightarrow>
   unmarshall \<Rightarrow> marshall \<Rightarrow> 's \<Rightarrow> int \<times> marshall \<times> 's" where
  "reg4_fn g1 g2 g3 g4 p r0 meth args ret s =
     (let (a1, u1) = g1 args; (a2, u2) = g2 u1; (a3, u3) = g3 u2; (a4, u4) = g4 u3 in
      if \<not> okdone u4 then (rpc_failure_code Unmarshal_args_failure, ret, s)
      else let (b, r, s') = meth a1 a2 a3 a4 r0 s in (b, p r ret, s'))"

definition reg5_fn ::
  "'a getter \<Rightarrow> 'b getter \<Rightarrow> 'c getter \<Rightarrow> 'd getter \<Rightarrow> 'e getter \<Rightarrow> 'r putter \<Rightarrow> 'r \<Rightarrow>
   ('a \<Rightarrow> 'b \<Rightarrow> 'c \<Rightarrow> 'd \<Rightarrow> 'e \<Rightarrow> 'r \<Rightarrow> 's \<Rightarrow> int \<times> 'r \<times> 's) \<Rightarrow>
   unmarshall \<Rightarrow> marshall \<Rightarrow> 's \<Rightarrow> int \<times> marshall \<times> 's" where
  "reg5_fn g1 g2 g3 g4 g5 p r0 meth args ret s =
     (let (a1, u1) = g1 args; (a2, u2) = g2 u1; (a3, u3) = g3 u2; (a4, u4) = g4 u3;
          (a5, u5) = g5 u4 in
      if \<not> okdone u5 then (rpc_failure_code Unmarshal_args_failure, ret, s)
      else let (b, r, s') = meth a1 a2 a3 a4 a5 r0 s in (b, p r ret, s'))"

definition reg6_fn ::
  "'a getter \<Rightarrow> 'b getter \<Rightarrow> 'c getter \<Rightarrow> 'd getter \<Rightarrow> 'e getter \<Rightarrow> 'f getter \<Rightarrow> 'r putter \<Rightarrow> 'r \<Rightarrow>
   ('a \<Rightarrow> 'b \<Rightarrow> 'c \<Rightarrow> 'd \<Rightarrow> 'e \<Rightarrow> 'f \<Rightarrow> 'r \<Rightarrow> 's \<Rightarrow> int \<times> 'r \<times> 's) \<Rightarrow>
   unmarshall \<Rightarrow> marshall \<Rightarrow> 's \<Rightarrow> int \<times> marshall \<times> 's" where
  "reg6_fn g1 g2 g3 g4 g5 g6 p r0 meth args ret s =
     (let (a1, u1) = g1 args; (a2, u2) = g2 u1; (a3, u3) = g3 u2; (a4, u4) = g4 u3;
          (a5, u5) = g5 u4; (a6, u6) = g6 u5 in
      if \<not> okdone u6 then (rpc_failure_code Unmarshal_args_failure, ret, s)
      else let (b, r, s') = meth a1 a2 a3 a4 a5 a6 r0 s in (b, p r ret, s'))"

definition reg7_fn ::
  "'a getter \<Rightarrow> 'b getter \<Rightarrow> 'c getter \<Rightarrow> 'd getter \<Rightarrow> 'e getter \<Rightarrow> 'f getter \<Rightarrow> 'g getter \<Rightarrow>
   'r putter \<Rightarrow> 'r \<Rightarrow> ('a \<Rightarrow> 'b \<Rightarrow> 'c \<Rightarrow> 'd \<Rightarrow> 'e \<Rightarrow> 'f \<Rightarrow> 'g \<Rightarrow> 'r \<Rightarrow> 's \<Rightarrow> int \<times> 'r \<times> 's) \<Rightarrow>
   unmarshall \<Rightarrow> marshall \<Rightarrow> 's \<Rightarrow> int \<times> marshall \<times> 's" where
  "reg7_fn g1 g2 g3 g4 g5 g6 g7 p r0 meth args ret s =
     (let (a1, u1) = g1 args; (a2, u2) = g2 u1; (a3, u3) = g3 u2; (a4, u4) = g4 u3;
          (a5, u5) = g5 u4; (a6, u6) = g6 u5; (a7, u7) = g7 u6 in
      if \<not> okdone u7 then (rpc_failure_code Unmarshal_args_failure, ret, s)
      else let (b, r, s') = meth a1 a2 a3 a4 a5 a6 a7 r0 s in (b, p r ret, s'))"

section \<open>A call from end to end\<close>

text \<open>
  The path of a call that is delivered: the client's message with its header, the dispatcher's
  unmarshaller, the registered wrapper on the server's state, the reply with its header, and
  \<open>call_m\<close> on it.
\<close>

definition rpc_path ::
  "req_header \<Rightarrow> marshall \<Rightarrow> (unmarshall \<Rightarrow> marshall \<Rightarrow> 's \<Rightarrow> int \<times> marshall \<times> 's) \<Rightarrow>
   'r getter \<Rightarrow> 'r \<Rightarrow> 's \<Rightarrow> (int \<times> 'r) outcome \<times> 's" where
  "rpc_path hq m fn g r s =
     (let (h, u) = unpack_req_header (unmarshall_of (sent (pack_req_header hq m)));
          (ret, rep, s') = fn u marshall_init s;
          b = sent (pack_reply_header \<lparr>rp_xid = rq_xid h, rp_ret = ret\<rparr> rep);
          (hr, ur) = unpack_reply_header (unmarshall_of b)
      in (call_m g r (rp_ret hr) (received b), s'))"

lemma codec_pair:
  assumes "codec p1 g1 e1 f1" and "codec p2 g2 e2 f2"
  shows "codec (\<lambda>(x, y) m. p2 y (p1 x m))
    (\<lambda>u. let (x, u1) = g1 u in (let (y, u2) = g2 u1 in ((x, y), u2)))
    (\<lambda>(x, y). e1 x @ e2 y) (\<lambda>(x, y). f1 x \<and> f2 y)"
  by (rule codec2.pair_codec [OF codec2.intro [OF assms]])

text \<open>
  For any operand and result types that meet the contract: if the wrapper, having read the operand
  back, answers \<open>ret\<close> and marshals \<open>r\<close>, the caller gets \<open>ret\<close> and \<open>r\<close>.
\<close>

lemma rpc_path_delivers:
  assumes A: "codec put get enc fits" "fits x" and R: "codec pr gr er fr" "fr r"
    and h: "req_header_fits hq" "0 \<le> ret" "ret < 2 ^ 31"
    and len: "length (enc x) + 24 < 2 ^ 31" "length (er r) + 24 < 2 ^ 31"
    and fn: "\<And>u u'. get u = (x, u') \<Longrightarrow> okdone u' \<Longrightarrow> fn u marshall_init s = (ret, pr r marshall_init, s')"
  shows "rpc_path hq (put x marshall_init) fn gr r0 s = (Ret (ret, r), s')"
proof -
  note p = codec.marshalled [OF A] and q = codec.marshalled [OF R]
  let ?m = "pack_req_header hq (put x marshall_init)"
  let ?hr = "\<lparr>rp_xid = rq_xid hq, rp_ret = ret\<rparr>"
  let ?n = "pack_reply_header ?hr (pr r marshall_init)"
  have m: "m_wf ?m" "mind ?m = 24 + length (enc x)"
    using pack_req_header_spec [OF p(1), of hq] p(2) by (simp_all add: rpc_header_sz_def)
  have n: "m_wf ?n" "mind ?n = 24 + length (er r)"
    using pack_reply_header_spec [OF q(1), of ?hr] q(2) by (simp_all add: rpc_header_sz_def)
  have lm: "length (sent ?m) < 2 ^ 31" and ln: "length (sent ?n) < 2 ^ 31"
    using carries_sent [OF m(1)] carries_sent [OF n(1)] m(2) n(2) len by (simp_all add: carries_def)
  have fr: "reply_header_fits ?hr" using h by (simp add: reply_header_fits_def req_header_fits_def)
  note q1 = codec.request_roundtrip [OF A h(1) carries_sent [OF m(1)] lm]
  note q2 = codec.reply_roundtrip [OF R fr carries_sent [OF n(1)] ln]
  have "fn (received (sent ?m)) marshall_init s = (ret, pr r marshall_init, s')"
    using q1 fn by blast
  then show ?thesis
    using q1 q2 h(2) by (simp add: rpc_path_def call_m_def)
qed

lemmas arg3_codec = codec_pair [OF ull_codec.codec_axioms codec_pair [OF uint_codec.codec_axioms
      string_codec.codec_axioms [of "[]"]]]

lemmas arg4_codec = codec_pair [OF ull_codec.codec_axioms codec_pair [OF string_codec.codec_axioms [of "[]"]
      codec_pair [OF uint_codec.codec_axioms string_codec.codec_axioms [of "[]"]]]]

text \<open>The wrappers \<open>extent_smain.cc\<close> registers for \<open>get\<close> and \<open>put\<close>; \<open>r0\<close> is the indeterminate \<open>int\<close> reply.\<close>

definition get_wrapper :: "uint \<Rightarrow> attr \<Rightarrow> unmarshall \<Rightarrow> marshall \<Rightarrow> extent_server \<Rightarrow> int \<times> marshall \<times> extent_server" where
  "get_wrapper cur junk = reg3_fn u_ull u_uint (u_string []) m_string []
     (\<lambda>i u k buf s. let (st, c, s1) = extent_server_get cur junk i u k buf s
                     in (extent_status_code st, c, s1))"

definition put_wrapper :: "int \<Rightarrow> uint \<Rightarrow> attr \<Rightarrow> unmarshall \<Rightarrow> marshall \<Rightarrow> extent_server \<Rightarrow> int \<times> marshall \<times> extent_server" where
  "put_wrapper r0 cur junk = reg4_fn u_ull (u_string []) u_uint (u_string []) m_int r0
     (\<lambda>i buf u k r s. let (st, s1) = extent_server_put cur junk i buf u k s
                       in (extent_status_code st, r, s1))"

lemma status_code_range: "0 \<le> extent_status_code st" "extent_status_code st < 2 ^ 31"
  by (cases st; simp)+

lemma bytes_length: "length (ull_bytes i) = 8" "length (string_bytes s) = 4 + length s"
  by (simp_all add: ull_bytes_def string_bytes_def)

lemma get_wire:
  assumes g: "extent_server_get cur junk i u k [] s = (st, c, s1)" and "req_header_fits hq"
    and "length k < 2 ^ 30" and "length c < 2 ^ 30"
  shows "rpc_path hq (call3 m_ull m_uint m_string i u k) (get_wrapper cur junk) (u_string buf) buf s
    = (Ret (extent_status_code st, c), s1)"
proof -
  let ?x = "(i, u, k)"
  have fn: "get_wrapper cur junk v marshall_init s = (extent_status_code st, m_string c marshall_init, s1)"
    if "(let (x, u1) = u_ull v in (let (y, u2) = (let (x, u1) = u_uint u1 in (let (y, u2) = u_string [] u1
       in ((x, y), u2))) in ((x, y), u2))) = (?x, v')" and "okdone v'" for v v'
    using that g by (auto simp: get_wrapper_def reg3_fn_def split: prod.splits)
  have "rpc_path hq ((\<lambda>(x, y) m. (\<lambda>(x, y) m. m_string y (m_uint x m)) y (m_ull x m)) ?x marshall_init)
      (get_wrapper cur junk) (u_string buf) buf s = (Ret (extent_status_code st, c), s1)"
    by (rule rpc_path_delivers [OF arg3_codec _ string_codec.codec_axioms [of buf] _ assms(2)])
      (use assms(3,4) fn status_code_range [of st] in \<open>simp_all add: string_fits_def bytes_length\<close>)
  then show ?thesis by (simp add: call3_def)
qed

lemma put_wire:
  assumes g: "extent_server_put cur junk i buf u k s = (st, s1)" and "req_header_fits hq"
    and "length k + length buf < 2 ^ 30" and "- (2 ^ 31) \<le> r0 \<and> r0 < 2 ^ 31"
  shows "rpc_path hq (call4 m_ull m_string m_uint m_string i buf u k) (put_wrapper r0 cur junk) u_int r1 s
    = (Ret (extent_status_code st, r0), s1)"
proof -
  let ?x = "(i, buf, u, k)"
  have fn: "put_wrapper r0 cur junk v marshall_init s = (extent_status_code st, m_int r0 marshall_init, s1)"
    if "(let (x, u1) = u_ull v in (let (y, u2) = (let (x, u1) = u_string [] u1 in (let (y, u2) =
        (let (x, u1) = u_uint u1 in (let (y, u2) = u_string [] u1 in ((x, y), u2)))
       in ((x, y), u2))) in ((x, y), u2))) = (?x, v')" and "okdone v'" for v v'
    using that g by (auto simp: put_wrapper_def reg4_fn_def split: prod.splits)
  have "rpc_path hq ((\<lambda>(x, y) m. (\<lambda>(x, y) m. (\<lambda>(x, y) m. m_string y (m_uint x m)) y (m_string x m)) y
      (m_ull x m)) ?x marshall_init)
      (put_wrapper r0 cur junk) u_int r1 s = (Ret (extent_status_code st, r0), s1)"
    by (rule rpc_path_delivers [OF arg4_codec _ int_codec.codec_axioms assms(4,2)])
      (use assms(3) fn status_code_range [of st] in \<open>simp_all add: string_fits_def bytes_length\<close>)
  then show ?thesis by (simp add: call4_def)
qed

text \<open>
  The file system client's view of a delivered call is what the RPC library does.  For \<open>get\<close>
  and \<open>put\<close>: marshalling the arguments, the server's unpacking, the registered wrapper with the
  extent server's handler, marshalling the reply and the client's unpacking together return the
  status, the value and the server state that the stub's model returns.
\<close>

lemma delivered_calls:
  assumes "w_fate w = Delivered" and "req_header_fits hq"
    and "length (w_key w) + length buf < 2 ^ 30" and "- (2 ^ 31) \<le> r0 \<and> r0 < 2 ^ 31"
    and "case contents (w_ext w) i of None \<Rightarrow> True | Some c \<Rightarrow> length c < 2 ^ 30"
  shows "rpc_path hq (call3 m_ull m_uint m_string i (w_uid w) (w_key w))
      (get_wrapper (w_now w) (w_junk w)) (u_string buf) buf (w_ext w)
    = (let (r, c, w') = extent_client_get i buf w in (Ret (r, c), w_ext w')) \<and>
    rpc_path hq (call4 m_ull m_string m_uint m_string i buf (w_uid w) (w_key w))
      (put_wrapper r0 (w_now w) (w_junk w)) u_int r1 (w_ext w)
    = (let (r, w') = extent_client_put i buf w in (Ret (r, r0), w_ext w'))"
proof -
  obtain st c s1 where g: "extent_server_get (w_now w) (w_junk w) i (w_uid w) (w_key w) [] (w_ext w)
      = (st, c, s1)" by (metis prod_cases3)
  then have "length c < 2 ^ 30"
    using assms(5) by (auto simp: get_eq split: option.splits if_splits)
  moreover obtain st2 s2 where p: "extent_server_put (w_now w) (w_junk w) i buf (w_uid w) (w_key w) (w_ext w)
      = (st2, s2)" by (metis prod.exhaust)
  ultimately show ?thesis
    using get_wire [OF g assms(2), of buf] put_wire [OF p assms(2,3,4), of r1] assms(1,3) g p
    by (simp add: extent_client_get_def extent_client_put_def extent_call_def)
qed

lemma delivered_calls_demo:
  "rpc_path demo_req (call3 m_ull m_uint m_string 1 7 ''k'') (get_wrapper 0 undefined) (u_string []) []
     (extent_server_init 0 0 0)
   = (let (r, c, w') = extent_client_get 1 [] \<lparr>w_ext = extent_server_init 0 0 0,
        w_locks = lock_server_init, w_clt = 1, w_uid = 7, w_gid = 7, w_key = ''k'',
        w_script = (\<lambda>_. (Delivered, 0, undefined)), w_rpcs = 0\<rparr> in (Ret (r, c), w_ext w'))"
proof -
  let ?w = "\<lparr>w_ext = extent_server_init 0 0 0, w_locks = lock_server_init, w_clt = 1, w_uid = 7,
    w_gid = 7, w_key = ''k'', w_script = (\<lambda>_. (Delivered, 0, undefined)), w_rpcs = 0\<rparr> :: world"
  have "w_fate ?w = Delivered" "req_header_fits demo_req" "length (w_key ?w) + length [] < 2 ^ 30"
    "- (2 ^ 31) \<le> (0 :: int) \<and> (0 :: int) < 2 ^ 31"
    "case contents (w_ext ?w) 1 of None \<Rightarrow> True | Some c \<Rightarrow> length c < 2 ^ 30"
    by (simp_all add: w_fate_def req_header_fits_def demo_req_def extent_server_init_def root_inum_def)
  from conjunct1 [OF delivered_calls [OF this]] show ?thesis
    by (simp add: w_now_def w_junk_def)
qed

end
