(* ===== verification/Rpc_Server.thy ===== *)
theory Rpc_Server
  imports Rpc_Typed
begin

text \<open>
  The RPC server \<open>rpcs\<close> (\<open>rpc/rpc.h\<close>, \<open>rpc/rpc.cc\<close>): the table of procedures, the window of
  remembered replies per client with the duplicate check, the table of connections with their
  reference counts, and the dispatcher.  A connection is a number; whether it is dead and when it
  was created are arguments.  Messages sent are recorded in \<open>out\<close>.
\<close>

section \<open>State\<close>

type_synonym conn = nat

record reply_t =
  rp_id :: uint
  cb_present :: bool
  rp_buf :: "byte option list"
  rp_sz :: nat

definition reply_t_new :: "uint \<Rightarrow> reply_t" where
  "reply_t_new x = \<lparr>rp_id = x, cb_present = False, rp_buf = [], rp_sz = 0\<rparr>"

datatype rpcstate = New | Inprogress | Done "byte option list" nat | Forgotten

type_synonym 's handler = "unmarshall \<Rightarrow> marshall \<Rightarrow> 's \<Rightarrow> int \<times> marshall \<times> 's"

record 's rpcs =
  nonce :: uint
  reply_window :: "uint \<rightharpoonup> reply_t list"
  maxima_xid_rep :: "uint \<rightharpoonup> uint"
  conns :: "uint \<rightharpoonup> conn"
  counting :: int
  curr_counts :: int
  counts :: "int \<rightharpoonup> int"
  procs :: "int \<rightharpoonup> 's handler"
  refs :: "conn \<Rightarrow> int"
  out :: "(conn \<times> byte option list \<times> nat) list"
  app :: 's

section \<open>Registration, bind and statistics\<close>

definition rpcs_reg1 :: "int \<Rightarrow> 's handler \<Rightarrow> 's rpcs \<Rightarrow> 's rpcs outcome" where
  "rpcs_reg1 proc h s =
     (if procs s proc \<noteq> None then Aborted else Ret (s\<lparr>procs := (procs s)(proc \<mapsto> h)\<rparr>))"

definition rpcs_rpcbind :: "uint \<Rightarrow> int \<Rightarrow> int \<Rightarrow> 's \<Rightarrow> int \<times> int \<times> 's" where
  "rpcs_rpcbind n a r s = (0, sint n, s)"

text \<open>The constructor: \<open>rnd\<close> is \<open>random()\<close>, and the bind handler is registered.\<close>

definition rpcs_init :: "uint \<Rightarrow> int \<Rightarrow> int \<Rightarrow> 's \<Rightarrow> 's rpcs outcome" where
  "rpcs_init rnd count junk a =
     rpcs_reg1 rpc_bind_proc (reg1_fn u_int m_int junk (rpcs_rpcbind rnd))
       \<lparr>nonce = rnd, reply_window = Map.empty, maxima_xid_rep = Map.empty, conns = Map.empty,
        counting = count, curr_counts = count, counts = Map.empty, procs = Map.empty,
        refs = (\<lambda>_. 0), out = [], app = a\<rparr>"

definition rpcs_updatestat :: "int \<Rightarrow> 's rpcs \<Rightarrow> 's rpcs" where
  "rpcs_updatestat proc s =
     (let c = curr_counts s - 1;
          s1 = s\<lparr>counts := (counts s)(proc \<mapsto> subscript 0 (counts s) proc + 1), curr_counts := c\<rparr>
      in if c = 0 then s1\<lparr>curr_counts := counting s1\<rparr> else s1)"

section \<open>The window of replies\<close>

text \<open>
  The loop of \<open>checkduplicate_and_update\<close> over a client's window: \<open>pre\<close> is the part before the
  iterator, the other list the part from the iterator on.  An entry with the wanted number ends the
  loop.  An entry up to \<open>xid_rep\<close> is erased; \<open>erase\<close> returns the next position and the loop's \<open>it++\<close>
  skips it.  When the last entry is erased, \<open>it++\<close> increments the end iterator: undefined in the
  C++ standard, and the first entry in libstdc++, whose list is a ring through the end node.
\<close>

function window_scan ::
  "uint \<Rightarrow> uint \<Rightarrow> reply_t list \<Rightarrow> reply_t list \<Rightarrow> reply_t option \<times> reply_t list" where
  "window_scan x xid_rep pre [] = (None, pre)"
| "window_scan x xid_rep pre (r # rest) =
     (if rp_id r = x then (Some r, pre @ r # rest)
      else if rp_id r \<le> xid_rep
      then (case rest of
              [] \<Rightarrow> window_scan x xid_rep [] pre
            | skipped # rest' \<Rightarrow> window_scan x xid_rep (pre @ [skipped]) rest')
      else window_scan x xid_rep (pre @ [r]) rest)"
  by pat_completeness auto
termination
  by (relation "measures [\<lambda>(x, xid_rep, pre, rest). length pre + length rest,
      \<lambda>(x, xid_rep, pre, rest). length rest]") auto

definition checkduplicate_and_update :: "uint \<Rightarrow> uint \<Rightarrow> uint \<Rightarrow> 's rpcs \<Rightarrow> rpcstate \<times> 's rpcs" where
  "checkduplicate_and_update clt x xid_rep s =
     (let m0 = subscript xid_rep (maxima_xid_rep s) clt;
          s1 = s\<lparr>maxima_xid_rep := (maxima_xid_rep s)(clt \<mapsto> m0)\<rparr> in
      if m0 > x then (Forgotten, s1)
      else
        let s2 = (if m0 < xid_rep
                  then s1\<lparr>maxima_xid_rep := (maxima_xid_rep s1)(clt \<mapsto> xid_rep)\<rparr> else s1);
            (found, w) = window_scan x xid_rep [] (subscript [] (reply_window s2) clt);
            s3 = s2\<lparr>reply_window := (reply_window s2)(clt \<mapsto> w)\<rparr>
        in case found of
             Some r \<Rightarrow> (if cb_present r then Done (rp_buf r) (rp_sz r) else Inprogress, s3)
           | None \<Rightarrow> (New, s3\<lparr>reply_window := (reply_window s3)(clt \<mapsto> w @ [reply_t_new x])\<rparr>))"

fun window_reply :: "uint \<Rightarrow> byte option list \<Rightarrow> nat \<Rightarrow> reply_t list \<Rightarrow> reply_t list" where
  "window_reply x b sz [] = []"
| "window_reply x b sz (r # rest) =
     (if rp_id r = x then r\<lparr>cb_present := True, rp_buf := b, rp_sz := sz\<rparr> # rest
      else r # window_reply x b sz rest)"

definition add_reply :: "uint \<Rightarrow> uint \<Rightarrow> byte option list \<Rightarrow> nat \<Rightarrow> 's rpcs \<Rightarrow> 's rpcs" where
  "add_reply clt x b sz s =
     s\<lparr>reply_window := (reply_window s)
         (clt \<mapsto> window_reply x b sz (subscript [] (reply_window s) clt))\<rparr>"

definition free_reply_window :: "'s rpcs \<Rightarrow> 's rpcs" where
  "free_reply_window s = s\<lparr>reply_window := Map.empty\<rparr>"

section \<open>The dispatcher\<close>

definition send :: "conn \<Rightarrow> byte option list \<Rightarrow> nat \<Rightarrow> 's rpcs \<Rightarrow> 's rpcs" where
  "send c b sz s = s\<lparr>out := out s @ [(c, b, sz)]\<rparr>"

definition incref :: "conn \<Rightarrow> 's rpcs \<Rightarrow> 's rpcs" where
  "incref c s = s\<lparr>refs := (refs s)(c := refs s c + 1)\<rparr>"

definition decref :: "conn \<Rightarrow> 's rpcs \<Rightarrow> 's rpcs" where
  "decref c s = s\<lparr>refs := (refs s)(c := refs s c - 1)\<rparr>"

text \<open>\<open>connection::compare\<close>: creation times as seconds and microseconds.\<close>

definition connection_compare :: "(conn \<Rightarrow> int \<times> int) \<Rightarrow> conn \<Rightarrow> conn \<Rightarrow> int" where
  "connection_compare born a b =
     (if fst (born a) > fst (born b) then 1
      else if fst (born a) < fst (born b) then - 1
      else if snd (born a) > snd (born b) then 1
      else if snd (born a) < snd (born b) then - 1
      else 0)"

text \<open>Remember the newest connection of a client.\<close>

definition save_conn :: "(conn \<Rightarrow> int \<times> int) \<Rightarrow> uint \<Rightarrow> conn \<Rightarrow> 's rpcs \<Rightarrow> 's rpcs" where
  "save_conn born clt c s =
     (case conns s clt of
        None \<Rightarrow> (incref c s)\<lparr>conns := (conns s)(clt \<mapsto> c)\<rparr>
      | Some c0 \<Rightarrow>
          if connection_compare born c0 c < 0
          then (incref c (decref c0 s))\<lparr>conns := (conns s)(clt \<mapsto> c)\<rparr> else s)"

text \<open>
  The connection the reply goes to: the request's own, or the client's newest when that one is dead.
  For a client without a recorded connection the subscript creates a null pointer: \<open>None\<close>.
\<close>

definition reply_conn :: "(conn \<Rightarrow> bool) \<Rightarrow> uint \<Rightarrow> conn \<Rightarrow> 's rpcs \<Rightarrow> (conn \<times> 's rpcs) option" where
  "reply_conn dead clt c s =
     (if dead c
      then case conns s clt of
             None \<Rightarrow> None
           | Some c1 \<Rightarrow> if c \<noteq> c1 then Some (c1, incref c1 (decref c s)) else Some (c, s)
      else Some (c, s))"

text \<open>The part of \<open>dispatch\<close> for a new request, behind the duplicate check.\<close>

definition dispatch_new ::
  "(conn \<Rightarrow> bool) \<Rightarrow> req_header \<Rightarrow> 's handler \<Rightarrow> unmarshall \<Rightarrow> conn \<Rightarrow> 's rpcs \<Rightarrow> 's rpcs outcome" where
  "dispatch_new dead h f req c s =
     (let s1 = (if counting s \<noteq> 0 then rpcs_updatestat (rq_proc h) s else s);
          (ret, rep, a) = f req marshall_init (app s1);
          s2 = s1\<lparr>app := a\<rparr> in
      if ret < 0 then Aborted
      else
        let (b1, sz1, _) = m_take_buf (pack_reply_header \<lparr>rp_xid = rq_xid h, rp_ret = ret\<rparr> rep);
            s3 = (if rq_clt_nonce h > 0
                  then add_reply (rq_clt_nonce h) (word_of_int (rq_xid h)) b1 sz1 s2 else s2)
        in case reply_conn dead (rq_clt_nonce h) c s3 of
             None \<Rightarrow> Undef
           | Some (c', s4) \<Rightarrow> Ret (decref c' (send c' b1 sz1 s4)))"

definition refuse :: "req_header \<Rightarrow> rpc_failure \<Rightarrow> conn \<Rightarrow> 's rpcs \<Rightarrow> 's rpcs" where
  "refuse h e c s =
     (let m = pack_reply_header \<lparr>rp_xid = rq_xid h, rp_ret = rpc_failure_code e\<rparr> marshall_init
      in send c (mbuf m) (mind m) s)"

definition dispatch ::
  "(conn \<Rightarrow> bool) \<Rightarrow> (conn \<Rightarrow> int \<times> int) \<Rightarrow> byte list \<Rightarrow> conn \<Rightarrow> 's rpcs \<Rightarrow> 's rpcs outcome" where
  "dispatch dead born buf c s =
     (let (h, req) = unpack_req_header (unmarshall_of buf) in
      if \<not> uok req then Ret (decref c s)
      else if rq_srv_nonce h \<noteq> 0 \<and> rq_srv_nonce h \<noteq> nonce s then Ret (refuse h Oldsrv_failure c s)
      else case procs s (rq_proc h) of
        None \<Rightarrow> Aborted
      | Some f \<Rightarrow>
          if rq_clt_nonce h = 0 then dispatch_new dead h f req c s
          else
            let s1 = s\<lparr>reply_window := touch [] (rq_clt_nonce h) (reply_window s)\<rparr>;
                s2 = save_conn born (rq_clt_nonce h) c s1;
                (st, s3) = checkduplicate_and_update (rq_clt_nonce h) (word_of_int (rq_xid h))
                             (word_of_int (rq_xid_rep h)) s2
            in case st of
                 New \<Rightarrow> dispatch_new dead h f req c s3
               | Inprogress \<Rightarrow> Ret (decref c s3)
               | Done b sz \<Rightarrow> Ret (decref c (send c b sz s3))
               | Forgotten \<Rightarrow> Ret (decref c (refuse h Atmostonce_failure c s3)))"

text \<open>
  \<open>got_pdu\<close>: \<open>accepted\<close> says whether the thread pool took the job; \<open>reachable1\<close> and \<open>reachable2\<close> are the
  two reads of \<open>reachable_\<close>.
\<close>

definition rpcs_got_pdu :: "bool \<Rightarrow> bool \<Rightarrow> bool \<Rightarrow> conn \<Rightarrow> 's rpcs \<Rightarrow> bool \<times> 's rpcs" where
  "rpcs_got_pdu reachable1 accepted reachable2 c s =
     (if \<not> reachable1 then (True, s)
      else let s1 = incref c s in
        (accepted, if \<not> accepted \<or> \<not> reachable2 then decref c s1 else s1))"

section \<open>The duplicate check\<close>

text \<open>The check in one equation.\<close>

lemma check_eq:
  assumes "m = subscript xid_rep (maxima_xid_rep s) clt"
    and "window_scan x xid_rep [] (subscript [] (reply_window s) clt) = (found, w)"
  shows "checkduplicate_and_update clt x xid_rep s =
    (if m > x then (Forgotten, s\<lparr>maxima_xid_rep := (maxima_xid_rep s)(clt \<mapsto> m)\<rparr>)
     else (case found of None \<Rightarrow> New | Some r \<Rightarrow> if cb_present r then Done (rp_buf r) (rp_sz r) else Inprogress,
       s\<lparr>maxima_xid_rep := (maxima_xid_rep s)(clt \<mapsto> max m xid_rep),
         reply_window := (reply_window s)(clt \<mapsto> (case found of None \<Rightarrow> w @ [reply_t_new x] | Some r \<Rightarrow> w))\<rparr>))"
proof -
  have "max m xid_rep = (if m < xid_rep then xid_rep else m)" by (auto simp: max_def)
  with assms show ?thesis
    by (cases "m < xid_rep"; cases found) (simp_all add: checkduplicate_and_update_def Let_def)
qed

lemma check_cases:
  obtains (forgotten) "checkduplicate_and_update clt x xid_rep s =
      (Forgotten, s\<lparr>maxima_xid_rep := (maxima_xid_rep s)(clt \<mapsto> subscript xid_rep (maxima_xid_rep s) clt)\<rparr>)"
      "x < subscript xid_rep (maxima_xid_rep s) clt"
  | (checked) st w where "checkduplicate_and_update clt x xid_rep s =
      (st, s\<lparr>maxima_xid_rep := (maxima_xid_rep s)(clt \<mapsto> max (subscript xid_rep (maxima_xid_rep s) clt) xid_rep),
             reply_window := (reply_window s)(clt \<mapsto> w)\<rparr>)" "st \<noteq> Forgotten"
      "\<not> x < subscript xid_rep (maxima_xid_rep s) clt"
proof -
  obtain found w where p: "window_scan x xid_rep [] (subscript [] (reply_window s) clt) = (found, w)"
    by (metis prod.exhaust)
  show thesis
    using check_eq [OF refl p] that
    by (cases "x < subscript xid_rep (maxima_xid_rep s) clt"; cases found) (simp_all split: if_splits)
qed

lemma check_frame [simp]:
  "refs (snd (checkduplicate_and_update clt x xid_rep s)) = refs s"
  "conns (snd (checkduplicate_and_update clt x xid_rep s)) = conns s"
  "out (snd (checkduplicate_and_update clt x xid_rep s)) = out s"
  "app (snd (checkduplicate_and_update clt x xid_rep s)) = app s"
  by (cases rule: check_cases [of clt x xid_rep s]; simp)+

text \<open>
  Serving one arriving request of a client as far as the windows go: the check, and for a new
  request the recording of its reply \<open>b\<close>.
\<close>

definition serve ::
  "uint \<Rightarrow> (uint \<Rightarrow> byte option list) \<Rightarrow> uint \<times> uint \<Rightarrow> 's rpcs \<Rightarrow> rpcstate \<times> 's rpcs" where
  "serve clt b q s =
     (let (st, s1) = checkduplicate_and_update clt (fst q) (snd q) s
      in (st, if st = New then add_reply clt (fst q) (b (fst q)) (length (b (fst q))) s1 else s1))"

fun serve_all ::
  "uint \<Rightarrow> (uint \<Rightarrow> byte option list) \<Rightarrow> (uint \<times> uint) list \<Rightarrow> 's rpcs \<Rightarrow> rpcstate list \<times> 's rpcs" where
  "serve_all clt b [] s = ([], s)"
| "serve_all clt b (q # qs) s =
     (let (st, s1) = serve clt b q s; (sts, s2) = serve_all clt b qs s1 in (st # sts, s2))"

lemma serve_all_append:
  "serve_all clt b (qs @ rs) s =
     (let (sts, s1) = serve_all clt b qs s; (sts', s2) = serve_all clt b rs s1 in (sts @ sts', s2))"
  by (induction qs arbitrary: s) (auto simp: case_prod_beta Let_def)

text \<open>The state of a client that has one call at a time: call \<open>n\<close> was served last.\<close>

definition served_upto :: "uint \<Rightarrow> (uint \<Rightarrow> byte option list) \<Rightarrow> uint \<Rightarrow> 's rpcs \<Rightarrow> bool" where
  "served_upto clt b n s \<longleftrightarrow>
     (if n = 0 then reply_window s clt = None \<and> maxima_xid_rep s clt = None
      else reply_window s clt = Some [\<lparr>rp_id = n, cb_present = True, rp_buf = b n, rp_sz = length (b n)\<rparr>] \<and>
        maxima_xid_rep s clt = Some (n - 1))"

lemma serve_next:
  assumes "served_upto clt b n s" and "n < n + 1"
  shows "fst (serve clt b (n + 1, n) s) = New \<and> served_upto clt b (n + 1) (snd (serve clt b (n + 1, n) s))"
proof -
  have ne: "n + 1 \<noteq> 0" "n \<noteq> n + 1" using assms(2) by auto
  have m: "\<not> n + 1 < subscript n (maxima_xid_rep s) clt" "max (subscript n (maxima_xid_rep s) clt) n = n"
    and sc: "window_scan (n + 1) n [] (subscript [] (reply_window s) clt) = (None, [])"
  proof -
    have "n - 1 < n" if "n \<noteq> 0"
    proof -
      have "0 < unat n" using that by (simp add: unat_gt_0)
      then show ?thesis by (simp add: word_less_nat_alt unat_minus_one that)
    qed
    then show "\<not> n + 1 < subscript n (maxima_xid_rep s) clt"
      "max (subscript n (maxima_xid_rep s) clt) n = n"
      "window_scan (n + 1) n [] (subscript [] (reply_window s) clt) = (None, [])"
      using assms ne by (auto simp: served_upto_def max_def split: if_splits)
  qed
  show ?thesis
    using check_eq [OF refl sc] m ne(1)
    by (simp add: serve_def served_upto_def reply_t_new_def add_reply_def)
qed

lemma serve_again:
  assumes "served_upto clt b (n + 1) s" and "n < n + 1"
  shows "fst (serve clt b (n + 1, n) s) = Done (b (n + 1)) (length (b (n + 1))) \<and>
    served_upto clt b (n + 1) (snd (serve clt b (n + 1, n) s))"
proof -
  let ?r = "\<lparr>rp_id = n + 1, cb_present = True, rp_buf = b (n + 1), rp_sz = length (b (n + 1))\<rparr>"
  have ne: "n + 1 \<noteq> 0" using assms(2) by auto
  then have w: "reply_window s clt = Some [?r]" "maxima_xid_rep s clt = Some n"
    using assms(1) by (simp_all add: served_upto_def)
  have sc: "window_scan (n + 1) n [] (subscript [] (reply_window s) clt) = (Some ?r, [?r])"
    using w by simp
  show ?thesis
    using check_eq [OF refl sc] w ne assms(2) by (simp add: serve_def served_upto_def map_upd_triv)
qed

lemma serve_repeat:
  assumes "served_upto clt b (n + 1) s" and "n < n + 1"
  shows "fst (serve_all clt b (replicate d (n + 1, n)) s) = replicate d (Done (b (n + 1)) (length (b (n + 1)))) \<and>
    served_upto clt b (n + 1) (snd (serve_all clt b (replicate d (n + 1, n)) s))"
  using assms(1)
proof (induction d arbitrary: s)
  case (Suc d)
  obtain st s1 where s1: "serve clt b (n + 1, n) s = (st, s1)" by (metis prod.exhaust)
  have 1: "st = Done (b (n + 1)) (length (b (n + 1)))" "served_upto clt b (n + 1) s1"
    using serve_again [OF Suc.prems assms(2)] s1 by simp_all
  show ?case using Suc.IH [OF 1(2)] s1 1(1) by (simp add: case_prod_beta)
qed simp

section \<open>At most once\<close>

definition seq_history :: "(nat \<Rightarrow> nat) \<Rightarrow> nat \<Rightarrow> (uint \<times> uint) list" where
  "seq_history d n = concat (map (\<lambda>i. replicate (Suc (d i)) (of_nat i + 1, of_nat i)) [0..<n])"

definition seq_verdicts :: "(uint \<Rightarrow> byte option list) \<Rightarrow> (nat \<Rightarrow> nat) \<Rightarrow> nat \<Rightarrow> rpcstate list" where
  "seq_verdicts b d n =
     concat (map (\<lambda>i. New # replicate (d i) (Done (b (of_nat i + 1)) (length (b (of_nat i + 1))))) [0..<n])"

lemma of_nat_step: "Suc i < 2 ^ 32 \<Longrightarrow> (of_nat i :: uint) < of_nat i + 1"
proof -
  assume "Suc i < 2 ^ 32"
  then have "unat (of_nat i :: uint) = i" "unat (of_nat (Suc i) :: uint) = Suc i"
    by (simp_all only: unat_of_nat take_bit_nat_eq_self) (simp_all add: take_bit_nat_eq_self)
  then show ?thesis by (simp add: word_less_nat_alt add.commute)
qed

lemma serve_history:
  assumes "served_upto clt b 0 s" and "n < 2 ^ 32"
  shows "fst (serve_all clt b (seq_history d n) s) = seq_verdicts b d n \<and>
    served_upto clt b (of_nat n) (snd (serve_all clt b (seq_history d n) s))"
  using assms(2)
proof (induction n)
  case 0
  then show ?case using assms(1) by (simp add: seq_history_def seq_verdicts_def)
next
  case (Suc n)
  let ?x = "of_nat n :: uint"
  obtain sts s1 where 1: "serve_all clt b (seq_history d n) s = (sts, s1)" by (metis prod.exhaust)
  with Suc have ih: "sts = seq_verdicts b d n" "served_upto clt b ?x s1" by simp_all
  have lt: "?x < ?x + 1" using Suc.prems by (rule of_nat_step)
  obtain st s2 where 2: "serve clt b (?x + 1, ?x) s1 = (st, s2)" by (metis prod.exhaust)
  have nx: "st = New" "served_upto clt b (?x + 1) s2" using serve_next [OF ih(2) lt] 2 by simp_all
  have h: "seq_history d (Suc n) = seq_history d n @ (?x + 1, ?x) # replicate (d n) (?x + 1, ?x)"
    "seq_verdicts b d (Suc n) = seq_verdicts b d n @ New #
       replicate (d n) (Done (b (?x + 1)) (length (b (?x + 1))))"
    by (simp_all add: seq_history_def seq_verdicts_def)
  show ?case
    using serve_repeat [OF nx(2) lt, of "d n"] 1 2 ih(1) nx(1)
    unfolding h by (simp add: serve_all_append case_prod_beta add.commute)
qed

text \<open>
  Exactly once for a client with one call at a time.  Let a new client issue calls \<open>1 .. n\<close>,
  each acknowledging the one before, and let every request arrive any number of times before the
  next call.  Then each call is new exactly once, at its first arrival, and every further arrival
  is answered with the recorded reply of that call.
\<close>

lemma sequential_exactly_once:
  assumes "reply_window s clt = None" and "maxima_xid_rep s clt = None" and "n < 2 ^ 32"
  shows "fst (serve_all clt b (seq_history d n) s) = seq_verdicts b d n"
proof -
  have "served_upto clt b 0 s" using assms(1,2) by (simp add: served_upto_def)
  from serve_history [OF this assms(3)] show ?thesis by (rule conjunct1)
qed

definition demo_rpcs :: "unit rpcs" where
  "demo_rpcs = \<lparr>nonce = 9, reply_window = Map.empty, maxima_xid_rep = Map.empty, conns = Map.empty,
     counting = 0, curr_counts = 0, counts = Map.empty, procs = Map.empty, refs = (\<lambda>_. 0), out = [],
     app = ()\<rparr>"

lemma sequential_exactly_once_demo:
  "fst (serve_all 77 (\<lambda>_. [Some 1]) (seq_history (\<lambda>_. 1) 2) demo_rpcs)
     = [New, Done [Some 1] 1, New, Done [Some 1] 1]"
proof -
  have "reply_window demo_rpcs 77 = None" "maxima_xid_rep demo_rpcs 77 = None" "(2 :: nat) < 2 ^ 32"
    by (simp_all add: demo_rpcs_def)
  from sequential_exactly_once [OF this, of "\<lambda>_. [Some 1]" "\<lambda>_. 1"] show ?thesis
    by (simp add: seq_verdicts_def upt_rec)
qed

text \<open>
  The request that has just been acknowledged can run again.  When such a client's call
  \<open>n + 1\<close> has been served, whose request acknowledged call \<open>n\<close>, a late copy of request \<open>n\<close> is
  judged new instead of forgotten.
\<close>

lemma acknowledged_request_runs_again:
  assumes "served_upto clt b (n + 1) s" and "n < n + 1" and "0 < n"
  shows "fst (checkduplicate_and_update clt n (n - 1) s) = New"
proof -
  let ?r = "\<lparr>rp_id = n + 1, cb_present = True, rp_buf = b (n + 1), rp_sz = length (b (n + 1))\<rparr>"
  have ne: "n + 1 \<noteq> 0" using assms(2) by auto
  then have w: "reply_window s clt = Some [?r]" "maxima_xid_rep s clt = Some n"
    using assms(1) by (simp_all add: served_upto_def)
  have "n - 1 < n + 1"
  proof -
    have "n - 1 < n" using assms(3) by (simp add: word_less_nat_alt unat_minus_one unat_gt_0)
    then show ?thesis using assms(2) by simp
  qed
  then have sc: "window_scan n (n - 1) [] (subscript [] (reply_window s) clt) = (None, [?r])"
    using w assms(2) by auto
  show ?thesis using check_eq [OF refl sc] w by simp
qed

lemma acknowledged_request_runs_again_demo:
  "fst (checkduplicate_and_update 77 2 1 (demo_rpcs\<lparr>
     reply_window := [77 \<mapsto> [\<lparr>rp_id = 3, cb_present = True, rp_buf = [], rp_sz = 0\<rparr>]],
     maxima_xid_rep := [77 \<mapsto> 2]\<rparr>)) = New"
  using acknowledged_request_runs_again [of 77 "\<lambda>_. []" 2 "demo_rpcs\<lparr>
     reply_window := [77 \<mapsto> [\<lparr>rp_id = 3, cb_present = True, rp_buf = [], rp_sz = 0\<rparr>]],
     maxima_xid_rep := [77 \<mapsto> 2]\<rparr>"]
  by (simp add: served_upto_def)

text \<open>
  A request can run twice although its reply is still remembered.  Calls 1 and 2 are answered;
  call 4, which acknowledges both, arrives before call 3 and then once more.  The second time the
  loop erases the entry of call 2 and steps over the entry of call 4: the verdict is new again.
\<close>

lemma remembered_request_runs_again:
  "fst (serve_all 77 (\<lambda>_. []) [(1, 0), (2, 0), (4, 2), (4, 2)] demo_rpcs) = [New, New, New, New]"
  by (simp add: demo_rpcs_def serve_def checkduplicate_and_update_def reply_t_new_def add_reply_def Let_def
      subscript_def)

text \<open>
  C32: what is forgotten stays forgotten.  However requests of however many clients arrive
  afterwards, a request numbered below what its client has acknowledged is never judged new.
\<close>

theorem forgotten_for_good:
  assumes "maxima_xid_rep s clt = Some m" and "x < m"
  shows "fst (checkduplicate_and_update clt x xid_rep
    (fold (\<lambda>(c, q) s. snd (serve c (b c) q s)) qs s)) = Forgotten"
proof -
  have step: "\<exists>m'. maxima_xid_rep (snd (serve c bb q t)) clt = Some m' \<and> m \<le> m'"
    if "maxima_xid_rep t clt = Some k" and "m \<le> k" for c bb q k and t :: "'a rpcs"
    using that
    by (cases rule: check_cases [of c "fst q" "snd q" t])
      (auto simp: serve_def add_reply_def max_def intro: order_trans)
  have "\<exists>m'. maxima_xid_rep (fold (\<lambda>(c, q) s. snd (serve c (b c) q s)) qs t) clt = Some m' \<and> m \<le> m'"
    if "maxima_xid_rep t clt = Some k" and "m \<le> k" for k and t :: "'a rpcs"
    using that
  proof (induction qs arbitrary: t k)
    case (Cons q qs)
    obtain k' where "maxima_xid_rep (snd (serve (fst q) (b (fst q)) (snd q) t)) clt = Some k'" "m \<le> k'"
      using step [OF Cons.prems] by blast
    from Cons.IH [OF this] show ?case by (simp add: case_prod_beta)
  qed auto
  from this [OF assms(1) order_refl] obtain m' where
    "maxima_xid_rep (fold (\<lambda>(c, q) s. snd (serve c (b c) q s)) qs s) clt = Some m'" "m \<le> m'" by blast
  with assms(2) show ?thesis
    by (cases rule: check_cases [of clt x xid_rep "fold (\<lambda>(c, q) s. snd (serve c (b c) q s)) qs s"]) auto
qed

theorem forgotten_for_good_witness:
  "fst (checkduplicate_and_update 77 3 0 (fold (\<lambda>(c, q) s. snd (serve c (\<lambda>_. []) q s)) [(77, 9, 8), (5, 1, 0)]
     (demo_rpcs\<lparr>maxima_xid_rep := [77 \<mapsto> 4]\<rparr>))) = Forgotten"
  by (rule forgotten_for_good [of _ _ 4, where b = "\<lambda>_ _. []"]) simp_all

section \<open>References to connections\<close>

text \<open>The references to a connection held by jobs and threads: all but those of the table \<open>conns\<close>.\<close>

definition holders :: "'s rpcs \<Rightarrow> conn \<Rightarrow> uint set" where
  "holders s x = {k. conns s k = Some x}"

definition owned :: "'s rpcs \<Rightarrow> conn \<Rightarrow> int" where
  "owned s x = refs s x - int (card (holders s x))"

lemma owned_frame:
  "conns t = conns s \<Longrightarrow> refs t = refs s \<Longrightarrow> owned t = owned s"
  by (simp add: owned_def holders_def fun_eq_iff)

lemma owned_decref [simp]: "owned (decref c s) = (owned s)(c := owned s c - 1)"
  by (auto simp: owned_def holders_def decref_def fun_eq_iff)

lemma owned_incref [simp]: "owned (incref c s) = (owned s)(c := owned s c + 1)"
  by (auto simp: owned_def holders_def incref_def fun_eq_iff)

lemma owned_send [simp]: "owned (send c b sz s) = owned s"
  by (rule owned_frame) (simp_all add: send_def)

lemma owned_updatestat [simp]: "owned (rpcs_updatestat p s) = owned s"
  by (rule owned_frame) (simp_all add: rpcs_updatestat_def Let_def)

lemma owned_add_reply [simp]: "owned (add_reply clt x b sz s) = owned s"
  by (rule owned_frame) (simp_all add: add_reply_def)

lemma owned_app [simp]: "owned (s\<lparr>app := a\<rparr>) = owned s" "owned (s\<lparr>reply_window := w\<rparr>) = owned s"
  by (rule owned_frame; simp)+

lemma owned_check [simp]: "owned (snd (checkduplicate_and_update clt x r s)) = owned s"
  by (rule owned_frame) simp_all

text \<open>Entering a connection in the table moves references, it does not lose them.\<close>

lemma holders_upd:
  "holders (s\<lparr>conns := (conns s)(clt \<mapsto> c)\<rparr>) x = (if x = c then insert clt (holders s x) else holders s x - {clt})"
  by (auto simp: holders_def)

lemma owned_save_conn [simp]: "owned (save_conn born clt c s) = owned s"
proof (cases "conns s clt")
  case None
  then have "clt \<notin> holders s x" for x by (simp add: holders_def)
  moreover have "owned ((incref c s)\<lparr>conns := (conns s)(clt \<mapsto> c)\<rparr>) x
      = refs (incref c s) x - int (card (holders (s\<lparr>conns := (conns s)(clt \<mapsto> c)\<rparr>) x))" for x
    by (simp add: owned_def holders_def)
  ultimately show ?thesis
    using None by (auto simp: save_conn_def fun_eq_iff holders_upd incref_def owned_def)
next
  case (Some c0)
  have mem: "clt \<in> holders s x \<longleftrightarrow> x = c0" for x using Some by (auto simp: holders_def)
  have pos: "0 < card (holders s c0)" using mem by (auto simp: card_gt_0_iff)
  have "owned ((incref c (decref c0 s))\<lparr>conns := (conns s)(clt \<mapsto> c)\<rparr>) x = owned s x" if "c0 \<noteq> c" for x
  proof -
    have "owned ((incref c (decref c0 s))\<lparr>conns := (conns s)(clt \<mapsto> c)\<rparr>) x
        = refs (incref c (decref c0 s)) x - int (card (holders (s\<lparr>conns := (conns s)(clt \<mapsto> c)\<rparr>) x))"
      by (simp add: owned_def holders_def)
    then show ?thesis
      using that mem [of x] pos
      by (auto simp: holders_upd incref_def decref_def owned_def card_insert_if card_Diff_singleton)
  qed
  then have moved: "owned ((incref c (decref c0 s))\<lparr>conns := (conns s)(clt \<mapsto> c)\<rparr>) = owned s" if "c0 \<noteq> c"
    using that by blast
  show ?thesis
  proof (cases "connection_compare born c0 c < 0")
    case True
    then have "c0 \<noteq> c" by (auto simp: connection_compare_def)
    from moved [OF this] Some True show ?thesis by (simp only: save_conn_def option.case if_True)
  next
    case False
    with Some show ?thesis by (simp add: save_conn_def)
  qed
qed

lemma owned_reply_conn:
  assumes "reply_conn dead clt c s = Some (c', s')"
  shows "(owned s')(c' := owned s' c' - 1) = (owned s)(c := owned s c - 1)"
  using assms by (auto simp: reply_conn_def fun_eq_iff split: if_splits option.splits)

lemma owned_dispatch_new:
  assumes "dispatch_new dead h f req c s = Ret s'"
  shows "owned s' = (owned s)(c := owned s c - 1)"
proof -
  let ?s1 = "if counting s \<noteq> 0 then rpcs_updatestat (rq_proc h) s else s"
  obtain ret rep a where f: "f req marshall_init (app ?s1) = (ret, rep, a)" by (metis prod_cases3)
  obtain b1 sz1 m where t: "m_take_buf (pack_reply_header \<lparr>rp_xid = rq_xid h, rp_ret = ret\<rparr> rep) = (b1, sz1, m)"
    by (metis prod_cases3)
  let ?s3 = "if rq_clt_nonce h > 0 then add_reply (rq_clt_nonce h) (word_of_int (rq_xid h)) b1 sz1 (?s1\<lparr>app := a\<rparr>)
      else ?s1\<lparr>app := a\<rparr>"
  have "ret \<ge> 0" and "\<exists>c' s4. reply_conn dead (rq_clt_nonce h) c ?s3 = Some (c', s4) \<and>
      s' = decref c' (send c' b1 sz1 s4)"
    using assms f t by (auto simp: dispatch_new_def Let_def split: if_splits option.splits)
  then obtain c' s4 where r: "reply_conn dead (rq_clt_nonce h) c ?s3 = Some (c', s4)"
    "s' = decref c' (send c' b1 sz1 s4)" by blast
  show ?thesis using owned_reply_conn [OF r(1)] r(2) by simp
qed

text \<open>
  The dispatcher gives back the reference its job holds, once, on every path but one: whatever
  the request, if \<open>dispatch\<close> returns, the job's connection has one owner less and no other
  connection's owners changed; only the answer to a request for an older server instance keeps the
  reference for ever.
\<close>

lemma dispatch_releases:
  assumes "dispatch dead born buf c s = Ret s'"
    and "unpack_req_header (unmarshall_of buf) = (h, req)"
  shows "owned s' = (if uok req \<and> rq_srv_nonce h \<noteq> 0 \<and> rq_srv_nonce h \<noteq> nonce s then owned s
    else (owned s)(c := owned s c - 1))"
proof (cases "uok req \<and> \<not> (rq_srv_nonce h \<noteq> 0 \<and> rq_srv_nonce h \<noteq> nonce s)")
  case False
  then show ?thesis
    using assms by (auto simp: dispatch_def refuse_def Let_def split: if_splits)
next
  case True
  let ?k = "rq_clt_nonce h"
  let ?s2 = "save_conn born ?k c (s\<lparr>reply_window := touch [] ?k (reply_window s)\<rparr>)"
  obtain st s3 where ck: "checkduplicate_and_update ?k (word_of_int (rq_xid h)) (word_of_int (rq_xid_rep h)) ?s2
      = (st, s3)" by (metis prod.exhaust)
  have o3: "owned s3 = owned s"
    using owned_check [of ?k "word_of_int (rq_xid h)" "word_of_int (rq_xid_rep h)" ?s2] ck by simp
  have "owned s' = (owned s)(c := owned s c - 1)"
  proof (cases "?k = 0 \<or> st = New")
    case new: True
    obtain f where f: "procs s (rq_proc h) = Some f"
      using assms True by (cases "procs s (rq_proc h)") (simp_all add: dispatch_def)
    have "dispatch dead born buf c s = dispatch_new dead h f req c (if ?k = 0 then s else s3)"
      using assms(2) True new f ck by (cases "?k = 0"; auto simp add: dispatch_def)
    moreover have "owned (if ?k = 0 then s else s3) = owned s" using o3 by simp
    ultimately show ?thesis using owned_dispatch_new assms(1) by metis
  next
    case False
    then show ?thesis
      using assms True ck o3
      by (cases st) (auto simp: dispatch_def refuse_def Let_def split: option.splits)
  qed
  then show ?thesis using True by auto
qed

definition stale_request :: "byte list" where
  "stale_request = replicate 19 0 @ [5, 0, 0, 0, 0]"

lemma dispatch_releases_demo:
  "(\<exists>s'. dispatch (\<lambda>_. False) (\<lambda>_. (0, 0)) stale_request 3 demo_rpcs = Ret s' \<and> owned s' = owned demo_rpcs) \<and>
   (\<exists>s'. dispatch (\<lambda>_. False) (\<lambda>_. (0, 0)) [] 3 demo_rpcs = Ret s' \<and>
      owned s' = (owned demo_rpcs)(3 := owned demo_rpcs 3 - 1))"
proof -
  obtain h1 r1 where u1: "unpack_req_header (unmarshall_of stale_request) = (h1, r1)" by (metis prod.exhaust)
  obtain h2 r2 where u2: "unpack_req_header (unmarshall_of []) = (h2, r2)" by (metis prod.exhaust)
  have "uok (snd (unpack_req_header (unmarshall_of stale_request)))"
    "rq_srv_nonce (fst (unpack_req_header (unmarshall_of stale_request))) = 5"
    "\<not> uok (snd (unpack_req_header (unmarshall_of [])))" by code_simp+
  with u1 u2 have f: "uok r1" "rq_srv_nonce h1 = 5" "\<not> uok r2" by simp_all
  have n: "nonce demo_rpcs = 9" by (simp add: demo_rpcs_def)
  have "dispatch (\<lambda>_. False) (\<lambda>_. (0, 0)) stale_request 3 demo_rpcs = Ret (refuse h1 Oldsrv_failure 3 demo_rpcs)"
    "dispatch (\<lambda>_. False) (\<lambda>_. (0, 0)) [] 3 demo_rpcs = Ret (decref 3 demo_rpcs)"
    using u1 u2 f n by (simp_all add: dispatch_def)
  from dispatch_releases [OF this(1) u1] dispatch_releases [OF this(2) u2] this show ?thesis
    using f n by simp
qed

end
