(* ===== verification/Rpc_System.thy ===== *)
theory Rpc_System
  imports Rpc_Client Rpc_Server
begin

text \<open>
  An RPC client and an RPC server joined by a network that loses and reorders requests, repeats
  replies and delivers them at any time, with other clients on the same server.  The two halves of
  \<open>rpcs::dispatch\<close> around the handler's call are separate steps, as the threads of the pool
  interleave them; the first half, the duplicate check with the answer it may send, is one step,
  although the code sends a remembered reply after it has released the mutex of the window.  The
  theorem of the last section is the promise of the library: a call that returns a result ran once
  on the server, and the result is what that run answered.  It holds as long as the client's calls
  do not overlap and no request of it is checked before an older one that is still under way; two
  ghost flags record when that has happened.
\<close>

section \<open>Headers around any message body\<close>

lemma carried_header:
  assumes "m_wf m" and "carries m b" and "mbuf m = pre @ map Some hb @ post"
    and "length pre = 4" and "4 + length hb \<le> mind m"
  shows "take (length hb) (drop 4 b) = hb" "length b = mind m"
proof -
  have "written m = pre @ map Some hb @ take (mind m - (4 + length hb)) post"
    using assms(3-5) by (simp add: written_def)
  from carries_written [OF assms(1,2) this] assms(4)
  show "take (length hb) (drop 4 b) = hb" by simp
  show "length b = mind m" using assms(2) by (simp add: carries_def)
qed

lemma request_parsed:
  assumes m: "m_wf m" "rpc_header_sz \<le> mind m" and "req_header_fits h"
    and "carries (pack_req_header h m) b" and "length b < 2 ^ 31"
  shows "unpack_req_header (unmarshall_of b) = (h, received b)" "uok (received b)"
proof -
  note s = pack_req_header_spec [OF m, of h]
  have "4 \<le> length (mbuf m)" "24 \<le> mind m" using m by (auto simp: m_wf_def rpc_header_sz_def)
  then have b: "take 20 (drop 4 b) = req_header_bytes h" "24 \<le> length b"
    using carried_header [OF s(1) assms(4) s(3)] s(2) by simp_all
  have "read_req_header ((unmarshall_of b)\<lparr>uind := 4\<rparr>) = (h, (unmarshall_of b)\<lparr>uind := 24\<rparr>)"
    using reads_at_header [OF reads_req_header [OF assms(3)], of b] b assms(5) by simp
  then show "unpack_req_header (unmarshall_of b) = (h, received b)"
    using unmarshall_of_at [OF b(2)] by (simp add: unpack_req_header_eq)
  show "uok (received b)" using b(2) by (simp add: received_simps rpc_header_sz_def)
qed

lemma reply_header_parsed:
  assumes m: "m_wf m" "rpc_header_sz \<le> mind m" and "reply_header_fits h"
    and "carries (pack_reply_header h m) b" and "length b < 2 ^ 31"
  shows "unpack_reply_header (unmarshall_of b) = (h, received b)" "uok (received b)"
proof -
  note s = pack_reply_header_spec [OF m, of h]
  have "4 \<le> length (mbuf m)" "24 \<le> mind m" using m by (auto simp: m_wf_def rpc_header_sz_def)
  then have b: "take 8 (drop 4 b) = reply_header_bytes h" "24 \<le> length b"
    using carried_header [OF s(1) assms(4) s(3)] s(2) by simp_all
  show "unpack_reply_header (unmarshall_of b) = (h, received b)"
    using reads_at_header [OF reads_reply_header [OF assms(3)], of b] b assms(5)
      unmarshall_of_at [OF b(2)] by (simp add: unpack_reply_header_eq)
  show "uok (received b)" using b(2) by (simp add: received_simps rpc_header_sz_def)
qed

section \<open>The two halves of dispatch\<close>

text \<open>
  What a thread of the pool does with a request before it calls the handler: it has answered or
  dropped the request, or it goes on to the handler.
\<close>

datatype 's checked = Answered "'s rpcs" | Handed "'s rpcs"

definition dispatch_check ::
  "(conn \<Rightarrow> int \<times> int) \<Rightarrow> byte list \<Rightarrow> conn \<Rightarrow> 's rpcs \<Rightarrow> 's checked outcome" where
  "dispatch_check born buf c s =
     (let (h, req) = unpack_req_header (unmarshall_of buf) in
      if \<not> uok req then Ret (Answered (decref c s))
      else if rq_srv_nonce h \<noteq> 0 \<and> rq_srv_nonce h \<noteq> nonce s
      then Ret (Answered (refuse h Oldsrv_failure c s))
      else if procs s (rq_proc h) = None then Aborted
      else if rq_clt_nonce h = 0 then Ret (Handed s)
      else
        let s1 = s\<lparr>reply_window := touch [] (rq_clt_nonce h) (reply_window s)\<rparr>;
            s2 = save_conn born (rq_clt_nonce h) c s1;
            (st, s3) = checkduplicate_and_update (rq_clt_nonce h) (word_of_int (rq_xid h))
                         (word_of_int (rq_xid_rep h)) s2
        in case st of
             New \<Rightarrow> Ret (Handed s3)
           | Inprogress \<Rightarrow> Ret (Answered (decref c s3))
           | Done b sz \<Rightarrow> Ret (Answered (decref c (send c b sz s3)))
           | Forgotten \<Rightarrow> Ret (Answered (decref c (refuse h Atmostonce_failure c s3))))"

definition dispatch_run :: "(conn \<Rightarrow> bool) \<Rightarrow> byte list \<Rightarrow> conn \<Rightarrow> 's rpcs \<Rightarrow> 's rpcs outcome" where
  "dispatch_run dead buf c s =
     (let (h, req) = unpack_req_header (unmarshall_of buf) in
      case procs s (rq_proc h) of
        None \<Rightarrow> Aborted
      | Some f \<Rightarrow> dispatch_new dead h f req c s)"

lemma save_conn_frame [simp]:
  "procs (save_conn born clt c s) = procs s" "reply_window (save_conn born clt c s) = reply_window s"
  "maxima_xid_rep (save_conn born clt c s) = maxima_xid_rep s" "out (save_conn born clt c s) = out s"
  "app (save_conn born clt c s) = app s" "nonce (save_conn born clt c s) = nonce s"
  by (simp_all add: save_conn_def incref_def decref_def split: option.splits)

lemma check_frame2 [simp]:
  "procs (snd (checkduplicate_and_update clt x xid_rep s)) = procs s"
  "nonce (snd (checkduplicate_and_update clt x xid_rep s)) = nonce s"
  by (cases rule: check_cases [of clt x xid_rep s]; simp)+

text \<open>The halves make up the dispatcher when nothing comes between them.\<close>

lemma dispatch_halves:
  "dispatch dead born buf c s =
     (case dispatch_check born buf c s of
        Ret (Answered s') \<Rightarrow> Ret s'
      | Ret (Handed s') \<Rightarrow> dispatch_run dead buf c s'
      | Blocked \<Rightarrow> Blocked | Aborted \<Rightarrow> Aborted | Thrown \<Rightarrow> Thrown | Undef \<Rightarrow> Undef)"
proof -
  obtain h req where u: "unpack_req_header (unmarshall_of buf) = (h, req)" by (metis prod.exhaust)
  let ?s2 = "save_conn born (rq_clt_nonce h) c
    (s\<lparr>reply_window := touch [] (rq_clt_nonce h) (reply_window s)\<rparr>)"
  obtain st s3 where k: "checkduplicate_and_update (rq_clt_nonce h) (word_of_int (rq_xid h))
      (word_of_int (rq_xid_rep h)) ?s2 = (st, s3)" by (metis prod.exhaust)
  then have "procs s3 = procs s"
    using check_frame2(1) [of "rq_clt_nonce h" "word_of_int (rq_xid h)" "word_of_int (rq_xid_rep h)" ?s2]
    by simp
  with u k show ?thesis
    by (cases "procs s (rq_proc h)"; cases st) (simp_all add: dispatch_def dispatch_check_def dispatch_run_def)
qed

section \<open>Client, server and network\<close>

definition req_hdr :: "byte list \<Rightarrow> req_header" where
  "req_hdr b = fst (unpack_req_header (unmarshall_of b))"

text \<open>
  \<open>sy_open\<close> holds the calls in progress (number, message and acknowledged reply), \<open>sy_reqs\<close> the
  requests under way, in the order they were sent, \<open>sy_jobs\<close> the requests handed to handlers that
  have not answered, \<open>sy_reps\<close> the replies ever sent to the client.  The next three fields are
  histories: the messages of the calls begun, the messages whose handler ran, the calls that
  returned.  \<open>sy_overlap\<close> is set when a call began while another was in progress, \<open>sy_overtaken\<close>
  when a request was checked while another one sent before it was still under way.
\<close>

record 's rpc_sys =
  sy_cl :: rpcc
  sy_sv :: "'s rpcs"
  sy_open :: "(uint \<times> byte list \<times> uint) list"
  sy_reqs :: "byte list list"
  sy_jobs :: "(byte list \<times> conn) list"
  sy_reps :: "(byte option list \<times> nat) set"
  sy_issued :: "byte list list"
  sy_log :: "byte list list"
  sy_returned :: "(byte list \<times> int \<times> unmarshall) list"
  sy_overlap :: bool
  sy_overtaken :: bool

definition rpc_sys_init :: "rpcc \<Rightarrow> 's rpcs \<Rightarrow> 's rpc_sys" where
  "rpc_sys_init c s =
     \<lparr>sy_cl = c, sy_sv = s, sy_open = [], sy_reqs = [], sy_jobs = [], sy_reps = {},
      sy_issued = [], sy_log = [], sy_returned = [], sy_overlap = False, sy_overtaken = False\<rparr>"

definition new_out :: "'s rpcs \<Rightarrow> 's rpcs \<Rightarrow> (byte option list \<times> nat) set" where
  "new_out s s' = snd ` set (drop (length (out s)) (out s'))"

text \<open>Bytes a block may arrive as: the indeterminate bytes are whatever memory held.\<close>

definition arrives_as :: "byte option list \<times> nat \<Rightarrow> byte list \<Rightarrow> bool" where
  "arrives_as p r \<longleftrightarrow> length r = snd p \<and>
     (\<forall>i < snd p. i < length (fst p) \<longrightarrow> (\<forall>x. fst p ! i = Some x \<longrightarrow> r ! i = x))"

text \<open>
  The steps.  A thread begins a call with a message of less than 2 to the 30 bytes, transmits it any
  number of times and ends the call when it likes (with the reply, or in a timeout); the network
  loses any request; a server thread takes any request under way and checks it, and later some
  thread calls the handler and sends the reply; a reply once sent arrives at any time; \<open>bind\<close> and
  \<open>cancel\<close> run at any time.  Requests of other clients are checked and run in between.
\<close>

inductive rpc_step :: "'s rpc_sys \<Rightarrow> 's rpc_sys \<Rightarrow> bool" where
  begin_call: "\<lbrakk>m_wf req; rpc_header_sz \<le> mind req; mind req < 2 ^ 30;
     call1_begin proc req unmarshall_init (sy_cl s) = (Inr (x, m, front), c'); carries m b\<rbrakk>
   \<Longrightarrow> rpc_step s (s\<lparr>sy_cl := c', sy_open := sy_open s @ [(x, b, front)], sy_issued := sy_issued s @ [b],
        sy_overlap := sy_overlap s \<or> sy_open s \<noteq> []\<rparr>)"
| transmit: "(x, b, front) \<in> set (sy_open s) \<Longrightarrow> rpc_step s (s\<lparr>sy_reqs := sy_reqs s @ [b]\<rparr>)"
| lose: "sy_reqs s = p @ b # q \<Longrightarrow> rpc_step s (s\<lparr>sy_reqs := p @ q\<rparr>)"
| check_answered: "\<lbrakk>sy_reqs s = p @ b # q; dispatch_check born b c (sy_sv s) = Ret (Answered sv')\<rbrakk>
   \<Longrightarrow> rpc_step s (s\<lparr>sy_reqs := p @ q, sy_sv := sv', sy_reps := sy_reps s \<union> new_out (sy_sv s) sv',
        sy_overtaken := sy_overtaken s \<or> set p \<noteq> {} \<and> set p \<noteq> {b}\<rparr>)"
| check_handed: "\<lbrakk>sy_reqs s = p @ b # q; dispatch_check born b c (sy_sv s) = Ret (Handed sv')\<rbrakk>
   \<Longrightarrow> rpc_step s (s\<lparr>sy_reqs := p @ q, sy_sv := sv', sy_jobs := sy_jobs s @ [(b, c)],
        sy_overtaken := sy_overtaken s \<or> set p \<noteq> {} \<and> set p \<noteq> {b}\<rparr>)"
| foreign_answered: "\<lbrakk>rq_clt_nonce (req_hdr b) \<noteq> clt_nonce (sy_cl s);
     dispatch_check born b c (sy_sv s) = Ret (Answered sv')\<rbrakk> \<Longrightarrow> rpc_step s (s\<lparr>sy_sv := sv'\<rparr>)"
| foreign_handed: "\<lbrakk>rq_clt_nonce (req_hdr b) \<noteq> clt_nonce (sy_cl s);
     dispatch_check born b c (sy_sv s) = Ret (Handed sv')\<rbrakk>
   \<Longrightarrow> rpc_step s (s\<lparr>sy_sv := sv', sy_jobs := sy_jobs s @ [(b, c)]\<rparr>)"
| run: "\<lbrakk>sy_jobs s = p @ (b, c) # q; dispatch_run dead b c (sy_sv s) = Ret sv'\<rbrakk>
   \<Longrightarrow> rpc_step s (s\<lparr>sy_jobs := p @ q, sy_sv := sv', sy_log := sy_log s @ [b],
        sy_reps := (if rq_clt_nonce (req_hdr b) = clt_nonce (sy_cl s)
                    then sy_reps s \<union> new_out (sy_sv s) sv' else sy_reps s)\<rparr>)"
| receive: "\<lbrakk>p \<in> sy_reps s; arrives_as p r; length r < 2 ^ 31\<rbrakk>
   \<Longrightarrow> rpc_step s (s\<lparr>sy_cl := rpcc_got_pdu r (sy_cl s)\<rparr>)"
| end_call: "\<lbrakk>sy_open s = p @ (x, b, front) # q;
     call1_end x b front (sy_cl s) = (Some (ret, un, dw), c')\<rbrakk>
   \<Longrightarrow> rpc_step s (s\<lparr>sy_cl := c', sy_open := p @ q, sy_returned := sy_returned s @ [(b, ret, un)]\<rparr>)"
| bind: "rpc_step s (s\<lparr>sy_cl := rpcc_bind ret r (sy_cl s)\<rparr>)"
| cancel: "rpc_step s (s\<lparr>sy_cl := rpcc_cancel (sy_cl s)\<rparr>)"

inductive rpc_run :: "'s rpc_sys \<Rightarrow> 's rpc_sys \<Rightarrow> bool" for s0 where
  rpc_run_start: "rpc_run s0 s0"
| rpc_run_step: "rpc_run s0 s \<Longrightarrow> rpc_step s s' \<Longrightarrow> rpc_run s0 s'"

section \<open>What the handlers answer\<close>

text \<open>The run of a request's handler on the application's state, and the state after a list of runs.\<close>

definition run_handler ::
  "(int \<rightharpoonup> 's handler) \<Rightarrow> byte list \<Rightarrow> 's \<Rightarrow> int \<times> marshall \<times> 's" where
  "run_handler P b a =
     (let (h, req) = unpack_req_header (unmarshall_of b) in
      case P (rq_proc h) of None \<Rightarrow> (0, marshall_init, a) | Some f \<Rightarrow> f req marshall_init a)"

definition replay :: "(int \<rightharpoonup> 's handler) \<Rightarrow> byte list list \<Rightarrow> 's \<Rightarrow> 's" where
  "replay P bs a = fold (\<lambda>b a. snd (snd (run_handler P b a))) bs a"

lemma replay_snoc: "replay P (bs @ [b]) a = snd (snd (run_handler P b (replay P bs a)))"
  by (simp add: replay_def)

definition reply_message :: "byte list \<Rightarrow> int \<Rightarrow> marshall \<Rightarrow> marshall" where
  "reply_message b ret rep = pack_reply_header \<lparr>rp_xid = rq_xid (req_hdr b), rp_ret = ret\<rparr> rep"

text \<open>The result \<open>ret\<close> with the reply \<open>un\<close> is what the run of \<open>b\<close> in the history \<open>lg\<close> answered.\<close>

definition answered ::
  "(int \<rightharpoonup> 's handler) \<Rightarrow> 's \<Rightarrow> byte list list \<Rightarrow> byte list \<Rightarrow> int \<Rightarrow> unmarshall \<Rightarrow> bool" where
  "answered P a lg b ret un \<longleftrightarrow>
     (\<exists>pre post rep a' r. lg = pre @ b # post \<and> run_handler P b (replay P pre a) = (ret, rep, a') \<and>
        carries (reply_message b ret rep) r \<and> length r < 2 ^ 31 \<and> un = received r)"

definition reply_from ::
  "(int \<rightharpoonup> 's handler) \<Rightarrow> 's \<Rightarrow> byte list list \<Rightarrow> byte list \<Rightarrow> byte option list \<times> nat \<Rightarrow> bool" where
  "reply_from P a lg b p \<longleftrightarrow>
     (\<exists>pre post ret rep a'. lg = pre @ b # post \<and> run_handler P b (replay P pre a) = (ret, rep, a') \<and>
        0 \<le> ret \<and> p = (mbuf (reply_message b ret rep), mind (reply_message b ret rep)))"

definition refusal :: "byte list \<Rightarrow> byte option list \<times> nat \<Rightarrow> bool" where
  "refusal b p \<longleftrightarrow> (\<exists>e. let m = reply_message b (rpc_failure_code e) marshall_init in p = (mbuf m, mind m))"

lemma answered_mono: "answered P a lg b ret un \<Longrightarrow> answered P a (lg @ l) b ret un"
  unfolding answered_def by fastforce

lemma reply_from_mono: "reply_from P a lg b p \<Longrightarrow> reply_from P a (lg @ l) b p"
  unfolding reply_from_def by fastforce

text \<open>What a registered handler must be: it returns an \<open>int\<close> and leaves a well-formed marshaller.\<close>

locale handlers =
  fixes P :: "int \<rightharpoonup> 's handler"
  assumes handler_result: "P p = Some f \<Longrightarrow> f u marshall_init a = (ret, rep, a') \<Longrightarrow>
    m_wf rep \<and> rpc_header_sz \<le> mind rep \<and> - (2 ^ 31) \<le> ret \<and> ret < 2 ^ 31"
begin

lemma run_result:
  assumes "run_handler P b a = (ret, rep, a')"
  shows "m_wf rep" "rpc_header_sz \<le> mind rep" "- (2 ^ 31) \<le> ret" "ret < 2 ^ 31"
proof -
  have i: "m_wf marshall_init \<and> rpc_header_sz \<le> mind marshall_init"
    by (simp add: marshall_init_wf) (simp add: marshall_init_def)
  have "m_wf rep \<and> rpc_header_sz \<le> mind rep \<and> - (2 ^ 31) \<le> ret \<and> ret < 2 ^ 31"
    using assms i handler_result
    by (fastforce simp: run_handler_def Let_def split: option.splits prod.splits)
  then show "m_wf rep" "rpc_header_sz \<le> mind rep" "- (2 ^ 31) \<le> ret" "ret < 2 ^ 31" by simp_all
qed

text \<open>A reply that arrives reads as the answer of the run it stems from.\<close>

lemma reply_from_read:
  assumes "reply_from P a lg b p" and "arrives_as p r" and "length r < 2 ^ 31"
    and "- (2 ^ 31) \<le> rq_xid (req_hdr b) \<and> rq_xid (req_hdr b) < 2 ^ 31"
  shows "\<exists>ret. unpack_reply_header (unmarshall_of r) = (\<lparr>rp_xid = rq_xid (req_hdr b), rp_ret = ret\<rparr>, received r) \<and>
    uok (received r) \<and> answered P a lg b ret (received r)"
proof -
  obtain pre post ret rep a' where h: "lg = pre @ b # post"
    "run_handler P b (replay P pre a) = (ret, rep, a')"
    "p = (mbuf (reply_message b ret rep), mind (reply_message b ret rep))"
    using assms(1) unfolding reply_from_def by blast
  have c: "carries (reply_message b ret rep) r" using assms(2) h(3) by (simp add: arrives_as_def carries_def)
  have "reply_header_fits \<lparr>rp_xid = rq_xid (req_hdr b), rp_ret = ret\<rparr>"
    using assms(4) run_result(3,4) [OF h(2)] by (simp add: reply_header_fits_def)
  note u = reply_header_parsed [OF run_result(1,2) [OF h(2)] this, of r]
  show ?thesis
    using u c assms(3) h(1,2) unfolding reply_message_def answered_def by blast
qed

end

section \<open>The invariant\<close>

text \<open>The \<open>n\<close>-th message of the client \<open>clt\<close>: it acknowledges the reply before it.\<close>

definition msg_ok :: "uint \<Rightarrow> nat \<Rightarrow> byte list \<Rightarrow> bool" where
  "msg_ok clt n b \<longleftrightarrow> unpack_req_header (unmarshall_of b) = (req_hdr b, received b) \<and> uok (received b) \<and>
     rq_xid (req_hdr b) = sint (of_nat n :: uint) \<and> rq_clt_nonce (req_hdr b) = clt \<and>
     rq_xid_rep (req_hdr b) = sint (of_nat (n - 1) :: uint)"

definition issued_ok :: "uint \<Rightarrow> byte list list \<Rightarrow> bool" where
  "issued_ok clt l \<longleftrightarrow> (\<forall>i < length l. msg_ok clt (Suc i) (l ! i))"

definition num :: "byte list \<Rightarrow> nat" where
  "num b = unat (word_of_int (rq_xid (req_hdr b)) :: uint)"

text \<open>The call in progress, when calls do not overlap.\<close>

definition sy_cur :: "'s rpc_sys \<Rightarrow> (uint \<times> byte list \<times> uint) option" where
  "sy_cur s = (case sy_open s of [q] \<Rightarrow> Some q | _ \<Rightarrow> None)"

lemma sy_cur_simps [simp]:
  "sy_open s = [] \<Longrightarrow> sy_cur s = None" "sy_open s = [q] \<Longrightarrow> sy_cur s = Some q"
  by (simp_all add: sy_cur_def)

lemma sy_cur_client [simp]: "sy_cur (s\<lparr>sy_cl := c\<rparr>) = sy_cur s"
  by (simp add: sy_cur_def)

lemma sy_cur_cong: "sy_open t = sy_open s \<Longrightarrow> sy_cur t = sy_cur s"
  by (simp add: sy_cur_def)

text \<open>The client: one call at most, and a window that is a single number.\<close>

definition client_ok :: "(int \<rightharpoonup> 's handler) \<Rightarrow> 's \<Rightarrow> 's rpc_sys \<Rightarrow> bool" where
  "client_ok P a s \<longleftrightarrow>
     (let c = sy_cl s; n = length (sy_issued s) in
      clt_nonce c \<noteq> 0 \<and> lossytest c = 0 \<and> xid c = of_nat (Suc n) \<and> length (sy_open s) \<le> 1 \<and>
      (case sy_cur s of
         None \<Rightarrow> calls c = Map.empty \<and> xid_rep_window c = [of_nat n]
       | Some (x, b, f) \<Rightarrow> n \<noteq> 0 \<and> b = last (sy_issued s) \<and> x = of_nat n \<and>
           (xid_rep_window c = [of_nat (n - 1)] \<or> xid_rep_window c = [of_nat n]) \<and>
           (\<exists>ca. calls c = [sint x \<mapsto> ca] \<and> \<not> uoob (ca_un ca) \<and>
              (ca_done ca \<and> 0 \<le> ca_intret ca \<longrightarrow> answered P a (sy_log s) b (ca_intret ca) (ca_un ca)))))"

text \<open>The histories: calls return in order, results and replies stem from runs.\<close>

definition history_ok :: "(int \<rightharpoonup> 's handler) \<Rightarrow> 's \<Rightarrow> 's rpc_sys \<Rightarrow> bool" where
  "history_ok P a s \<longleftrightarrow>
     issued_ok (clt_nonce (sy_cl s)) (sy_issued s) \<and>
     sy_issued s = map fst (sy_returned s) @ (case sy_cur s of None \<Rightarrow> [] | Some (x, b, f) \<Rightarrow> [b]) \<and>
     (\<forall>(b, ret, un) \<in> set (sy_returned s). 0 \<le> ret \<longrightarrow> answered P a (sy_log s) b ret un) \<and>
     (\<forall>p \<in> sy_reps s. \<exists>b \<in> set (sy_issued s). reply_from P a (sy_log s) b p \<or> refusal b p)"

text \<open>
  The server: request \<open>k\<close> of the client was handed over last and alone is remembered; the requests
  under way are numbered from \<open>k\<close> on, in order; those handed over or run differ.
\<close>

definition remembers ::
  "(int \<rightharpoonup> 's handler) \<Rightarrow> 's \<Rightarrow> byte list list \<Rightarrow> byte list list \<Rightarrow> uint \<Rightarrow> nat \<Rightarrow> 's rpcs \<Rightarrow> bool" where
  "remembers P a issued lg clt k sv \<longleftrightarrow>
     (if k = 0 then reply_window sv clt = None \<and> maxima_xid_rep sv clt = None
      else maxima_xid_rep sv clt = Some (of_nat (k - 1)) \<and>
        (\<exists>r. reply_window sv clt = Some [r] \<and> rp_id r = of_nat k \<and>
           (cb_present r \<longrightarrow> reply_from P a lg (issued ! (k - 1)) (rp_buf r, rp_sz r))))"

definition ours :: "uint \<Rightarrow> byte list list \<Rightarrow> byte list list" where
  "ours clt bs = filter (\<lambda>b. rq_clt_nonce (req_hdr b) = clt) bs"

definition server_ok :: "(int \<rightharpoonup> 's handler) \<Rightarrow> 's \<Rightarrow> nat \<Rightarrow> 's rpc_sys \<Rightarrow> bool" where
  "server_ok P a k s \<longleftrightarrow>
     (let clt = clt_nonce (sy_cl s); w = ours clt (map fst (sy_jobs s) @ sy_log s) in
      procs (sy_sv s) = P \<and> app (sy_sv s) = replay P (sy_log s) a \<and> k \<le> length (sy_issued s) \<and>
      remembers P a (sy_issued s) (sy_log s) clt k (sy_sv s) \<and>
      set (sy_reqs s) \<subseteq> set (sy_issued s) \<and> sorted (map num (sy_reqs s)) \<and>
      (\<forall>b \<in> set (sy_reqs s). k \<le> num b) \<and>
      distinct w \<and> set w \<subseteq> set (sy_issued s) \<and> (\<forall>b \<in> set w. num b \<le> k))"

definition sys_ok :: "(int \<rightharpoonup> 's handler) \<Rightarrow> 's \<Rightarrow> 's rpc_sys \<Rightarrow> bool" where
  "sys_ok P a s \<longleftrightarrow> client_ok P a s \<and> history_ok P a s \<and> (\<exists>k. server_ok P a k s)"

lemma history_okD:
  assumes "history_ok P a s"
  shows "issued_ok (clt_nonce (sy_cl s)) (sy_issued s)"
    "sy_issued s = map fst (sy_returned s) @ (case sy_cur s of None \<Rightarrow> [] | Some (x, b, f) \<Rightarrow> [b])"
    "\<forall>(b, ret, un) \<in> set (sy_returned s). 0 \<le> ret \<longrightarrow> answered P a (sy_log s) b ret un"
    "\<forall>p \<in> sy_reps s. \<exists>b \<in> set (sy_issued s). reply_from P a (sy_log s) b p \<or> refusal b p"
  using assms unfolding history_ok_def by blast+

lemma word_of_sint [simp]: "word_of_int (sint (w :: uint)) = w"
  by simp

lemma sint_fits: "- (2 ^ 31) \<le> sint (w :: uint) \<and> sint w < 2 ^ 31"
  using sint_range_size [of w] by (simp add: word_size)

lemma unat_small: "n < 2 ^ 32 \<Longrightarrow> unat (of_nat n :: uint) = n"
  by (simp add: unat_of_nat take_bit_nat_eq_self)

lemma of_nat_inj32: "m < 2 ^ 32 \<Longrightarrow> n < 2 ^ 32 \<Longrightarrow> (of_nat m :: uint) = of_nat n \<longleftrightarrow> m = n"
  by (metis unat_small)

lemma of_nat_le32: "m < 2 ^ 32 \<Longrightarrow> n < 2 ^ 32 \<Longrightarrow> (of_nat m :: uint) \<le> of_nat n \<longleftrightarrow> m \<le> n"
  by (simp add: word_le_nat_alt unat_small)

lemma of_nat_less32: "m < 2 ^ 32 \<Longrightarrow> n < 2 ^ 32 \<Longrightarrow> (of_nat m :: uint) < of_nat n \<longleftrightarrow> m < n"
  by (simp add: word_less_nat_alt unat_small)

lemma msg_num: "msg_ok clt n b \<Longrightarrow> n < 2 ^ 32 \<Longrightarrow> num b = n"
  unfolding msg_ok_def num_def by (simp only: word_of_sint unat_small)

lemma issued_facts:
  assumes "issued_ok clt l" and "length l < 2 ^ 32" and "b \<in> set l"
  shows "0 < num b" "num b \<le> length l" "l ! (num b - 1) = b" "msg_ok clt (num b) b"
proof -
  obtain i where i: "i < length l" "b = l ! i" using assms(3) by (auto simp: in_set_conv_nth)
  then have m: "msg_ok clt (Suc i) b" using assms(1) by (simp add: issued_ok_def)
  then have n: "num b = Suc i" using msg_num [OF m] i(1) assms(2) by simp
  show "0 < num b" "num b \<le> length l" "l ! (num b - 1) = b" "msg_ok clt (num b) b"
    using n m i by simp_all
qed

lemma last_num:
  assumes "issued_ok clt l" and "length l < 2 ^ 32" and "l \<noteq> []"
  shows "num (last l) = length l" "msg_ok clt (length l) (last l)"
proof -
  have "msg_ok clt (length l) (last l)"
    using assms(1,3) by (cases "length l") (auto simp: issued_ok_def last_conv_nth)
  with assms(2) msg_num show "num (last l) = length l" "msg_ok clt (length l) (last l)" by blast+
qed

section \<open>The client's steps\<close>

lemma begin_message:
  assumes "call1_begin proc req rep c = (Inr (x, m, front), c')" and "m_wf req" "rpc_header_sz \<le> mind req"
    and "mind req < 2 ^ 31" and "carries m b" and "xid c = of_nat (Suc n)" and "xid_rep_window c = [of_nat n]"
  shows "msg_ok (clt_nonce c) (Suc n) b" "x = of_nat (Suc n)"
    "c' = c\<lparr>xid := xid c + 1, calls := (calls c)(sint x \<mapsto>
       \<lparr>ca_xid = x, ca_un = rep, ca_intret = 0, ca_done = False\<rparr>)\<rparr>"
proof -
  let ?h = "\<lparr>rq_xid = sint (xid c), rq_proc = sint proc, rq_clt_nonce = clt_nonce c,
     rq_srv_nonce = srv_nonce c, rq_xid_rep = sint (of_nat n :: uint)\<rparr>"
  have r: "x = xid c" "m = pack_req_header ?h req"
    "c' = c\<lparr>xid := xid c + 1, calls := (calls c)(sint x \<mapsto>
       \<lparr>ca_xid = x, ca_un = rep, ca_intret = 0, ca_done = False\<rparr>)\<rparr>"
    using assms(1,7) by (auto simp: call1_begin_def Let_def split: if_splits)
  have f: "req_header_fits ?h" using sint_fits by (auto simp: req_header_fits_def)
  have "length b < 2 ^ 31"
    using assms(4,5) r(2) pack_req_header_spec(2) [OF assms(2,3)] by (simp add: carries_def)
  note u = request_parsed [OF assms(2,3) f assms(5) [unfolded r(2)] this]
  then have "req_hdr b = ?h" by (simp add: req_hdr_def)
  with u assms(6) show "msg_ok (clt_nonce c) (Suc n) b" by (simp add: msg_ok_def)
  show "x = of_nat (Suc n)" using r(1) assms(6) by simp
qed (use assms(1) in \<open>auto simp: call1_begin_def Let_def split: if_splits\<close>)

lemma window_update_single:
  assumes "n < 2 ^ 32" and "y \<le> n" and "0 < n"
  shows "window_update (of_nat y) [of_nat n] = [of_nat n]"
    "window_update (of_nat y) [of_nat (n - 1)] = (if y = n then [of_nat n] else [of_nat (n - 1)])"
proof -
  show "window_update (of_nat y) [of_nat n] = [of_nat n]"
    using assms of_nat_le32 [of y n] by (simp add: window_update_def)
  define w :: uint where "w = of_nat (n - 1)"
  have w1: "of_nat n = w + 1" using assms(3) unfolding w_def by (cases n) simp_all
  have le: "of_nat y \<le> w \<longleftrightarrow> y \<le> n - 1" using assms of_nat_le32 [of y "n - 1"] unfolding w_def by simp
  have p: "n - 1 < 2 ^ 32" "n - 1 < n" using assms(1,3) by simp_all
  have "w < of_nat n" unfolding w_def by (rule iffD2 [OF of_nat_less32 [OF p(1) assms(1)] p(2)])
  then have lt: "w < w + 1" by (simp only: w1)
  have "window_update (of_nat y) [w] = (if y = n then [w + 1] else [w])"
  proof (cases "y = n")
    case True
    then have "\<not> of_nat y \<le> w" using le assms(3) by auto
    moreover have "of_nat y = w + 1" using True w1 by (simp only:)
    ultimately show ?thesis using True lt by (simp add: window_update_def Let_def)
  next
    case False
    then have "y \<le> n - 1" using assms(2) by linarith
    then have "of_nat y \<le> w" using le by blast
    then show ?thesis using False by (simp add: window_update_def)
  qed
  then show "window_update (of_nat y) [of_nat (n - 1)] = (if y = n then [of_nat n] else [of_nat (n - 1)])"
    unfolding w1 unfolding w_def .
qed

text \<open>The reply for number \<open>y\<close> that is or was a call, whatever it holds.\<close>

lemma got_pdu_eq:
  assumes "unpack_reply_header (unmarshall_of r) = (\<lparr>rp_xid = sint (of_nat y :: uint), rp_ret = ret\<rparr>, received r)"
    and "uok (received r)"
  shows "rpcc_got_pdu r c = (let c1 = c\<lparr>xid_rep_window := window_update (of_nat y) (xid_rep_window c)\<rparr> in
    case calls c (sint (of_nat y :: uint)) of None \<Rightarrow> c1
    | Some ca \<Rightarrow> if ca_done ca then c1 else c1\<lparr>calls := (calls c)(sint (of_nat y :: uint) \<mapsto>
        ca\<lparr>ca_un := (received r)\<lparr>uoob := uoob (ca_un ca)\<rparr>, ca_intret := ret, ca_done := True\<rparr>)\<rparr>)"
proof -
  have "fst (u_take_in (received r) u) = (received r)\<lparr>uoob := uoob u\<rparr>" for u
    using assms(2) by (simp add: u_take_in_def u_take_buf_def received_simps)
  then show ?thesis
    using assms by (simp add: rpcc_got_pdu_def update_xid_rep_def Let_def split: option.splits)
qed

text \<open>Every reply sent to the client reads as a result of an issued message.\<close>

context handlers
begin

lemma reps_read:
  assumes "history_ok P a s" and "length (sy_issued s) < 2 ^ 32" and "p \<in> sy_reps s" and "arrives_as p r"
    and "length r < 2 ^ 31"
  obtains b ret where "b \<in> set (sy_issued s)"
    "unpack_reply_header (unmarshall_of r) = (\<lparr>rp_xid = sint (of_nat (num b) :: uint), rp_ret = ret\<rparr>, received r)"
    "uok (received r)" "0 \<le> ret \<Longrightarrow> answered P a (sy_log s) b ret (received r)"
proof -
  obtain b where b: "b \<in> set (sy_issued s)" "reply_from P a (sy_log s) b p \<or> refusal b p"
    using history_okD(4) [OF assms(1)] assms(3) by blast
  have iss: "issued_ok (clt_nonce (sy_cl s)) (sy_issued s)" by (rule history_okD(1) [OF assms(1)])
  have x: "rq_xid (req_hdr b) = sint (of_nat (num b) :: uint)"
    using issued_facts(4) [OF iss assms(2) b(1)] by (simp add: msg_ok_def)
  show thesis
    using b(2)
  proof
    assume "reply_from P a (sy_log s) b p"
    from reply_from_read [OF this assms(4,5)] x sint_fits
    show thesis using that [OF b(1)] by metis
  next
    assume "refusal b p"
    then obtain e where p: "p = (mbuf (reply_message b (rpc_failure_code e) marshall_init),
        mind (reply_message b (rpc_failure_code e) marshall_init))" by (auto simp: refusal_def Let_def)
    have c: "carries (reply_message b (rpc_failure_code e) marshall_init) r"
      using assms(4) p by (simp add: arrives_as_def carries_def)
    have neg: "rpc_failure_code e < 0" "- (2 ^ 31) \<le> rpc_failure_code e" "rpc_failure_code e < 2 ^ 31"
      by (cases e; simp)+
    then have f: "reply_header_fits \<lparr>rp_xid = rq_xid (req_hdr b), rp_ret = rpc_failure_code e\<rparr>"
      using x sint_fits by (simp add: reply_header_fits_def)
    have i: "rpc_header_sz \<le> mind marshall_init" by (simp add: marshall_init_def)
    note u = reply_header_parsed [OF marshall_init_wf(1) i f c [unfolded reply_message_def] assms(5)]
    show thesis by (rule that [OF b(1), of "rpc_failure_code e"]) (use u x neg(1) in simp_all)
  qed
qed

lemma client_receive:
  assumes "client_ok P a s" and "history_ok P a s" and n: "length (sy_issued s) < 2 ^ 32"
    and "p \<in> sy_reps s" and "arrives_as p r" and "length r < 2 ^ 31"
  shows "client_ok P a (s\<lparr>sy_cl := rpcc_got_pdu r (sy_cl s)\<rparr>)"
proof -
  define c where "c = sy_cl s"
  define n where "n = length (sy_issued s)"
  have n32: "n < 2 ^ 32" using n n_def by simp
  obtain b ret where b: "b \<in> set (sy_issued s)"
    "unpack_reply_header (unmarshall_of r) = (\<lparr>rp_xid = sint (of_nat (num b) :: uint), rp_ret = ret\<rparr>, received r)"
    "uok (received r)" "0 \<le> ret \<Longrightarrow> answered P a (sy_log s) b ret (received r)"
    using reps_read [OF assms(2) n assms(4-6)] by metis
  note g = got_pdu_eq [OF b(2,3), of c]
  have iss: "issued_ok (clt_nonce c) (sy_issued s)" unfolding c_def by (rule history_okD(1) [OF assms(2)])
  note f = issued_facts [OF iss n b(1)]
  have y: "num b \<le> n" "0 < n" using f(1,2) n_def by linarith+
  note w = window_update_single [OF n32 y]
  have one: "length (sy_open s) \<le> 1" using assms(1) by (simp add: client_ok_def Let_def)
  show ?thesis
  proof (cases "sy_cur s")
    case None
    then have "calls c = Map.empty" "xid_rep_window c = [of_nat n]"
      using assms(1) by (simp_all add: client_ok_def Let_def c_def n_def)
    then have "rpcc_got_pdu r c = c" using g w(1) by simp
    then show ?thesis using assms(1) c_def by simp
  next
    case (Some q)
    obtain x bb ff where q: "q = (x, bb, ff)" by (metis prod_cases3)
    obtain ca where c: "clt_nonce c \<noteq> 0" "lossytest c = 0" "xid c = of_nat (Suc n)" "n \<noteq> 0"
      "bb = last (sy_issued s)" "x = of_nat n"
      "xid_rep_window c = [of_nat (n - 1)] \<or> xid_rep_window c = [of_nat n]" "calls c = [sint x \<mapsto> ca]"
      "ca_done ca \<and> 0 \<le> ca_intret ca \<longrightarrow> answered P a (sy_log s) bb (ca_intret ca) (ca_un ca)"
      "\<not> uoob (ca_un ca)"
      using assms(1) Some q unfolding client_ok_def Let_def c_def n_def by auto
    have win: "xid_rep_window (rpcc_got_pdu r c) = [of_nat (n - 1)] \<or> xid_rep_window (rpcc_got_pdu r c) = [of_nat n]"
      using c(7) w unfolding g Let_def by (auto split: option.splits)
    have same: "clt_nonce (rpcc_got_pdu r c) = clt_nonce c" "lossytest (rpcc_got_pdu r c) = lossytest c"
      "xid (rpcc_got_pdu r c) = xid c"
      unfolding g Let_def by (auto split: option.splits)
    have "\<exists>ca'. calls (rpcc_got_pdu r c) = [sint x \<mapsto> ca'] \<and> \<not> uoob (ca_un ca') \<and>
      (ca_done ca' \<and> 0 \<le> ca_intret ca' \<longrightarrow> answered P a (sy_log s) bb (ca_intret ca') (ca_un ca'))"
    proof (cases "sint (of_nat (num b) :: uint) = sint x \<and> \<not> ca_done ca")
      case True
      then have "(of_nat (num b) :: uint) = of_nat n" using c(6) by (metis word_of_sint)
      moreover have "num b < 2 ^ 32" using y(1) n32 by linarith
      ultimately have "num b = n" using of_nat_inj32 [OF _ n32] by blast
      then have "b = bb" using f(3) c(4,5) by (simp add: n_def last_conv_nth)
      moreover have "(received r)\<lparr>uoob := uoob (ca_un ca)\<rparr> = received r" using c(10) received_simps(5) by simp
      ultimately show ?thesis using True b(4) c(8,10) unfolding g Let_def
        by (intro exI [of _ "ca\<lparr>ca_un := received r, ca_intret := ret, ca_done := True\<rparr>"])
          (auto simp: received_simps)
    next
      case False
      then have "calls (rpcc_got_pdu r c) = calls c"
        using c(8) unfolding g Let_def by (auto split: option.splits)
      then show ?thesis using c(8-10) by auto
    qed
    then show ?thesis
      using Some q c same win one unfolding client_ok_def Let_def
      by (simp add: c_def [symmetric] n_def [symmetric])
  qed
qed

end

section \<open>The server's steps\<close>

text \<open>The duplicate check on request \<open>n\<close> when request \<open>k \<le> n\<close> alone is remembered.\<close>

lemma check_numbered:
  fixes s :: "'s rpcs"
  assumes n: "0 < n" "n < 2 ^ 32" and k: "k \<le> n"
    and mx: "maxima_xid_rep s clt = (if k = 0 then None else Some (of_nat (k - 1)))"
    and rw: "subscript [] (reply_window s) clt = (if k = 0 then [] else [r])" and r: "k \<noteq> 0 \<Longrightarrow> rp_id r = of_nat k"
  shows "checkduplicate_and_update clt (of_nat n) (of_nat (n - 1)) s =
    (if k = n then (if cb_present r then Done (rp_buf r) (rp_sz r) else Inprogress,
       s\<lparr>maxima_xid_rep := (maxima_xid_rep s)(clt \<mapsto> of_nat (n - 1)), reply_window := (reply_window s)(clt \<mapsto> [r])\<rparr>)
     else (New, s\<lparr>maxima_xid_rep := (maxima_xid_rep s)(clt \<mapsto> of_nat (n - 1)),
       reply_window := (reply_window s)(clt \<mapsto> [reply_t_new (of_nat n)])\<rparr>))"
proof -
  define x y z :: uint where "x = of_nat n" and "y = of_nat (n - 1)" and "z = of_nat (k - 1)"
  let ?m = "subscript y (maxima_xid_rep s) clt"
  have lt: "n - 1 < 2 ^ 32" "k - 1 < 2 ^ 32" "k < 2 ^ 32" "k - 1 \<le> n - 1" "\<not> n < k - 1" "n - 1 < n"
    using n k by linarith+
  have m: "?m = (if k = 0 then y else z)" using mx unfolding z_def [symmetric] by simp
  have zy: "z \<le> y" unfolding z_def y_def by (rule iffD2 [OF of_nat_le32 [OF lt(2,1)] lt(4)])
  have yx: "y < x" unfolding y_def x_def by (rule iffD2 [OF of_nat_less32 [OF lt(1) n(2)] lt(6)])
  have my: "?m \<le> y" and mx: "\<not> x < ?m" using m zy yx by auto
  have kx: "rp_id r = x \<longleftrightarrow> k = n" if "k \<noteq> 0"
    unfolding r [OF that] x_def by (rule of_nat_inj32 [OF lt(3) n(2)])
  have ky: "rp_id r \<le> y" if "k \<noteq> 0" "k \<noteq> n"
  proof -
    have "k \<le> n - 1" using that k by linarith
    then show ?thesis unfolding r [OF that(1)] y_def by (rule iffD2 [OF of_nat_le32 [OF lt(3,1)]])
  qed
  have sc: "window_scan x y [] (subscript [] (reply_window s) clt) = (if k = n then (Some r, [r]) else (None, []))"
    using rw kx ky n(1) by auto
  have "max ?m y = y" using my by (rule max_absorb2)
  then show ?thesis
    using check_eq [OF refl, of x y s clt "if k = n then Some r else None" "if k = n then [r] else []"] sc mx
    unfolding x_def [symmetric] y_def [symmetric] by simp
qed

lemma refs_frame [simp]:
  "procs (decref c s) = procs s" "app (decref c s) = app s" "reply_window (decref c s) = reply_window s"
  "maxima_xid_rep (decref c s) = maxima_xid_rep s" "out (decref c s) = out s"
  "procs (incref c s) = procs s" "app (incref c s) = app s" "reply_window (incref c s) = reply_window s"
  "maxima_xid_rep (incref c s) = maxima_xid_rep s" "out (incref c s) = out s"
  "nonce (decref c s) = nonce s" "nonce (incref c s) = nonce s"
  by (simp_all add: decref_def incref_def)

lemma send_frame [simp]:
  "procs (send c b sz s) = procs s" "app (send c b sz s) = app s" "reply_window (send c b sz s) = reply_window s"
  "maxima_xid_rep (send c b sz s) = maxima_xid_rep s" "out (send c b sz s) = out s @ [(c, b, sz)]"
  "nonce (send c b sz s) = nonce s"
  by (simp_all add: send_def)

lemma refuse_frame [simp]:
  "procs (refuse h e c s) = procs s" "app (refuse h e c s) = app s" "reply_window (refuse h e c s) = reply_window s"
  "maxima_xid_rep (refuse h e c s) = maxima_xid_rep s" "nonce (refuse h e c s) = nonce s"
  by (simp_all add: refuse_def Let_def)

lemma refuse_out:
  "out (refuse (req_hdr b) e c s) = out s @ [(c, mbuf (reply_message b (rpc_failure_code e) marshall_init),
     mind (reply_message b (rpc_failure_code e) marshall_init))]"
  by (simp add: refuse_def Let_def reply_message_def)

lemma new_out_simps:
  "out s' = out s \<Longrightarrow> new_out s s' = {}" "out s' = out s @ [(c, p)] \<Longrightarrow> new_out s s' = {p}"
  by (simp_all add: new_out_def)

text \<open>A request of another client leaves the client's window alone.\<close>

lemma foreign_check:
  assumes "dispatch_check born b c sv = Ret st" and "rq_clt_nonce (req_hdr b) \<noteq> clt"
    and "st = Answered sv' \<or> st = Handed sv'"
  shows "procs sv' = procs sv \<and> app sv' = app sv \<and> reply_window sv' clt = reply_window sv clt \<and>
    maxima_xid_rep sv' clt = maxima_xid_rep sv clt"
proof -
  obtain h req where u: "unpack_req_header (unmarshall_of b) = (h, req)" by (metis prod.exhaust)
  then have h: "req_hdr b = h" by (simp add: req_hdr_def)
  let ?s2 = "save_conn born (rq_clt_nonce h) c
    (sv\<lparr>reply_window := touch [] (rq_clt_nonce h) (reply_window sv)\<rparr>)"
  obtain v s3 where k: "checkduplicate_and_update (rq_clt_nonce h) (word_of_int (rq_xid h))
      (word_of_int (rq_xid_rep h)) ?s2 = (v, s3)" by (metis prod.exhaust)
  have s3: "procs s3 = procs sv" "app s3 = app sv" "reply_window s3 clt = reply_window sv clt"
    "maxima_xid_rep s3 clt = maxima_xid_rep sv clt"
  proof -
    show "procs s3 = procs sv" "app s3 = app sv"
      using check_frame2(1) [of "rq_clt_nonce h" "word_of_int (rq_xid h)" "word_of_int (rq_xid_rep h)" ?s2]
        check_frame(4) [of "rq_clt_nonce h" "word_of_int (rq_xid h)" "word_of_int (rq_xid_rep h)" ?s2] k by simp_all
    show "reply_window s3 clt = reply_window sv clt" "maxima_xid_rep s3 clt = maxima_xid_rep sv clt"
      using assms(2) k unfolding h
      by (cases rule: check_cases [of "rq_clt_nonce h" "word_of_int (rq_xid h)" "word_of_int (rq_xid_rep h)" ?s2];
          auto simp: touch_def)+
  qed
  show ?thesis
    using assms(1,3) u k s3
    by (cases v) (auto simp: dispatch_check_def split: if_splits)
qed

lemma remembers_cong:
  "reply_window t clt = reply_window s clt \<Longrightarrow> maxima_xid_rep t clt = maxima_xid_rep s clt \<Longrightarrow>
   remembers P a issued lg clt k t = remembers P a issued lg clt k s"
  unfolding remembers_def by (simp only:)

lemma own_check:
  assumes d: "dispatch_check born b c sv = Ret st" and b: "msg_ok clt n b" "0 < n" "n < 2 ^ 32" "clt \<noteq> 0"
    and k: "remembers P a issued lg clt k sv" "k \<le> n" and nth: "issued ! (n - 1) = b"
  shows "case st of
      Answered sv' \<Rightarrow> remembers P a issued lg clt k sv' \<and> procs sv' = procs sv \<and> app sv' = app sv \<and>
        (\<forall>p \<in> new_out sv sv'. reply_from P a lg b p \<or> refusal b p)
    | Handed sv' \<Rightarrow> k < n \<and> remembers P a issued lg clt n sv' \<and> procs sv' = procs sv \<and> app sv' = app sv"
proof -
  have u: "unpack_req_header (unmarshall_of b) = (req_hdr b, received b)" "uok (received b)"
    "word_of_int (rq_xid (req_hdr b)) = (of_nat n :: uint)" "rq_clt_nonce (req_hdr b) = clt"
    "word_of_int (rq_xid_rep (req_hdr b)) = (of_nat (n - 1) :: uint)"
    using b(1) unfolding msg_ok_def by (simp_all only: word_of_sint)
  let ?s2 = "save_conn born clt c (sv\<lparr>reply_window := touch [] clt (reply_window sv)\<rparr>)"
  obtain r where r: "maxima_xid_rep ?s2 clt = (if k = 0 then None else Some (of_nat (k - 1)))"
    "subscript [] (reply_window ?s2) clt = (if k = 0 then [] else [r])"
    "k \<noteq> 0 \<Longrightarrow> reply_window sv clt = Some [r]"
    "k \<noteq> 0 \<Longrightarrow> rp_id r = of_nat k"
    "k \<noteq> 0 \<Longrightarrow> cb_present r \<Longrightarrow> reply_from P a lg (issued ! (k - 1)) (rp_buf r, rp_sz r)"
    using k(1) unfolding remembers_def by (cases "k = 0") auto
  note ck = check_numbered [OF b(2,3) k(2) r(1,2) r(4)]
  let ?s3 = "\<lambda>w. ?s2\<lparr>maxima_xid_rep := (maxima_xid_rep ?s2)(clt \<mapsto> of_nat (n - 1)),
    reply_window := (reply_window ?s2)(clt \<mapsto> w)\<rparr>"
  consider (old) "rq_srv_nonce (req_hdr b) \<noteq> 0 \<and> rq_srv_nonce (req_hdr b) \<noteq> nonce sv"
      "st = Answered (refuse (req_hdr b) Oldsrv_failure c sv)"
    | (new) "k \<noteq> n" "st = Handed (?s3 [reply_t_new (of_nat n)])"
    | (again) "k = n" "cb_present r" "st = Answered (decref c (send c (rp_buf r) (rp_sz r) (?s3 [r])))"
    | (busy) "k = n" "\<not> cb_present r" "st = Answered (decref c (?s3 [r]))"
    using d ck u b(4) by (auto simp: dispatch_check_def split: if_splits)
  then show ?thesis
  proof cases
    case old
    have "\<forall>p \<in> new_out sv (refuse (req_hdr b) Oldsrv_failure c sv). refusal b p"
      unfolding new_out_simps(2) [OF refuse_out] refusal_def Let_def by blast
    moreover have "remembers P a issued lg clt k (refuse (req_hdr b) Oldsrv_failure c sv)"
      using k(1) by (rule iffD2 [OF remembers_cong, rotated 2]) simp_all
    ultimately show ?thesis using old(2) by simp
  next
    case new
    then show ?thesis using k(2) b(2) by (simp add: remembers_def reply_t_new_def)
  next
    case again
    have "reply_from P a lg b (rp_buf r, rp_sz r)" using r(5) again(1,2) b(2) nth by simp
    then show ?thesis using again r(3-5) b(2) by (simp add: remembers_def new_out_simps)
  next
    case busy
    then show ?thesis using r(3-5) b(2) by (simp add: remembers_def new_out_simps)
  qed
qed

lemma reply_conn_frame:
  assumes "reply_conn dead clt c s = Some (c', s')"
  shows "procs s' = procs s" "app s' = app s" "reply_window s' = reply_window s"
    "maxima_xid_rep s' = maxima_xid_rep s" "out s' = out s" "nonce s' = nonce s"
  using assms by (auto simp: reply_conn_def split: if_splits option.splits)

lemma updatestat_frame [simp]:
  "procs (rpcs_updatestat p s) = procs s" "app (rpcs_updatestat p s) = app s"
  "reply_window (rpcs_updatestat p s) = reply_window s" "maxima_xid_rep (rpcs_updatestat p s) = maxima_xid_rep s"
  "out (rpcs_updatestat p s) = out s" "nonce (rpcs_updatestat p s) = nonce s"
  by (simp_all add: rpcs_updatestat_def Let_def)

text \<open>The second half of \<open>dispatch\<close>: the handler's run, the reply remembered and sent.\<close>

lemma run_facts:
  assumes "dispatch_run dead b c sv = Ret sv'"
  obtains ret rep a' where "run_handler (procs sv) b (app sv) = (ret, rep, a')" "0 \<le> ret"
    "procs sv' = procs sv" "nonce sv' = nonce sv" "app sv' = a'" "maxima_xid_rep sv' = maxima_xid_rep sv"
    "new_out sv sv' = {(mbuf (reply_message b ret rep), mind (reply_message b ret rep))}"
    "reply_window sv' = (if 0 < rq_clt_nonce (req_hdr b)
       then (reply_window sv)(rq_clt_nonce (req_hdr b) \<mapsto>
         window_reply (of_nat (num b)) (mbuf (reply_message b ret rep)) (mind (reply_message b ret rep))
           (subscript [] (reply_window sv) (rq_clt_nonce (req_hdr b))))
       else reply_window sv)"
    "\<exists>c'. out sv' = out sv @ [(c', mbuf (reply_message b ret rep), mind (reply_message b ret rep))]"
proof -
  obtain h req where u: "unpack_req_header (unmarshall_of b) = (h, req)" by (metis prod.exhaust)
  then have h: "h = req_hdr b" by (simp add: req_hdr_def)
  obtain f where f: "procs sv (rq_proc h) = Some f"
    using assms u by (cases "procs sv (rq_proc h)") (simp_all add: dispatch_run_def)
  let ?s1 = "if counting sv \<noteq> 0 then rpcs_updatestat (rq_proc h) sv else sv"
  obtain ret rep a' where g: "f req marshall_init (app sv) = (ret, rep, a')" by (metis prod_cases3)
  have a1: "app ?s1 = app sv" by simp
  define m where "m = reply_message b ret rep"
  have t: "m_take_buf (pack_reply_header \<lparr>rp_xid = rq_xid h, rp_ret = ret\<rparr> rep)
      = (mbuf m, mind m, m\<lparr>mbuf := [], mind := 0\<rparr>)"
    by (simp add: m_take_buf_def m_def reply_message_def h)
  let ?s3 = "if rq_clt_nonce h > 0
    then add_reply (rq_clt_nonce h) (word_of_int (rq_xid h)) (mbuf m) (mind m) (?s1\<lparr>app := a'\<rparr>)
    else ?s1\<lparr>app := a'\<rparr>"
  have e: "dispatch_new dead h f req c sv = (if ret < 0 then Aborted
      else case reply_conn dead (rq_clt_nonce h) c ?s3 of None \<Rightarrow> Undef
        | Some (c', s4) \<Rightarrow> Ret (decref c' (send c' (mbuf m) (mind m) s4)))"
    by (simp only: dispatch_new_def Let_def a1 g prod.case t)
  have "dispatch_new dead h f req c sv = Ret sv'" using assms u f by (simp add: dispatch_run_def)
  then obtain c' s4 where r: "0 \<le> ret" "reply_conn dead (rq_clt_nonce h) c ?s3 = Some (c', s4)"
    "sv' = decref c' (send c' (mbuf m) (mind m) s4)"
    unfolding e by (cases "ret < 0"; cases "reply_conn dead (rq_clt_nonce h) c ?s3") auto
  note fr = reply_conn_frame [OF r(2)]
  have n: "(word_of_int (rq_xid h) :: uint) = of_nat (num b)" by (simp add: num_def h)
  show thesis
  proof (rule that [of ret rep a'])
    show "run_handler (procs sv) b (app sv) = (ret, rep, a')" using u f g by (simp add: run_handler_def)
    show "0 \<le> ret" by (rule r(1))
    show "procs sv' = procs sv" "app sv' = a'" "maxima_xid_rep sv' = maxima_xid_rep sv" "nonce sv' = nonce sv"
      using fr(1,2,4,6) r(3) by (simp_all add: add_reply_def)
    have o: "out sv' = out sv @ [(c', mbuf m, mind m)]" using fr(5) r(3) by (simp add: add_reply_def)
    then show "\<exists>c'. out sv' = out sv @ [(c', mbuf (reply_message b ret rep), mind (reply_message b ret rep))]"
      unfolding m_def by blast
    from o show "new_out sv sv' = {(mbuf (reply_message b ret rep), mind (reply_message b ret rep))}"
      by (simp add: new_out_simps m_def)
    show "reply_window sv' = (if 0 < rq_clt_nonce (req_hdr b)
       then (reply_window sv)(rq_clt_nonce (req_hdr b) \<mapsto>
         window_reply (of_nat (num b)) (mbuf (reply_message b ret rep)) (mind (reply_message b ret rep))
           (subscript [] (reply_window sv) (rq_clt_nonce (req_hdr b))))
       else reply_window sv)"
      using fr(3) r(3) n by (simp add: add_reply_def m_def h)
  qed
qed

section \<open>Every step keeps the invariant\<close>

lemma client_ok_frame:
  assumes "client_ok P a s" and "sy_cl t = sy_cl s" "sy_open t = sy_open s" "sy_issued t = sy_issued s"
    and "sy_log t = sy_log s @ l"
  shows "client_ok P a t"
proof (cases "sy_cur s")
  case None
  with assms show ?thesis by (simp add: client_ok_def sy_cur_cong [OF assms(3)])
next
  case (Some q)
  obtain x b f where "q = (x, b, f)" by (metis prod_cases3)
  with Some assms answered_mono [of P a "sy_log s"] show ?thesis
    unfolding client_ok_def Let_def sy_cur_cong [OF assms(3)] by fastforce
qed

lemma history_ok_frame:
  assumes h: "history_ok P a s" and eq: "clt_nonce (sy_cl t) = clt_nonce (sy_cl s)" "sy_open t = sy_open s"
    "sy_issued t = sy_issued s" "sy_returned t = sy_returned s" "sy_log t = sy_log s @ l"
    and new: "\<And>p. p \<in> sy_reps t \<Longrightarrow> p \<notin> sy_reps s \<Longrightarrow>
      \<exists>b \<in> set (sy_issued s). reply_from P a (sy_log t) b p \<or> refusal b p"
  shows "history_ok P a t"
  unfolding history_ok_def sy_cur_cong [OF eq(2)] eq(1,3,4)
proof (intro conjI ballI)
  show "issued_ok (clt_nonce (sy_cl s)) (sy_issued s)" by (rule history_okD(1) [OF h])
  show "sy_issued s = map fst (sy_returned s) @ (case sy_cur s of None \<Rightarrow> [] | Some (x, b, f) \<Rightarrow> [b])"
    by (rule history_okD(2) [OF h])
  show "case q of (b, ret, un) \<Rightarrow> 0 \<le> ret \<longrightarrow> answered P a (sy_log t) b ret un" if "q \<in> set (sy_returned s)" for q
    using that history_okD(3) [OF h] answered_mono [of P a "sy_log s"] unfolding eq(5) by fastforce
  show "\<exists>b \<in> set (sy_issued s). reply_from P a (sy_log t) b p \<or> refusal b p" if "p \<in> sy_reps t" for p
    using that new history_okD(4) [OF h] reply_from_mono [of P a "sy_log s"] unfolding eq(5)
    by (cases "p \<in> sy_reps s") blast+
qed

lemma history_ok_cl:
  "clt_nonce c = clt_nonce (sy_cl s) \<Longrightarrow> history_ok P a s \<Longrightarrow> history_ok P a (s\<lparr>sy_cl := c\<rparr>)"
  by (erule history_ok_frame [where l = "[]"]) simp_all

lemma server_ok_cl:
  "clt_nonce c = clt_nonce (sy_cl s) \<Longrightarrow> server_ok P a k s \<Longrightarrow> server_ok P a k (s\<lparr>sy_cl := c\<rparr>)"
  by (simp add: server_ok_def)

lemma server_okD:
  assumes "server_ok P a k s" and "clt = clt_nonce (sy_cl s)"
  shows "procs (sy_sv s) = P" "app (sy_sv s) = replay P (sy_log s) a" "k \<le> length (sy_issued s)"
    "remembers P a (sy_issued s) (sy_log s) clt k (sy_sv s)" "set (sy_reqs s) \<subseteq> set (sy_issued s)"
    "sorted (map num (sy_reqs s))" "\<And>b. b \<in> set (sy_reqs s) \<Longrightarrow> k \<le> num b"
    "distinct (ours clt (map fst (sy_jobs s) @ sy_log s))"
    "set (ours clt (map fst (sy_jobs s) @ sy_log s)) \<subseteq> set (sy_issued s)"
    "\<And>b. b \<in> set (ours clt (map fst (sy_jobs s) @ sy_log s)) \<Longrightarrow> num b \<le> k"
  using assms unfolding server_ok_def Let_def by blast+

lemma server_okI:
  assumes "clt = clt_nonce (sy_cl s)" and "procs (sy_sv s) = P" "app (sy_sv s) = replay P (sy_log s) a"
    and "k \<le> length (sy_issued s)" "remembers P a (sy_issued s) (sy_log s) clt k (sy_sv s)"
    and "set (sy_reqs s) \<subseteq> set (sy_issued s)" "sorted (map num (sy_reqs s))"
    and "\<And>b. b \<in> set (sy_reqs s) \<Longrightarrow> k \<le> num b"
    and "distinct (ours clt (map fst (sy_jobs s) @ sy_log s))"
    and "set (ours clt (map fst (sy_jobs s) @ sy_log s)) \<subseteq> set (sy_issued s)"
    and "\<And>b. b \<in> set (ours clt (map fst (sy_jobs s) @ sy_log s)) \<Longrightarrow> num b \<le> k"
  shows "server_ok P a k s"
  using assms unfolding server_ok_def Let_def by blast

subsection \<open>The client's calls\<close>

lemma begin_kept:
  assumes ok: "client_ok P a s" "history_ok P a s" "server_ok P a k s" and none: "sy_open s = []"
    and req: "m_wf req" "rpc_header_sz \<le> mind req" "mind req < 2 ^ 30"
    and cb: "call1_begin proc req unmarshall_init (sy_cl s) = (Inr (x, m, front), c')" and b: "carries m b"
  shows "sys_ok P a (s\<lparr>sy_cl := c', sy_open := [(x, b, front)], sy_issued := sy_issued s @ [b], sy_overlap := v\<rparr>)"
proof -
  let ?n = "length (sy_issued s)" and ?c = "sy_cl s"
  have c: "clt_nonce ?c \<noteq> 0" "lossytest ?c = 0" "xid ?c = of_nat (Suc ?n)" "calls ?c = Map.empty"
    "xid_rep_window ?c = [of_nat ?n]"
    using ok(1) none by (simp_all add: client_ok_def Let_def)
  have "mind req < 2 ^ 31" using req(3) by simp
  note m = begin_message [OF cb req(1,2) this b c(3,5)]
  have i: "issued_ok (clt_nonce ?c) (sy_issued s @ [b])"
    using history_okD(1) [OF ok(2)] m(1) by (auto simp: issued_ok_def nth_append less_Suc_eq)
  let ?t = "s\<lparr>sy_cl := c', sy_open := [(x, b, front)], sy_issued := sy_issued s @ [b], sy_overlap := v\<rparr>"
  have "\<exists>ca. [sint x \<mapsto> \<lparr>ca_xid = x, ca_un = unmarshall_init, ca_intret = 0, ca_done = False\<rparr>] = [sint x \<mapsto> ca] \<and>
      \<not> uoob (ca_un ca) \<and> (ca_done ca \<and> 0 \<le> ca_intret ca \<longrightarrow> answered P a (sy_log s) b (ca_intret ca) (ca_un ca))"
    by (rule exI [of _ "\<lparr>ca_xid = x, ca_un = unmarshall_init, ca_intret = 0, ca_done = False\<rparr>"])
      (simp add: unmarshall_init_def)
  then have "client_ok P a ?t" using c m(2,3) by (simp add: client_ok_def)
  moreover have "history_ok P a ?t"
    unfolding history_ok_def
  proof (intro conjI)
    show "issued_ok (clt_nonce (sy_cl ?t)) (sy_issued ?t)" using i m(3) by simp
    show "sy_issued ?t = map fst (sy_returned ?t) @ (case sy_cur ?t of None \<Rightarrow> [] | Some (x, b, f) \<Rightarrow> [b])"
      using history_okD(2) [OF ok(2)] none by simp
    show "\<forall>(b, ret, un) \<in> set (sy_returned ?t). 0 \<le> ret \<longrightarrow> answered P a (sy_log ?t) b ret un"
      using history_okD(3) [OF ok(2)] by simp
    show "\<forall>p \<in> sy_reps ?t. \<exists>b \<in> set (sy_issued ?t). reply_from P a (sy_log ?t) b p \<or> refusal b p"
      using history_okD(4) [OF ok(2)] by fastforce
  qed
  moreover have "server_ok P a k ?t"
  proof -
    note d = server_okD [OF ok(3) refl]
    have "remembers P a (sy_issued s @ [b]) (sy_log s) (clt_nonce ?c) k (sy_sv s)"
      using d(4) d(3) unfolding remembers_def by (cases "k = 0") (auto simp: nth_append)
    then show ?thesis using d m(3) unfolding server_ok_def Let_def by auto
  qed
  ultimately show ?thesis unfolding sys_ok_def by blast
qed

lemma end_kept:
  assumes ok: "client_ok P a s" "history_ok P a s" "server_ok P a k s" and n: "length (sy_issued s) < 2 ^ 32"
    and cur: "sy_open s = [(x, b, front)]"
    and e: "call1_end x b front (sy_cl s) = (Some (ret, un, dw), c')"
  shows "sys_ok P a (s\<lparr>sy_cl := c', sy_open := [], sy_returned := sy_returned s @ [(b, ret, un)]\<rparr>)"
proof -
  define n where "n = length (sy_issued s)"
  let ?c = "sy_cl s"
  obtain ca where c: "clt_nonce ?c \<noteq> 0" "lossytest ?c = 0" "xid ?c = of_nat (Suc n)" "n \<noteq> 0"
    "b = last (sy_issued s)" "x = of_nat n"
    "xid_rep_window ?c = [of_nat (n - 1)] \<or> xid_rep_window ?c = [of_nat n]" "calls ?c = [sint x \<mapsto> ca]"
    "ca_done ca \<and> 0 \<le> ca_intret ca \<longrightarrow> answered P a (sy_log s) b (ca_intret ca) (ca_un ca)"
    using ok(1) cur unfolding client_ok_def Let_def n_def by auto
  have w: "window_update x (xid_rep_window ?c) = [of_nat n]"
    using c(6,7) window_update_single [of n n] n c(4) n_def by auto
  have c': "c' = ?c\<lparr>calls := Map.empty, xid_rep_window := [of_nat n]\<rparr>"
    and r: "un = ca_un ca" "ret = (if ca_done ca then ca_intret ca else rpc_failure_code Timeout_failure)"
    using e c(2,8) w by (auto simp: call1_end_def update_xid_rep_def Let_def)
  let ?t = "s\<lparr>sy_cl := c', sy_open := [], sy_returned := sy_returned s @ [(b, ret, un)]\<rparr>"
  have "client_ok P a ?t" using c(1-3) c' by (simp add: client_ok_def n_def)
  moreover have "history_ok P a ?t"
  proof -
    have "0 \<le> ret \<longrightarrow> answered P a (sy_log s) b ret un"
      using r c(9) by auto
    then show ?thesis
      using history_okD [OF ok(2)] cur c' unfolding history_ok_def by auto
  qed
  moreover have "server_ok P a k ?t" using ok(3) c' by (simp add: server_ok_def)
  ultimately show ?thesis unfolding sys_ok_def by blast
qed

lemma bind_kept: "client_ok P a s \<Longrightarrow> client_ok P a (s\<lparr>sy_cl := rpcc_bind ret r (sy_cl s)\<rparr>)"
  "clt_nonce (rpcc_bind ret r c) = clt_nonce c"
  unfolding client_ok_def rpcc_bind_def Let_def sy_cur_client
  by (cases "sy_cur s"; auto)+

lemma cancel_kept: "client_ok P a s \<Longrightarrow> client_ok P a (s\<lparr>sy_cl := rpcc_cancel (sy_cl s)\<rparr>)"
  "clt_nonce (rpcc_cancel c) = clt_nonce c"
proof -
  show "clt_nonce (rpcc_cancel c) = clt_nonce c" by (simp add: rpcc_cancel_def Let_def)
  assume ok: "client_ok P a s"
  let ?f = "\<lambda>ca. ca\<lparr>ca_done := True, ca_intret := rpc_failure_code Cancel_failure\<rparr>"
  have e: "(\<lambda>y. map_option ?f ([k \<mapsto> ca] y)) = [k \<mapsto> ?f ca]" for k :: int and ca by auto
  show "client_ok P a (s\<lparr>sy_cl := rpcc_cancel (sy_cl s)\<rparr>)"
  proof (cases "sy_cur s")
    case None
    then show ?thesis using ok by (simp add: client_ok_def rpcc_cancel_def Let_def)
  next
    case (Some q)
    obtain x b f where q: "q = (x, b, f)" by (metis prod_cases3)
    then obtain ca where ca: "calls (sy_cl s) = [sint x \<mapsto> ca]" "\<not> uoob (ca_un ca)"
      using ok Some unfolding client_ok_def Let_def by auto
    have "rpcc_cancel (sy_cl s) = (sy_cl s)\<lparr>calls := [sint x \<mapsto> ?f ca], destroy_wait := True\<rparr>"
      unfolding rpcc_cancel_def ca(1) e Let_def by (simp add: fun_eq_iff)
    moreover have "\<exists>ca'. [sint x \<mapsto> ?f ca] = [sint x \<mapsto> ca'] \<and> \<not> uoob (ca_un ca') \<and>
        (ca_done ca' \<and> 0 \<le> ca_intret ca' \<longrightarrow> answered P a (sy_log s) b (ca_intret ca') (ca_un ca'))"
      using ca(2) by (intro exI [of _ "?f ca"]) simp
    ultimately show ?thesis using ok Some q unfolding client_ok_def Let_def by simp
  qed
qed

subsection \<open>The network and the server\<close>

lemma ours_append [simp]: "ours clt (xs @ ys) = ours clt xs @ ours clt ys"
  by (simp add: ours_def)

lemma ours_Cons: "ours clt (x # xs) = (if rq_clt_nonce (req_hdr x) = clt then x # ours clt xs else ours clt xs)"
  by (simp add: ours_def)

lemma sys_okI: "client_ok P a s \<Longrightarrow> history_ok P a s \<Longrightarrow> server_ok P a k s \<Longrightarrow> sys_ok P a s"
  unfolding sys_ok_def by blast

lemma transmit_kept:
  assumes ok: "client_ok P a s" "history_ok P a s" "server_ok P a k s" and n: "length (sy_issued s) < 2 ^ 32"
    and cur: "sy_cur s = Some (x, b, front)"
  shows "server_ok P a k (s\<lparr>sy_reqs := sy_reqs s @ [b]\<rparr>)"
proof -
  note d = server_okD [OF ok(3) refl]
  have i: "issued_ok (clt_nonce (sy_cl s)) (sy_issued s)" by (rule history_okD(1) [OF ok(2)])
  have b: "sy_issued s \<noteq> []" "b = last (sy_issued s)"
    using ok(1) cur unfolding client_ok_def Let_def by auto
  then have nb: "num b = length (sy_issued s)" "b \<in> set (sy_issued s)"
    using last_num(1) [OF i n] by simp_all
  have le: "num b' \<le> num b" if "b' \<in> set (sy_reqs s)" for b'
    using issued_facts(2) [OF i n] that d(5) nb(1) by auto
  have "sorted (map num (sy_reqs s @ [b]))" using d(6) le by (simp add: sorted_append)
  moreover have "k \<le> num b" using d(3) nb(1) by simp
  ultimately show ?thesis using d nb(2) unfolding server_ok_def Let_def by auto
qed

lemma lose_kept:
  assumes "server_ok P a k s" and "sy_reqs s = p @ b # q"
  shows "server_ok P a k (s\<lparr>sy_reqs := p @ q\<rparr>)"
proof -
  note d = server_okD [OF assms(1) refl]
  have "sorted (map num (p @ q))" using d(6) assms(2) by (auto simp: sorted_append)
  then show ?thesis using d assms(2) unfolding server_ok_def Let_def by auto
qed

lemma check_kept:
  assumes ok: "client_ok P a s" "history_ok P a s" "server_ok P a k s" and n: "length (sy_issued s) < 2 ^ 32"
    and q: "sy_reqs s = b # q" and d: "dispatch_check born b c (sy_sv s) = Ret st"
  shows "case st of
      Answered sv' \<Rightarrow> sys_ok P a (s\<lparr>sy_reqs := q, sy_sv := sv',
        sy_reps := sy_reps s \<union> new_out (sy_sv s) sv', sy_overtaken := v\<rparr>)
    | Handed sv' \<Rightarrow> sys_ok P a (s\<lparr>sy_reqs := q, sy_sv := sv', sy_jobs := sy_jobs s @ [(b, c)],
        sy_overtaken := v\<rparr>)"
proof -
  define clt where "clt = clt_nonce (sy_cl s)"
  note o = server_okD [OF ok(3) clt_def]
  have i: "issued_ok clt (sy_issued s)" unfolding clt_def by (rule history_okD(1) [OF ok(2)])
  have bi: "b \<in> set (sy_issued s)" using o(5) q by simp
  note f = issued_facts [OF i n bi]
  have lt: "num b < 2 ^ 32" using f(2) n by linarith
  have clt0: "clt \<noteq> 0" using ok(1) by (simp add: client_ok_def Let_def clt_def)
  have kb: "k \<le> num b" using o(7) q by simp
  note oc = own_check [OF d f(4,1) lt clt0 o(4) kb f(3)]
  have sq: "sorted (map num q)" "\<forall>b' \<in> set q. num b \<le> num b'" using o(6) q by auto
  show ?thesis
  proof (cases st)
    case (Answered sv')
    then have r: "remembers P a (sy_issued s) (sy_log s) clt k sv'" "procs sv' = procs (sy_sv s)"
      "app sv' = app (sy_sv s)" "\<forall>p \<in> new_out (sy_sv s) sv'. reply_from P a (sy_log s) b p \<or> refusal b p"
      using oc by simp_all
    let ?t = "s\<lparr>sy_reqs := q, sy_sv := sv', sy_reps := sy_reps s \<union> new_out (sy_sv s) sv', sy_overtaken := v\<rparr>"
    have "server_ok P a k ?t"
      using o r sq q unfolding server_ok_def Let_def by (auto simp: clt_def [symmetric])
    moreover have "history_ok P a ?t"
      by (rule history_ok_frame [OF ok(2), where l = "[]"]) (use r(4) bi in auto)
    moreover have "client_ok P a ?t" by (rule client_ok_frame [OF ok(1), where l = "[]"]) simp_all
    ultimately show ?thesis using sys_okI Answered by simp
  next
    case (Handed sv')
    then have r: "k < num b" "remembers P a (sy_issued s) (sy_log s) clt (num b) sv'"
      "procs sv' = procs (sy_sv s)" "app sv' = app (sy_sv s)"
      using oc by simp_all
    let ?t = "s\<lparr>sy_reqs := q, sy_sv := sv', sy_jobs := sy_jobs s @ [(b, c)], sy_overtaken := v\<rparr>"
    have "b \<notin> set (ours clt (map fst (sy_jobs s) @ sy_log s))" using o(10) r(1) by fastforce
    moreover have "num b' \<le> num b" if "b' \<in> set (ours clt (map fst (sy_jobs s) @ sy_log s))" for b'
      using o(10) [OF that] r(1) by linarith
    ultimately have "server_ok P a (num b) ?t"
      using o r sq q f(2) bi unfolding server_ok_def Let_def
      by (auto simp: clt_def [symmetric] ours_Cons ours_def [of _ "[]"])
    moreover have "history_ok P a ?t"
      by (rule history_ok_frame [OF ok(2), where l = "[]"]) simp_all
    moreover have "client_ok P a ?t" by (rule client_ok_frame [OF ok(1), where l = "[]"]) simp_all
    ultimately show ?thesis using sys_okI Handed by simp
  qed
qed

lemma foreign_kept:
  assumes ok: "client_ok P a s" "history_ok P a s" "server_ok P a k s"
    and b: "rq_clt_nonce (req_hdr b) \<noteq> clt_nonce (sy_cl s)" and d: "dispatch_check born b c (sy_sv s) = Ret st"
  shows "case st of
      Answered sv' \<Rightarrow> sys_ok P a (s\<lparr>sy_sv := sv'\<rparr>)
    | Handed sv' \<Rightarrow> sys_ok P a (s\<lparr>sy_sv := sv', sy_jobs := sy_jobs s @ [(b, c)]\<rparr>)"
proof -
  define clt where "clt = clt_nonce (sy_cl s)"
  note o = server_okD [OF ok(3) clt_def]
  obtain sv' where sv: "st = Answered sv' \<or> st = Handed sv'" by (cases st) auto
  note f = foreign_check [OF d b [folded clt_def] sv]
  have r: "remembers P a (sy_issued s) (sy_log s) clt k sv'"
    using remembers_cong [of sv' clt "sy_sv s"] f o(4) by blast
  have "sys_ok P a (s\<lparr>sy_sv := sv', sy_jobs := sy_jobs s @ js\<rparr>)" if "js = [] \<or> js = [(b, c)]" for js
  proof (rule sys_okI [where k = k])
    show "client_ok P a (s\<lparr>sy_sv := sv', sy_jobs := sy_jobs s @ js\<rparr>)"
      by (rule client_ok_frame [OF ok(1), where l = "[]"]) simp_all
    show "history_ok P a (s\<lparr>sy_sv := sv', sy_jobs := sy_jobs s @ js\<rparr>)"
      by (rule history_ok_frame [OF ok(2), where l = "[]"]) simp_all
    have "ours clt (map fst js) = []" using that b by (auto simp: ours_def clt_def)
    then show "server_ok P a k (s\<lparr>sy_sv := sv', sy_jobs := sy_jobs s @ js\<rparr>)"
      using o f r unfolding server_ok_def Let_def by (auto simp: clt_def [symmetric])
  qed
  from this [of "[]"] this [of "[(b, c)]"] sv show ?thesis by auto
qed

lemma run_remembers:
  assumes r: "remembers P a issued lg clt k sv" and d: "dispatch_run dead b c sv = Ret sv'"
    and P: "procs sv = P" "app sv = replay P lg a" and clt: "clt \<noteq> 0" and k: "k < 2 ^ 32"
    and own: "rq_clt_nonce (req_hdr b) = clt \<Longrightarrow> 0 < num b \<and> num b \<le> k \<and> issued ! (num b - 1) = b"
  shows "remembers P a issued (lg @ [b]) clt k sv' \<and> procs sv' = P \<and> app sv' = replay P (lg @ [b]) a \<and>
    (\<forall>p \<in> new_out sv sv'. reply_from P a (lg @ [b]) b p)"
proof -
  obtain ret rep a' where f: "run_handler P b (replay P lg a) = (ret, rep, a')" "0 \<le> ret" "procs sv' = procs sv"
    "app sv' = a'" "maxima_xid_rep sv' = maxima_xid_rep sv"
    "new_out sv sv' = {(mbuf (reply_message b ret rep), mind (reply_message b ret rep))}"
    and w: "reply_window sv' = (if 0 < rq_clt_nonce (req_hdr b)
       then (reply_window sv)(rq_clt_nonce (req_hdr b) \<mapsto>
         window_reply (of_nat (num b)) (mbuf (reply_message b ret rep)) (mind (reply_message b ret rep))
           (subscript [] (reply_window sv) (rq_clt_nonce (req_hdr b))))
       else reply_window sv)"
    using run_facts [OF d] unfolding P by metis
  have rf: "reply_from P a (lg @ [b]) b (mbuf (reply_message b ret rep), mind (reply_message b ret rep))"
    unfolding reply_from_def using f(1,2) by blast
  have "remembers P a issued (lg @ [b]) clt k sv'"
  proof (cases "rq_clt_nonce (req_hdr b) = clt")
    case False
    have "remembers P a issued (lg @ [b]) clt k sv"
      using r reply_from_mono [of P a lg _ _ "[b]"] unfolding remembers_def by (auto split: if_splits)
    then show ?thesis using remembers_cong [of sv' clt sv] w f(5) False by simp
  next
    case True
    note o = own [OF True]
    obtain e where e: "maxima_xid_rep sv clt = Some (of_nat (k - 1))" "reply_window sv clt = Some [e]"
      "rp_id e = of_nat k" "cb_present e \<longrightarrow> reply_from P a lg (issued ! (k - 1)) (rp_buf e, rp_sz e)"
      using r o unfolding remembers_def by auto
    let ?e = "if num b = k then e\<lparr>cb_present := True, rp_buf := mbuf (reply_message b ret rep),
      rp_sz := mind (reply_message b ret rep)\<rparr> else e"
    have "rp_id e = of_nat (num b) \<longleftrightarrow> num b = k"
      unfolding e(3) using of_nat_inj32 [OF k, of "num b"] o k by auto
    then have "reply_window sv' clt = Some [?e]" using w True clt e(2) by (simp add: word_neq_0_conv)
    moreover have "cb_present ?e \<longrightarrow> reply_from P a (lg @ [b]) (issued ! (k - 1)) (rp_buf ?e, rp_sz ?e)"
      using e(4) rf o reply_from_mono [of P a lg _ _ "[b]"] by auto
    ultimately show ?thesis using f(5) e(1,3) o unfolding remembers_def by auto
  qed
  with f rf P show ?thesis by (simp add: replay_snoc)
qed

lemma run_kept:
  assumes ok: "client_ok P a s" "history_ok P a s" "server_ok P a k s" and n: "length (sy_issued s) < 2 ^ 32"
    and j: "sy_jobs s = p @ (b, c) # q" and d: "dispatch_run dead b c (sy_sv s) = Ret sv'"
  shows "sys_ok P a (s\<lparr>sy_jobs := p @ q, sy_sv := sv', sy_log := sy_log s @ [b],
    sy_reps := (if rq_clt_nonce (req_hdr b) = clt_nonce (sy_cl s)
                then sy_reps s \<union> new_out (sy_sv s) sv' else sy_reps s)\<rparr>)" (is "sys_ok P a ?t")
proof -
  define clt where "clt = clt_nonce (sy_cl s)"
  note o = server_okD [OF ok(3) clt_def]
  have i: "issued_ok clt (sy_issued s)" unfolding clt_def by (rule history_okD(1) [OF ok(2)])
  have clt0: "clt \<noteq> 0" using ok(1) by (simp add: client_ok_def Let_def clt_def)
  have k: "k < 2 ^ 32" using o(3) n by linarith
  have mem: "b \<in> set (ours clt (map fst (sy_jobs s) @ sy_log s))" if "rq_clt_nonce (req_hdr b) = clt"
    using that j by (simp add: ours_def)
  have own: "0 < num b \<and> num b \<le> k \<and> sy_issued s ! (num b - 1) = b \<and> b \<in> set (sy_issued s)"
    if h: "rq_clt_nonce (req_hdr b) = clt"
  proof -
    have "b \<in> set (sy_issued s)" using o(9) mem [OF h] by blast
    then show ?thesis using issued_facts(1,3) [OF i n] o(10) [OF mem [OF h]] by blast
  qed
  have own3: "0 < num b \<and> num b \<le> k \<and> sy_issued s ! (num b - 1) = b"
    if h: "rq_clt_nonce (req_hdr b) = clt" using own [OF h] by blast
  have r: "remembers P a (sy_issued s) (sy_log s @ [b]) clt k sv'" "procs sv' = P"
    "app sv' = replay P (sy_log s @ [b]) a" "\<forall>p \<in> new_out (sy_sv s) sv'. reply_from P a (sy_log s @ [b]) b p"
    using run_remembers [OF o(4) d o(1,2) clt0 k own3] by blast+
  have w: "distinct (ours clt (map fst (p @ q) @ sy_log s @ [b]))"
    "set (ours clt (map fst (p @ q) @ sy_log s @ [b])) = set (ours clt (map fst (sy_jobs s) @ sy_log s))"
    using o(8) j by (auto simp: ours_Cons ours_def [of _ "[]"] split: if_splits)
  show ?thesis
  proof (rule sys_okI [where k = k])
    show "client_ok P a ?t" by (rule client_ok_frame [OF ok(1), where l = "[b]"]) simp_all
    show "history_ok P a ?t"
      by (rule history_ok_frame [OF ok(2), where l = "[b]"])
        (use own r(4) in \<open>auto simp: clt_def [symmetric] split: if_splits\<close>)
    show "server_ok P a k ?t"
    proof -
      have e: "ours clt (map fst (sy_jobs ?t) @ sy_log ?t) = ours clt (map fst (p @ q) @ sy_log s @ [b])" by simp
      show ?thesis
        by (rule server_okI [of clt]; (unfold e w(2))?)
          (use clt_def r(1-3) w(1) o(3,5,6,7,9,10) in simp_all)
    qed
  qed
qed

section \<open>A returned result is the answer of the only run\<close>

lemma issued_grows: "rpc_step s s' \<Longrightarrow> length (sy_issued s) \<le> length (sy_issued s')"
  by (induction rule: rpc_step.induct) simp_all

text \<open>Calls did not overlap, and no request was checked before one that was sent earlier.\<close>

definition orderly :: "'s rpc_sys \<Rightarrow> bool" where
  "orderly s \<longleftrightarrow> \<not> sy_overlap s \<and> \<not> sy_overtaken s"

lemma orderly_before: "rpc_step s s' \<Longrightarrow> orderly s' \<Longrightarrow> orderly s"
  by (induction rule: rpc_step.induct) (simp_all add: orderly_def)

lemma orderly_start [simp]: "orderly (rpc_sys_init c sv)"
  by (simp add: orderly_def rpc_sys_init_def)

lemma oldest_first:
  assumes "set p = {} \<or> set p = {b}"
  shows "p @ b # q = b # p @ q"
proof -
  have "p = replicate (length p) b" using assms by (auto simp: replicate_length_same [symmetric])
  then show ?thesis by (metis append_Cons replicate_app_Cons_same)
qed

context handlers
begin

lemma step_kept:
  assumes "rpc_step s s'" and "sys_ok P a s" and "length (sy_issued s) < 2 ^ 32" and ord: "orderly s'"
  shows "sys_ok P a s'"
proof -
  obtain k where ok: "client_ok P a s" "history_ok P a s" "server_ok P a k s"
    using assms(2) unfolding sys_ok_def by blast
  note n = assms(3)
  have one: "length (sy_open s) \<le> 1" using ok(1) by (simp add: client_ok_def Let_def)
  show ?thesis
    using assms(1)
  proof cases
    case (begin_call req proc x m front c' b)
    then have none: "sy_open s = []" using ord by (simp add: orderly_def)
    show ?thesis using begin_kept [OF ok none begin_call(2-6), of "sy_overlap s"] begin_call(1) none by simp
  next
    case (transmit x b front)
    have cur: "sy_cur s = Some (x, b, front)" using transmit(2) one by (cases "sy_open s") auto
    have "history_ok P a s'" unfolding transmit(1) by (rule history_ok_frame [OF ok(2), where l = "[]"]) simp_all
    moreover have "client_ok P a s'" unfolding transmit(1) by (rule client_ok_frame [OF ok(1), where l = "[]"]) simp_all
    moreover have "server_ok P a k s'" unfolding transmit(1) by (rule transmit_kept [OF ok n cur])
    ultimately show ?thesis by (intro sys_okI)
  next
    case (lose p b q)
    have "history_ok P a s'" unfolding lose(1) by (rule history_ok_frame [OF ok(2), where l = "[]"]) simp_all
    moreover have "client_ok P a s'" unfolding lose(1) by (rule client_ok_frame [OF ok(1), where l = "[]"]) simp_all
    moreover have "server_ok P a k s'" unfolding lose(1) by (rule lose_kept [OF ok(3) lose(2)])
    ultimately show ?thesis by (intro sys_okI)
  next
    case (check_answered p b q born c sv')
    then have "sy_reqs s = b # p @ q" using ord oldest_first [of p b q] by (auto simp: orderly_def)
    from check_kept [OF ok n this check_answered(3)] check_answered(1) show ?thesis by simp
  next
    case (check_handed p b q born c sv')
    then have "sy_reqs s = b # p @ q" using ord oldest_first [of p b q] by (auto simp: orderly_def)
    from check_kept [OF ok n this check_handed(3)] check_handed(1) show ?thesis by simp
  next
    case (foreign_answered b born c sv')
    then show ?thesis using foreign_kept [OF ok foreign_answered(2,3)] by simp
  next
    case (foreign_handed b born c sv')
    then show ?thesis using foreign_kept [OF ok foreign_handed(2,3)] by simp
  next
    case (run p b c q dead sv')
    then show ?thesis using run_kept [OF ok n run(2,3)] by simp
  next
    case (receive p r)
    have c: "clt_nonce (rpcc_got_pdu r (sy_cl s)) = clt_nonce (sy_cl s)"
      by (simp add: rpcc_got_pdu_def update_xid_rep_def case_prod_beta Let_def split: option.splits)
    show ?thesis unfolding receive(1)
      by (rule sys_okI [OF client_receive [OF ok(1,2) n receive(2-4)] history_ok_cl [OF c ok(2)]
            server_ok_cl [OF c ok(3)]])
  next
    case (end_call p x b front q ret un dw c')
    then have "p = [] \<and> q = []" using one by simp
    with end_call show ?thesis using end_kept [OF ok n _ end_call(3)] by simp
  next
    case (bind ret r)
    show ?thesis unfolding bind
      by (rule sys_okI [OF bind_kept(1) [OF ok(1)] history_ok_cl [OF bind_kept(2) ok(2)]
            server_ok_cl [OF bind_kept(2) ok(3)]])
  next
    case cancel
    show ?thesis unfolding cancel
      by (rule sys_okI [OF cancel_kept(1) [OF ok(1)] history_ok_cl [OF cancel_kept(2) ok(2)]
            server_ok_cl [OF cancel_kept(2) ok(3)]])
  qed
qed

lemma run_ok:
  assumes "rpc_run s0 s" and "sys_ok P a s0" and "length (sy_issued s) < 2 ^ 32" and "orderly s"
  shows "sys_ok P a s"
  using assms(1,3,4)
proof (induction rule: rpc_run.induct)
  case rpc_run_start
  show ?case by (rule assms(2))
next
  case (rpc_run_step s s')
  then have "length (sy_issued s) < 2 ^ 32" using issued_grows [of s s'] by linarith
  with rpc_run_step step_kept orderly_before show ?case by blast
qed

end

lemma init_ok:
  assumes "rnd \<noteq> 0" and "procs sv = P" and "app sv = a" and "reply_window sv rnd = None"
    and "maxima_xid_rep sv rnd = None"
  shows "sys_ok P a (rpc_sys_init (rpcc_init True rnd 0) sv)"
  by (rule sys_okI [where k = 0])
    (use assms in \<open>simp_all add: rpc_sys_init_def rpcc_init_def client_ok_def history_ok_def server_ok_def
      issued_ok_def remembers_def ours_def replay_def\<close>)

lemma step_nonce: "rpc_step s s' \<Longrightarrow> clt_nonce (sy_cl s') = clt_nonce (sy_cl s)"
proof (induction rule: rpc_step.induct)
  case (begin_call s req proc x m front c' b)
  then show ?case by (auto simp: call1_begin_def Let_def split: if_splits)
next
  case (receive p s r)
  then show ?case
    by (simp add: rpcc_got_pdu_def update_xid_rep_def case_prod_beta Let_def split: option.splits)
next
  case (end_call s p x b front q ret un dw c')
  then show ?case by (auto simp: call1_end_def update_xid_rep_def Let_def split: option.splits if_splits)
qed (simp_all add: bind_kept cancel_kept)

lemma run_nonce: "rpc_run s0 s \<Longrightarrow> clt_nonce (sy_cl s) = clt_nonce (sy_cl s0)"
  by (induction rule: rpc_run.induct) (simp_all add: step_nonce)

lemma issued_distinct:
  assumes "issued_ok clt l" and "length l < 2 ^ 32"
  shows "distinct l"
proof -
  have "num (l ! i) = Suc i" if "i < length l" for i
    using msg_num [of clt "Suc i" "l ! i"] assms that by (simp add: issued_ok_def)
  then show ?thesis by (auto simp: distinct_conv_nth) (metis nat.inject)
qed

lemma system_facts:
  assumes "handlers P" and r: "rpc_run (rpc_sys_init (rpcc_init True rnd 0) sv) s"
    and "rnd \<noteq> 0" "procs sv = P" "reply_window sv rnd = None" "maxima_xid_rep sv rnd = None"
    and n: "length (sy_issued s) < 2 ^ 32" and ord: "orderly s"
  obtains k where "client_ok P (app sv) s" "history_ok P (app sv) s" "server_ok P (app sv) k s"
    "clt_nonce (sy_cl s) = rnd"
proof -
  have "sys_ok P (app sv) s"
    by (rule handlers.run_ok [OF assms(1) r init_ok n ord]) (use assms in simp_all)
  moreover have "clt_nonce (sy_cl s) = rnd"
    using run_nonce [OF r] by (simp add: rpc_sys_init_def rpcc_init_def)
  ultimately show thesis using that unfolding sys_ok_def by blast
qed


section \<open>A call can complete\<close>

text \<open>The window and the maximum the server keeps when request \<open>k\<close> was handed over last.\<close>

definition knows :: "uint \<Rightarrow> nat \<Rightarrow> 's rpcs \<Rightarrow> bool" where
  "knows clt k sv \<longleftrightarrow>
     (if k = 0 then reply_window sv clt = None \<and> maxima_xid_rep sv clt = None
      else maxima_xid_rep sv clt = Some (of_nat (k - 1)) \<and>
        (\<exists>r. reply_window sv clt = Some [r] \<and> rp_id r = of_nat k))"

lemma remembers_knows: "remembers P a issued lg clt k sv \<Longrightarrow> knows clt k sv"
  unfolding remembers_def knows_def by (cases "k = 0") auto

lemma own_check_new:
  assumes b: "msg_ok clt n b" "0 < n" "n < 2 ^ 32" "clt \<noteq> 0" and k: "knows clt k sv" "k < n"
    and "rq_srv_nonce (req_hdr b) = 0 \<or> rq_srv_nonce (req_hdr b) = nonce sv"
    and "procs sv (rq_proc (req_hdr b)) \<noteq> None"
  shows "\<exists>sv'. dispatch_check born b c sv = Ret (Handed sv') \<and> procs sv' = procs sv \<and> app sv' = app sv \<and>
    nonce sv' = nonce sv \<and> knows clt n sv'"
proof -
  have u: "unpack_req_header (unmarshall_of b) = (req_hdr b, received b)" "uok (received b)"
    "word_of_int (rq_xid (req_hdr b)) = (of_nat n :: uint)" "rq_clt_nonce (req_hdr b) = clt"
    "word_of_int (rq_xid_rep (req_hdr b)) = (of_nat (n - 1) :: uint)"
    using b(1) unfolding msg_ok_def by (simp_all only: word_of_sint)
  let ?s2 = "save_conn born clt c (sv\<lparr>reply_window := touch [] clt (reply_window sv)\<rparr>)"
  obtain r where r: "maxima_xid_rep ?s2 clt = (if k = 0 then None else Some (of_nat (k - 1)))"
    "subscript [] (reply_window ?s2) clt = (if k = 0 then [] else [r])" "k \<noteq> 0 \<Longrightarrow> rp_id r = of_nat k"
    using k(1) unfolding knows_def by (cases "k = 0") auto
  note ck = check_numbered [OF b(2,3) less_imp_le [OF k(2)] r]
  show ?thesis using ck u b(2,4) k(2) assms(7,8) by (auto simp: dispatch_check_def knows_def reply_t_new_def)
qed

lemma knows_run:
  assumes "dispatch_run dead b c sv = Ret sv'" and "knows clt k sv" and "0 < k" and "rq_clt_nonce (req_hdr b) = clt"
  shows "knows clt k sv'"
proof -
  obtain r where r: "reply_window sv clt = Some [r]" "rp_id r = of_nat k" "maxima_xid_rep sv clt = Some (of_nat (k - 1))"
    using assms(2,3) unfolding knows_def by auto
  obtain "maxima_xid_rep sv' = maxima_xid_rep sv" "reply_window sv' = reply_window sv \<or>
      (\<exists>x m z. reply_window sv' = (reply_window sv)(clt \<mapsto> window_reply x m z (subscript [] (reply_window sv) clt)))"
    by (rule run_facts [OF assms(1)]) (use assms(4) in \<open>auto split: if_splits\<close>)
  then show ?thesis using r assms(3) unfolding knows_def by (auto split: if_splits)
qed

lemma run_possible:
  assumes "procs sv (rq_proc (req_hdr b)) \<noteq> None" and "run_handler (procs sv) b (app sv) = (ret, rep, a')"
    and "0 \<le> ret"
  shows "\<exists>sv'. dispatch_run (\<lambda>_. False) b c sv = Ret sv'"
proof -
  obtain h req where u: "unpack_req_header (unmarshall_of b) = (h, req)" by (metis prod.exhaust)
  obtain f where f: "procs sv (rq_proc h) = Some f" using assms(1) u by (auto simp: req_hdr_def)
  have "f req marshall_init (app sv) = (ret, rep, a')" using assms(2) u f by (simp add: run_handler_def)
  then show ?thesis
    using u f assms(3) by (simp add: dispatch_run_def dispatch_new_def reply_conn_def Let_def m_take_buf_def)
qed

lemma run_trans: "rpc_run s0 s \<Longrightarrow> rpc_run s s' \<Longrightarrow> rpc_run s0 s'"
  by (rotate_tac, induction rule: rpc_run.induct) (auto intro: rpc_run_step)

text \<open>The last part: once a reply for the call in progress has been sent, the call can return it.\<close>

lemma reply_can_return:
  assumes cur: "sy_open s = [(of_nat n, b, front)]" and m: "msg_ok clt n b" and n: "n < 2 ^ 32"
    and ca: "calls (sy_cl s) (sint (of_nat n :: uint)) = Some ca" "\<not> ca_done ca"
    and rep: "m_wf rep" "rpc_header_sz \<le> mind rep" "mind rep < 2 ^ 31"
    and ret: "- (2 ^ 31) \<le> ret" "ret < 2 ^ 31"
    and p: "(mbuf (reply_message b ret rep), mind (reply_message b ret rep)) \<in> sy_reps s"
  shows "\<exists>s' un. rpc_run s s' \<and> sy_returned s' = sy_returned s @ [(b, ret, un)] \<and>
    sy_issued s' = sy_issued s \<and> sy_log s' = sy_log s \<and> (orderly s \<longrightarrow> orderly s')"
proof -
  let ?m = "reply_message b ret rep" and ?x = "of_nat n :: uint"
  have xid: "rq_xid (req_hdr b) = sint ?x" using m by (simp add: msg_ok_def)
  note spec = pack_reply_header_spec [OF rep(1,2), of "\<lparr>rp_xid = rq_xid (req_hdr b), rp_ret = ret\<rparr>"]
  have wf: "m_wf ?m" "mind ?m = mind rep" using spec by (simp_all add: reply_message_def)
  let ?r = "sent ?m"
  have c: "carries ?m ?r" by (rule carries_sent [OF wf(1)])
  have l: "length ?r < 2 ^ 31" using c wf(2) rep(3) by (simp add: carries_def)
  have a: "arrives_as (mbuf ?m, mind ?m) ?r" using c by (simp add: arrives_as_def carries_def)
  have fit: "reply_header_fits \<lparr>rp_xid = sint ?x, rp_ret = ret\<rparr>"
    using ret sint_fits [of ?x] by (simp add: reply_header_fits_def)
  note u = reply_header_parsed [OF rep(1,2) fit c [unfolded reply_message_def xid] l [unfolded reply_message_def xid]]
  let ?s1 = "s\<lparr>sy_cl := rpcc_got_pdu ?r (sy_cl s)\<rparr>"
  have 1: "rpc_step s ?s1" by (rule rpc_step.receive [OF p a l])
  obtain ca' where ca': "calls (sy_cl ?s1) (sint ?x) = Some ca'" "ca_done ca'" "ca_intret ca' = ret"
    using got_pdu_eq [of ?r n ret "sy_cl s"] u ca unfolding reply_message_def xid by (simp add: Let_def)
  obtain un dw c2 where e: "call1_end ?x b front (sy_cl ?s1) = (Some (ret, un, dw), c2)"
    using ca' by (auto simp: call1_end_def Let_def)
  let ?s2 = "?s1\<lparr>sy_cl := c2, sy_open := [], sy_returned := sy_returned ?s1 @ [(b, ret, un)]\<rparr>"
  have 2: "rpc_step ?s1 ?s2" using rpc_step.end_call [of ?s1 "[]", OF _ e] cur by simp
  have "rpc_run s ?s2" by (rule rpc_run_step [OF rpc_run_step [OF rpc_run_start 1] 2])
  then show ?thesis by (intro exI [of _ ?s2] exI [of _ un]) (simp add: orderly_def)
qed

lemma begin_possible:
  assumes "xid c = of_nat (Suc n)" "xid_rep_window c = [of_nat n]" and "bind_done c \<longleftrightarrow> proc \<noteq> 1" "\<not> destroy_wait c"
    and req: "m_wf req" "rpc_header_sz \<le> mind req" "mind req < 2 ^ 31"
  obtains m b c1 h where "call1_begin proc req unmarshall_init c = (Inr (of_nat (Suc n), m, of_nat n), c1)"
    "carries m b" "b = sent m" "m = pack_req_header h req" "req_header_fits h" "length b < 2 ^ 31"
    "rq_proc h = sint proc" "msg_ok (clt_nonce c) (Suc n) b" "rq_proc (req_hdr b) = sint proc"
    "rq_srv_nonce (req_hdr b) = srv_nonce c" "req_hdr b = h" "clt_nonce c1 = clt_nonce c"
    "c1 = c\<lparr>xid := xid c + 1, calls := (calls c)(sint (of_nat (Suc n) :: uint) \<mapsto>
       \<lparr>ca_xid = of_nat (Suc n), ca_un = unmarshall_init, ca_intret = 0, ca_done = False\<rparr>)\<rparr>"
    "calls c1 (sint (of_nat (Suc n) :: uint)) =
       Some \<lparr>ca_xid = of_nat (Suc n), ca_un = unmarshall_init, ca_intret = 0, ca_done = False\<rparr>"
proof -
  let ?h = "\<lparr>rq_xid = sint (xid c), rq_proc = sint proc, rq_clt_nonce = clt_nonce c,
     rq_srv_nonce = srv_nonce c, rq_xid_rep = sint (of_nat n :: uint)\<rparr>"
  let ?m = "pack_req_header ?h req"
  obtain c1 where cb: "call1_begin proc req unmarshall_init c = (Inr (of_nat (Suc n), ?m, of_nat n), c1)"
    using assms(1-4) by (simp add: call1_begin_def Let_def)
  have wm: "m_wf ?m" "mind ?m = mind req" using pack_req_header_spec [OF req(1,2)] by simp_all
  have cr: "carries ?m (sent ?m)" by (rule carries_sent [OF wm(1)])
  note bm = begin_message [OF cb req cr assms(1,2)]
  have l: "length (sent ?m) < 2 ^ 31" using cr wm(2) req(3) by (simp add: carries_def)
  have f: "req_header_fits ?h" using sint_fits by (auto simp: req_header_fits_def)
  have "req_hdr (sent ?m) = ?h"
    using request_parsed [OF req(1,2) f cr l] by (simp add: req_hdr_def)
  then show thesis by (intro that [OF cb cr refl refl f l _ bm(1)]) (simp_all add: bm(3))
qed

text \<open>
  From every state in which the client is bound, idle and has nothing under way, the network and the
  server can bring a call of a registered procedure to its result.
\<close>

lemma call_can_complete:
  fixes s :: "'s rpc_sys" and proc :: uint
  assumes H: "handlers P" and ok: "sys_ok P a s" and n: "Suc (length (sy_issued s)) < 2 ^ 32"
    and idle: "sy_open s = []" "sy_reqs s = []"
    and bound: "bind_done (sy_cl s)" "\<not> destroy_wait (sy_cl s)" "srv_nonce (sy_cl s) = nonce (sy_sv s)"
    and req: "m_wf req" "rpc_header_sz \<le> mind req" "mind req < 2 ^ 30" and proc: "proc \<noteq> 1" "P (sint proc) = Some f"
    and run: "\<And>h b. carries (pack_req_header h req) b \<Longrightarrow> req_header_fits h \<Longrightarrow> length b < 2 ^ 31 \<Longrightarrow>
      \<exists>ret rep a'. f (received b) marshall_init (app (sy_sv s)) = (ret, rep, a') \<and>
      0 \<le> ret \<and> mind rep < 2 ^ 31"
  shows "\<exists>s' b ret un. rpc_run s s' \<and> sy_returned s' = sy_returned s @ [(b, ret, un)] \<and> 0 \<le> ret \<and>
    sy_issued s' = sy_issued s @ [b] \<and> sy_log s' = sy_log s @ [b] \<and> (orderly s \<longrightarrow> orderly s') \<and>
    (\<exists>h. carries (pack_req_header h req) b \<and> req_header_fits h \<and> rq_proc h = sint proc \<and> length b < 2 ^ 31)"
proof -
  let ?N = "length (sy_issued s)" and ?c = "sy_cl s" and ?clt = "clt_nonce (sy_cl s)"
  obtain k where k: "client_ok P a s" "history_ok P a s" "server_ok P a k s"
    using ok unfolding sys_ok_def by blast
  note o = server_okD [OF k(3) refl]
  have c: "?clt \<noteq> 0" "xid ?c = of_nat (Suc ?N)" "xid_rep_window ?c = [of_nat ?N]"
    using k(1) idle(1) by (simp_all add: client_ok_def Let_def)
  obtain m b c1 h where cb: "call1_begin proc req unmarshall_init ?c = (Inr (of_nat (Suc ?N), m, of_nat ?N), c1)"
    and cr: "carries m b" and m: "m = pack_req_header h req" "req_header_fits h" "length b < 2 ^ 31"
      "rq_proc h = sint proc"
    and bm: "msg_ok ?clt (Suc ?N) b" and hb: "rq_proc (req_hdr b) = sint proc"
      "rq_srv_nonce (req_hdr b) = srv_nonce ?c" and c1: "clt_nonce c1 = ?clt"
      "calls c1 (sint (of_nat (Suc ?N) :: uint)) =
         Some \<lparr>ca_xid = of_nat (Suc ?N), ca_un = unmarshall_init, ca_intret = 0, ca_done = False\<rparr>"
    by (rule begin_possible [OF c(2,3) _ bound(2) req(1,2), where proc = proc]) (use req(3) bound(1) proc(1) in auto)
  have u: "unpack_req_header (unmarshall_of b) = (req_hdr b, received b)" and hc: "rq_clt_nonce (req_hdr b) = ?clt"
    using bm by (simp_all add: msg_ok_def)
  let ?s1 = "s\<lparr>sy_cl := c1, sy_open := [(of_nat (Suc ?N), b, of_nat ?N)], sy_issued := sy_issued s @ [b]\<rparr>"
  have 1: "rpc_step s ?s1" using rpc_step.begin_call [OF req cb cr] idle(1) by simp
  let ?s2 = "?s1\<lparr>sy_reqs := [b]\<rparr>"
  have 2: "rpc_step ?s1 ?s2" using rpc_step.transmit [of "of_nat (Suc ?N)" b "of_nat ?N" ?s1] idle(2) by simp
  obtain sv1 where sv1: "dispatch_check (\<lambda>_. (0, 0)) b 0 (sy_sv s) = Ret (Handed sv1)"
    "procs sv1 = P" "app sv1 = app (sy_sv s)"
    using own_check_new [OF bm _ n c(1) remembers_knows [OF o(4)], where born = "\<lambda>_. (0, 0)" and c = 0] o(1,3) hb bound(3) proc(2)
    by auto
  let ?s3 = "?s2\<lparr>sy_reqs := [], sy_sv := sv1, sy_jobs := sy_jobs s @ [(b, 0)]\<rparr>"
  have 3: "rpc_step ?s2 ?s3" using rpc_step.check_handed [of ?s2 "[]" b "[]"] sv1(1) by simp
  obtain ret rep a' where f: "f (received b) marshall_init (app (sy_sv s)) = (ret, rep, a')" "0 \<le> ret" "mind rep < 2 ^ 31"
    using run [OF cr [unfolded m(1)] m(2,3)] by blast
  have rh: "run_handler P b (app sv1) = (ret, rep, a')" using u hb(1) proc(2) f(1) sv1(3) by (simp add: run_handler_def)
  obtain sv2 where sv2: "dispatch_run (\<lambda>_. False) b 0 sv1 = Ret sv2"
    using run_possible [of sv1 b ret rep a' 0] rh f(2) sv1(2) hb proc(2) by auto
  have no: "new_out sv1 sv2 = {(mbuf (reply_message b ret rep), mind (reply_message b ret rep))}"
    using run_facts [OF sv2] rh unfolding sv1(2) by (metis Pair_inject)
  let ?s4 = "?s3\<lparr>sy_jobs := sy_jobs s @ [], sy_sv := sv2, sy_log := sy_log s @ [b],
    sy_reps := sy_reps s \<union> new_out sv1 sv2\<rparr>"
  have 4: "rpc_step ?s3 ?s4" using rpc_step.run [of ?s3 "sy_jobs s" b 0 "[]"] sv2 hc c1(1) by simp
  have r4: "rpc_run s ?s4"
    by (rule rpc_run_step [OF rpc_run_step [OF rpc_run_step [OF rpc_run_step [OF rpc_run_start 1] 2] 3] 4])
  note rr = handlers.run_result [OF H rh]
  obtain ca where ca: "calls (sy_cl ?s4) (sint (of_nat (Suc ?N) :: uint)) = Some ca" "\<not> ca_done ca"
    using c1(2) by simp
  have "\<exists>s' un. rpc_run ?s4 s' \<and> sy_returned s' = sy_returned ?s4 @ [(b, ret, un)] \<and>
    sy_issued s' = sy_issued ?s4 \<and> sy_log s' = sy_log ?s4 \<and> (orderly ?s4 \<longrightarrow> orderly s')"
    by (rule reply_can_return [OF _ bm n ca rr(1,2) f(3) rr(3,4)]) (use no in simp_all)
  then obtain s' un where s': "rpc_run ?s4 s'" "sy_returned s' = sy_returned s @ [(b, ret, un)]"
    "sy_issued s' = sy_issued s @ [b]" "sy_log s' = sy_log s @ [b]" "orderly s \<longrightarrow> orderly s'"
    by (auto simp: orderly_def)
  with run_trans [OF r4 s'(1)] f(2) cr m show ?thesis by blast
qed

section \<open>Registered wrappers are such handlers\<close>

definition handler_ok :: "'s handler \<Rightarrow> bool" where
  "handler_ok f \<longleftrightarrow> (\<forall>u a ret rep a'. f u marshall_init a = (ret, rep, a') \<longrightarrow>
     m_wf rep \<and> rpc_header_sz \<le> mind rep \<and> - (2 ^ 31) \<le> ret \<and> ret < 2 ^ 31)"

lemma handlersI: "(\<And>p f. P p = Some f \<Longrightarrow> handler_ok f) \<Longrightarrow> handlers P"
  unfolding handlers_def handler_ok_def by blast

text \<open>A marshalling operator that only appends, and a method that returns an \<open>int\<close>.\<close>

definition writes :: "'r putter \<Rightarrow> bool" where
  "writes p \<longleftrightarrow> (\<forall>r. \<exists>bs. emits bs (p r))"

definition int_code :: "int \<Rightarrow> bool" where
  "int_code x \<longleftrightarrow> - (2 ^ 31) \<le> x \<and> x < 2 ^ 31"

lemma writes_init:
  assumes "writes p"
  shows "m_wf (p r marshall_init) \<and> rpc_header_sz \<le> mind (p r marshall_init)"
proof -
  obtain bs where "emits bs (p r)" using assms by (auto simp: writes_def)
  from emitsD(1,2) [OF this marshall_init_wf(1)] show ?thesis by (simp add: marshall_init_def)
qed

lemma writes_basic [simp]: "writes m_int" "writes m_string" "writes m_attr"
proof -
  show "writes m_int"
    unfolding writes_def m_int_def using emits_uint by blast
  show "writes m_string"
    unfolding writes_def m_string_def using emits_comp [OF emits_uint emits_rawbytes] by blast
  show "writes m_attr" unfolding writes_def using emits_attr by blast
qed

lemma bad_args_ok: "m_wf marshall_init \<and> rpc_header_sz \<le> mind marshall_init \<and>
    - (2 ^ 31) \<le> rpc_failure_code Unmarshal_args_failure \<and> rpc_failure_code Unmarshal_args_failure < 2 ^ 31"
  by (simp add: marshall_init_wf) (simp add: marshall_init_def)

lemma handler_okI:
  assumes "writes p" and "\<And>u a ret rep a'. f u marshall_init a = (ret, rep, a') \<Longrightarrow>
     ret = rpc_failure_code Unmarshal_args_failure \<and> rep = marshall_init \<or>
     int_code ret \<and> (\<exists>r. rep = p r marshall_init)"
  shows "handler_ok f"
  unfolding handler_ok_def int_code_def [symmetric]
proof (intro allI impI)
  fix u a ret rep a' assume "f u marshall_init a = (ret, rep, a')"
  from assms(2) [OF this] show "m_wf rep \<and> rpc_header_sz \<le> mind rep \<and> int_code ret"
    using writes_init [OF assms(1)] bad_args_ok unfolding int_code_def by blast
qed

lemma reg_handler_ok:
  "writes p \<Longrightarrow> (\<And>a r s. int_code (fst (m1 a r s))) \<Longrightarrow> handler_ok (reg1_fn g1 p r0 m1)"
  "writes p \<Longrightarrow> (\<And>a b r s. int_code (fst (m2 a b r s))) \<Longrightarrow> handler_ok (reg2_fn g1 g2 p r0 m2)"
  "writes p \<Longrightarrow> (\<And>a b c r s. int_code (fst (m3 a b c r s))) \<Longrightarrow> handler_ok (reg3_fn g1 g2 g3 p r0 m3)"
  "writes p \<Longrightarrow> (\<And>a b c d r s. int_code (fst (m4 a b c d r s))) \<Longrightarrow> handler_ok (reg4_fn g1 g2 g3 g4 p r0 m4)"
  by (erule handler_okI; auto simp: reg1_fn_def reg2_fn_def reg3_fn_def reg4_fn_def simp del: rpc_failure_code.simps
      split: prod.splits if_splits; metis fst_conv)+

text \<open>A server of one procedure that adds its argument to a sum, and a call of it.\<close>

definition sum_handler :: "int handler" where
  "sum_handler = reg1_fn u_int m_int 0 (\<lambda>n r a. (0, a + n, a + n))"

definition sum_rpcs :: "int rpcs" where
  "sum_rpcs = \<lparr>nonce = 9, reply_window = Map.empty, maxima_xid_rep = Map.empty, conns = Map.empty,
     counting = 0, curr_counts = 0, counts = Map.empty, procs = [7 \<mapsto> sum_handler], refs = (\<lambda>_. 0), out = [],
     app = 5\<rparr>"

lemma sum_handlers: "handlers [7 \<mapsto> sum_handler]"
  by (rule handlersI)
    (auto simp: sum_handler_def int_code_def split: if_splits intro!: reg_handler_ok(1))

lemma sum_call_completes:
  "\<exists>s b ret un. rpc_run (rpc_sys_init (rpcc_init True 77 0) sum_rpcs) s \<and>
     sy_returned s = [(b, ret, un)] \<and> 0 \<le> ret \<and> sy_issued s = [b] \<and> sy_log s = [b] \<and> orderly s"
proof -
  let ?P = "[7 \<mapsto> sum_handler]" and ?s0 = "rpc_sys_init (rpcc_init True 77 0) sum_rpcs"
  let ?s1 = "?s0\<lparr>sy_cl := rpcc_bind 0 9 (sy_cl ?s0)\<rparr>"
  have 1: "rpc_run ?s0 ?s1" by (rule rpc_run_step [OF rpc_run_start rpc_step.bind])
  have f3: "- (2 ^ 31) \<le> (3 :: int) \<and> (3 :: int) < 2 ^ 31" by simp
  note p = int_codec.marshalled [OF f3]
  have "sys_ok ?P 5 ?s1"
    by (rule handlers.run_ok [OF sum_handlers 1 init_ok]) (simp_all add: sum_rpcs_def rpc_sys_init_def orderly_def)
  moreover have "\<exists>ret rep a'. sum_handler (received b) marshall_init 5 = (ret, rep, a') \<and> 0 \<le> ret \<and> mind rep < 2 ^ 31"
    if "carries (pack_req_header h (m_int 3 marshall_init)) b" "req_header_fits h" "length b < 2 ^ 31" for h b
  proof -
    have "u_int (received b) = (3, (received b)\<lparr>uind := length b\<rparr>)" "okdone ((received b)\<lparr>uind := length b\<rparr>)"
      using int_codec.request_roundtrip [OF f3 that(2,1,3)] by simp_all
    then show ?thesis
      using int_codec.marshalled(2) [of 8] by (simp add: sum_handler_def reg1_fn_def rpc_header_sz_def)
  qed
  ultimately have "\<exists>s b ret un. rpc_run ?s1 s \<and> sy_returned s = sy_returned ?s1 @ [(b, ret, un)] \<and> 0 \<le> ret \<and>
      sy_issued s = sy_issued ?s1 @ [b] \<and> sy_log s = sy_log ?s1 @ [b] \<and> (orderly ?s1 \<longrightarrow> orderly s) \<and>
      (\<exists>h. carries (pack_req_header h (m_int 3 marshall_init)) b \<and> req_header_fits h \<and> rq_proc h = sint (7 :: uint) \<and>
        length b < 2 ^ 31)"
    by (intro call_can_complete [OF sum_handlers, where proc = 7 and req = "m_int 3 marshall_init" and f = sum_handler])
      (use p in \<open>simp_all add: rpc_sys_init_def rpcc_init_def rpcc_bind_def sum_rpcs_def rpc_header_sz_def\<close>)
  then show ?thesis using run_trans [OF 1] by (fastforce simp: rpc_sys_init_def orderly_def)
qed


end
