(* ===== verification/Services.thy ===== *)
theory Services
  imports Rpc_System Extent_Server Lock_Server
begin

text \<open>
  The two servers as their main programs build them (\<open>extent_smain.cc\<close>, \<open>lock_smain.cc\<close>): the
  wrapper of each handler, the messages the stubs of \<open>extent_client.cc\<close> and the group tool send, and
  the tables of procedures.  The extent server behind the RPC library is then a server that handles
  the requests of the messages that ran, and nothing else.
\<close>

section \<open>Wrappers read what stubs wrote\<close>

text \<open>
  For any argument types that meet the contract of the operators: a wrapper that gets the message
  of its stub calls the method with the arguments and marshals what it returns.
\<close>

lemma reg2_run:
  assumes c: "codec p1 g1 e1 f1" "codec p2 g2 e2 f2" and f: "f1 a1" "f2 a2"
    and m: "carries (pack_req_header h (call2 p1 p2 a1 a2)) b" "req_header_fits h" "length b < 2 ^ 31"
    and meth: "meth a1 a2 r0 s = (ret, r, s')"
  shows "reg2_fn g1 g2 p r0 meth (received b) marshall_init s = (ret, p r marshall_init, s')"
proof -
  note C = codec_pair [OF c]
  have "carries (pack_req_header h ((\<lambda>(x, y) m. p2 y (p1 x m)) (a1, a2) marshall_init)) b"
    using m(1) by (simp add: call2_def)
  from codec.request_roundtrip [OF C _ m(2) this m(3)] f meth show ?thesis
    by (auto simp: reg2_fn_def split: prod.splits)
qed

lemma reg3_run:
  assumes c: "codec p1 g1 e1 f1" "codec p2 g2 e2 f2" "codec p3 g3 e3 f3" and f: "f1 a1" "f2 a2" "f3 a3"
    and m: "carries (pack_req_header h (call3 p1 p2 p3 a1 a2 a3)) b" "req_header_fits h" "length b < 2 ^ 31"
    and meth: "meth a1 a2 a3 r0 s = (ret, r, s')"
  shows "reg3_fn g1 g2 g3 p r0 meth (received b) marshall_init s = (ret, p r marshall_init, s')"
proof -
  note C = codec_pair [OF c(1) codec_pair [OF c(2,3)]]
  have "carries (pack_req_header h
      ((\<lambda>(x, y) m. (\<lambda>(x, y) m. p3 y (p2 x m)) y (p1 x m)) (a1, a2, a3) marshall_init)) b"
    using m(1) by (simp add: call3_def)
  from codec.request_roundtrip [OF C _ m(2) this m(3)] f meth show ?thesis
    by (auto simp: reg3_fn_def split: prod.splits)
qed

lemma reg4_run:
  assumes c: "codec p1 g1 e1 f1" "codec p2 g2 e2 f2" "codec p3 g3 e3 f3" "codec p4 g4 e4 f4"
    and f: "f1 a1" "f2 a2" "f3 a3" "f4 a4"
    and m: "carries (pack_req_header h (call4 p1 p2 p3 p4 a1 a2 a3 a4)) b" "req_header_fits h" "length b < 2 ^ 31"
    and meth: "meth a1 a2 a3 a4 r0 s = (ret, r, s')"
  shows "reg4_fn g1 g2 g3 g4 p r0 meth (received b) marshall_init s = (ret, p r marshall_init, s')"
proof -
  note C = codec_pair [OF c(1) codec_pair [OF c(2) codec_pair [OF c(3,4)]]]
  have "carries (pack_req_header h
      ((\<lambda>(x, y) m. (\<lambda>(x, y) m. (\<lambda>(x, y) m. p4 y (p3 x m)) y (p2 x m)) y (p1 x m)) (a1, a2, a3, a4) marshall_init)) b"
    using m(1) by (simp add: call4_def)
  from codec.request_roundtrip [OF C _ m(2) this m(3)] f meth show ?thesis
    by (auto simp: reg4_fn_def split: prod.splits)
qed

section \<open>The extent server's table\<close>

text \<open>
  The wrappers of \<open>extent_smain.cc\<close> (\<open>get\<close> and \<open>put\<close> are those of \<^theory_text>\<open>Rpc_Typed\<close>); \<open>r0\<close> is the
  indeterminate \<open>int\<close> result, \<open>a0\<close> the indeterminate \<open>attr\<close> result.
\<close>

type_synonym ext_handler = "extent_server handler"

definition int_reply :: "int \<Rightarrow> extent_status \<times> extent_server \<Rightarrow> int \<times> int \<times> extent_server" where
  "int_reply r p = (extent_status_code (fst p), r, snd p)"

definition getattr_wrapper :: "attr \<Rightarrow> attr \<Rightarrow> ext_handler" where
  "getattr_wrapper a0 junk = reg3_fn u_ull u_uint (u_string []) m_attr a0
     (\<lambda>i u k a s. let (st, a', s1) = extent_server_getattr junk i u k s in (extent_status_code st, a', s1))"

definition setattr_wrapper :: "int \<Rightarrow> attr \<Rightarrow> ext_handler" where
  "setattr_wrapper r0 junk = reg4_fn u_ull u_attr u_uint (u_string []) m_int r0
     (\<lambda>i a u k r s. int_reply r (extent_server_setattr junk i a u k s))"

definition remove_wrapper :: "int \<Rightarrow> ext_handler" where
  "remove_wrapper r0 = reg3_fn u_ull u_uint (u_string []) m_int r0
     (\<lambda>i u k r s. int_reply r (extent_server_remove i u k s))"

definition reg_wrapper :: "int \<Rightarrow> ext_handler" where
  "reg_wrapper r0 = reg2_fn u_uint (u_string []) m_int r0
     (\<lambda>u k r s. int_reply r (extent_server_reg u k s))"

definition groupadd_wrapper :: "int \<Rightarrow> ext_handler" where
  "groupadd_wrapper r0 = reg3_fn u_uint u_uint (u_string []) m_int r0
     (\<lambda>g a k r s. int_reply r (extent_server_groupadd g a k s))"

definition groupdel_wrapper :: "int \<Rightarrow> ext_handler" where
  "groupdel_wrapper r0 = reg3_fn u_uint u_uint (u_string []) m_int r0
     (\<lambda>g a k r s. int_reply r (extent_server_groupdel g a k s))"

definition useradd_wrapper :: "int \<Rightarrow> ext_handler" where
  "useradd_wrapper r0 = reg4_fn u_uint u_uint u_uint (u_string []) m_int r0
     (\<lambda>u g a k r s. int_reply r (extent_server_useradd u g a k s))"

definition userdel_wrapper :: "int \<Rightarrow> ext_handler" where
  "userdel_wrapper r0 = reg4_fn u_uint u_uint u_uint (u_string []) m_int r0
     (\<lambda>u g a k r s. int_reply r (extent_server_userdel u g a k s))"

text \<open>The procedure numbers of \<open>extent_protocol.h\<close>, by request.\<close>

fun ext_proc :: "ext_req \<Rightarrow> int" where
  "ext_proc (ReqPut i buf u k) = 0x6001"
| "ext_proc (ReqGet i u k) = 0x6002"
| "ext_proc (ReqGetattr i u k) = 0x6003"
| "ext_proc (ReqRemove i u k) = 0x6004"
| "ext_proc (ReqSetattr i a u k) = 0x6005"
| "ext_proc (ReqReg u k) = 0x6006"
| "ext_proc (ReqGroupadd g a k) = 0x6007"
| "ext_proc (ReqGroupdel g a k) = 0x6008"
| "ext_proc (ReqUseradd u g a k) = 0x6009"
| "ext_proc (ReqUserdel u g a k) = 0x600a"

text \<open>
  The application behind the table: the extent server and the number of handler runs so far; the
  clock and the indeterminate memory of run \<open>n\<close> are \<open>sc n\<close>.
\<close>

record ext_obs =
  eo_now :: uint
  eo_junk :: attr
  eo_int :: int
  eo_attr :: attr

type_synonym ext_app = "extent_server \<times> nat"

definition at_run :: "(nat \<Rightarrow> ext_obs) \<Rightarrow> (ext_obs \<Rightarrow> ext_handler) \<Rightarrow> ext_app handler" where
  "at_run sc w u m a =
     (let (ret, rep, s) = w (sc (snd a)) u m (fst a) in (ret, rep, (s, Suc (snd a))))"

definition ext_table :: "(nat \<Rightarrow> ext_obs) \<Rightarrow> (int \<times> ext_app handler) list" where
  "ext_table sc =
     [(0x6002, at_run sc (\<lambda>o1. get_wrapper (eo_now o1) (eo_junk o1))),
      (0x6003, at_run sc (\<lambda>o1. getattr_wrapper (eo_attr o1) (eo_junk o1))),
      (0x6005, at_run sc (\<lambda>o1. setattr_wrapper (eo_int o1) (eo_junk o1))),
      (0x6001, at_run sc (\<lambda>o1. put_wrapper (eo_int o1) (eo_now o1) (eo_junk o1))),
      (0x6004, at_run sc (\<lambda>o1. remove_wrapper (eo_int o1))),
      (0x6006, at_run sc (\<lambda>o1. reg_wrapper (eo_int o1))),
      (0x6007, at_run sc (\<lambda>o1. groupadd_wrapper (eo_int o1))),
      (0x6008, at_run sc (\<lambda>o1. groupdel_wrapper (eo_int o1))),
      (0x6009, at_run sc (\<lambda>o1. useradd_wrapper (eo_int o1))),
      (0x600a, at_run sc (\<lambda>o1. userdel_wrapper (eo_int o1)))]"

text \<open>The calls of \<open>server.reg\<close>, one after the other; a number registered twice aborts.\<close>

fun reg_all :: "(int \<times> 's handler) list \<Rightarrow> 's rpcs \<Rightarrow> 's rpcs outcome" where
  "reg_all [] s = Ret s"
| "reg_all ((p, h) # t) s = (case rpcs_reg1 p h s of Ret s' \<Rightarrow> reg_all t s' | e \<Rightarrow> e)"

definition extent_smain :: "uint \<Rightarrow> int \<Rightarrow> int \<Rightarrow> (nat \<Rightarrow> ext_obs) \<Rightarrow> extent_server \<Rightarrow> ext_app rpcs outcome" where
  "extent_smain rnd count junk sc s =
     (case rpcs_init rnd count junk (s, 0) of Ret sv \<Rightarrow> reg_all (ext_table sc) sv | e \<Rightarrow> e)"

lemma reg_all_eq:
  assumes "distinct (map fst t)" and "\<forall>p \<in> set (map fst t). procs s p = None"
  shows "reg_all t s = Ret (s\<lparr>procs := procs s ++ map_of t\<rparr>)"
  using assms
proof (induction t arbitrary: s)
  case (Cons q t)
  obtain p h where q: "q = (p, h)" by (metis prod.exhaust)
  have "reg_all t (s\<lparr>procs := (procs s)(p \<mapsto> h)\<rparr>) = Ret (s\<lparr>procs := (procs s)(p \<mapsto> h) ++ map_of t\<rparr>)"
  proof -
    have "distinct (map fst t)" "\<forall>p' \<in> set (map fst t). procs (s\<lparr>procs := (procs s)(p \<mapsto> h)\<rparr>) p' = None"
      using Cons.prems q by auto
    from Cons.IH [OF this] show ?thesis by (simp add: fun_upd_def)
  qed
  moreover have "map_of t p = None" using Cons.prems q by (simp add: map_of_eq_None_iff)
  then have "(procs s)(p \<mapsto> h) ++ map_of t = procs s ++ map_of (q # t)"
    by (auto simp: q map_add_def fun_eq_iff split: option.splits)
  moreover have "reg_all (q # t) s = reg_all t (s\<lparr>procs := (procs s)(p \<mapsto> h)\<rparr>)"
    using Cons.prems q by (simp add: rpcs_reg1_def)
  ultimately show ?case by (simp only:)
qed simp

text \<open>The server starts: no number is registered twice, and these are its procedures.\<close>

definition ext_procs :: "uint \<Rightarrow> int \<Rightarrow> (nat \<Rightarrow> ext_obs) \<Rightarrow> int \<rightharpoonup> ext_app handler" where
  "ext_procs rnd junk sc = [rpc_bind_proc \<mapsto> reg1_fn u_int m_int junk (rpcs_rpcbind rnd)] ++ map_of (ext_table sc)"

lemma extent_smain_starts:
  "\<exists>sv. extent_smain rnd count junk sc s = Ret sv \<and> procs sv = ext_procs rnd junk sc \<and> nonce sv = rnd \<and>
     app sv = (s, 0) \<and> reply_window sv = Map.empty \<and> maxima_xid_rep sv = Map.empty"
  using reg_all_eq [of "ext_table sc" "\<lparr>nonce = rnd, reply_window = Map.empty, maxima_xid_rep = Map.empty,
      conns = Map.empty, counting = count, curr_counts = count, counts = Map.empty,
      procs = [rpc_bind_proc \<mapsto> reg1_fn u_int m_int junk (rpcs_rpcbind rnd)],
      refs = (\<lambda>_. 0), out = [], app = (s, 0)\<rparr>"]
  by (simp add: extent_smain_def rpcs_init_def rpcs_reg1_def ext_procs_def ext_table_def rpc_bind_proc_def)

lemma int_code_status [simp]: "int_code (extent_status_code st)"
  by (cases st) (simp_all add: int_code_def)

lemma ext_wrappers_ok:
  "handler_ok (get_wrapper cur junk)" "handler_ok (put_wrapper r0 cur junk)" "handler_ok (getattr_wrapper a0 junk)"
  "handler_ok (setattr_wrapper r0 junk)" "handler_ok (remove_wrapper r0)" "handler_ok (reg_wrapper r0)"
  "handler_ok (groupadd_wrapper r0)" "handler_ok (groupdel_wrapper r0)" "handler_ok (useradd_wrapper r0)"
  "handler_ok (userdel_wrapper r0)"
  unfolding get_wrapper_def put_wrapper_def getattr_wrapper_def setattr_wrapper_def remove_wrapper_def
    reg_wrapper_def groupadd_wrapper_def groupdel_wrapper_def useradd_wrapper_def userdel_wrapper_def
  by (rule reg_handler_ok; simp add: int_reply_def case_prod_beta Let_def)+

lemma at_run_ok:
  assumes "\<And>ob. handler_ok (w ob)"
  shows "handler_ok (at_run sc w)"
  unfolding handler_ok_def
proof (intro allI impI)
  fix u a ret rep a' assume "at_run sc w u marshall_init a = (ret, rep, a')"
  then obtain s where "w (sc (snd a)) u marshall_init (fst a) = (ret, rep, s)"
    by (auto simp: at_run_def split: prod.splits)
  with assms show "m_wf rep \<and> rpc_header_sz \<le> mind rep \<and> - (2 ^ 31) \<le> ret \<and> ret < 2 ^ 31"
    unfolding handler_ok_def by blast
qed

lemma ext_procs_cases:
  assumes "ext_procs rnd junk sc p = Some f"
  obtains "p = rpc_bind_proc" "f = reg1_fn u_int m_int junk (rpcs_rpcbind rnd)"
  | "(p, f) \<in> set (ext_table sc)"
  using assms by (auto simp: ext_procs_def map_add_def dest: map_of_SomeD split: option.splits if_splits)

interpretation ext: handlers "ext_procs rnd junk sc" for rnd junk sc
proof (rule handlersI)
  fix p f
  assume "ext_procs rnd junk sc p = Some f"
  then show "handler_ok f"
  proof (cases rule: ext_procs_cases)
    case 1
    then show ?thesis by (auto intro!: reg_handler_ok(1) simp: rpcs_rpcbind_def int_code_def)
  next
    case 2
    then show ?thesis unfolding ext_table_def by (auto intro!: at_run_ok ext_wrappers_ok)
  qed
qed

section \<open>The stubs' messages\<close>

text \<open>What the stubs of \<open>extent_client.cc\<close> and of the group tool marshal.\<close>

fun ext_message :: "ext_req \<Rightarrow> marshall" where
  "ext_message (ReqPut i buf u k) = call4 m_ull m_string m_uint m_string i buf u k"
| "ext_message (ReqGet i u k) = call3 m_ull m_uint m_string i u k"
| "ext_message (ReqGetattr i u k) = call3 m_ull m_uint m_string i u k"
| "ext_message (ReqSetattr i a u k) = call4 m_ull m_attr m_uint m_string i a u k"
| "ext_message (ReqRemove i u k) = call3 m_ull m_uint m_string i u k"
| "ext_message (ReqReg u k) = call2 m_uint m_string u k"
| "ext_message (ReqGroupadd g a k) = call3 m_uint m_uint m_string g a k"
| "ext_message (ReqGroupdel g a k) = call3 m_uint m_uint m_string g a k"
| "ext_message (ReqUseradd u g a k) = call4 m_uint m_uint m_uint m_string u g a k"
| "ext_message (ReqUserdel u g a k) = call4 m_uint m_uint m_uint m_string u g a k"

fun ext_strings :: "ext_req \<Rightarrow> string list" where
  "ext_strings (ReqPut i buf u k) = [buf, k]"
| "ext_strings (ReqGet i u k) = [k]"
| "ext_strings (ReqGetattr i u k) = [k]"
| "ext_strings (ReqSetattr i a u k) = [k]"
| "ext_strings (ReqRemove i u k) = [k]"
| "ext_strings (ReqReg u k) = [k]"
| "ext_strings (ReqGroupadd g a k) = [k]"
| "ext_strings (ReqGroupdel g a k) = [k]"
| "ext_strings (ReqUseradd u g a k) = [k]"
| "ext_strings (ReqUserdel u g a k) = [k]"

text \<open>The type of a request's result, and how server and client marshal it.\<close>

fun ext_put_reply :: "int \<Rightarrow> ext_reply \<Rightarrow> marshall \<Rightarrow> marshall" where
  "ext_put_reply r0 RepInt = m_int r0"
| "ext_put_reply r0 (RepString c) = m_string c"
| "ext_put_reply r0 (RepAttr a) = m_attr a"

fun ext_get_reply :: "ext_reply \<Rightarrow> unmarshall \<Rightarrow> ext_reply \<times> unmarshall" where
  "ext_get_reply RepInt u = (let (r, u') = u_int u in (RepInt, u'))"
| "ext_get_reply (RepString c) u = (let (c', u') = u_string [] u in (RepString c', u'))"
| "ext_get_reply (RepAttr a) u = (let (a', u') = u_attr u in (RepAttr a', u'))"

fun ext_reply_type :: "ext_req \<Rightarrow> ext_reply" where
  "ext_reply_type (ReqGet i u k) = RepString []"
| "ext_reply_type (ReqGetattr i u k) = RepAttr undefined"
| "ext_reply_type _ = RepInt"

lemmas arg_codecs = ull_codec.codec_axioms uint_codec.codec_axioms attr_codec.codec_axioms
  string_codec.codec_axioms [of "[]"]

lemmas ext_wrapper_defs = get_wrapper_def put_wrapper_def getattr_wrapper_def setattr_wrapper_def
  remove_wrapper_def reg_wrapper_def groupadd_wrapper_def groupdel_wrapper_def useradd_wrapper_def
  userdel_wrapper_def

text \<open>The wrapper of a request's procedure.\<close>

fun ext_wrapper :: "ext_req \<Rightarrow> ext_obs \<Rightarrow> ext_handler" where
  "ext_wrapper (ReqPut i buf u k) ob = put_wrapper (eo_int ob) (eo_now ob) (eo_junk ob)"
| "ext_wrapper (ReqGet i u k) ob = get_wrapper (eo_now ob) (eo_junk ob)"
| "ext_wrapper (ReqGetattr i u k) ob = getattr_wrapper (eo_attr ob) (eo_junk ob)"
| "ext_wrapper (ReqSetattr i a u k) ob = setattr_wrapper (eo_int ob) (eo_junk ob)"
| "ext_wrapper (ReqRemove i u k) ob = remove_wrapper (eo_int ob)"
| "ext_wrapper (ReqReg u k) ob = reg_wrapper (eo_int ob)"
| "ext_wrapper (ReqGroupadd g a k) ob = groupadd_wrapper (eo_int ob)"
| "ext_wrapper (ReqGroupdel g a k) ob = groupdel_wrapper (eo_int ob)"
| "ext_wrapper (ReqUseradd u g a k) ob = useradd_wrapper (eo_int ob)"
| "ext_wrapper (ReqUserdel u g a k) ob = userdel_wrapper (eo_int ob)"

lemma ext_procs_at: "ext_procs rnd junk sc (ext_proc q) = Some (at_run sc (ext_wrapper q))"
  by (cases q) (simp_all add: ext_procs_def ext_table_def rpc_bind_proc_def fun_eq_iff at_run_def)

text \<open>The handler registered for a request's procedure, on the request's message, handles the request.\<close>

lemma ext_wrapper_run:
  assumes m: "carries (pack_req_header h (ext_message q)) b" "req_header_fits h" "length b < 2 ^ 31"
    and fits: "\<forall>x \<in> set (ext_strings q). string_fits x"
    and hd: "extent_handle (eo_now ob) (eo_junk ob) q s = (st, rep, s')"
  shows "ext_wrapper q ob (received b) marshall_init s =
    (extent_status_code st, ext_put_reply (eo_int ob) rep marshall_init, s')"
proof (cases q)
  case (ReqPut i buf u k)
  then show ?thesis
    using fits hd
    by (auto simp: put_wrapper_def int_reply_def split: prod.splits
        intro!: reg4_run [OF arg_codecs(1,4,2,4) _ _ _ _ m(1) [unfolded ReqPut ext_message.simps] m(2,3)])
next
  case (ReqGet i u k)
  then show ?thesis
    using fits hd
    by (auto simp: get_wrapper_def int_reply_def split: prod.splits
        intro!: reg3_run [OF arg_codecs(1,2,4) _ _ _ m(1) [unfolded ReqGet ext_message.simps] m(2,3)])
next
  case (ReqGetattr i u k)
  then show ?thesis
    using fits hd
    by (auto simp: getattr_wrapper_def int_reply_def split: prod.splits
        intro!: reg3_run [OF arg_codecs(1,2,4) _ _ _ m(1) [unfolded ReqGetattr ext_message.simps] m(2,3)])
next
  case (ReqSetattr i a u k)
  then show ?thesis
    using fits hd
    by (auto simp: setattr_wrapper_def int_reply_def split: prod.splits
        intro!: reg4_run [OF arg_codecs(1,3,2,4) _ _ _ _ m(1) [unfolded ReqSetattr ext_message.simps] m(2,3)])
next
  case (ReqRemove i u k)
  then show ?thesis
    using fits hd
    by (auto simp: remove_wrapper_def int_reply_def split: prod.splits
        intro!: reg3_run [OF arg_codecs(1,2,4) _ _ _ m(1) [unfolded ReqRemove ext_message.simps] m(2,3)])
next
  case (ReqReg u k)
  then show ?thesis
    using fits hd
    by (auto simp: reg_wrapper_def int_reply_def split: prod.splits
        intro!: reg2_run [OF arg_codecs(2,4) _ _ m(1) [unfolded ReqReg ext_message.simps] m(2,3)])
next
  case (ReqGroupadd g a k)
  then show ?thesis
    using fits hd
    by (auto simp: groupadd_wrapper_def int_reply_def split: prod.splits
        intro!: reg3_run [OF arg_codecs(2,2,4) _ _ _ m(1) [unfolded ReqGroupadd ext_message.simps] m(2,3)])
next
  case (ReqGroupdel g a k)
  then show ?thesis
    using fits hd
    by (auto simp: groupdel_wrapper_def int_reply_def split: prod.splits
        intro!: reg3_run [OF arg_codecs(2,2,4) _ _ _ m(1) [unfolded ReqGroupdel ext_message.simps] m(2,3)])
next
  case (ReqUseradd u g a k)
  then show ?thesis
    using fits hd
    by (auto simp: useradd_wrapper_def int_reply_def split: prod.splits
        intro!: reg4_run [OF arg_codecs(2,2,2,4) _ _ _ _ m(1) [unfolded ReqUseradd ext_message.simps] m(2,3)])
next
  case (ReqUserdel u g a k)
  then show ?thesis
    using fits hd
    by (auto simp: userdel_wrapper_def int_reply_def split: prod.splits
        intro!: reg4_run [OF arg_codecs(2,2,2,4) _ _ _ _ m(1) [unfolded ReqUserdel ext_message.simps] m(2,3)])
qed

lemma ext_procs_run:
  assumes "carries (pack_req_header h (ext_message q)) b" "req_header_fits h" "length b < 2 ^ 31"
    and "\<forall>x \<in> set (ext_strings q). string_fits x" and "rq_proc h = ext_proc q" and "m_wf (ext_message q)"
    and "rpc_header_sz \<le> mind (ext_message q)"
    and "extent_handle (eo_now (sc (snd a))) (eo_junk (sc (snd a))) q (fst a) = (st, rep, s')"
  shows "run_handler (ext_procs rnd junk sc) b a =
    (extent_status_code st, ext_put_reply (eo_int (sc (snd a))) rep marshall_init, (s', Suc (snd a)))"
proof -
  have "unpack_req_header (unmarshall_of b) = (h, received b)"
    by (rule request_parsed [OF assms(6,7,2,1,3)])
  then show ?thesis
    using ext_wrapper_run [OF assms(1-4,8)] assms(5)
    by (simp add: run_handler_def ext_procs_at at_run_def)
qed

section \<open>Messages are well formed and replies read back\<close>

lemma emits_string: "emits (uint_bytes (of_nat (length c)) @ map char_byte c) (m_string c)"
  unfolding m_string_def by (rule emits_comp [OF emits_uint emits_rawbytes])

lemma emits_ull: "emits (ull_bytes x) (m_ull x)"
  by (rule ull_codec.put_emits) simp

lemma emits_message:
  assumes "emits bs f"
  shows "m_wf (f marshall_init)" "mind (f marshall_init) = rpc_header_sz + length bs"
  using emitsD(1,2) [OF assms marshall_init_wf(1)] by (simp_all add: marshall_init_def)

lemma attr_bytes_length [simp]: "length (attr_bytes a) = 28"
  by (simp add: attr_bytes_def)

lemma ext_message_emits:
  "\<exists>bs f. ext_message q = f marshall_init \<and> emits bs f \<and>
     length bs \<le> 64 + sum_list (map length (ext_strings q))"
proof -
  note e = emits_string emits_ull emits_uint emits_attr
  note d = call2_def call3_def call4_def
  have 2: "emits (b1 @ b2) (\<lambda>m. p2 (p1 m))" if "emits b1 p1" "emits b2 p2" for b1 b2 p1 p2
    by (rule emits_comp [OF that])
  have 3: "emits (b1 @ b2 @ b3) (\<lambda>m. p3 (p2 (p1 m)))" if "emits b1 p1" "emits b2 p2" "emits b3 p3" for b1 b2 b3 p1 p2 p3
    by (rule emits_comp [OF that(1) emits_comp [OF that(2,3)]])
  have 4: "emits (b1 @ b2 @ b3 @ b4) (\<lambda>m. p4 (p3 (p2 (p1 m))))"
    if "emits b1 p1" "emits b2 p2" "emits b3 p3" "emits b4 p4" for b1 b2 b3 b4 p1 p2 p3 p4
    by (rule emits_comp [OF that(1) emits_comp [OF that(2) emits_comp [OF that(3,4)]]])
  show ?thesis
  proof (cases q)
    case (ReqPut i buf u k)
    show ?thesis unfolding ReqPut ext_message.simps d
      by (intro exI conjI, rule refl, rule 4 [OF e(2,1,3,1)]) (simp add: bytes_length)
  next
    case (ReqGet i u k)
    show ?thesis unfolding ReqGet ext_message.simps d
      by (intro exI conjI, rule refl, rule 3 [OF e(2,3,1)]) (simp add: bytes_length)
  next
    case (ReqGetattr i u k)
    show ?thesis unfolding ReqGetattr ext_message.simps d
      by (intro exI conjI, rule refl, rule 3 [OF e(2,3,1)]) (simp add: bytes_length)
  next
    case (ReqSetattr i a u k)
    show ?thesis unfolding ReqSetattr ext_message.simps d
      by (intro exI conjI, rule refl, rule 4 [OF e(2,4,3,1)]) (simp add: bytes_length)
  next
    case (ReqRemove i u k)
    show ?thesis unfolding ReqRemove ext_message.simps d
      by (intro exI conjI, rule refl, rule 3 [OF e(2,3,1)]) (simp add: bytes_length)
  next
    case (ReqReg u k)
    show ?thesis unfolding ReqReg ext_message.simps d
      by (intro exI conjI, rule refl, rule 2 [OF e(3,1)]) simp
  next
    case (ReqGroupadd g a k)
    show ?thesis unfolding ReqGroupadd ext_message.simps d
      by (intro exI conjI, rule refl, rule 3 [OF e(3,3,1)]) simp
  next
    case (ReqGroupdel g a k)
    show ?thesis unfolding ReqGroupdel ext_message.simps d
      by (intro exI conjI, rule refl, rule 3 [OF e(3,3,1)]) simp
  next
    case (ReqUseradd u g a k)
    show ?thesis unfolding ReqUseradd ext_message.simps d
      by (intro exI conjI, rule refl, rule 4 [OF e(3,3,3,1)]) simp
  next
    case (ReqUserdel u g a k)
    show ?thesis unfolding ReqUserdel ext_message.simps d
      by (intro exI conjI, rule refl, rule 4 [OF e(3,3,3,1)]) simp
  qed
qed

lemma ext_message_wf:
  "m_wf (ext_message q)" "rpc_header_sz \<le> mind (ext_message q)"
  "mind (ext_message q) \<le> 88 + sum_list (map length (ext_strings q))"
  using ext_message_emits [of q] emits_message by (auto simp: rpc_header_sz_def)

lemma ext_reply_type_ok:
  "extent_handle cur junk q s = (st, rep, s') \<Longrightarrow> ext_get_reply (ext_reply_type q) = ext_get_reply rep"
  by (cases q) (auto simp: fun_eq_iff split: prod.splits)

definition reply_small :: "ext_reply \<Rightarrow> bool" where
  "reply_small rep \<longleftrightarrow> (case rep of RepString c \<Rightarrow> length c + 28 < 2 ^ 30 | _ \<Rightarrow> True)"

lemma ext_reply_read:
  assumes "carries (pack_reply_header h (ext_put_reply r0 rep marshall_init)) b" "reply_header_fits h"
    "length b < 2 ^ 31" and "int_code r0" and "reply_small rep"
  shows "unpack_reply_header (unmarshall_of b) = (h, received b)" "fst (ext_get_reply rep (received b)) = rep"
    "okdone (snd (ext_get_reply rep (received b)))"
proof -
  have "unpack_reply_header (unmarshall_of b) = (h, received b) \<and> fst (ext_get_reply rep (received b)) = rep \<and>
    okdone (snd (ext_get_reply rep (received b)))"
  proof (cases rep)
    case RepInt
    then show ?thesis
      using int_codec.reply_roundtrip [of r0 h b] assms by (simp add: int_code_def case_prod_beta Let_def)
  next
    case (RepString c)
    then show ?thesis
      using string_codec.reply_roundtrip [of c h b "[]"] assms
      by (simp add: reply_small_def string_fits_def case_prod_beta Let_def)
  next
    case (RepAttr a)
    then show ?thesis
      using attr_codec.reply_roundtrip [where x = a and h = h and b = b] assms by (simp add: case_prod_beta Let_def)
  qed
  then show "unpack_reply_header (unmarshall_of b) = (h, received b)" "fst (ext_get_reply rep (received b)) = rep"
    "okdone (snd (ext_get_reply rep (received b)))" by blast+
qed

lemma ext_reply_wf:
  assumes "reply_small rep"
  shows "m_wf (ext_put_reply r0 rep marshall_init)" "rpc_header_sz \<le> mind (ext_put_reply r0 rep marshall_init)"
    "mind (ext_put_reply r0 rep marshall_init) < 2 ^ 31"
proof -
  have "m_wf (ext_put_reply r0 rep marshall_init) \<and> rpc_header_sz \<le> mind (ext_put_reply r0 rep marshall_init) \<and>
    mind (ext_put_reply r0 rep marshall_init) < 2 ^ 31"
  proof (cases rep)
    case RepInt
    then show ?thesis using emits_message [OF emits_uint] by (simp add: m_int_def rpc_header_sz_def)
  next
    case (RepString c)
    then show ?thesis
      using emits_message [OF emits_string [of c]] assms by (simp add: reply_small_def rpc_header_sz_def)
  next
    case (RepAttr a)
    then show ?thesis using emits_message [OF emits_attr [of a]] by (simp add: rpc_header_sz_def)
  qed
  then show "m_wf (ext_put_reply r0 rep marshall_init)" "rpc_header_sz \<le> mind (ext_put_reply r0 rep marshall_init)"
    "mind (ext_put_reply r0 rep marshall_init) < 2 ^ 31" by blast+
qed

text \<open>
  The path of a delivered call through the table of procedures: the dispatcher looks up the number
  it finds in the header, and an unknown number aborts.
\<close>

definition dispatched_path ::
  "(int \<rightharpoonup> 's handler) \<Rightarrow> req_header \<Rightarrow> marshall \<Rightarrow> 'r getter \<Rightarrow> 'r \<Rightarrow> 's \<Rightarrow> (int \<times> 'r) outcome \<times> 's" where
  "dispatched_path P hq m g r s =
     (case P (rq_proc (fst (unpack_req_header (unmarshall_of (sent (pack_req_header hq m)))))) of
        None \<Rightarrow> (Aborted, s)
      | Some f \<Rightarrow> rpc_path hq m f g r s)"

text \<open>
  C24: a delivered call is the handler's call.  For each of the ten requests to the server that
  \<open>extent_smain.cc\<close> starts: marshalling the arguments, the dispatcher's unpacking, the lookup of the
  stub's procedure number in the table the calls of \<open>server.reg\<close> filled, the wrapper found there
  around the handler, marshalling the result and the stub's unpacking together return the status,
  the result and the server state of the handler called directly.  The messages are below 2 to the
  30 bytes, so that the marshallers' \<open>int\<close> arithmetic is exact.
\<close>

theorem delivered_requests:
  assumes sv: "extent_smain srnd count junk sc s0 = Ret sv"
    and hd: "extent_handle (eo_now (sc n)) (eo_junk (sc n)) q s = (st, rep, s')"
    and hq: "req_header_fits hq" "rq_proc hq = ext_proc q"
    and len: "sum_list (map length (ext_strings q)) + 88 < 2 ^ 30" and rep: "reply_small rep"
    and int: "int_code (eo_int (sc n))"
  shows "dispatched_path (procs sv) hq (ext_message q) (ext_get_reply (ext_reply_type q)) r (s, n)
    = (Ret (extent_status_code st, rep), (s', Suc n))"
proof -
  let ?m = "pack_req_header hq (ext_message q)"
  note w = pack_req_header_spec(1,2) [OF ext_message_wf(1,2) [of q], of hq]
  have c: "carries ?m (sent ?m)" by (rule carries_sent [OF w(1)])
  have l: "length (sent ?m) < 2 ^ 31" using c w(2) ext_message_wf(3) [of q] len by (simp add: carries_def)
  have fits: "\<forall>x \<in> set (ext_strings q). string_fits x"
  proof
    fix x assume "x \<in> set (ext_strings q)"
    then have "length x \<le> sum_list (map length (ext_strings q))" by (intro member_le_sum_list) simp_all
    then show "string_fits x" using len by (simp add: string_fits_def)
  qed
  note u = request_parsed(1) [OF ext_message_wf(1,2) hq(1) c l]
  note run = ext_wrapper_run [OF c hq(1) l fits hd]
  let ?hr = "\<lparr>rp_xid = rq_xid hq, rp_ret = extent_status_code st\<rparr>"
  let ?n = "pack_reply_header ?hr (ext_put_reply (eo_int (sc n)) rep marshall_init)"
  note wr = ext_reply_wf [OF rep, of "eo_int (sc n)"]
  note wn = pack_reply_header_spec [OF wr(1,2), of ?hr]
  have cn: "carries ?n (sent ?n)" by (rule carries_sent [OF wn(1)])
  have ln: "length (sent ?n) < 2 ^ 31" using cn wn(2) wr(3) by (simp add: carries_def)
  have "reply_header_fits ?hr"
    using hq(1) status_code_range [of st] by (simp add: reply_header_fits_def req_header_fits_def)
  note rd = ext_reply_read [OF cn this ln int rep]
  have "procs sv (ext_proc q) = Some (at_run sc (ext_wrapper q))"
    using extent_smain_starts [of srnd count junk sc s0] sv ext_procs_at by auto
  moreover have "rpc_path hq (ext_message q) (at_run sc (ext_wrapper q)) (ext_get_reply (ext_reply_type q)) r (s, n)
      = (Ret (extent_status_code st, rep), (s', Suc n))"
    using u run rd ext_reply_type_ok [OF hd] status_code_range(1) [of st]
    by (simp add: rpc_path_def at_run_def call_m_def case_prod_beta Let_def prod_eq_iff)
  ultimately show ?thesis using u hq(2) by (simp add: dispatched_path_def)
qed

definition demo_obs :: ext_obs where
  "demo_obs = \<lparr>eo_now = 1, eo_junk = undefined, eo_int = 0, eo_attr = undefined\<rparr>"

theorem delivered_requests_witness:
  "\<exists>sv. extent_smain 9 0 0 (\<lambda>_. demo_obs) (extent_server_init 0 0 0) = Ret sv \<and>
     dispatched_path (procs sv) (demo_req\<lparr>rq_proc := 0x6006\<rparr>) (ext_message (ReqReg 7 ''k''))
       (ext_get_reply (ext_reply_type (ReqReg 7 ''k''))) RepInt (extent_server_init 0 0 0, 0)
     = (Ret (0, RepInt), ((extent_server_init 0 0 0)\<lparr>userkeys := [7 \<mapsto> ''k'']\<rparr>, 1))"
proof -
  obtain sv where sv: "extent_smain 9 0 0 (\<lambda>_. demo_obs) (extent_server_init 0 0 0) = Ret sv"
    using extent_smain_starts by blast
  let ?sc = "\<lambda>_ :: nat. demo_obs"
  have h: "extent_handle (eo_now (?sc 0)) (eo_junk (?sc 0)) (ReqReg 7 ''k'') (extent_server_init 0 0 0)
      = (E_OK, RepInt, (extent_server_init 0 0 0)\<lparr>userkeys := [7 \<mapsto> ''k'']\<rparr>)"
    by (simp add: extent_server_reg_def extent_server_init_def)
  have "req_header_fits (demo_req\<lparr>rq_proc := 0x6006\<rparr>)"
    "rq_proc (demo_req\<lparr>rq_proc := 0x6006\<rparr>) = ext_proc (ReqReg 7 ''k'')"
    "sum_list (map length (ext_strings (ReqReg 7 ''k''))) + 88 < 2 ^ 30"
    "reply_small RepInt" "int_code (eo_int (?sc 0))"
    by (simp_all add: req_header_fits_def demo_req_def demo_obs_def reply_small_def int_code_def)
  from delivered_requests [where sc = ?sc, OF sv h this, of RepInt] sv show ?thesis by auto
qed

section \<open>The extent server behind the library\<close>

definition served :: "extent_server \<Rightarrow> extent_server \<Rightarrow> bool" where
  "served s s' \<longleftrightarrow> s' = s \<or> (\<exists>cur junk q. s' = snd (snd (extent_handle cur junk q s)))"

lemma served_refl [simp]: "served s s"
  by (simp add: served_def)

lemma served_handlers [simp]:
  "served s (snd (extent_server_put cur junk i buf u k s))"
  "served s (snd (snd (extent_server_get cur junk i u k [] s)))"
  "served s (snd (snd (extent_server_getattr junk i u k s)))"
  "served s (snd (extent_server_setattr junk i a u k s))"
  "served s (snd (extent_server_remove i u k s))"
  "served s (snd (extent_server_reg u k s))"
  "served s (snd (extent_server_groupadd g u k s))"
  "served s (snd (extent_server_groupdel g u k s))"
  "served s (snd (extent_server_useradd v g u k s))"
  "served s (snd (extent_server_userdel v g u k s))"
proof -
  have "served s (snd (snd (extent_handle cur junk q s)))" for q
    unfolding served_def by blast
  from this [of "ReqPut i buf u k"] this [of "ReqGet i u k"] this [of "ReqGetattr i u k"]
    this [of "ReqSetattr i a u k"] this [of "ReqRemove i u k"] this [of "ReqReg u k"] this [of "ReqGroupadd g u k"]
    this [of "ReqGroupdel g u k"] this [of "ReqUseradd v g u k"] this [of "ReqUserdel v g u k"]
  show "served s (snd (extent_server_put cur junk i buf u k s))"
    "served s (snd (snd (extent_server_get cur junk i u k [] s)))"
    "served s (snd (snd (extent_server_getattr junk i u k s)))"
    "served s (snd (extent_server_setattr junk i a u k s))"
    "served s (snd (extent_server_remove i u k s))"
    "served s (snd (extent_server_reg u k s))"
    "served s (snd (extent_server_groupadd g u k s))"
    "served s (snd (extent_server_groupdel g u k s))"
    "served s (snd (extent_server_useradd v g u k s))"
    "served s (snd (extent_server_userdel v g u k s))"
    by (simp_all add: case_prod_beta Let_def)
qed

lemma served_wrappers:
  "served s (snd (snd (get_wrapper cur junk u m s)))" "served s (snd (snd (put_wrapper r0 cur junk u m s)))"
  "served s (snd (snd (getattr_wrapper a0 junk u m s)))" "served s (snd (snd (setattr_wrapper r0 junk u m s)))"
  "served s (snd (snd (remove_wrapper r0 u m s)))" "served s (snd (snd (reg_wrapper r0 u m s)))"
  "served s (snd (snd (groupadd_wrapper r0 u m s)))" "served s (snd (snd (groupdel_wrapper r0 u m s)))"
  "served s (snd (snd (useradd_wrapper r0 u m s)))" "served s (snd (snd (userdel_wrapper r0 u m s)))"
  by (simp_all add: ext_wrapper_defs reg2_fn_def reg3_fn_def reg4_fn_def int_reply_def case_prod_beta Let_def)

text \<open>Whatever message runs, the extent server handles one request or none.\<close>

lemma ext_run_served: "served (fst a) (fst (snd (snd (run_handler (ext_procs rnd junk sc) b a))))"
proof -
  obtain h req where u: "unpack_req_header (unmarshall_of b) = (h, req)" by (metis prod.exhaust)
  show ?thesis
  proof (cases "ext_procs rnd junk sc (rq_proc h)")
    case None
    then show ?thesis using u by (simp add: run_handler_def)
  next
    case (Some f)
    have r: "run_handler (ext_procs rnd junk sc) b a = f req marshall_init a"
      using u Some by (simp add: run_handler_def)
    from Some show ?thesis
    proof (cases rule: ext_procs_cases)
      case 1
      then show ?thesis unfolding r by (simp add: reg1_fn_def rpcs_rpcbind_def case_prod_beta Let_def)
    next
      case 2
      then show ?thesis unfolding r ext_table_def
        by (auto simp: at_run_def case_prod_beta Let_def served_wrappers)
    qed
  qed
qed

lemma extent_run_snoc:
  "extent_run (qs @ [(cur, junk, q)]) s = snd (snd (extent_handle cur junk q (extent_run qs s)))"
  by (induction qs arbitrary: s) auto

lemma extent_run_app: "extent_run (qs @ rs) s = extent_run rs (extent_run qs s)"
  by (induction qs arbitrary: s) auto

text \<open>The message \<open>b\<close> is one a stub sends for the request \<open>q\<close>.\<close>

definition sends_req :: "ext_req \<Rightarrow> byte list \<Rightarrow> bool" where
  "sends_req q b \<longleftrightarrow> (\<exists>h. carries (pack_req_header h (ext_message q)) b \<and> req_header_fits h \<and>
     rq_proc h = ext_proc q \<and> length b < 2 ^ 31) \<and> (\<forall>x \<in> set (ext_strings q). string_fits x)"

text \<open>A message is that of one request only: what is read back from it determines the arguments.\<close>

lemma put_unique:
  assumes c: "codec put get enc fits" and "fits x" "fits y" and "req_header_fits h"
    and "carries (pack_req_header h (put x marshall_init)) b"
    and "carries (pack_req_header h (put y marshall_init)) b" and "length b < 2 ^ 31"
  shows "x = y"
  using codec.request_roundtrip [OF c assms(2,4,5,7)] codec.request_roundtrip [OF c assms(3,4,6,7)] by simp

lemma call2_unique:
  assumes c: "codec p1 g1 e1 f1" "codec p2 g2 e2 f2" and f: "f1 a1" "f2 a2" "f1 b1" "f2 b2"
    and "req_header_fits h" and "carries (pack_req_header h (call2 p1 p2 a1 a2)) b"
    and "carries (pack_req_header h (call2 p1 p2 b1 b2)) b" and "length b < 2 ^ 31"
  shows "a1 = b1 \<and> a2 = b2"
  using put_unique [OF codec_pair [OF c], of "(a1, a2)" "(b1, b2)" h b] f assms(7-)
  by (simp add: call2_def)

lemma call3_unique:
  assumes c: "codec p1 g1 e1 f1" "codec p2 g2 e2 f2" "codec p3 g3 e3 f3" and f: "f1 a1" "f2 a2" "f3 a3" "f1 b1" "f2 b2" "f3 b3"
    and "req_header_fits h" and "carries (pack_req_header h (call3 p1 p2 p3 a1 a2 a3)) b"
    and "carries (pack_req_header h (call3 p1 p2 p3 b1 b2 b3)) b" and "length b < 2 ^ 31"
  shows "a1 = b1 \<and> a2 = b2 \<and> a3 = b3"
  using put_unique [OF codec_pair [OF c(1) codec_pair [OF c(2,3)]], of "(a1, a2, a3)" "(b1, b2, b3)" h b] f assms(10-)
  by (simp add: call3_def)

lemma call4_unique:
  assumes c: "codec p1 g1 e1 f1" "codec p2 g2 e2 f2" "codec p3 g3 e3 f3" "codec p4 g4 e4 f4" and f: "f1 a1" "f2 a2" "f3 a3" "f4 a4" "f1 b1" "f2 b2" "f3 b3" "f4 b4"
    and "req_header_fits h" and "carries (pack_req_header h (call4 p1 p2 p3 p4 a1 a2 a3 a4)) b"
    and "carries (pack_req_header h (call4 p1 p2 p3 p4 b1 b2 b3 b4)) b" and "length b < 2 ^ 31"
  shows "a1 = b1 \<and> a2 = b2 \<and> a3 = b3 \<and> a4 = b4"
  using put_unique [OF codec_pair [OF c(1) codec_pair [OF c(2) codec_pair [OF c(3,4)]]], of "(a1, a2, a3, a4)" "(b1, b2, b3, b4)" h b] f assms(13-)
  by (simp add: call4_def)

lemma sends_req_unique:
  assumes "sends_req q b" and "sends_req q' b"
  shows "q = q'"
proof -
  obtain h where h: "carries (pack_req_header h (ext_message q)) b" "req_header_fits h" "length b < 2 ^ 31"
    "\<forall>x \<in> set (ext_strings q). string_fits x" "rq_proc h = ext_proc q"
    using assms(1) unfolding sends_req_def by blast
  obtain h' where h': "carries (pack_req_header h' (ext_message q')) b" "req_header_fits h'" "length b < 2 ^ 31"
    "\<forall>x \<in> set (ext_strings q'). string_fits x" "rq_proc h' = ext_proc q'"
    using assms(2) unfolding sends_req_def by blast
  have hh: "h' = h"
    using request_parsed(1) [OF ext_message_wf(1,2) h(2,1,3)] request_parsed(1) [OF ext_message_wf(1,2) h'(2,1,3)]
    by simp
  show ?thesis
  proof (cases q)
    case (ReqPut i buf u k)
    then obtain i' buf' u' k' where q': "q' = ReqPut i' buf' u' k'" using h(5) h'(5) hh by (cases q') auto
    show ?thesis
      using call4_unique [OF arg_codecs(1,4,2,4) _ _ _ _ _ _ _ _ h(2) h(1) [unfolded ReqPut ext_message.simps]
          h'(1) [unfolded q' hh ext_message.simps] h(3)] h(4) h'(4) ReqPut q' by auto
  next
    case (ReqGet i u k)
    then obtain i' u' k' where q': "q' = ReqGet i' u' k'" using h(5) h'(5) hh by (cases q') auto
    show ?thesis
      using call3_unique [OF arg_codecs(1,2,4) _ _ _ _ _ _ h(2) h(1) [unfolded ReqGet ext_message.simps]
          h'(1) [unfolded q' hh ext_message.simps] h(3)] h(4) h'(4) ReqGet q' by auto
  next
    case (ReqGetattr i u k)
    then obtain i' u' k' where q': "q' = ReqGetattr i' u' k'" using h(5) h'(5) hh by (cases q') auto
    show ?thesis
      using call3_unique [OF arg_codecs(1,2,4) _ _ _ _ _ _ h(2) h(1) [unfolded ReqGetattr ext_message.simps]
          h'(1) [unfolded q' hh ext_message.simps] h(3)] h(4) h'(4) ReqGetattr q' by auto
  next
    case (ReqSetattr i a u k)
    then obtain i' a' u' k' where q': "q' = ReqSetattr i' a' u' k'" using h(5) h'(5) hh by (cases q') auto
    show ?thesis
      using call4_unique [OF arg_codecs(1,3,2,4) _ _ _ _ _ _ _ _ h(2) h(1) [unfolded ReqSetattr ext_message.simps]
          h'(1) [unfolded q' hh ext_message.simps] h(3)] h(4) h'(4) ReqSetattr q' by auto
  next
    case (ReqRemove i u k)
    then obtain i' u' k' where q': "q' = ReqRemove i' u' k'" using h(5) h'(5) hh by (cases q') auto
    show ?thesis
      using call3_unique [OF arg_codecs(1,2,4) _ _ _ _ _ _ h(2) h(1) [unfolded ReqRemove ext_message.simps]
          h'(1) [unfolded q' hh ext_message.simps] h(3)] h(4) h'(4) ReqRemove q' by auto
  next
    case (ReqReg u k)
    then obtain u' k' where q': "q' = ReqReg u' k'" using h(5) h'(5) hh by (cases q') auto
    show ?thesis
      using call2_unique [OF arg_codecs(2,4) _ _ _ _ h(2) h(1) [unfolded ReqReg ext_message.simps]
          h'(1) [unfolded q' hh ext_message.simps] h(3)] h(4) h'(4) ReqReg q' by auto
  next
    case (ReqGroupadd g a k)
    then obtain g' a' k' where q': "q' = ReqGroupadd g' a' k'" using h(5) h'(5) hh by (cases q') auto
    show ?thesis
      using call3_unique [OF arg_codecs(2,2,4) _ _ _ _ _ _ h(2) h(1) [unfolded ReqGroupadd ext_message.simps]
          h'(1) [unfolded q' hh ext_message.simps] h(3)] h(4) h'(4) ReqGroupadd q' by auto
  next
    case (ReqGroupdel g a k)
    then obtain g' a' k' where q': "q' = ReqGroupdel g' a' k'" using h(5) h'(5) hh by (cases q') auto
    show ?thesis
      using call3_unique [OF arg_codecs(2,2,4) _ _ _ _ _ _ h(2) h(1) [unfolded ReqGroupdel ext_message.simps]
          h'(1) [unfolded q' hh ext_message.simps] h(3)] h(4) h'(4) ReqGroupdel q' by auto
  next
    case (ReqUseradd u g a k)
    then obtain u' g' a' k' where q': "q' = ReqUseradd u' g' a' k'" using h(5) h'(5) hh by (cases q') auto
    show ?thesis
      using call4_unique [OF arg_codecs(2,2,2,4) _ _ _ _ _ _ _ _ h(2) h(1) [unfolded ReqUseradd ext_message.simps]
          h'(1) [unfolded q' hh ext_message.simps] h(3)] h(4) h'(4) ReqUseradd q' by auto
  next
    case (ReqUserdel u g a k)
    then obtain u' g' a' k' where q': "q' = ReqUserdel u' g' a' k'" using h(5) h'(5) hh by (cases q') auto
    show ?thesis
      using call4_unique [OF arg_codecs(2,2,2,4) _ _ _ _ _ _ _ _ h(2) h(1) [unfolded ReqUserdel ext_message.simps]
          h'(1) [unfolded q' hh ext_message.simps] h(3)] h(4) h'(4) ReqUserdel q' by auto
  qed
qed

text \<open>The entries of a list of optional requests.\<close>

fun some_of :: "'a option list \<Rightarrow> 'a list" where
  "some_of [] = []"
| "some_of (None # xs) = some_of xs"
| "some_of (Some x # xs) = x # some_of xs"

lemma some_of_append [simp]: "some_of (xs @ ys) = some_of xs @ some_of ys"
  by (induction xs rule: some_of.induct) simp_all

text \<open>A run of a message is the run of one request or of none; on a stub's message it is that request.\<close>

lemma ext_run_request:
  obtains r where
    "fst (snd (snd (run_handler (ext_procs rnd junk sc) b a))) = extent_run (some_of [r]) (fst a)"
    "\<And>q. sends_req q b \<Longrightarrow> r = Some (eo_now (sc (snd a)), eo_junk (sc (snd a)), q)"
proof (cases "\<exists>q. sends_req q b")
  case True
  then obtain q where q: "sends_req q b" by blast
  obtain h where h: "carries (pack_req_header h (ext_message q)) b" "req_header_fits h" "length b < 2 ^ 31"
    "rq_proc h = ext_proc q" and fits: "\<forall>x \<in> set (ext_strings q). string_fits x"
    using q unfolding sends_req_def by blast
  obtain st rep s' where hd: "extent_handle (eo_now (sc (snd a))) (eo_junk (sc (snd a))) q (fst a) = (st, rep, s')"
    by (metis prod_cases3)
  show thesis
    by (rule that [of "Some (eo_now (sc (snd a)), eo_junk (sc (snd a)), q)"])
      (use ext_procs_run [OF h(1-3) fits h(4) ext_message_wf(1,2), where a = a and sc = sc] hd
          sends_req_unique [OF _ q] in auto)
next
  case False
  from ext_run_served [of a rnd junk sc b] show thesis
    unfolding served_def
  proof (elim disjE exE)
    assume "fst (snd (snd (run_handler (ext_procs rnd junk sc) b a))) = fst a"
    then show thesis using False by (intro that [of None]) auto
  next
    fix cur jk q
    assume "fst (snd (snd (run_handler (ext_procs rnd junk sc) b a))) = snd (snd (extent_handle cur jk q (fst a)))"
    then show thesis using False by (intro that [of "Some (cur, jk, q)"]) auto
  qed
qed

text \<open>
  \<open>runs_as\<close>: the list \<open>rq\<close> says, for each message of the log, which request its run handled, if any;
  the state after any number of runs is that of the requests so far.
\<close>

definition runs_as ::
  "(int \<rightharpoonup> ext_app handler) \<Rightarrow> (nat \<Rightarrow> ext_obs) \<Rightarrow> ext_app \<Rightarrow> byte list list \<Rightarrow>
     (uint \<times> attr \<times> ext_req) option list \<Rightarrow> bool" where
  "runs_as P sc a lg rq \<longleftrightarrow> length rq = length lg \<and>
     (\<forall>i \<le> length lg. fst (replay P (take i lg) a) = extent_run (some_of (take i rq)) (fst a)) \<and>
     (\<forall>i < length lg. \<forall>q. sends_req q (lg ! i) \<longrightarrow>
        rq ! i = Some (eo_now (sc (snd (replay P (take i lg) a))), eo_junk (sc (snd (replay P (take i lg) a))), q))"

lemma replay_requests: "\<exists>rq. runs_as (ext_procs rnd junk sc) sc a lg rq"
proof (induction lg rule: rev_induct)
  case Nil
  show ?case by (rule exI [of _ "[]"]) (simp add: runs_as_def replay_def)
next
  case (snoc b lg)
  let ?P = "ext_procs rnd junk sc"
  obtain rq where rq: "length rq = length lg"
    "\<And>i. i \<le> length lg \<Longrightarrow> fst (replay ?P (take i lg) a) = extent_run (some_of (take i rq)) (fst a)"
    "\<And>i q. i < length lg \<Longrightarrow> sends_req q (lg ! i) \<Longrightarrow>
       rq ! i = Some (eo_now (sc (snd (replay ?P (take i lg) a))), eo_junk (sc (snd (replay ?P (take i lg) a))), q)"
    using snoc unfolding runs_as_def by blast
  obtain r where r: "fst (snd (snd (run_handler ?P b (replay ?P lg a)))) = extent_run (some_of [r]) (fst (replay ?P lg a))"
    "\<And>q. sends_req q b \<Longrightarrow> r = Some (eo_now (sc (snd (replay ?P lg a))), eo_junk (sc (snd (replay ?P lg a))), q)"
    using ext_run_request [of rnd junk sc b "replay ?P lg a"] by blast
  have "fst (replay ?P (lg @ [b]) a) = extent_run (some_of (rq @ [r])) (fst a)"
    using r(1) rq(2) [of "length lg"] rq(1) by (simp add: replay_snoc extent_run_app)
  then have "runs_as ?P sc a (lg @ [b]) (rq @ [r])"
    unfolding runs_as_def using rq r(2) by (auto simp: less_Suc_eq le_Suc_eq nth_append)
  then show ?case by blast
qed

lemma runs_asD:
  assumes "runs_as P sc a lg rq"
  shows "length rq = length lg"
    "i \<le> length lg \<Longrightarrow> fst (replay P (take i lg) a) = extent_run (some_of (take i rq)) (fst a)"
    "i < length lg \<Longrightarrow> sends_req q (lg ! i) \<Longrightarrow>
       rq ! i = Some (eo_now (sc (snd (replay P (take i lg) a))), eo_junk (sc (snd (replay P (take i lg) a))), q)"
  using assms unfolding runs_as_def by blast+

text \<open>The result \<open>ret\<close>, \<open>un\<close> is that of the request \<open>q\<close>, handled at position \<open>i\<close> of the sequence \<open>rq\<close>.\<close>

definition result_at ::
  "(uint \<times> attr \<times> ext_req) option list \<Rightarrow> nat \<Rightarrow> ext_req \<Rightarrow> int \<Rightarrow> unmarshall \<Rightarrow> extent_server \<Rightarrow> bool" where
  "result_at rq i q ret un s0 \<longleftrightarrow>
     (\<exists>cur junk st rep s1. rq ! i = Some (cur, junk, q) \<and>
        extent_handle cur junk q (extent_run (some_of (take i rq)) s0) = (st, rep, s1) \<and>
        ret = extent_status_code st \<and> (reply_small rep \<longrightarrow> fst (ext_get_reply rep un) = rep))"

lemma answered_result:
  assumes "answered (ext_procs rnd junk sc) (s0, 0) lg b ret un" and q: "sends_req q b"
    and int: "\<And>n. int_code (eo_int (sc n))" and rq: "runs_as (ext_procs rnd junk sc) sc (s0, 0) lg rq"
  shows "\<exists>i < length lg. lg ! i = b \<and> result_at rq i q ret un s0"
proof -
  let ?P = "ext_procs rnd junk sc"
  obtain pre post rep' a' r where lg: "lg = pre @ b # post"
    and run: "run_handler ?P b (replay ?P pre (s0, 0)) = (ret, rep', a')"
    and r: "carries (reply_message b ret rep') r" "length r < 2 ^ 31" "un = received r"
    using assms(1) unfolding answered_def by blast
  obtain h where h: "carries (pack_req_header h (ext_message q)) b" "req_header_fits h" "length b < 2 ^ 31"
    "rq_proc h = ext_proc q" and fits: "\<forall>x \<in> set (ext_strings q). string_fits x"
    using q unfolding sends_req_def by blast
  obtain s n where sn: "replay ?P pre (s0, 0) = (s, n)" by (metis prod.exhaust)
  obtain st rep s' where hd: "extent_handle (eo_now (sc n)) (eo_junk (sc n)) q s = (st, rep, s')"
    by (metis prod_cases3)
  have "run_handler ?P b (s, n) = (extent_status_code st, ext_put_reply (eo_int (sc n)) rep marshall_init, (s', Suc n))"
    using ext_procs_run [OF h(1-3) fits h(4) ext_message_wf(1,2), where a = "(s, n)"] hd by simp
  with run sn have e: "ret = extent_status_code st" "rep' = ext_put_reply (eo_int (sc n)) rep marshall_init"
    by simp_all
  have xid: "req_hdr b = h"
    using request_parsed(1) [OF ext_message_wf(1,2) h(2,1,3)] by (simp add: req_hdr_def)
  have "reply_header_fits \<lparr>rp_xid = rq_xid h, rp_ret = extent_status_code st\<rparr>"
    using h(2) status_code_range [of st] by (simp add: reply_header_fits_def req_header_fits_def)
  then have rd: "reply_small rep \<longrightarrow> fst (ext_get_reply rep un) = rep"
    using ext_reply_read(2) [OF _ _ r(2) int] r(1,3) unfolding reply_message_def xid e by blast
  let ?i = "length pre"
  have i: "?i < length lg" "lg ! ?i = b" "take ?i lg = pre" using lg by simp_all
  have "extent_run (some_of (take ?i rq)) s0 = s" "rq ! ?i = Some (eo_now (sc n), eo_junk (sc n), q)"
    using runs_asD(2) [OF rq, of ?i] runs_asD(3) [OF rq i(1)] i q sn by simp_all
  with hd e(1) rd have "result_at rq ?i q ret un s0" unfolding result_at_def by blast
  with i(1,2) show ?thesis by blast
qed

lemma ours_position:
  assumes "distinct (ours clt lg)" and "rq_clt_nonce (req_hdr b) = clt"
    and "i < length lg" "lg ! i = b" "j < length lg" "lg ! j = b"
  shows "i = j"
proof -
  have "\<not> i < j" if "i < length lg" "lg ! i = b" "j < length lg" "lg ! j = b" for i j
  proof
    assume "i < j"
    then have "b \<in> set (ours clt (take j lg))"
      using that(1,2) assms(2) by (auto simp: ours_def in_set_conv_nth)
    moreover have "b \<in> set (ours clt (drop j lg))"
      using that(3,4) assms(2) by (metis Cons_nth_drop_Suc list.set_intros(1) ours_Cons)
    moreover have "ours clt lg = ours clt (take j lg) @ ours clt (drop j lg)"
      by (metis append_take_drop_id ours_append)
    ultimately show False using assms(1) by auto
  qed
  from this [OF assms(3-6)] this [OF assms(5,6,3,4)] show ?thesis by simp
qed


text \<open>A client registers a user.\<close>

lemma extent_service_registers:
  assumes sv: "extent_smain 9 0 0 (\<lambda>_. demo_obs) s0 = Ret sv"
  shows "\<exists>s b ret un. rpc_run (rpc_sys_init (rpcc_init True 77 0) sv) s \<and> sy_returned s = [(b, ret, un)] \<and>
    0 \<le> ret \<and> length (sy_issued s) < 2 ^ 32 \<and> orderly s \<and> sends_req (ReqReg 7 ''k'') b"
proof -
  let ?P = "ext_procs 9 0 (\<lambda>_. demo_obs)" and ?q = "ReqReg 7 ''k''"
  let ?s0 = "rpc_sys_init (rpcc_init True 77 0) sv"
  let ?s1 = "?s0\<lparr>sy_cl := rpcc_bind 0 9 (sy_cl ?s0)\<rparr>"
  have i: "procs sv = ?P" "nonce sv = 9" "app sv = (s0, 0)" "reply_window sv = Map.empty" "maxima_xid_rep sv = Map.empty"
    using extent_smain_starts [of 9 0 0 "\<lambda>_. demo_obs" s0] sv by auto
  have 1: "rpc_run ?s0 ?s1" by (rule rpc_run_step [OF rpc_run_start rpc_step.bind])
  have ok: "sys_ok ?P (s0, 0) ?s1"
    by (rule ext.run_ok [OF 1 init_ok]) (use i in \<open>simp_all add: rpc_sys_init_def orderly_def\<close>)
  have run: "\<exists>ret rep a'. at_run (\<lambda>_. demo_obs) (ext_wrapper ?q) (received b) marshall_init (s0, 0) = (ret, rep, a') \<and>
      0 \<le> ret \<and> mind rep < 2 ^ 31"
    if "carries (pack_req_header h (ext_message ?q)) b" "req_header_fits h" "length b < 2 ^ 31" for h b
  proof -
    obtain st s' where hd: "extent_handle (eo_now demo_obs) (eo_junk demo_obs) ?q s0 = (st, RepInt, s')"
      by (cases "extent_server_reg 7 ''k'' s0") simp
    show ?thesis
      using ext_wrapper_run [OF that _ hd] ext_reply_wf(3) [of RepInt "eo_int demo_obs"] status_code_range(1) [of st]
      by (simp add: at_run_def string_fits_def reply_small_def)
  qed
  have "\<exists>s b ret un. rpc_run ?s1 s \<and> sy_returned s = sy_returned ?s1 @ [(b, ret, un)] \<and> 0 \<le> ret \<and>
      sy_issued s = sy_issued ?s1 @ [b] \<and> sy_log s = sy_log ?s1 @ [b] \<and> (orderly ?s1 \<longrightarrow> orderly s) \<and>
      (\<exists>h. carries (pack_req_header h (ext_message ?q)) b \<and> req_header_fits h \<and> rq_proc h = sint (0x6006 :: uint) \<and>
        length b < 2 ^ 31)"
    by (rule call_can_complete [OF ext.handlers_axioms ok, where f = "at_run (\<lambda>_. demo_obs) (ext_wrapper ?q)"])
      (use ext_message_wf [of ?q] ext_procs_at [of 9 0 "\<lambda>_. demo_obs" ?q] i run
        in \<open>simp_all add: rpc_sys_init_def rpcc_init_def rpcc_bind_def\<close>)
  then obtain s b ret un h where s: "rpc_run ?s1 s" "sy_returned s = [(b, ret, un)]" "0 \<le> ret" "sy_issued s = [b]"
    "carries (pack_req_header h (ext_message ?q)) b" "req_header_fits h" "rq_proc h = sint (0x6006 :: uint)"
    "length b < 2 ^ 31" "orderly s" by (auto simp: rpc_sys_init_def orderly_def)
  have "sends_req ?q b" unfolding sends_req_def using s(5-8) by (auto simp: string_fits_def)
  with run_trans [OF 1 s(1)] s(2-4,9) show ?thesis by (intro exI [of _ s]) simp
qed


section \<open>The lock server's table\<close>

text \<open>
  The wrappers \<open>lock_smain.cc\<close> registers.  A handler that waits does not return: \<open>None\<close>.  The stubs
  of \<open>lock_client.cc\<close> marshal the client's number as \<open>unsigned int\<close>, the handlers read an \<open>int\<close>.
\<close>

type_synonym lock_handler = "unmarshall \<Rightarrow> marshall \<Rightarrow> lock_server \<Rightarrow> (int \<times> marshall \<times> lock_server) option"

definition lock_fn :: "(int \<Rightarrow> ull \<Rightarrow> lock_server \<Rightarrow> (lock_status \<times> int \<times> lock_server) option) \<Rightarrow> lock_handler" where
  "lock_fn meth args ret s =
     (let (clt, u1) = u_int args; (lid, u2) = u_ull u1 in
      if \<not> okdone u2 then Some (rpc_failure_code Unmarshal_args_failure, ret, s)
      else case meth clt lid s of
        None \<Rightarrow> None
      | Some (st, r, s') \<Rightarrow> Some (lock_status_code st, m_int r ret, s'))"

definition stat_wrapper :: lock_handler where
  "stat_wrapper = lock_fn (\<lambda>clt lid s. Some (lock_server_stat clt lid s))"

definition acquire_wrapper :: lock_handler where
  "acquire_wrapper = lock_fn lock_server_acquire"

definition release_wrapper :: lock_handler where
  "release_wrapper = lock_fn (\<lambda>clt lid s. Some (lock_server_release clt lid s))"

definition lock_smain :: "(int \<times> lock_handler) list" where
  "lock_smain = [(0x7003, stat_wrapper), (0x7001, acquire_wrapper), (0x7002, release_wrapper)]"

lemma uint_as_int: "m_uint x = m_int (sint x)"
  by (simp add: m_int_def)

text \<open>
  On the message of a lock stub, the registered wrapper does what the handler does, and waits
  exactly when the handler waits.
\<close>

lemma lock_stub_served:
  assumes m: "carries (pack_req_header h (call2 m_uint m_ull clt lid)) b" "req_header_fits h" "length b < 2 ^ 31"
  shows "lock_fn meth (received b) marshall_init s =
    (case meth (sint clt) lid s of None \<Rightarrow> None
     | Some (st, r, s') \<Rightarrow> Some (lock_status_code st, m_int r marshall_init, s'))"
proof -
  note C = codec_pair [OF int_codec.codec_axioms ull_codec.codec_axioms]
  have "carries (pack_req_header h ((\<lambda>(x, y) m. m_ull y (m_int x m)) (sint clt, lid) marshall_init)) b"
    using m(1) by (simp add: call2_def uint_as_int)
  from codec.request_roundtrip [OF C _ m(2) this m(3)] show ?thesis
    using sint_fits [of clt] by (auto simp: lock_fn_def split: prod.splits)
qed

lemma lock_table_distinct: "distinct (map fst lock_smain)" "rpc_bind_proc \<notin> set (map fst lock_smain)"
  by (simp_all add: lock_smain_def rpc_bind_proc_def)

text \<open>
  A call of \<open>acquire\<close> over the wire takes a free lock and waits for one that is taken; \<open>release\<close> frees
  it; \<open>stat\<close> changes nothing.
\<close>

lemma lock_calls_served:
  assumes m: "carries (pack_req_header h (call2 m_uint m_ull clt lid)) b" "req_header_fits h" "length b < 2 ^ 31"
  shows "acquire_wrapper (received b) marshall_init s = None \<longleftrightarrow> is_locked s lid"
    "acquire_wrapper (received b) marshall_init s = Some (ret, rep, s') \<Longrightarrow>
       ret = 0 \<and> is_locked s' = (is_locked s)(lid := True)"
    "release_wrapper (received b) marshall_init s = Some (ret, rep, s') \<Longrightarrow>
       ret = 0 \<and> is_locked s' = (is_locked s)(lid := False)"
    "stat_wrapper (received b) marshall_init s = Some (0, m_int (nacquire s) marshall_init, s)"
proof -
  note w = lock_stub_served [OF m]
  have e: "fst (acquire_enter lid s) \<longleftrightarrow> \<not> is_locked s lid" by (rule acquire_enter_verdict)
  show "acquire_wrapper (received b) marshall_init s = None \<longleftrightarrow> is_locked s lid"
    using e unfolding acquire_wrapper_def w by (auto simp: lock_server_acquire_def split: prod.splits)
  show "acquire_wrapper (received b) marshall_init s = Some (ret, rep, s') \<Longrightarrow>
       ret = 0 \<and> is_locked s' = (is_locked s)(lid := True)"
    using acquire_enter_locks [of lid s] unfolding acquire_wrapper_def w
    by (auto simp: lock_server_acquire_def split: prod.splits if_splits)
  show "release_wrapper (received b) marshall_init s = Some (ret, rep, s') \<Longrightarrow>
       ret = 0 \<and> is_locked s' = (is_locked s)(lid := False)"
    unfolding release_wrapper_def w by (auto simp: lock_server_release_def)
  show "stat_wrapper (received b) marshall_init s = Some (0, m_int (nacquire s) marshall_init, s)"
    unfolding stat_wrapper_def w by (simp add: lock_server_stat_def)
qed

end
