(* ===== verification/Rpc_Test.thy ===== *)
theory Rpc_Test
  imports Services
begin

text \<open>
  Parts of the RPC library's test program (\<open>rpc/rpctest.cc\<close>): its handlers, the marshalling test, the
  simple tests and the bodies of its client threads, each with its \<open>VERIFY\<close>s.  The calls of the
  simple tests and of the threads are delivered (\<^theory_text>\<open>rpc_path\<close>), and the arguments that \<open>random()\<close>
  draws are parameters.  The concurrent, lossy and failure tests as programs with several threads and
  losses are not modelled; the calls of the failure test through the code of client and server
  (\<open>call_through\<close>) are, for clients that run without \<open>RPC_LOSSY\<close>.
\<close>

section \<open>Handlers and server\<close>

definition handle_22 :: "string \<Rightarrow> string \<Rightarrow> string \<Rightarrow> unit \<Rightarrow> int \<times> string \<times> unit" where
  "handle_22 a b r s = (0, a @ b, s)"

definition handle_fast :: "int \<Rightarrow> int \<Rightarrow> unit \<Rightarrow> int \<times> int \<times> unit" where
  "handle_fast a r s = (0, a + 1, s)"

definition handle_slow :: "int \<Rightarrow> int \<Rightarrow> unit \<Rightarrow> int \<times> int \<times> unit" where
  "handle_slow a r s = (0, a + 2, s)"

text \<open>
  A negative length makes \<open>std::string(len, 'x')\<close> throw; the exception leaves the handler's thread and
  ends the process, as a negative result code does in \<open>dispatch\<close>.
\<close>

definition handle_bigrep :: "int \<Rightarrow> string \<Rightarrow> unit \<Rightarrow> int \<times> string \<times> unit" where
  "handle_bigrep len r s = (if len < 0 then (- 1, r, s) else (0, replicate (nat len) CHR ''x'', s))"

definition srv_table :: "int \<Rightarrow> (int \<times> unit handler) list" where
  "srv_table j =
     [(22, reg2_fn (u_string []) (u_string []) m_string [] handle_22),
      (23, reg1_fn u_int m_int j handle_fast),
      (24, reg1_fn u_int m_int j handle_slow),
      (25, reg1_fn u_int m_string [] handle_bigrep)]"

definition startserver :: "uint \<Rightarrow> int \<Rightarrow> int \<Rightarrow> unit rpcs outcome" where
  "startserver rnd count j = (case rpcs_init rnd count j () of Ret sv \<Rightarrow> reg_all (srv_table j) sv | e \<Rightarrow> e)"

section \<open>Marshalling\<close>

text \<open>\<open>fill\<close> is what the indeterminate bytes of the block hold.\<close>

definition block_bytes :: "(nat \<Rightarrow> byte) \<Rightarrow> byte option list \<Rightarrow> nat \<Rightarrow> byte list" where
  "block_bytes fill buf sz = map (\<lambda>i. case buf ! i of None \<Rightarrow> fill i | Some x \<Rightarrow> x) [0..<sz]"

definition testmarshall :: "(nat \<Rightarrow> byte) \<Rightarrow> unit outcome" where
  "testmarshall fill =
     (let rh = \<lparr>rq_xid = 1, rq_proc = 2, rq_clt_nonce = 3, rq_srv_nonce = 4, rq_xid_rep = 5\<rparr>;
          m = pack_req_header rh marshall_init in
      if mind m \<noteq> rpc_header_sz then Aborted
      else let i = 12345; l = 1223344455; s = ''hallo....'';
               (b, sz, _) = m_take_buf (m_string s (m_ull l (m_int i m))) in
      if sz \<noteq> rpc_header_sz + 4 + 8 + length s + 4 then Aborted
      else let (rh1, un) = unpack_req_header (unmarshall_of (block_bytes fill b sz)) in
      if rh1 \<noteq> rh then Aborted
      else let (i1, un1) = u_int un; (l1, un2) = u_ull un1; (s1, un3) = u_string [] un2 in
      if \<not> okdone un3 then Aborted
      else if \<not> (i1 = i \<and> l1 = l \<and> s1 = s) then Aborted
      else Ret ())"

section \<open>Calls that are delivered\<close>

definition test_call :: "req_header \<Rightarrow> int \<Rightarrow> marshall \<Rightarrow> 'r getter \<Rightarrow> 'r \<Rightarrow> (int \<times> 'r) outcome" where
  "test_call hq proc m g r =
     (case map_of (srv_table 0) proc of None \<Rightarrow> Aborted | Some f \<Rightarrow> fst (rpc_path hq m f g r ()))"

text \<open>
  \<open>simple_tests\<close>: \<open>hq n\<close> is the header of call \<open>n\<close>; \<open>lost\<close> is the result of \<open>bind\<close> at a port nobody
  listens on and the seconds it took.
\<close>

definition simple_tests :: "(nat \<Rightarrow> req_header) \<Rightarrow> int \<times> int \<Rightarrow> unit outcome" where
  "simple_tests hq lost =
     obind (test_call (hq 0) 22 (call2 m_string m_string ''hello'' '' goodbye'') (u_string []) []) (\<lambda>(intret, rep).
     if intret \<noteq> 0 then Aborted else if rep \<noteq> ''hello goodbye'' then Aborted else
     obind (test_call (hq 1) 25 (call1_req m_int 70000) (u_string rep) rep) (\<lambda>(intret, rep).
     if intret \<noteq> 0 then Aborted else if length rep \<noteq> 70000 then Aborted else
     obind (test_call (hq 2) 23 (call1_req m_int 77) u_int 0) (\<lambda>(intret, xx).
     if \<not> (intret = 0 \<and> xx = 78) then Aborted else
     obind (test_call (hq 3) 22 (call2 m_string m_string (replicate 1000 CHR ''x'') ''x'') (u_string []) [])
       (\<lambda>(intret, rep2).
     if length rep2 \<noteq> 1001 then Aborted else
     obind (test_call (hq 4) 22 (call2 m_string m_string (replicate 1000000 CHR ''x'') ''z'') (u_string rep) rep)
       (\<lambda>(intret, rep).
     if length rep \<noteq> 1000001 then Aborted
     else if \<not> (fst lost < 0 \<and> snd lost \<le> 4) then Aborted else Ret ())))))"

section \<open>The client threads\<close>

text \<open>\<open>client1\<close>: the loops over the random arguments.\<close>

fun client1_sizes :: "(nat \<Rightarrow> req_header) \<Rightarrow> nat \<Rightarrow> int list \<Rightarrow> unit outcome" where
  "client1_sizes hq n [] = Ret ()"
| "client1_sizes hq n (arg # args) =
     obind (test_call (hq n) 25 (call1_req m_int arg) (u_string []) []) (\<lambda>(ret, rep).
       if ret \<noteq> 0 then Aborted else if int (length rep) \<noteq> arg then Aborted else client1_sizes hq (Suc n) args)"

fun client1_order :: "(nat \<Rightarrow> req_header) \<Rightarrow> nat \<Rightarrow> int \<Rightarrow> (bool \<times> int) list \<Rightarrow> unit outcome" where
  "client1_order hq n j [] = Ret ()"
| "client1_order hq n j ((which, arg) # args) =
     obind (test_call (hq n) (if which then 23 else 24) (call1_req m_int arg) u_int j) (\<lambda>(ret, rep).
       if ret \<noteq> 0 then Aborted else if rep \<noteq> (if which then arg + 1 else arg + 2) then Aborted
       else client1_order hq (Suc n) j args)"

definition client1 :: "(nat \<Rightarrow> req_header) \<Rightarrow> int \<Rightarrow> int list \<Rightarrow> (bool \<times> int) list \<Rightarrow> unit outcome" where
  "client1 hq j sizes order =
     obind (client1_sizes hq 0 sizes) (\<lambda>_. client1_order hq (length sizes) j order)"

text \<open>\<open>client2\<close>: the loop ends when ten seconds have passed; \<open>args\<close> are the arguments until then.\<close>

fun client2 :: "(nat \<Rightarrow> req_header) \<Rightarrow> nat \<Rightarrow> int list \<Rightarrow> unit outcome" where
  "client2 hq n [] = Ret ()"
| "client2 hq n (arg # args) =
     obind (test_call (hq n) 25 (call1_req m_int arg) (u_string []) []) (\<lambda>(ret, rep).
       if int (length rep) \<noteq> arg then Aborted else client2 hq (Suc n) args)"

text \<open>\<open>client3\<close>: calls with a short timeout; \<open>late i\<close> says whether call \<open>i\<close> timed out.\<close>

fun client3_from :: "(nat \<Rightarrow> req_header) \<Rightarrow> (nat \<Rightarrow> bool) \<Rightarrow> int \<Rightarrow> nat \<Rightarrow> nat \<Rightarrow> unit outcome" where
  "client3_from hq late j i 0 = Ret ()"
| "client3_from hq late j i (Suc k) =
     obind (if late i then Ret (rpc_failure_code Timeout_failure, j)
            else test_call (hq i) 24 (call1_req m_int (int i)) u_int j) (\<lambda>(ret, rep).
       if \<not> (ret = rpc_failure_code Timeout_failure \<or> rep = int i + 2) then Aborted
       else client3_from hq late j (Suc i) k)"

definition client3 :: "(nat \<Rightarrow> req_header) \<Rightarrow> (nat \<Rightarrow> bool) \<Rightarrow> int \<Rightarrow> unit outcome" where
  "client3 hq late j = client3_from hq late j 0 4"

section \<open>The tests pass\<close>

lemma concat_call:
  assumes "req_header_fits hq" and "length a + length b < 2 ^ 30"
  shows "test_call hq 22 (call2 m_string m_string a b) (u_string r) r = Ret (0, a @ b)"
proof -
  note S = string_codec.codec_axioms [of "[]"]
  let ?f = "reg2_fn (u_string []) (u_string []) m_string [] handle_22"
  have fn: "?f u marshall_init () = (0, m_string (a @ b) marshall_init, ())"
    if "(let (x, u1) = u_string [] u in (let (y, u2) = u_string [] u1 in ((x, y), u2))) = ((a, b), u')" "okdone u'" for u u'
    using that by (auto simp: reg2_fn_def handle_22_def split: prod.splits)
  have "rpc_path hq ((\<lambda>(x, y) m. m_string y (m_string x m)) (a, b) marshall_init) ?f (u_string r) r ()
      = (Ret (0, a @ b), ())"
    by (rule rpc_path_delivers [OF codec_pair [OF S S] _ string_codec.codec_axioms [of r] _ assms(1)])
      (use assms(2) fn in \<open>simp_all add: string_fits_def bytes_length\<close>)
  then show ?thesis by (simp add: test_call_def srv_table_def call2_def)
qed

lemma int_arg:
  assumes "- (2 ^ 31) \<le> a" "a < 2 ^ 31"
    and "meth a r0 () = (0, v, ())" and "codec p g e fr" "fr v" "length (e v) + 24 < 2 ^ 31" and "req_header_fits hq"
  shows "rpc_path hq (call1_req m_int a) (reg1_fn u_int p r0 meth) g r () = (Ret (0, v), ())"
  unfolding call1_req_def
  by (rule rpc_path_delivers [OF int_codec.codec_axioms _ assms(4,5,7)])
    (use assms(1,2,3,6) in \<open>auto simp: reg1_fn_def split: prod.splits\<close>)

lemma bigrep_call:
  assumes "req_header_fits hq" and "0 \<le> len" "len < 2 ^ 30"
  shows "test_call hq 25 (call1_req m_int len) (u_string r) r = Ret (0, replicate (nat len) CHR ''x'')"
  using int_arg [of len handle_bigrep "[]" "replicate (nat len) CHR ''x''", OF _ _ _ string_codec.codec_axioms [of r] _ _ assms(1), of r]
    assms(2,3)
  by (simp add: test_call_def srv_table_def handle_bigrep_def string_fits_def bytes_length)

lemma sum_calls:
  assumes "req_header_fits hq" and "- (2 ^ 31) \<le> a" "a + 2 < 2 ^ 31"
  shows "test_call hq 23 (call1_req m_int a) u_int r = Ret (0, a + 1)"
    "test_call hq 24 (call1_req m_int a) u_int r = Ret (0, a + 2)"
  using int_arg [of a handle_fast 0 "a + 1", OF _ _ _ int_codec.codec_axioms _ _ assms(1), of r]
    int_arg [of a handle_slow 0 "a + 2", OF _ _ _ int_codec.codec_axioms _ _ assms(1), of r] assms(2,3)
  by (simp_all add: test_call_def srv_table_def handle_fast_def handle_slow_def)

lemma simple_tests_pass:
  assumes "\<And>n. req_header_fits (hq n)" and "fst lost < 0" "snd lost \<le> 4"
  shows "simple_tests hq lost = Ret ()"
  using assms(2,3) by (simp add: simple_tests_def concat_call bigrep_call sum_calls assms(1))

lemma client1_passes:
  assumes h: "\<And>n. req_header_fits (hq n)" and "\<forall>a \<in> set sizes. 0 \<le> a \<and> a < 2000"
    and "\<forall>(w, a) \<in> set order. 0 \<le> a \<and> a < 1000"
  shows "client1 hq j sizes order = Ret ()"
proof -
  have "client1_sizes hq n sizes = Ret ()" for n
    using assms(2) by (induction sizes arbitrary: n) (simp_all add: bigrep_call h)
  moreover have "client1_order hq n j order = Ret ()" for n
    using assms(3) by (induction order arbitrary: n) (auto simp: sum_calls h)
  ultimately show ?thesis by (simp add: client1_def)
qed

lemma client2_passes:
  "(\<And>n. req_header_fits (hq n)) \<Longrightarrow> \<forall>a \<in> set args. 0 \<le> a \<and> a < 2000 \<Longrightarrow> client2 hq n args = Ret ()"
  by (induction args arbitrary: n) (simp_all add: bigrep_call)

lemma client3_passes: "(\<And>n. req_header_fits (hq n)) \<Longrightarrow> client3 hq late j = Ret ()"
proof -
  assume h: "\<And>n. req_header_fits (hq n)"
  have "client3_from hq late j i k = Ret ()" if "i + k < 2 ^ 30" for i k
    using that
  proof (induction k arbitrary: i)
    case (Suc k)
    have "test_call (hq i) 24 (call1_req m_int (int i)) u_int j = Ret (0, int i + 2)"
      by (rule sum_calls(2) [OF h]) (use Suc.prems in simp_all)
    then show ?case using Suc by simp
  qed simp
  then show ?thesis by (simp add: client3_def)
qed

lemma block_bytes_carries:
  assumes "m_wf m"
  shows "carries m (block_bytes fill (mbuf m) (mind m))"
  using assms by (simp add: carries_def block_bytes_def m_wf_def)

text \<open>The marshalling test: the header is packed before the body is written.\<close>

lemma testmarshall_passes: "testmarshall fill = Ret ()"
proof -
  let ?rh = "\<lparr>rq_xid = 1, rq_proc = 2, rq_clt_nonce = 3, rq_srv_nonce = 4, rq_xid_rep = 5\<rparr>"
  let ?x = "(12345 :: int, 1223344455 :: ull, ''hallo....'')"
  let ?m = "pack_req_header ?rh marshall_init"
  let ?bs = "uint_bytes (word_of_int 12345) @ ull_bytes 1223344455 @ string_bytes ''hallo....''"
  let ?m1 = "m_string ''hallo....'' (m_ull 1223344455 (m_int 12345 ?m))"
  note C = codec_pair [OF int_codec.codec_axioms codec_pair [OF ull_codec.codec_axioms
        string_codec.codec_axioms [of "[]"]]]
  have i: "rpc_header_sz \<le> mind marshall_init" "mind marshall_init = 24"
    by (simp_all add: marshall_init_def rpc_header_sz_def)
  note p = pack_req_header_spec [OF marshall_init_wf(1) i(1), of ?rh]
  have fs: "string_fits ''hallo....''" by (simp add: string_fits_def)
  have "emits ?bs (\<lambda>m. m_string ''hallo....'' (m_ull 1223344455 (m_int 12345 m)))"
    unfolding m_int_def
    by (rule emits_comp [OF emits_uint emits_comp [OF emits_ull string_codec.put_emits [OF fs]]])
  note e = emitsD(1-3) [OF this p(1)]
  have len: "length ?bs = 25" by (simp add: bytes_length)
  have sz: "mind ?m1 = 49" using e(2) p(2) i(2) len by simp
  let ?b = "block_bytes fill (mbuf ?m1) 49"
  have c: "carries ?m1 ?b" using block_bytes_carries [OF e(1)] sz by simp
  have lb: "length ?b = 49" by (simp add: block_bytes_def)
  have w: "written ?m = take 4 (mbuf marshall_init) @ map Some (req_header_bytes ?rh)"
    using p(2,3) i(2) by (simp add: written_def marshall_init_def default_rpc_sz_def)
  have l4: "length (take 4 (mbuf marshall_init)) = 4" by (simp add: marshall_init_def default_rpc_sz_def)
  have w1: "written ?m1 = take 4 (mbuf marshall_init) @ map Some (req_header_bytes ?rh) @ map Some ?bs"
    using e(3) w by simp
  have hb: "take 20 (drop 4 ?b) = req_header_bytes ?rh" using carries_written [OF e(1) c w1] l4 by simp
  have w2: "written ?m1 = (take 4 (mbuf marshall_init) @ map Some (req_header_bytes ?rh)) @ map Some ?bs @ []"
    using w1 by simp
  have bb: "take 25 (drop 24 ?b) = ?bs" using carries_written [OF e(1) c w2] l4 len by simp
  have fh: "req_header_fits ?rh" by (simp add: req_header_fits_def)
  have "read_req_header ((unmarshall_of ?b)\<lparr>uind := 4\<rparr>) = (?rh, (unmarshall_of ?b)\<lparr>uind := 24\<rparr>)"
    using reads_at_header [OF reads_req_header [OF fh], of ?b] hb lb by simp
  then have u: "unpack_req_header (unmarshall_of ?b) = (?rh, received ?b)"
    using unmarshall_of_at [of ?b] lb by (simp add: unpack_req_header_eq)
  have "(case ?x of (x, y) \<Rightarrow> uint_bytes (word_of_int x) @ (case y of (x, y) \<Rightarrow> ull_bytes x @ string_bytes y)) = ?bs"
    by simp
  then have "(let (x, u1) = u_int (received ?b) in (let (y, u2) = (let (x, u1) = u_ull u1 in (let (y, u2) = u_string [] u1
       in ((x, y), u2))) in ((x, y), u2))) = (?x, (received ?b)\<lparr>uind := length ?b\<rparr>)"
    "okdone ((received ?b)\<lparr>uind := length ?b\<rparr>)"
    using codec.body_read [OF C, of ?x ?b] bb lb len fs by (simp_all add: rpc_header_sz_def)
  then show ?thesis
    using u p(2) i sz by (auto simp: testmarshall_def m_take_buf_def rpc_header_sz_def split: prod.splits)
qed

section \<open>A call through client and server\<close>

text \<open>
  A call that nothing disturbs, through the client's and the server's own code: \<open>call1\<close> up to its
  wait, \<open>dispatch\<close> on the message, the arrival of the message sent last, the end of \<open>call1\<close>.
\<close>

definition call_through ::
  "uint \<Rightarrow> marshall \<Rightarrow> rpcc \<Rightarrow> 's rpcs \<Rightarrow> (int \<times> unmarshall \<times> rpcc \<times> 's rpcs) outcome" where
  "call_through proc req c sv =
     (case call1_begin proc req unmarshall_init c of
        (Inl e, c1) \<Rightarrow> Ret (e, unmarshall_init, c1, sv)
      | (Inr (x, m, front), c1) \<Rightarrow>
          obind (dispatch (\<lambda>_. False) (\<lambda>_. (0, 0)) (sent m) 0 sv) (\<lambda>sv1.
            let (_, buf, sz) = last (out sv1) in
            case call1_end x (sent m) front (rpcc_got_pdu (block_bytes (\<lambda>_. 0) buf sz) c1) of
              (None, c2) \<Rightarrow> Aborted
            | (Some (ret, un, _), c2) \<Rightarrow> Ret (ret, un, c2, sv1)))"

text \<open>A client between calls: \<open>n\<close> calls made, all acknowledged.\<close>

definition idle_client :: "nat \<Rightarrow> rpcc \<Rightarrow> bool" where
  "idle_client n c \<longleftrightarrow> clt_nonce c \<noteq> 0 \<and> lossytest c = 0 \<and> \<not> destroy_wait c \<and> calls c = Map.empty \<and>
     xid c = of_nat (Suc n) \<and> xid_rep_window c = [of_nat n] \<and> Suc n < 2 ^ 32"

lemma block_bytes_sent: "block_bytes (\<lambda>_. 0) (mbuf m) (mind m) = sent m" if "m_wf m"
  using that by (simp add: block_bytes_def sent_def written_def m_wf_def list_eq_iff_nth_eq)

text \<open>The client's half: the reply \<open>r\<close> to its call arrives and the call ends with it.\<close>

lemma call_ends:
  assumes c: "idle_client n c" and c1: "c1 = c\<lparr>xid := xid c + 1, calls := (calls c)(sint (of_nat (Suc n) :: uint) \<mapsto>
      \<lparr>ca_xid = of_nat (Suc n), ca_un = unmarshall_init, ca_intret = 0, ca_done = False\<rparr>)\<rparr>"
    and rep: "m_wf rep" "rpc_header_sz \<le> mind rep" "mind rep < 2 ^ 31" and ret: "- (2 ^ 31) \<le> ret" "ret < 2 ^ 31"
    and m: "m = pack_reply_header \<lparr>rp_xid = sint (of_nat (Suc n) :: uint), rp_ret = ret\<rparr> rep"
  shows "\<exists>dw. call1_end (of_nat (Suc n)) b front (rpcc_got_pdu (sent m) c1) =
    (Some (ret, received (sent m), dw), c\<lparr>xid := xid c + 1, xid_rep_window := [of_nat (Suc n)]\<rparr>)"
proof -
  let ?x = "of_nat (Suc n) :: uint"
  note i = c [unfolded idle_client_def]
  note s = pack_reply_header_spec [OF rep(1,2), of "\<lparr>rp_xid = sint ?x, rp_ret = ret\<rparr>"]
  have cr: "carries m (sent m)" using carries_sent [OF s(1)] m by simp
  have l: "length (sent m) < 2 ^ 31" using cr s(2) rep(3) m by (simp add: carries_def)
  have "reply_header_fits \<lparr>rp_xid = sint ?x, rp_ret = ret\<rparr>"
    using ret sint_fits [of ?x] by (simp add: reply_header_fits_def)
  note u = reply_header_parsed [OF rep(1,2) this cr [unfolded m] l [unfolded m], folded m]
  have n: "Suc n < 2 ^ 32" using i by blast
  note w = window_update_single [OF n le_refl]
  have w1: "window_update ?x [of_nat n] = [?x]" "window_update ?x [?x] = [?x]" using w by simp_all
  have un: "(received (sent m))\<lparr>uoob := uoob unmarshall_init\<rparr> = received (sent m)"
    using received_simps(5) [of "sent m"] by (simp add: unmarshall_init_def)
  have g: "rpcc_got_pdu (sent m) c1 = c1\<lparr>xid_rep_window := [?x], calls := [sint ?x \<mapsto>
      \<lparr>ca_xid = ?x, ca_un = received (sent m), ca_intret = ret, ca_done = True\<rparr>]\<rparr>"
    using got_pdu_eq [OF u, of c1] i w1(1) un unfolding c1 by simp
  show ?thesis
    using i w1(2) unfolding g
    by (intro exI [of _ False]) (simp add: call1_end_def update_xid_rep_def Let_def c1)
qed

text \<open>A call of a registered procedure by a client of this server runs the handler and returns its result.\<close>

lemma call_through_runs:
  assumes c: "idle_client n c" and bd: "bind_done c \<longleftrightarrow> proc \<noteq> 1"
    and nonces: "srv_nonce c = 0 \<or> srv_nonce c = nonce sv"
    and k: "knows (clt_nonce c) k sv" "k \<le> n"
    and req: "m_wf req" "rpc_header_sz \<le> mind req" "mind req < 2 ^ 31" and f: "procs sv (sint proc) = Some f"
    and run: "\<And>h b. carries (pack_req_header h req) b \<Longrightarrow> req_header_fits h \<Longrightarrow> length b < 2 ^ 31 \<Longrightarrow>
      f (received b) marshall_init (app sv) = (ret, rep, a')"
    and ret: "0 \<le> ret" "ret < 2 ^ 31" and rep: "m_wf rep" "rpc_header_sz \<le> mind rep" "mind rep < 2 ^ 31"
  shows "\<exists>sv'. call_through proc req c sv =
    Ret (ret, received (sent (pack_reply_header \<lparr>rp_xid = sint (of_nat (Suc n) :: uint), rp_ret = ret\<rparr> rep)),
      c\<lparr>xid := xid c + 1, xid_rep_window := [of_nat (Suc n)]\<rparr>, sv') \<and> app sv' = a' \<and> procs sv' = procs sv \<and>
    nonce sv' = nonce sv \<and> knows (clt_nonce c) (Suc n) sv'"
proof -
  note i = c [unfolded idle_client_def]
  obtain m b c1 h where cb: "call1_begin proc req unmarshall_init c = (Inr (of_nat (Suc n), m, of_nat n), c1)"
    and b: "b = sent m" "carries m b" "m = pack_req_header h req" "req_header_fits h" "length b < 2 ^ 31"
    and mk: "msg_ok (clt_nonce c) (Suc n) b" "rq_proc (req_hdr b) = sint proc" "rq_srv_nonce (req_hdr b) = srv_nonce c"
    and c1: "c1 = c\<lparr>xid := xid c + 1, calls := (calls c)(sint (of_nat (Suc n) :: uint) \<mapsto>
      \<lparr>ca_xid = of_nat (Suc n), ca_un = unmarshall_init, ca_intret = 0, ca_done = False\<rparr>)\<rparr>"
    by (rule begin_possible [of c n proc, OF _ _ bd _ req]) (use i in blast)+
  obtain sv1 where s1: "dispatch_check (\<lambda>_. (0, 0)) b 0 sv = Ret (Handed sv1)" "procs sv1 = procs sv" "app sv1 = app sv"
    "nonce sv1 = nonce sv" "knows (clt_nonce c) (Suc n) sv1"
    using own_check_new [OF mk(1) _ _ _ k(1), where born = "\<lambda>_. (0, 0)" and c = 0] i k(2) mk(2,3) nonces f by auto
  have "unpack_req_header (unmarshall_of b) = (req_hdr b, received b)" using mk(1) by (simp add: msg_ok_def)
  then have rh: "run_handler (procs sv1) b (app sv1) = (ret, rep, a')"
    using run b(2-5) mk(2) f s1(2,3) by (simp add: run_handler_def)
  obtain sv2 where s2: "dispatch_run (\<lambda>_. False) b 0 sv1 = Ret sv2"
    using run_possible [OF _ rh ret(1), of 0] mk(2) f s1(2) by auto
  let ?m = "pack_reply_header \<lparr>rp_xid = sint (of_nat (Suc n) :: uint), rp_ret = ret\<rparr> rep"
  have rm: "reply_message b ret rep = ?m" using mk(1) unfolding reply_message_def msg_ok_def by simp
  have o: "\<exists>c'. out sv2 = out sv1 @ [(c', mbuf ?m, mind ?m)]" "app sv2 = a'" "procs sv2 = procs sv"
    "nonce sv2 = nonce sv"
    using run_facts [OF s2] rh unfolding rm [symmetric] s1(2,4) [symmetric] by (metis Pair_inject)+
  have kn: "knows (clt_nonce c) (Suc n) sv2"
    by (rule knows_run [OF s2 s1(5)]) (use mk(1) in \<open>simp_all add: msg_ok_def\<close>)
  from o(1) obtain c' where last: "last (out sv2) = (c', mbuf ?m, mind ?m)" by auto
  have "dispatch (\<lambda>_. False) (\<lambda>_. (0, 0)) b 0 sv = Ret sv2" using s1(1) s2 by (simp add: dispatch_halves)
  moreover have "block_bytes (\<lambda>_. 0) (mbuf ?m) (mind ?m) = sent ?m"
    by (rule block_bytes_sent [OF pack_reply_header_spec(1) [OF rep(1,2)]])
  moreover obtain dw where "call1_end (of_nat (Suc n)) b (of_nat n) (rpcc_got_pdu (sent ?m) c1) =
      (Some (ret, received (sent ?m), dw), c\<lparr>xid := xid c + 1, xid_rep_window := [of_nat (Suc n)]\<rparr>)"
    using call_ends [OF c c1 rep _ ret(2) refl, of b "of_nat n"] ret(1) by auto
  ultimately have "call_through proc req c sv = Ret (ret, received (sent ?m),
      c\<lparr>xid := xid c + 1, xid_rep_window := [of_nat (Suc n)]\<rparr>, sv2)"
    using cb last b(1) by (simp add: call_through_def)
  with o(2-4) kn show ?thesis by blast
qed

text \<open>
  A client that was bound to an earlier instance of the server: its call is refused, and the
  server's state and its table of replies are untouched.
\<close>

lemma stale_client_refused:
  assumes c: "idle_client n c" and bd: "bind_done c \<longleftrightarrow> proc \<noteq> 1"
    and stale: "srv_nonce c \<noteq> 0" "srv_nonce c \<noteq> nonce sv"
    and req: "m_wf req" "rpc_header_sz \<le> mind req" "mind req < 2 ^ 31"
  shows "\<exists>un c' sv'. call_through proc req c sv = Ret (rpc_failure_code Oldsrv_failure, un, c', sv') \<and>
    app sv' = app sv \<and> reply_window sv' = reply_window sv \<and> maxima_xid_rep sv' = maxima_xid_rep sv \<and>
    procs sv' = procs sv \<and> nonce sv' = nonce sv"
proof -
  note i = c [unfolded idle_client_def]
  obtain m b c1 h where cb: "call1_begin proc req unmarshall_init c = (Inr (of_nat (Suc n), m, of_nat n), c1)"
    and b: "b = sent m" "carries m b" "m = pack_req_header h req" "req_header_fits h" "length b < 2 ^ 31"
    and mk: "msg_ok (clt_nonce c) (Suc n) b" "rq_srv_nonce (req_hdr b) = srv_nonce c"
    and c1: "c1 = c\<lparr>xid := xid c + 1, calls := (calls c)(sint (of_nat (Suc n) :: uint) \<mapsto>
      \<lparr>ca_xid = of_nat (Suc n), ca_un = unmarshall_init, ca_intret = 0, ca_done = False\<rparr>)\<rparr>"
    by (rule begin_possible [of c n proc, OF _ _ bd _ req]) (use i in blast)+
  let ?e = "rpc_failure_code Oldsrv_failure" and ?sv = "refuse (req_hdr b) Oldsrv_failure 0 sv"
  let ?m = "pack_reply_header \<lparr>rp_xid = sint (of_nat (Suc n) :: uint), rp_ret = ?e\<rparr> marshall_init"
  have u: "unpack_req_header (unmarshall_of b) = (req_hdr b, received b)" "uok (received b)"
    using mk(1) by (simp_all add: msg_ok_def)
  have d: "dispatch (\<lambda>_. False) (\<lambda>_. (0, 0)) b 0 sv = Ret ?sv" using u mk(2) stale by (simp add: dispatch_def)
  have rm: "reply_message b ?e marshall_init = ?m" using mk(1) unfolding reply_message_def msg_ok_def by simp
  have last: "last (out ?sv) = (0, mbuf ?m, mind ?m)" unfolding refuse_out rm by simp
  have w: "m_wf marshall_init" "rpc_header_sz \<le> mind marshall_init" "mind marshall_init < 2 ^ 31"
    by (simp_all add: marshall_init_wf) (simp_all add: marshall_init_def rpc_header_sz_def)
  have "block_bytes (\<lambda>_. 0) (mbuf ?m) (mind ?m) = sent ?m"
    by (rule block_bytes_sent [OF pack_reply_header_spec(1) [OF w(1,2)]])
  moreover obtain dw where "call1_end (of_nat (Suc n)) b (of_nat n) (rpcc_got_pdu (sent ?m) c1) =
      (Some (?e, received (sent ?m), dw), c\<lparr>xid := xid c + 1, xid_rep_window := [of_nat (Suc n)]\<rparr>)"
    using call_ends [OF c c1 w _ _ refl, of ?e b "of_nat n"] by auto
  ultimately have "call_through proc req c sv = Ret (?e, received (sent ?m),
      c\<lparr>xid := xid c + 1, xid_rep_window := [of_nat (Suc n)]\<rparr>, ?sv)"
    using cb last b(1) d by (simp add: call_through_def)
  moreover have "app ?sv = app sv" "reply_window ?sv = reply_window sv" "maxima_xid_rep ?sv = maxima_xid_rep sv"
    "procs ?sv = procs sv" "nonce ?sv = nonce sv" by simp_all
  ultimately show ?thesis by blast
qed

text \<open>A typed call, and \<open>rpcc::bind\<close>.\<close>

definition typed_through ::
  "uint \<Rightarrow> marshall \<Rightarrow> 'r getter \<Rightarrow> 'r \<Rightarrow> rpcc \<Rightarrow> 's rpcs \<Rightarrow> (int \<times> 'r \<times> rpcc \<times> 's rpcs) outcome" where
  "typed_through proc m g r c sv =
     obind (call_through proc m c sv) (\<lambda>(intret, un, c1, sv1).
     obind (call_m g r intret un) (\<lambda>(ret, r1). Ret (ret, r1, c1, sv1)))"

definition bind_through :: "int \<Rightarrow> rpcc \<Rightarrow> 's rpcs \<Rightarrow> (int \<times> rpcc \<times> 's rpcs) outcome" where
  "bind_through j c sv =
     obind (typed_through 1 (call1_req m_int 0) u_int j c sv) (\<lambda>(ret, r, c1, sv1). Ret (ret, rpcc_bind ret r c1, sv1))"

lemma typed_through_runs:
  assumes c: "idle_client n c" "bind_done c \<longleftrightarrow> proc \<noteq> 1" "srv_nonce c = 0 \<or> srv_nonce c = nonce sv"
    and k: "knows (clt_nonce c) k sv" "k \<le> n" and f: "procs sv (sint proc) = Some f"
    and A: "codec p g e fa" "fa x" "length (e x) + 24 < 2 ^ 31"
    and R: "codec pr gr er fr" "fr v" "length (er v) + 24 < 2 ^ 31"
    and run: "\<And>u u'. g u = (x, u') \<Longrightarrow> okdone u' \<Longrightarrow> f u marshall_init (app sv) = (0, pr v marshall_init, a')"
  shows "\<exists>sv'. typed_through proc (p x marshall_init) gr r c sv =
    Ret (0, v, c\<lparr>xid := xid c + 1, xid_rep_window := [of_nat (Suc n)]\<rparr>, sv') \<and> app sv' = a' \<and> procs sv' = procs sv \<and>
    nonce sv' = nonce sv \<and> knows (clt_nonce c) (Suc n) sv'"
proof -
  note a = codec.marshalled [OF A(1,2)] and b = codec.marshalled [OF R(1,2)]
  let ?hr = "\<lparr>rp_xid = sint (of_nat (Suc n) :: uint), rp_ret = 0\<rparr>"
  let ?n = "pack_reply_header ?hr (pr v marshall_init)"
  have m: "m_wf (p x marshall_init)" "rpc_header_sz \<le> mind (p x marshall_init)" "mind (p x marshall_init) < 2 ^ 31"
    using a A(3) by (simp_all add: rpc_header_sz_def)
  have w: "m_wf (pr v marshall_init)" "rpc_header_sz \<le> mind (pr v marshall_init)" "mind (pr v marshall_init) < 2 ^ 31"
    using b R(3) by (simp_all add: rpc_header_sz_def)
  have fn: "f (received b) marshall_init (app sv) = (0, pr v marshall_init, a')"
    if "carries (pack_req_header h (p x marshall_init)) b" "req_header_fits h" "length b < 2 ^ 31" for h b
    using codec.request_roundtrip [OF A(1,2) that(2,1,3)] run by blast
  have "\<exists>sv'. call_through proc (p x marshall_init) c sv = Ret (0, received (sent ?n),
      c\<lparr>xid := xid c + 1, xid_rep_window := [of_nat (Suc n)]\<rparr>, sv') \<and> app sv' = a' \<and> procs sv' = procs sv \<and>
      nonce sv' = nonce sv \<and> knows (clt_nonce c) (Suc n) sv'"
    by (rule call_through_runs [OF c k m f]) (use fn w in simp_all)
  then obtain sv' where s: "call_through proc (p x marshall_init) c sv = Ret (0, received (sent ?n),
      c\<lparr>xid := xid c + 1, xid_rep_window := [of_nat (Suc n)]\<rparr>, sv')" "app sv' = a'" "procs sv' = procs sv"
    "nonce sv' = nonce sv" "knows (clt_nonce c) (Suc n) sv'"
    by blast
  have ns: "m_wf ?n" "mind ?n = 24 + length (er v)"
    using pack_reply_header_spec [OF b(1), of ?hr] b(2) by (simp_all add: rpc_header_sz_def)
  have ln: "length (sent ?n) < 2 ^ 31" using carries_sent [OF ns(1)] ns(2) R(3) by (simp add: carries_def)
  have "reply_header_fits ?hr" using sint_fits [of "of_nat (Suc n) :: uint"] by (simp add: reply_header_fits_def)
  note q = codec.reply_roundtrip [OF R(1,2) this carries_sent [OF ns(1)] ln]
  have "call_m gr r 0 (received (sent ?n)) = Ret (0, v)" using q by (auto simp: call_m_def split: prod.splits)
  then have "typed_through proc (p x marshall_init) gr r c sv =
      Ret (0, v, c\<lparr>xid := xid c + 1, xid_rep_window := [of_nat (Suc n)]\<rparr>, sv')"
    using s(1) by (simp add: typed_through_def)
  with s(2-5) show ?thesis by blast
qed

section \<open>A server that is replaced\<close>

text \<open>
  The cases of \<open>failure_test\<close>, call by call: a client of a deleted server is refused by the server that
  replaces it, a new client binds once and only once, and its calls run.
\<close>

lemma started:
  "\<exists>sv. startserver rnd count j = Ret sv \<and> nonce sv = rnd \<and> knows clt 0 sv \<and>
     procs sv = [rpc_bind_proc \<mapsto> reg1_fn u_int m_int j (rpcs_rpcbind rnd)] ++ map_of (srv_table j)"
  using reg_all_eq [of "srv_table j" "\<lparr>nonce = rnd, reply_window = Map.empty, maxima_xid_rep = Map.empty,
      conns = Map.empty, counting = count, curr_counts = count, counts = Map.empty,
      procs = [rpc_bind_proc \<mapsto> reg1_fn u_int m_int j (rpcs_rpcbind rnd)],
      refs = (\<lambda>_. 0), out = [], app = ()\<rparr>"]
  by (simp add: startserver_def rpcs_init_def rpcs_reg1_def srv_table_def rpc_bind_proc_def knows_def)

lemma idle_new: "clt \<noteq> 0 \<Longrightarrow> idle_client 0 (rpcc_init True clt 0)"
  by (simp add: idle_client_def rpcc_init_def)

text \<open>A new client binds to a server that does not know it yet, and is then a client of this server.\<close>

lemma new_client_binds:
  assumes "clt \<noteq> 0" and k: "knows clt 0 sv" and f: "procs sv rpc_bind_proc = Some (reg1_fn u_int m_int j (rpcs_rpcbind (nonce sv)))"
  shows "\<exists>c sv'. bind_through j (rpcc_init True clt 0) sv = Ret (0, c, sv') \<and> idle_client 1 c \<and> bind_done c \<and>
    srv_nonce c = nonce sv' \<and> clt_nonce c = clt \<and> procs sv' = procs sv \<and> nonce sv' = nonce sv \<and> app sv' = app sv \<and>
    knows clt 1 sv'"
proof -
  let ?c = "rpcc_init True clt 0" and ?v = "sint (nonce sv)"
  have s1: "sint (1 :: uint) = rpc_bind_proc" by (simp add: rpc_bind_proc_def)
  have run: "reg1_fn u_int m_int j (rpcs_rpcbind (nonce sv)) u marshall_init (app sv) = (0, m_int ?v marshall_init, app sv)"
    if "u_int u = (0, u')" "okdone u'" for u u'
    using that by (simp add: reg1_fn_def rpcs_rpcbind_def)
  have "\<exists>sv'. typed_through 1 (m_int 0 marshall_init) u_int j ?c sv =
      Ret (0, ?v, ?c\<lparr>xid := xid ?c + 1, xid_rep_window := [of_nat (Suc 0)]\<rparr>, sv') \<and> app sv' = app sv \<and>
      procs sv' = procs sv \<and> nonce sv' = nonce sv \<and> knows (clt_nonce ?c) (Suc 0) sv'"
    by (rule typed_through_runs [OF idle_new [OF assms(1)] _ _ _ _ f [folded s1]
          int_codec.codec_axioms _ _ int_codec.codec_axioms _ _ run])
      (use k sint_fits [of "nonce sv"] in \<open>simp_all add: rpcc_init_def\<close>)
  then obtain sv' where s: "typed_through 1 (m_int 0 marshall_init) u_int j ?c sv =
      Ret (0, ?v, ?c\<lparr>xid := xid ?c + 1, xid_rep_window := [of_nat (Suc 0)]\<rparr>, sv')" "app sv' = app sv"
      "procs sv' = procs sv" "nonce sv' = nonce sv" "knows clt 1 sv'"
    by (auto simp: rpcc_init_def)
  then show ?thesis
    using assms(1)
    by (simp add: bind_through_def call1_req_def rpcc_bind_def idle_client_def rpcc_init_def)
qed

lemma second_bind_fails:
  "bind_done c \<Longrightarrow> bind_through j c sv = Ret (rpc_failure_code Bind_failure, c, sv)"
  by (simp add: bind_through_def typed_through_def call_through_def call1_begin_def call_m_def rpcc_bind_def)

lemma bound_concat:
  assumes c: "idle_client n c" "bind_done c" "srv_nonce c = nonce sv" and k: "knows (clt_nonce c) k sv" "k \<le> n"
    and f: "procs sv 22 = Some (reg2_fn (u_string []) (u_string []) m_string [] handle_22)"
    and len: "length a + length b < 2 ^ 30"
  shows "\<exists>c' sv'. typed_through 22 (call2 m_string m_string a b) (u_string r) r c sv = Ret (0, a @ b, c', sv')"
proof -
  note S = string_codec.codec_axioms [of "[]"]
  let ?f = "reg2_fn (u_string []) (u_string []) m_string [] handle_22"
  have s22: "sint (22 :: uint) = 22" by simp
  have fn: "?f u marshall_init (app sv) = (0, m_string (a @ b) marshall_init, ())"
    if "(let (x, u1) = u_string [] u in (let (y, u2) = u_string [] u1 in ((x, y), u2))) = ((a, b), u')" "okdone u'" for u u'
    using that by (auto simp: reg2_fn_def handle_22_def split: prod.splits)
  have "\<exists>sv'. typed_through 22 ((\<lambda>(x, y) m. m_string y (m_string x m)) (a, b) marshall_init) (u_string r) r c sv =
      Ret (0, a @ b, c\<lparr>xid := xid c + 1, xid_rep_window := [of_nat (Suc n)]\<rparr>, sv') \<and> app sv' = () \<and>
      procs sv' = procs sv \<and> nonce sv' = nonce sv \<and> knows (clt_nonce c) (Suc n) sv'"
    by (rule typed_through_runs [OF c(1) _ _ k f [folded s22] codec_pair [OF S S] _ _ string_codec.codec_axioms _ _ fn])
      (use c(2,3) len in \<open>simp_all add: string_fits_def bytes_length\<close>)
  then show ?thesis by (auto simp: call2_def)
qed

lemma stale_concat:
  assumes c: "idle_client n c" "bind_done c" "srv_nonce c \<noteq> 0" "srv_nonce c \<noteq> nonce sv" and len: "length a + length b < 2 ^ 30"
  shows "\<exists>c' sv'. typed_through 22 (call2 m_string m_string a b) g r c sv =
      Ret (rpc_failure_code Oldsrv_failure, r, c', sv') \<and>
    (\<forall>clt k. knows clt k sv' = knows clt k sv) \<and> procs sv' = procs sv \<and> nonce sv' = nonce sv"
proof -
  note S = string_codec.codec_axioms [of "[]"]
  have fit: "string_fits a" "string_fits b" using len by (simp_all add: string_fits_def)
  note m = codec.marshalled [OF codec_pair [OF S S], of "(a, b)"]
  have w: "m_wf (call2 m_string m_string a b)" "rpc_header_sz \<le> mind (call2 m_string m_string a b)"
    "mind (call2 m_string m_string a b) < 2 ^ 31"
    using m fit len by (simp_all add: call2_def bytes_length rpc_header_sz_def)
  show ?thesis
    using stale_client_refused [OF c(1) _ c(3,4) w, of 22] c(2)
    by (auto simp: typed_through_def call_m_def knows_def)
qed

end
