(* ===== verification/Connection.thy ===== *)
theory Connection
  imports Marshall
begin

text \<open>
  The connections of \<open>rpc/connection.h\<close> and \<open>rpc/connection.cc\<close>: messages framed by their length on
  a TCP stream, partial writes and reads, the callbacks of the poll manager, reference counts, and
  the listener's table of connections.  The socket's receive queue is explicit; what a \<open>write\<close>
  accepts, the value \<open>errno\<close> is left with and what the channel manager answers are arguments.
\<close>

section \<open>State\<close>

record charbuf =
  cbuf :: "byte list option"
  csz :: int
  solong :: int

definition charbuf_new :: charbuf where
  "charbuf_new = \<lparr>cbuf = None, csz = 0, solong = 0\<rparr>"

record connection =
  dead :: bool
  wpdu :: charbuf
  rpdu :: charbuf
  waiters :: int
  refno :: int
  lossy :: int

definition connection_new :: "int \<Rightarrow> connection" where
  "connection_new l = \<lparr>dead = False, wpdu = charbuf_new, rpdu = charbuf_new, waiters = 0, refno = 1, lossy = l\<rparr>"

lemma charbuf_new_simps [simp]: "cbuf charbuf_new = None" "csz charbuf_new = 0" "solong charbuf_new = 0"
  by (simp_all add: charbuf_new_def)

definition max_pdu :: int where
  "max_pdu = 10485760"

text \<open>The receive queue of a non-blocking socket and \<open>read\<close>: \<open>Again\<close> is the error \<open>EAGAIN\<close>.\<close>

record sock =
  avail :: "byte list"
  closed :: bool

datatype read_result = Got "byte list" | Again

definition sock_read :: "nat \<Rightarrow> sock \<Rightarrow> read_result \<times> sock" where
  "sock_read k s =
     (if avail s = [] \<and> \<not> closed s then (Again, s)
      else (Got (take k (avail s)), s\<lparr>avail := drop k (avail s)\<rparr>))"

text \<open>\<open>write\<close> accepts a number of bytes, or fails, with \<open>EAGAIN\<close> or otherwise.\<close>

datatype write_result = Wrote nat | Write_again | Write_failed

definition ntohl :: "byte list \<Rightarrow> uint" where
  "ntohl b = push_bit 24 (ucast (b ! 0)) OR push_bit 16 (ucast (b ! 1)) OR push_bit 8 (ucast (b ! 2)) OR
     ucast (b ! 3)"

section \<open>Writing\<close>

text \<open>\<open>writepdu\<close>: the result, the buffer and the bytes that went into the stream.\<close>

definition writepdu :: "write_result \<Rightarrow> charbuf \<Rightarrow> (bool \<times> charbuf \<times> byte list) outcome" where
  "writepdu r w =
     (if solong w < 0 then Aborted
      else if solong w = csz w then Ret (True, w, [])
      else case cbuf w of
        None \<Rightarrow> Undef
      | Some b \<Rightarrow>
          if solong w = 0 \<and> length b < 4 then Undef
          else
            let b1 = (if solong w = 0 then uint_bytes (word_of_int (csz w)) @ drop 4 b else b);
                w1 = w\<lparr>cbuf := Some b1\<rparr>
            in case r of
                 Wrote n \<Rightarrow> Ret (True, w1\<lparr>solong := solong w + int n\<rparr>, take n (drop (nat (solong w)) b1))
               | Write_again \<Rightarrow> Ret (True, w1, [])
               | Write_failed \<Rightarrow> Ret (False, w1\<lparr>solong := - 1, csz := 0\<rparr>, []))"

text \<open>
  \<open>send\<close> in the sections between its waits.  \<open>send_enter\<close> counts the caller among the waiters; the
  loop is left when \<open>send_ready\<close>; \<open>send_start\<close> is the part up to the wait for completion and says
  whether the call goes on (\<open>None\<close>) or returns; \<open>send_done\<close> is the condition that ends the wait and
  \<open>send_finish\<close> the rest.  The lossy test shuts the socket down, which the next \<open>write\<close> reports.
\<close>

definition send_enter :: "connection \<Rightarrow> connection" where
  "send_enter c = c\<lparr>waiters := waiters c + 1\<rparr>"

definition send_ready :: "connection \<Rightarrow> bool" where
  "send_ready c \<longleftrightarrow> dead c \<or> cbuf (wpdu c) = None"

definition send_done :: "connection \<Rightarrow> bool" where
  "send_done c \<longleftrightarrow> dead c \<or> solong (wpdu c) < 0 \<or> csz (wpdu c) \<le> solong (wpdu c)"

definition send_finish :: "connection \<Rightarrow> bool \<times> connection" where
  "send_finish c = (\<not> dead c \<and> solong (wpdu c) = csz (wpdu c), c\<lparr>wpdu := charbuf_new\<rparr>)"

definition send_start ::
  "byte list \<Rightarrow> int \<Rightarrow> write_result \<Rightarrow> connection \<Rightarrow> (bool option \<times> connection \<times> byte list) outcome" where
  "send_start b sz r c0 =
     (let c = c0\<lparr>waiters := waiters c0 - 1\<rparr> in
      if dead c then Ret (Some False, c, [])
      else case writepdu r \<lparr>cbuf = Some b, csz = sz, solong = 0\<rparr> of
        Ret (ok, w, out) \<Rightarrow>
          let c1 = c\<lparr>wpdu := w, dead := \<not> ok\<rparr> in
          if \<not> ok \<or> solong w = csz w
          then (let (ret, c2) = send_finish c1 in Ret (Some ret, c2, out))
          else Ret (None, c1, out)
      | Blocked \<Rightarrow> Blocked | Aborted \<Rightarrow> Aborted | Thrown \<Rightarrow> Thrown | Undef \<Rightarrow> Undef)"

text \<open>
  \<open>write_cb\<close>: which callbacks are removed (write, read), and the bytes written.
\<close>

definition write_cb :: "write_result \<Rightarrow> connection \<Rightarrow> (connection \<times> (bool \<times> bool) \<times> byte list) outcome" where
  "write_cb r c =
     (if dead c then Aborted
      else if csz (wpdu c) = 0 then Ret (c, (True, False), [])
      else case writepdu r (wpdu c) of
        Ret (ok, w, out) \<Rightarrow>
          if \<not> ok then Ret (c\<lparr>wpdu := w, dead := True\<rparr>, (True, True), out)
          else if solong w < 0 then Aborted
          else Ret (c\<lparr>wpdu := w\<rparr>, (False, False), out)
      | Blocked \<Rightarrow> Blocked | Aborted \<Rightarrow> Aborted | Thrown \<Rightarrow> Thrown | Undef \<Rightarrow> Undef)"

section \<open>Reading\<close>

text \<open>
  The second \<open>read\<close> of \<open>readpdu\<close>: the count is an \<open>int\<close> passed as \<open>size_t\<close>.  What \<open>read\<close> does with
  a count above \<open>SSIZE_MAX\<close> is left to the implementation, so the outcome is \<open>Undef\<close> there.  The
  allocated block has \<open>csz + 4\<close> bytes, and more bytes than that are written behind it.  \<open>again\<close>
  says whether \<open>errno\<close> is \<open>EAGAIN\<close> after a \<open>read\<close> of no bytes, which does not set it.
\<close>

definition ssize_max :: nat where
  "ssize_max = 2 ^ 63 - 1"

definition body_count :: "charbuf \<Rightarrow> nat" where
  "body_count r = unat (word_of_int (csz r - solong r) :: ull)"

definition readpdu_body :: "bool \<Rightarrow> sock \<Rightarrow> charbuf \<Rightarrow> (bool \<times> charbuf \<times> sock) outcome" where
  "readpdu_body again s r =
     (if ssize_max < body_count r then Undef
      else let (res, s1) = sock_read (body_count r) s in
      case (res, cbuf r) of
        (Got [], _) \<Rightarrow> Ret (if again then (True, r, s1) else (False, charbuf_new, s1))
      | (Again, _) \<Rightarrow> Ret (True, r, s1)
      | (Got bs, None) \<Rightarrow> Undef
      | (Got bs, Some b) \<Rightarrow>
          if csz r + 4 < solong r + int (length bs) then Undef
          else Ret (True, r\<lparr>cbuf := Some (take (nat (solong r)) b @ bs @ drop (nat (solong r) + length bs) b),
                            solong := solong r + int (length bs)\<rparr>, s1))"

text \<open>
  \<open>readpdu\<close>.  A length below minus four makes the size for \<open>malloc\<close> exceed what an object can have,
  so that it fails; one between minus four and minus one makes it return less than the four bytes
  copied next.
  The bytes of a new block are indeterminate; zeros stand for them.
\<close>

definition readpdu :: "bool \<Rightarrow> sock \<Rightarrow> charbuf \<Rightarrow> (bool \<times> charbuf \<times> sock) outcome" where
  "readpdu again s r =
     (if csz r \<noteq> 0 then readpdu_body again s r
      else case sock_read 4 s of
        (Again, s1) \<Rightarrow> Aborted
      | (Got bs, s1) \<Rightarrow>
          if length bs \<noteq> 4 then Ret (False, r, s1)
          else let sz = sint (ntohl bs) in
            if sz > max_pdu then Ret (False, r, s1)
            else if cbuf r \<noteq> None then Aborted
            else if sz < - 4 then Aborted
            else if sz < 0 then Undef
            else readpdu_body again s1
                   \<lparr>cbuf = Some (bs @ replicate (nat sz) 0), csz = sz, solong = 4\<rparr>)"

text \<open>
  \<open>read_cb\<close>: \<open>consume\<close> is what \<open>got_pdu\<close> answers; the result has the message handed to it, if any.
\<close>

definition read_cb ::
  "bool \<Rightarrow> bool \<Rightarrow> sock \<Rightarrow> connection \<Rightarrow> (connection \<times> sock \<times> byte list option) outcome" where
  "read_cb again consume s c =
     (if dead c then Ret (c, s, None)
      else
        case (if cbuf (rpdu c) = None \<or> solong (rpdu c) < csz (rpdu c)
              then readpdu again s (rpdu c) else Ret (True, rpdu c, s)) of
          Ret (succ, r, s1) \<Rightarrow>
            let c1 = c\<lparr>rpdu := r, dead := \<not> succ\<rparr> in
            (case cbuf r of
               Some b \<Rightarrow>
                 if csz r = solong r
                 then Ret (if consume then c1\<lparr>rpdu := charbuf_new\<rparr> else c1, s1, Some (take (nat (csz r)) b))
                 else Ret (c1, s1, None)
             | None \<Rightarrow> Ret (c1, s1, None))
        | Blocked \<Rightarrow> Blocked | Aborted \<Rightarrow> Aborted | Thrown \<Rightarrow> Thrown | Undef \<Rightarrow> Undef)"

section \<open>Life of a connection\<close>

definition isdead :: "connection \<Rightarrow> bool" where
  "isdead c = dead c"

definition conn_ref :: "connection \<Rightarrow> int" where
  "conn_ref c = refno c"

definition conn_incref :: "connection \<Rightarrow> connection" where
  "conn_incref c = c\<lparr>refno := refno c + 1\<rparr>"

text \<open>The destructor's checks.\<close>

definition conn_delete :: "connection \<Rightarrow> unit outcome" where
  "conn_delete c = (if \<not> dead c \<or> cbuf (wpdu c) \<noteq> None then Aborted else Ret ())"

text \<open>\<open>decref\<close>: \<open>None\<close> when the object has been deleted.\<close>

definition conn_decref :: "connection \<Rightarrow> connection option outcome" where
  "conn_decref c =
     (let c1 = c\<lparr>refno := refno c - 1\<rparr> in
      if refno c1 < 0 then Aborted
      else if refno c1 = 0 \<and> dead c1
      then (case conn_delete c1 of Ret _ \<Rightarrow> Ret None | _ \<Rightarrow> Aborted)
      else Ret (Some c1))"

text \<open>\<open>closeconn\<close>: whether the socket is shut down and the callbacks are removed.\<close>

definition closeconn :: "connection \<Rightarrow> bool \<times> connection" where
  "closeconn c = (if dead c then (False, c) else (True, c\<lparr>dead := True\<rparr>))"

text \<open>
  The listener's table: \<open>process_accept\<close> drops the dead connections nobody else refers to and enters
  the new one under its descriptor; the destructor closes and releases all.
\<close>

definition collectable :: "connection \<Rightarrow> bool" where
  "collectable c \<longleftrightarrow> isdead c \<and> conn_ref c = 1"

fun collect :: "(int \<times> connection) list \<Rightarrow> (int \<times> connection) list outcome" where
  "collect [] = Ret []"
| "collect ((fd, c) # rest) =
     (if collectable c
      then (case conn_decref c of Ret _ \<Rightarrow> collect rest | _ \<Rightarrow> Aborted)
      else (case collect rest of Ret rest' \<Rightarrow> Ret ((fd, c) # rest') | _ \<Rightarrow> Aborted))"

definition process_accept ::
  "int \<Rightarrow> int \<Rightarrow> (int \<times> connection) list \<Rightarrow> (int \<times> connection) list outcome" where
  "process_accept fd l conns =
     (case collect conns of
        Ret rest \<Rightarrow> Ret (filter (\<lambda>(k, _). k < fd) rest @ (fd, connection_new l) # filter (\<lambda>(k, _). fd < k) rest)
      | _ \<Rightarrow> Aborted)"

fun tcpsconn_close :: "(int \<times> connection) list \<Rightarrow> (int \<times> connection) list outcome" where
  "tcpsconn_close [] = Ret []"
| "tcpsconn_close ((fd, c) # rest) =
     (case conn_decref (snd (closeconn c)) of
        Ret left \<Rightarrow>
          (case tcpsconn_close rest of
             Ret rest' \<Rightarrow> Ret ((case left of None \<Rightarrow> [] | Some c' \<Rightarrow> [(fd, c')]) @ rest')
           | _ \<Rightarrow> Aborted)
      | _ \<Rightarrow> Aborted)"

section \<open>Frames\<close>

text \<open>The bytes of a message on the wire: its length in the first four bytes.\<close>

definition frame :: "byte list \<Rightarrow> byte list" where
  "frame b = uint_bytes (of_nat (length b)) @ drop 4 b"

definition framed :: "byte list \<Rightarrow> bool" where
  "framed m \<longleftrightarrow> 4 < length m \<and> int (length m) \<le> max_pdu \<and> take 4 m = uint_bytes (of_nat (length m))"

definition sendable :: "byte list \<Rightarrow> bool" where
  "sendable b \<longleftrightarrow> 4 < length b \<and> int (length b) \<le> max_pdu"

lemma frame_length [simp]: "sendable b \<Longrightarrow> length (frame b) = length b"
  by (simp add: frame_def sendable_def)

lemma framed_frame: "sendable b \<Longrightarrow> framed (frame b)"
  using frame_length [of b] by (simp add: framed_def sendable_def) (simp add: frame_def)

lemma ntohl_uint_bytes [simp]: "ntohl (uint_bytes x) = x"
  by (simp add: ntohl_def uint_bytes_def uint_join)

lemma framed_size:
  assumes "framed m"
  shows "sint (ntohl (take 4 m)) = int (length m)"
proof -
  have "length m < 2 ^ 31" using assms by (simp add: framed_def max_pdu_def)
  then have "sint (of_nat (length m) :: uint) = int (length m)"
    by (simp add: sint_uint unsigned_of_nat take_bit_nat_eq_self signed_take_bit_int_eq_self)
  then show ?thesis using assms by (simp add: framed_def)
qed

text \<open>A stream is cut into frames in one way only.\<close>

lemma framed_head:
  assumes "framed m" "framed m'" and "prefix (m @ x) (m' @ y)"
  shows "m = m'"
proof -
  obtain z where z: "m' @ y = m @ x @ z" using assms(3) by (auto simp: prefix_def)
  then have "take 4 (m' @ y) = take 4 (m @ x @ z)" by simp
  then have "take 4 m' = take 4 m" using assms(1,2) by (simp add: framed_def)
  then have "length m' = length m" using framed_size assms(1,2) by (metis of_nat_eq_iff)
  then show ?thesis using z by simp
qed

lemma frames_prefix:
  assumes "\<forall>m \<in> set ms. framed m" "\<forall>m \<in> set ms'. framed m" and "prefix (concat ms) (concat ms')"
  shows "prefix ms ms'"
  using assms
proof (induction ms arbitrary: ms')
  case (Cons m ms)
  then obtain m' ms'' where ms': "ms' = m' # ms''" by (cases ms') (auto simp: framed_def)
  then have "m = m'" using framed_head [of m m' "concat ms" "concat ms''"] Cons.prems by simp
  then show ?case using Cons.prems Cons.IH [of ms''] ms' by simp
qed simp

section \<open>A message being received\<close>

text \<open>The part of a message in the receive buffer, and the buffer's invariant while it is in use.\<close>

definition got :: "charbuf \<Rightarrow> byte list" where
  "got r = (case cbuf r of None \<Rightarrow> [] | Some b \<Rightarrow> take (nat (solong r)) b)"

definition filling :: "charbuf \<Rightarrow> bool" where
  "filling r \<longleftrightarrow> 4 < csz r \<and> csz r \<le> max_pdu \<and> 4 \<le> solong r \<and> solong r \<le> csz r \<and>
     (case cbuf r of None \<Rightarrow> False | Some b \<Rightarrow>
        int (length b) = csz r + 4 \<and> take 4 b = uint_bytes (word_of_int (csz r)))"

lemma fillingE:
  assumes "filling r"
  obtains b where "cbuf r = Some b" "int (length b) = csz r + 4" "take 4 b = uint_bytes (word_of_int (csz r))"
    "4 < csz r" "csz r \<le> max_pdu" "4 \<le> solong r" "solong r \<le> csz r"
  using assms by (auto simp: filling_def split: option.splits)

lemma framed_got:
  assumes "filling r" and "csz r = solong r"
  shows "framed (got r)"
  using assms by (auto simp: framed_def got_def elim!: fillingE)

lemma count_small:
  assumes "0 \<le> x" and "x \<le> max_pdu"
  shows "unat (word_of_int x :: ull) = nat x"
proof -
  have "uint (word_of_int x :: ull) = x"
    unfolding uint_word_of_int by (rule mod_pos_pos_trivial) (use assms in \<open>simp_all add: max_pdu_def\<close>)
  then show ?thesis by (simp add: unat_eq_nat_uint)
qed

lemma body_reads:
  assumes "filling r" and "solong r < csz r"
  obtains ok r' s' bs where "readpdu_body again s r = Ret (ok, r', s')" "avail s = bs @ avail s'"
    "closed s' = closed s" "ok \<longrightarrow> filling r' \<and> got r' = got r @ bs" "\<not> ok \<longrightarrow> closed s \<and> r' = charbuf_new"
    "bs = take (nat (csz r - solong r)) (avail s)"
proof -
  obtain b where b: "cbuf r = Some b" "int (length b) = csz r + 4" "take 4 b = uint_bytes (word_of_int (csz r))"
    "4 < csz r" "csz r \<le> max_pdu" "4 \<le> solong r" "solong r \<le> csz r"
    using assms(1) by (rule fillingE)
  define n where "n = nat (csz r - solong r)"
  define bs where "bs = take n (avail s)"
  have cnt: "body_count r = n"
    unfolding n_def body_count_def by (rule count_small) (use b in simp_all)
  have small: "\<not> ssize_max < n"
    using b by (simp add: n_def ssize_max_def max_pdu_def)
  show thesis
  proof (cases "avail s = []")
    case True
    then show thesis
      using that [of True r s "[]"] that [of False charbuf_new s "[]"] assms(1)
      by (cases "closed s"; cases again) (simp_all add: readpdu_body_def cnt small sock_read_def Let_def)
  next
    case False
    let ?b = "take (nat (solong r)) b @ bs @ drop (nat (solong r) + length bs) b"
    let ?r = "r\<lparr>cbuf := Some ?b, solong := solong r + int (length bs)\<rparr>"
    let ?s = "s\<lparr>avail := drop n (avail s)\<rparr>"
    have n0: "0 < n" using assms(2) by (simp add: n_def)
    then have ne: "bs \<noteq> []" using False by (simp add: bs_def)
    have len: "int (length bs) \<le> csz r - solong r" using assms(2) by (auto simp: bs_def n_def min_def)
    have "sock_read n s = (Got bs, ?s)" using False by (simp add: sock_read_def bs_def)
    then have "readpdu_body again s r = Ret (True, ?r, ?s)"
      unfolding readpdu_body_def cnt using small ne len b by (cases bs) (simp_all add: Let_def)
    moreover have "4 \<le> nat (solong r)" "nat (solong r) + length bs \<le> length b" using b len by simp_all
    then have "take 4 ?b = take 4 b" "length ?b = length b" "take (nat (solong r) + length bs) ?b = take (nat (solong r)) b @ bs"
      by auto
    then have "filling ?r" "got ?r = got r @ bs"
      using b len by (simp_all add: filling_def got_def nat_add_distrib)
    ultimately show thesis using that [of True ?r ?s bs] by (simp add: bs_def n_def)
  qed
qed

lemma header_read:
  assumes "cbuf r = None" "csz r = 0" and "framed m" and "avail s = take 4 m @ rest"
  shows "readpdu again s r = readpdu_body again (s\<lparr>avail := rest\<rparr>)
      \<lparr>cbuf = Some (take 4 m @ replicate (length m) 0), csz = int (length m), solong = 4\<rparr>"
    and "filling \<lparr>cbuf = Some (take 4 m @ replicate (length m) 0), csz = int (length m), solong = 4\<rparr>"
proof -
  have m: "length (take 4 m) = 4" "int (length m) \<le> max_pdu" "4 < length m"
    "take 4 m = uint_bytes (of_nat (length m))"
    using assms(3) by (simp_all add: framed_def)
  have sz: "sint (ntohl (take 4 m)) = int (length m)" using assms(3) by (rule framed_size)
  have "sock_read 4 s = (Got (take 4 m), s\<lparr>avail := rest\<rparr>)"
    using m(1,3) by (auto simp: sock_read_def assms(4))
  then show "readpdu again s r = readpdu_body again (s\<lparr>avail := rest\<rparr>)
      \<lparr>cbuf = Some (take 4 m @ replicate (length m) 0), csz = int (length m), solong = 4\<rparr>"
    using assms(1,2) m(1,2) sz by (simp add: readpdu_def Let_def)
  show "filling \<lparr>cbuf = Some (take 4 m @ replicate (length m) 0), csz = int (length m), solong = 4\<rparr>"
    using m by (simp add: filling_def)
qed

section \<open>Two ends and the stream between them\<close>

text \<open>
  \<open>tx\<close> sends, \<open>rx\<close> receives; \<open>flight\<close> are bytes written and not yet in the receiver's socket.
  Recorded besides: all bytes written, the frames whose sending began, and the messages the
  receiving channel manager accepted.
\<close>

record link =
  tx :: connection
  rx :: connection
  flight :: "byte list"
  rsock :: sock
  wire :: "byte list"
  frames :: "byte list list"
  delivered :: "byte list list"

definition link_init :: "int \<Rightarrow> link" where
  "link_init l = \<lparr>tx = connection_new l, rx = connection_new l, flight = [],
     rsock = \<lparr>avail = [], closed = False\<rparr>, wire = [], frames = [], delivered = []\<rparr>"

text \<open>\<open>write\<close> never accepts more than it is given.\<close>

definition accepts :: "write_result \<Rightarrow> int \<Rightarrow> bool" where
  "accepts r k \<longleftrightarrow> (case r of Wrote n \<Rightarrow> int n \<le> k | _ \<Rightarrow> True)"

inductive link_step :: "link \<Rightarrow> link \<Rightarrow> bool" where
  begins: "send_ready (tx s) \<Longrightarrow> \<not> dead (tx s) \<Longrightarrow> sendable (take sz b) \<Longrightarrow> sz \<le> length b \<Longrightarrow>
     accepts r (int sz) \<Longrightarrow> send_start b (int sz) r (send_enter (tx s)) = Ret (res, c, bs) \<Longrightarrow>
     link_step s (s\<lparr>tx := c, flight := flight s @ bs, wire := wire s @ bs,
       frames := frames s @ [frame (take sz b)]\<rparr>)"
| writable: "\<not> dead (tx s) \<Longrightarrow> accepts r (csz (wpdu (tx s)) - solong (wpdu (tx s))) \<Longrightarrow>
     write_cb r (tx s) = Ret (c, cbs, bs) \<Longrightarrow>
     link_step s (s\<lparr>tx := c, flight := flight s @ bs, wire := wire s @ bs\<rparr>)"
| ends: "cbuf (wpdu (tx s)) \<noteq> None \<Longrightarrow> send_done (tx s) \<Longrightarrow>
     link_step s (s\<lparr>tx := snd (send_finish (tx s))\<rparr>)"
| arrives: "flight s = bs @ fl \<Longrightarrow>
     link_step s (s\<lparr>flight := fl, rsock := (rsock s)\<lparr>avail := avail (rsock s) @ bs\<rparr>\<rparr>)"
| readable: "avail (rsock s) \<noteq> [] \<or> closed (rsock s) \<Longrightarrow>
     read_cb again consume (rsock s) (rx s) = Ret (c, so, d) \<Longrightarrow>
     link_step s (s\<lparr>rx := c, rsock := so,
       delivered := delivered s @ (case d of Some m \<Rightarrow> if consume then [m] else [] | None \<Rightarrow> [])\<rparr>)"
| hangs_up: "link_step s (s\<lparr>rsock := (rsock s)\<lparr>closed := True\<rparr>\<rparr>)"
| tx_closed: "link_step s (s\<lparr>tx := snd (closeconn (tx s))\<rparr>)"
| rx_closed: "link_step s (s\<lparr>rx := snd (closeconn (rx s))\<rparr>)"

inductive link_reachable :: "int \<Rightarrow> link \<Rightarrow> bool" for l where
  link_start: "link_reachable l (link_init l)"
| link_next: "link_reachable l s \<Longrightarrow> link_step s t \<Longrightarrow> link_reachable l t"

subsection \<open>The sending end\<close>

text \<open>
  The buffer being sent holds frame \<open>m\<close>, once its length is filled in, and \<open>solong\<close> bytes are out.
\<close>

definition stamped :: "charbuf \<Rightarrow> byte list" where
  "stamped w = (case cbuf w of None \<Rightarrow> [] | Some b \<Rightarrow>
     if solong w = 0 then uint_bytes (word_of_int (csz w)) @ drop 4 b else b)"

definition holds_frame :: "charbuf \<Rightarrow> byte list \<Rightarrow> bool" where
  "holds_frame w m \<longleftrightarrow> framed m \<and> csz w = int (length m) \<and> 0 \<le> solong w \<and> solong w \<le> csz w \<and>
     take (length m) (stamped w) = m \<and>
     (case cbuf w of None \<Rightarrow> False | Some b \<Rightarrow> length m \<le> length b)"

definition tx_inv :: "link \<Rightarrow> bool" where
  "tx_inv s \<longleftrightarrow> (\<forall>m \<in> set (frames s). framed m) \<and> prefix (wire s) (concat (frames s)) \<and>
     (if dead (tx s) then True
      else if cbuf (wpdu (tx s)) = None then wire s = concat (frames s) \<and> wpdu (tx s) = charbuf_new
      else \<exists>ms m. frames s = ms @ [m] \<and> holds_frame (wpdu (tx s)) m \<and>
        wire s = concat ms @ take (nat (solong (wpdu (tx s)))) m)"

lemma writepdu_frame:
  assumes "holds_frame w m" and "accepts r (csz w - solong w)"
  obtains ok w' bs where "writepdu r w = Ret (ok, w', bs)"
    "ok \<longrightarrow> holds_frame w' m \<and> take (nat (solong w')) m = take (nat (solong w)) m @ bs"
    "\<not> ok \<longrightarrow> bs = []" "cbuf w' \<noteq> None"
proof -
  obtain b where b: "cbuf w = Some b" "length m \<le> length b" "framed m" "csz w = int (length m)"
      "0 \<le> solong w" "solong w \<le> csz w" "take (length m) (stamped w) = m"
    using assms(1) by (auto simp: holds_frame_def split: option.splits)
  have m4: "4 < length m" using b(3) by (simp add: framed_def)
  let ?b = "stamped w"
  show thesis
  proof (cases "solong w = csz w")
    case True
    then show thesis using that [of True w "[]"] assms(1) b by (auto simp: writepdu_def)
  next
    case False
    have sl: "length ?b = length b" using b(1,2) m4 by (simp add: stamped_def)
    have eq: "writepdu r w = (case r of
        Wrote n \<Rightarrow> Ret (True, w\<lparr>cbuf := Some ?b, solong := solong w + int n\<rparr>, take n (drop (nat (solong w)) ?b))
      | Write_again \<Rightarrow> Ret (True, w\<lparr>cbuf := Some ?b\<rparr>, [])
      | Write_failed \<Rightarrow> Ret (False, w\<lparr>cbuf := Some ?b, solong := - 1, csz := 0\<rparr>, []))"
      using False b m4 by (auto simp: writepdu_def stamped_def Let_def split: write_result.splits)
    have st: "take (length m) (stamped (w\<lparr>cbuf := Some ?b\<rparr>)) = m"
      using b by (auto simp: stamped_def)
    show thesis
    proof (cases r)
      case (Wrote n)
      let ?w = "w\<lparr>cbuf := Some ?b, solong := solong w + int n\<rparr>"
      have n: "nat (solong w) + n \<le> length m" using assms(2) Wrote b by (simp add: accepts_def)
      have "take (length m) (stamped ?w) = m" using st b by (auto simp: stamped_def)
      then have "holds_frame ?w m" using b n sl by (auto simp: holds_frame_def)
      moreover have "take n (drop (nat (solong w)) ?b) = take n (drop (nat (solong w)) m)"
      proof -
        have "take n (drop (nat (solong w)) ?b) = take n (drop (nat (solong w)) (take (length m) ?b))"
          using n by (simp add: drop_take min_def)
        then show ?thesis using b(7) by simp
      qed
      ultimately show thesis
        using that [of True ?w "take n (drop (nat (solong w)) ?b)"] eq Wrote b(5)
        by (simp add: nat_add_distrib take_add)
    next
      case Write_again
      have "holds_frame (w\<lparr>cbuf := Some ?b\<rparr>) m" using b sl st by (auto simp: holds_frame_def)
      then show thesis using that [of True "w\<lparr>cbuf := Some ?b\<rparr>" "[]"] eq Write_again by simp
    next
      case Write_failed
      then show thesis using that [of False _ "[]"] eq by simp
    qed
  qed
qed

lemma holds_frame_new:
  assumes "sendable (take sz b)" and "sz \<le> length b"
  shows "holds_frame \<lparr>cbuf = Some b, csz = int sz, solong = 0\<rparr> (frame (take sz b))"
proof -
  have l: "length (take sz b) = sz" "4 < sz" using assms by (simp_all add: sendable_def)
  have "take sz (uint_bytes (of_nat sz) @ drop 4 b) = frame (take sz b)"
    using l by (simp add: frame_def drop_take)
  then show ?thesis
    using assms l framed_frame [OF assms(1)] frame_length [OF assms(1)]
    by (simp add: holds_frame_def stamped_def)
qed

lemma tx_inv_begins:
  assumes inv: "tx_inv s" and rdy: "send_ready (tx s)" "\<not> dead (tx s)" and b: "sendable (take sz b)" "sz \<le> length b"
    and r: "accepts r (int sz)" and st: "send_start b (int sz) r (send_enter (tx s)) = Ret (res, c, bs)"
    and s': "tx s' = c" "wire s' = wire s @ bs" "frames s' = frames s @ [frame (take sz b)]"
  shows "tx_inv s'"
proof -
  let ?m = "frame (take sz b)" and ?w = "\<lparr>cbuf = Some b, csz = int sz, solong = 0\<rparr>"
  have idle: "wire s = concat (frames s)" "\<forall>m \<in> set (frames s). framed m"
    using inv rdy by (auto simp: tx_inv_def send_ready_def)
  have m: "framed ?m" using b(1) by (rule framed_frame)
  obtain ok w' out where w: "writepdu r ?w = Ret (ok, w', out)"
    "ok \<longrightarrow> holds_frame w' ?m \<and> take (nat (solong w')) ?m = take (nat (solong ?w)) ?m @ out"
    "\<not> ok \<longrightarrow> out = []" "cbuf w' \<noteq> None"
    by (rule writepdu_frame [OF holds_frame_new [OF b], of r]) (use r in simp_all)
  have st': "bs = out" "c = (if \<not> ok \<or> solong w' = csz w'
      then snd (send_finish ((tx s)\<lparr>wpdu := w', dead := \<not> ok\<rparr>)) else (tx s)\<lparr>wpdu := w', dead := \<not> ok\<rparr>)"
    using st w(1) rdy(2) by (auto simp: send_start_def send_enter_def send_finish_def Let_def split: if_splits)
  show ?thesis
  proof (cases ok)
    case False
    then show ?thesis using st' w(3) s' idle m by (auto simp: tx_inv_def send_finish_def)
  next
    case True
    then have h: "holds_frame w' ?m" "out = take (nat (solong w')) ?m" using w(2) by simp_all
    have "prefix out ?m" unfolding h(2) by (rule take_is_prefix)
    then have "prefix (wire s @ out) (concat (frames s) @ ?m)" using idle(1) by simp
    then show ?thesis
      using True st' s' idle m h rdy(2) w(4)
      by (cases "solong w' = csz w'") (auto simp: tx_inv_def send_finish_def holds_frame_def)
  qed
qed

lemma tx_inv_writable:
  assumes inv: "tx_inv s" and live: "\<not> dead (tx s)" and r: "accepts r (csz (wpdu (tx s)) - solong (wpdu (tx s)))"
    and st: "write_cb r (tx s) = Ret (c, cbs, bs)"
    and s': "tx s' = c" "wire s' = wire s @ bs" "frames s' = frames s"
  shows "tx_inv s'"
proof (cases "cbuf (wpdu (tx s))")
  case None
  then have "wpdu (tx s) = charbuf_new" using inv live by (auto simp: tx_inv_def)
  then have "c = tx s" "bs = []" using st live by (simp_all add: write_cb_def charbuf_new_def)
  then show ?thesis using inv s' by (simp add: tx_inv_def)
next
  case (Some b)
  then obtain ms m where h: "frames s = ms @ [m]" "holds_frame (wpdu (tx s)) m"
      "wire s = concat ms @ take (nat (solong (wpdu (tx s)))) m"
    using inv live by (auto simp: tx_inv_def)
  have fr: "\<forall>m \<in> set (frames s). framed m" "prefix (wire s) (concat (frames s))" using inv by (auto simp: tx_inv_def)
  obtain ok w' out where w: "writepdu r (wpdu (tx s)) = Ret (ok, w', out)"
    "ok \<longrightarrow> holds_frame w' m \<and> take (nat (solong w')) m = take (nat (solong (wpdu (tx s)))) m @ out"
    "\<not> ok \<longrightarrow> out = []" "cbuf w' \<noteq> None"
    by (rule writepdu_frame [OF h(2) r])
  have "csz (wpdu (tx s)) \<noteq> 0" using h(2) by (auto simp: holds_frame_def framed_def)
  then have st': "bs = out" "c = (if ok then (tx s)\<lparr>wpdu := w'\<rparr> else (tx s)\<lparr>wpdu := w', dead := True\<rparr>)"
    using st live w(1) by (auto simp: write_cb_def split: if_splits)
  show ?thesis
  proof (cases ok)
    case False
    then show ?thesis using st' w(3) s' fr by (simp add: tx_inv_def)
  next
    case True
    have wr: "wire s' = concat ms @ take (nat (solong w')) m" using True w(2) h(3) s'(2) st'(1) by simp
    then have "prefix (wire s') (concat (frames s'))" using s'(3) h(1) by (simp add: take_is_prefix)
    moreover have "frames s' = ms @ [m]" "holds_frame w' m" "tx s' = (tx s)\<lparr>wpdu := w'\<rparr>"
      using s' h(1) True st' w(2) by simp_all
    ultimately show ?thesis using wr fr(1) s'(3) live w(4) unfolding tx_inv_def by auto
  qed
qed

lemma tx_inv_ends:
  assumes inv: "tx_inv s" and "cbuf (wpdu (tx s)) \<noteq> None" and "send_done (tx s)"
    and s': "tx s' = snd (send_finish (tx s))" "wire s' = wire s" "frames s' = frames s"
  shows "tx_inv s'"
proof (cases "dead (tx s)")
  case False
  then obtain ms m where "frames s = ms @ [m]" "holds_frame (wpdu (tx s)) m"
      "wire s = concat ms @ take (nat (solong (wpdu (tx s)))) m"
    using inv assms(2) by (auto simp: tx_inv_def)
  moreover from this have "solong (wpdu (tx s)) = int (length m)"
    using assms(3) False by (auto simp: send_done_def holds_frame_def)
  ultimately have "wire s = concat (frames s)" by simp
  then show ?thesis using inv False s' by (simp add: tx_inv_def send_finish_def charbuf_new_def)
qed (use inv s' in \<open>simp add: tx_inv_def send_finish_def\<close>)

subsection \<open>The receiving end\<close>

definition rx_inv :: "link \<Rightarrow> bool" where
  "rx_inv s \<longleftrightarrow> (\<forall>m \<in> set (delivered s). framed m) \<and>
     (if dead (rx s) then prefix (concat (delivered s)) (wire s)
      else concat (delivered s) @ got (rpdu (rx s)) @ avail (rsock s) @ flight s = wire s \<and>
        (rpdu (rx s) = charbuf_new \<or> filling (rpdu (rx s))))"

lemma rx_delivered: "rx_inv s \<Longrightarrow> prefix (concat (delivered s)) (wire s)"
  by (auto simp: rx_inv_def split: if_splits intro: prefixI [OF sym])

text \<open>The four bytes behind complete frames begin a frame.\<close>

lemma next_header:
  assumes "\<forall>m \<in> set ds. framed m" "\<forall>m \<in> set ms. framed m"
    and "prefix (concat ds @ h @ x) (concat ms)" and "length h = 4"
  obtains m where "framed m" "h = take 4 m"
proof -
  have "prefix (concat ds) (concat ms)" using assms(3) by (rule append_prefixD)
  then obtain rest where ms: "ms = ds @ rest"
    using frames_prefix [OF assms(1,2)] by (auto simp: prefix_def)
  then have p: "prefix (h @ x) (concat rest)" using assms(3) by simp
  then obtain m rest' where r: "rest = m # rest'" using assms(4) by (cases rest) auto
  have m: "framed m" using assms(2) ms r by simp
  then have "take 4 m = take 4 (concat rest)" using r by (simp add: framed_def)
  also have "\<dots> = h" using p assms(4) by (auto simp: prefix_def)
  finally show thesis using that m by simp
qed

text \<open>What \<open>read_cb\<close> does with the result of reading.\<close>

definition offer :: "bool \<Rightarrow> bool \<times> charbuf \<times> sock \<Rightarrow> connection \<Rightarrow> connection \<times> sock \<times> byte list option" where
  "offer consume = (\<lambda>(ok, r, s1) c.
     (let c1 = c\<lparr>rpdu := r, dead := \<not> ok\<rparr> in
      case cbuf r of
        Some b \<Rightarrow> if csz r = solong r
          then (if consume then c1\<lparr>rpdu := charbuf_new\<rparr> else c1, s1, Some (take (nat (csz r)) b))
          else (c1, s1, None)
      | None \<Rightarrow> (c1, s1, None)))"

lemma read_cb_offer:
  assumes "\<not> dead c" and "(if cbuf (rpdu c) = None \<or> solong (rpdu c) < csz (rpdu c)
      then readpdu again s (rpdu c) else Ret (True, rpdu c, s)) = Ret (ok, r, s1)"
  shows "read_cb again consume s c = Ret (offer consume (ok, r, s1) c)"
  unfolding read_cb_def assms(2) using assms(1)
  by (simp add: offer_def Let_def split: option.splits)

definition received_by :: "bool \<Rightarrow> byte list option \<Rightarrow> byte list list" where
  "received_by consume d = (case d of Some m \<Rightarrow> if consume then [m] else [] | None \<Rightarrow> [])"

text \<open>
  Reading succeeds with the bytes taken from the socket now in the buffer, or the connection dies.
\<close>

lemma reading:
  assumes rx: "rx_inv s" and tx: "tx_inv s" and live: "\<not> dead (rx s)"
    and ready: "avail (rsock s) \<noteq> [] \<or> closed (rsock s)"
  obtains ok r so bs where "(if cbuf (rpdu (rx s)) = None \<or> solong (rpdu (rx s)) < csz (rpdu (rx s))
      then readpdu again (rsock s) (rpdu (rx s)) else Ret (True, rpdu (rx s), rsock s)) = Ret (ok, r, so)"
    "avail (rsock s) = bs @ avail so"
    "ok \<longrightarrow> filling r \<and> got r = got (rpdu (rx s)) @ bs" "\<not> ok \<longrightarrow> r = charbuf_new"
proof (cases "filling (rpdu (rx s))")
  case True
  then obtain b where b: "cbuf (rpdu (rx s)) = Some b" "4 < csz (rpdu (rx s))" by (rule fillingE)
  show thesis
  proof (cases "solong (rpdu (rx s)) < csz (rpdu (rx s))")
    case lt: True
    obtain ok r so bs where bd: "readpdu_body again (rsock s) (rpdu (rx s)) = Ret (ok, r, so)"
      "avail (rsock s) = bs @ avail so" "ok \<longrightarrow> filling r \<and> got r = got (rpdu (rx s)) @ bs"
      "\<not> ok \<longrightarrow> closed (rsock s) \<and> r = charbuf_new"
      by (rule body_reads [OF True lt, of again "rsock s"])
    show thesis using that [OF _ bd(2,3)] bd(1,4) b lt by (simp add: readpdu_def)
  next
    case False
    then show thesis using that [of True "rpdu (rx s)" "rsock s" "[]"] True b by simp
  qed
next
  case False
  then have new: "rpdu (rx s) = charbuf_new" using rx live by (simp add: rx_inv_def)
  let ?h = "take 4 (avail (rsock s))"
  show thesis
  proof (cases "length ?h = 4")
    case short: False
    then have "readpdu again (rsock s) charbuf_new
        = Ret (False, charbuf_new, (rsock s)\<lparr>avail := drop 4 (avail (rsock s))\<rparr>)"
      using ready by (auto simp: readpdu_def sock_read_def)
    then show thesis using that [of False charbuf_new _ ?h] new by simp
  next
    case True
    let ?rest = "drop 4 (avail (rsock s))"
    have "concat (delivered s) @ (?h @ ?rest) @ flight s = wire s"
      unfolding append_take_drop_id using rx live new by (simp add: rx_inv_def got_def)
    then have "prefix (concat (delivered s) @ ?h @ ?rest @ flight s) (concat (frames s))"
      using tx by (simp only: tx_inv_def append_assoc)
    then obtain m where m: "framed m" "?h = take 4 m"
      by (rule next_header [rotated 2]) (use rx tx True in \<open>simp_all add: rx_inv_def tx_inv_def\<close>)
    let ?r = "\<lparr>cbuf = Some (take 4 m @ replicate (length m) 0), csz = int (length m), solong = 4\<rparr>"
    have av: "avail (rsock s) = take 4 m @ ?rest" using m(2) by (metis append_take_drop_id)
    note hd = header_read(1) [of charbuf_new, OF _ _ m(1) av, of again]
      header_read(2) [of charbuf_new, OF _ _ m(1) av]
    have m4: "4 < length m" using m(1) by (simp add: framed_def)
    then have g: "got ?r = take 4 m" by (simp add: got_def)
    obtain ok r so bs where bd: "readpdu_body again ((rsock s)\<lparr>avail := ?rest\<rparr>) ?r = Ret (ok, r, so)"
      "avail ((rsock s)\<lparr>avail := ?rest\<rparr>) = bs @ avail so" "ok \<longrightarrow> filling r \<and> got r = got ?r @ bs"
      "\<not> ok \<longrightarrow> closed ((rsock s)\<lparr>avail := ?rest\<rparr>) \<and> r = charbuf_new"
    proof (rule body_reads [of ?r again "(rsock s)\<lparr>avail := ?rest\<rparr>"])
      show "filling ?r" by (rule hd(2)) simp_all
      show "solong ?r < csz ?r" using m4 by simp
    qed
    show thesis
    proof (rule that [of ok r so "take 4 m @ bs"])
      show "(if cbuf (rpdu (rx s)) = None \<or> solong (rpdu (rx s)) < csz (rpdu (rx s))
        then readpdu again (rsock s) (rpdu (rx s)) else Ret (True, rpdu (rx s), rsock s)) = Ret (ok, r, so)"
        using hd(1) bd(1) by (simp add: new)
      have "?rest = bs @ avail so" using bd(2) by simp
      then show "avail (rsock s) = (take 4 m @ bs) @ avail so" using av by simp
      show "ok \<longrightarrow> filling r \<and> got r = got (rpdu (rx s)) @ take 4 m @ bs"
        using bd(3) g by (simp add: new got_def [of charbuf_new])
    qed (use bd(4) in simp)
  qed
qed

lemma rx_readable:
  assumes rx: "rx_inv s" and tx: "tx_inv s" and ready: "avail (rsock s) \<noteq> [] \<or> closed (rsock s)"
  obtains c so d where "read_cb again consume (rsock s) (rx s) = Ret (c, so, d)"
    "rx_inv (s\<lparr>rx := c, rsock := so, delivered := delivered s @ received_by consume d\<rparr>)"
proof (cases "dead (rx s)")
  case True
  then show thesis
    using that [of "rx s" "rsock s" None] rx by (simp add: read_cb_def rx_inv_def received_by_def)
next
  case False
  obtain ok r so bs where rd: "(if cbuf (rpdu (rx s)) = None \<or> solong (rpdu (rx s)) < csz (rpdu (rx s))
      then readpdu again (rsock s) (rpdu (rx s)) else Ret (True, rpdu (rx s), rsock s)) = Ret (ok, r, so)"
    "avail (rsock s) = bs @ avail so" "ok \<longrightarrow> filling r \<and> got r = got (rpdu (rx s)) @ bs"
    "\<not> ok \<longrightarrow> r = charbuf_new"
    by (rule reading [OF rx tx False ready, of again])
  note cb = read_cb_offer [OF False rd(1), of consume]
  have w: "concat (delivered s) @ got (rpdu (rx s)) @ avail (rsock s) @ flight s = wire s"
    "\<forall>m \<in> set (delivered s). framed m" using rx False by (simp_all add: rx_inv_def)
  show thesis
  proof (cases ok)
    case nok: False
    have "prefix (concat (delivered s)) (wire s)" using rx by (rule rx_delivered)
    then show thesis
      using that [of "(rx s)\<lparr>rpdu := charbuf_new, dead := True\<rparr>" so None] cb nok rd(4) w(2)
      by (simp add: offer_def rx_inv_def received_by_def)
  next
    case True
    then have f: "filling r" "got r = got (rpdu (rx s)) @ bs" using rd(3) by simp_all
    obtain b where b: "cbuf r = Some b" using f(1) by (rule fillingE)
    have w': "concat (delivered s) @ got r @ avail so @ flight s = wire s" using w(1) rd(2) f(2) by simp
    show thesis
    proof (cases "csz r = solong r \<and> consume")
      case c: True
      then have g: "take (nat (csz r)) b = got r" using b by (simp add: got_def)
      have "framed (got r)" using f(1) c by (simp add: framed_got)
      then show thesis
        using that [of "(rx s)\<lparr>rpdu := charbuf_new, dead := False\<rparr>" so "Some (got r)"] cb True c b g w' w(2)
        by (simp add: offer_def rx_inv_def received_by_def got_def [of charbuf_new])
    next
      case nc: False
      let ?c = "(rx s)\<lparr>rpdu := r, dead := False\<rparr>"
      have "offer consume (True, r, so) (rx s) = (?c, so, if csz r = solong r then Some (take (nat (csz r)) b) else None)"
        using nc b by (simp add: offer_def)
      then show thesis
        using that [of ?c so "if csz r = solong r then Some (take (nat (csz r)) b) else None"] cb True nc w' w(2) f(1)
        by (cases "csz r = solong r") (simp_all add: rx_inv_def received_by_def)
    qed
  qed
qed

lemma rx_inv_more: "rx_inv s \<Longrightarrow> rx_inv (s\<lparr>tx := c, flight := flight s @ bs, wire := wire s @ bs\<rparr>)"
  by (auto simp: rx_inv_def prefix_append)

lemma rx_inv_frame:
  assumes "rx_inv s" and "rx s' = rx s" "flight s' = flight s" "rsock s' = rsock s" "wire s' = wire s"
    "delivered s' = delivered s"
  shows "rx_inv s'"
  using assms by (simp add: rx_inv_def)

lemma tx_inv_frame: "tx_inv s \<Longrightarrow> tx s' = tx s \<Longrightarrow> wire s' = wire s \<Longrightarrow> frames s' = frames s \<Longrightarrow> tx_inv s'"
  by (simp add: tx_inv_def)

lemma link_inv_step:
  assumes "link_step s t" and "tx_inv s" and "rx_inv s"
  shows "tx_inv t \<and> rx_inv t"
  using assms(1)
proof cases
  case (begins sz b r res c bs)
  have "tx_inv t" by (rule tx_inv_begins [OF assms(2) begins(2-7)]) (simp_all add: begins(1))
  moreover have "rx_inv t"
    by (rule rx_inv_frame [OF rx_inv_more [OF assms(3), of bs c]]) (simp_all add: begins(1))
  ultimately show ?thesis by simp
next
  case (writable r c cbs bs)
  have "tx_inv t" by (rule tx_inv_writable [OF assms(2) writable(2-4)]) (simp_all add: writable(1))
  moreover have "rx_inv t" unfolding writable(1) by (rule rx_inv_more [OF assms(3)])
  ultimately show ?thesis by simp
next
  case ends
  have "tx_inv t" by (rule tx_inv_ends [OF assms(2) ends(2,3)]) (simp_all add: ends(1))
  then show ?thesis using rx_inv_frame [OF assms(3), of t] ends(1) by simp
next
  case (arrives bs fl)
  then show ?thesis
    using assms(3) tx_inv_frame [OF assms(2), of t] by (cases "dead (rx s)") (simp_all add: rx_inv_def)
next
  case (readable again consume c so d)
  obtain c' so' d' where "read_cb again consume (rsock s) (rx s) = Ret (c', so', d')"
    "rx_inv (s\<lparr>rx := c', rsock := so', delivered := delivered s @ received_by consume d'\<rparr>)"
    by (rule rx_readable [OF assms(3,2) readable(2)])
  then have "rx_inv t" using readable(1,3) by (simp add: received_by_def)
  then show ?thesis using tx_inv_frame [OF assms(2), of t] readable(1) by simp
next
  case hangs_up
  then show ?thesis using assms(3) tx_inv_frame [OF assms(2), of t] by (simp add: rx_inv_def)
next
  case tx_closed
  then show ?thesis
    using assms(2) rx_inv_frame [OF assms(3), of t] by (auto simp: tx_inv_def closeconn_def)
next
  case rx_closed
  have "prefix (concat (delivered s)) (wire s)" using assms(3) by (rule rx_delivered)
  then show ?thesis
    using rx_closed assms(3) tx_inv_frame [OF assms(2), of t] by (simp add: rx_inv_def closeconn_def)
qed

lemma link_reachable_inv: "link_reachable l s \<Longrightarrow> tx_inv s \<and> rx_inv s"
proof (induction rule: link_reachable.induct)
  case link_start
  show ?case by (simp add: link_init_def connection_new_def tx_inv_def rx_inv_def got_def)
next
  case (link_next s t)
  then show ?case using link_inv_step by blast
qed

text \<open>A buffer that holds all the bytes of the remaining frames holds the last one, complete.\<close>

lemma last_frame:
  assumes "filling r" and "concat rest = got r" and "\<forall>m \<in> set rest. framed m"
  shows "rest = [got r]"
proof -
  obtain b where b: "cbuf r = Some b" "int (length b) = csz r + 4" "take 4 b = uint_bytes (word_of_int (csz r))"
    "4 < csz r" "csz r \<le> max_pdu" "4 \<le> solong r" "solong r \<le> csz r"
    using assms(1) by (rule fillingE)
  have g: "length (got r) = nat (solong r)" "take 4 (got r) = take 4 b"
  proof -
    have "4 \<le> nat (solong r)" "nat (solong r) \<le> length b" using b by simp_all
    then show "length (got r) = nat (solong r)" "take 4 (got r) = take 4 b" using b(1) by (auto simp: got_def)
  qed
  then obtain m rest' where r: "rest = m # rest'" using assms(2) b(6) by (cases rest) auto
  have m: "framed m" "\<forall>x \<in> set rest'. framed x" using assms(3) r by simp_all
  have eq: "got r = m @ concat rest'" using assms(2) r by simp
  have "take 4 m = take 4 (got r)" unfolding eq using m(1) by (simp add: framed_def)
  then have "take 4 m = uint_bytes (word_of_int (csz r))" using g(2) b(3) by simp
  then have "int (length m) = sint (word_of_int (csz r) :: uint)" using framed_size [OF m(1)] by simp
  also have "\<dots> = csz r"
    using b(4,5) by (simp add: signed_of_int signed_take_bit_int_eq_self max_pdu_def)
  finally have "length (got r) \<le> length m" using g(1) b(7) by simp
  then have "concat rest' = []" unfolding eq by simp
  then have "rest' = []" using m(2) by (cases rest') (auto simp: framed_def)
  then show ?thesis using r eq by simp
qed

text \<open>
  C36: messages arrive complete, unchanged, once and in order.  However the sender's \<open>write\<close> splits
  its messages and however their bytes arrive, the messages the receiver's manager has accepted
  are an initial part of the messages sent, each with its length filled in; no readiness callback
  runs into a failed check or writes outside its buffer; and when both ends are alive and nothing is
  on the way, every message has been accepted, save one that is complete and waits for the manager.
\<close>

theorem messages_arrive_in_order:
  assumes "link_reachable l s"
  shows "prefix (delivered s) (frames s) \<and>
    (avail (rsock s) \<noteq> [] \<or> closed (rsock s) \<longrightarrow> (\<exists>res. read_cb again consume (rsock s) (rx s) = Ret res)) \<and>
    (\<not> dead (tx s) \<and> cbuf (wpdu (tx s)) = None \<and> \<not> dead (rx s) \<and> flight s = [] \<and> avail (rsock s) = [] \<longrightarrow>
      frames s = delivered s \<or> frames s = delivered s @ [got (rpdu (rx s))])"
proof (intro conjI impI)
  have inv: "tx_inv s" "rx_inv s" using link_reachable_inv [OF assms] by auto
  have fr: "\<forall>m \<in> set (delivered s). framed m" "\<forall>m \<in> set (frames s). framed m"
    using inv by (auto simp: tx_inv_def rx_inv_def)
  have "prefix (concat (delivered s)) (concat (frames s))"
    using rx_delivered [OF inv(2)] inv(1) by (auto simp: tx_inv_def intro: prefix_order.trans)
  with fr show p: "prefix (delivered s) (frames s)" by (rule frames_prefix)
  show "\<exists>res. read_cb again consume (rsock s) (rx s) = Ret res" if "avail (rsock s) \<noteq> [] \<or> closed (rsock s)"
    by (rule rx_readable [OF inv(2,1) that, of again consume]) blast
  show "frames s = delivered s \<or> frames s = delivered s @ [got (rpdu (rx s))]"
    if q: "\<not> dead (tx s) \<and> cbuf (wpdu (tx s)) = None \<and> \<not> dead (rx s) \<and> flight s = [] \<and> avail (rsock s) = []"
  proof -
    obtain rest where rest: "frames s = delivered s @ rest" using p by (auto simp: prefix_def)
    have "concat (delivered s) @ got (rpdu (rx s)) = concat (frames s)"
      using inv q by (auto simp: tx_inv_def rx_inv_def)
    then have c: "concat rest = got (rpdu (rx s))" using rest by simp
    consider "rpdu (rx s) = charbuf_new" | "filling (rpdu (rx s))" using inv(2) q by (auto simp: rx_inv_def)
    then show ?thesis
    proof cases
      case 1
      then have "concat rest = []" using c by (simp add: got_def)
      then have "rest = []" using fr(2) rest by (cases rest) (auto simp: framed_def)
      then show ?thesis using rest by simp
    next
      case 2
      then show ?thesis using last_frame [OF 2 c] fr(2) rest by simp
    qed
  qed
qed

text \<open>A message of six bytes that is written in one piece and has not arrived.\<close>

theorem messages_arrive_in_order_witness:
  "\<exists>s. link_reachable 0 s \<and> frames s = [[0, 0, 0, 6, 7, 8]] \<and> prefix (delivered s) (frames s)"
proof -
  let ?m = "[1, 1, 1, 1, 7, 8] :: byte list"
  let ?s = "(link_init 0)\<lparr>tx := connection_new 0, flight := flight (link_init 0) @ [0, 0, 0, 6, 7, 8],
    wire := wire (link_init 0) @ [0, 0, 0, 6, 7, 8], frames := frames (link_init 0) @ [frame (take 6 ?m)]\<rparr>"
  have u: "uint_bytes 6 = [0, 0, 0, 6]" by code_simp
  have "link_step (link_init 0) ?s"
  proof (rule begins [where r = "Wrote 6" and res = "Some True" and sz = 6])
    show "send_start ?m (int 6) (Wrote 6) (send_enter (tx (link_init 0)))
      = Ret (Some True, connection_new 0, [0, 0, 0, 6, 7, 8])"
      by (simp add: send_start_def send_enter_def link_init_def connection_new_def writepdu_def Let_def u
          send_finish_def charbuf_new_def)
  qed (simp_all add: link_init_def connection_new_def send_ready_def sendable_def max_pdu_def accepts_def)
  then have r: "link_reachable 0 ?s" using link_next [OF link_start] by blast
  have "frames ?s = [[0, 0, 0, 6, 7, 8]]" by (simp add: link_init_def frame_def u)
  then show ?thesis using messages_arrive_in_order [OF r, of True True] r by blast
qed

section \<open>Lengths that are not checked\<close>

lemma huge_count: "0 \<le> x \<Longrightarrow> x < 4 \<Longrightarrow> ssize_max < unat (word_of_int (x - 4) :: ull)"
proof -
  assume x: "0 \<le> x" "x < 4"
  have "uint (word_of_int (x - 4) :: ull) = (x - 4) mod 2 ^ 64" unfolding uint_word_of_int by simp
  also have "\<dots> = (x - 4 + 2 ^ 64) mod 2 ^ 64" by (rule mod_add_self2 [symmetric])
  also have "\<dots> = x - 4 + 2 ^ 64" by (rule mod_pos_pos_trivial) (use x in simp_all)
  finally show ?thesis using x by (simp add: unat_eq_nat_uint ssize_max_def)
qed

text \<open>
  C37: what the length of an incoming message leads to.  On an idle connection that has received a
  length: a length above the limit closes the connection, and nothing else is checked.  Lengths
  from four to the limit are read into the new block with a count that fits it.  A length below
  minus four stops the program before any further \<open>read\<close>, since no block of that size can be
  allocated; one from minus four to minus one copies four bytes into a smaller block; and one from
  zero to three calls \<open>read\<close> with a count above \<open>SSIZE_MAX\<close>, for which \<open>read\<close> promises nothing.
\<close>

theorem pdu_length_unchecked:
  assumes "\<not> dead c" and "rpdu c = charbuf_new" and "length h = 4" and "avail s = h @ rest"
    and "n = sint (ntohl h)" and "r = \<lparr>cbuf = Some (h @ replicate (nat n) 0), csz = n, solong = 4\<rparr>"
  shows "(max_pdu < n \<longrightarrow> read_cb again consume s c = Ret (c\<lparr>dead := True\<rparr>, s\<lparr>avail := rest\<rparr>, None)) \<and>
    (4 \<le> n \<and> n \<le> max_pdu \<longrightarrow> readpdu again s charbuf_new = readpdu_body again (s\<lparr>avail := rest\<rparr>) r \<and>
       body_count r + 4 = nat n \<and> body_count r \<le> ssize_max) \<and>
    (n < - 4 \<longrightarrow> read_cb again consume s c = Aborted) \<and>
    (- 4 \<le> n \<and> n < 0 \<longrightarrow> read_cb again consume s c = Undef) \<and>
    (0 \<le> n \<and> n < 4 \<longrightarrow> readpdu again s charbuf_new = readpdu_body again (s\<lparr>avail := rest\<rparr>) r \<and>
       ssize_max < body_count r \<and> read_cb again consume s c = Undef)"
proof -
  have hd: "sock_read 4 s = (Got h, s\<lparr>avail := rest\<rparr>)" using assms(3,4) by (auto simp: sock_read_def)
  have rd: "readpdu again s charbuf_new = (if max_pdu < n then Ret (False, charbuf_new, s\<lparr>avail := rest\<rparr>)
      else if n < - 4 then Aborted else if n < 0 then Undef else readpdu_body again (s\<lparr>avail := rest\<rparr>) r)"
    using assms(3,5,6) by (simp add: readpdu_def hd Let_def)
  have cnt: "body_count r = unat (word_of_int (n - 4) :: ull)" by (simp add: body_count_def assms(6))
  have small: "body_count r + 4 = nat n" "body_count r \<le> ssize_max" if "4 \<le> n" "n \<le> max_pdu"
  proof -
    have "body_count r = nat (n - 4)" unfolding cnt by (rule count_small) (use that in simp_all)
    then show "body_count r + 4 = nat n" "body_count r \<le> ssize_max"
      using that by (simp_all add: ssize_max_def max_pdu_def)
  qed
  have huge: "ssize_max < body_count r" "readpdu_body again (s\<lparr>avail := rest\<rparr>) r = Undef" if "0 \<le> n" "n < 4"
    using huge_count [OF that] cnt by (simp_all add: readpdu_body_def)
  have cb: "read_cb again consume s c = Aborted" if "readpdu again s charbuf_new = Aborted"
    using that assms(1,2) by (simp add: read_cb_def)
  have cu: "read_cb again consume s c = Undef" if "readpdu again s charbuf_new = Undef"
    using that assms(1,2) by (simp add: read_cb_def)
  have cc: "read_cb again consume s c = Ret (c\<lparr>dead := True\<rparr>, s\<lparr>avail := rest\<rparr>, None)" if "max_pdu < n"
    using that rd assms(1,2) by (simp add: read_cb_def charbuf_new_def)
  have "0 \<le> max_pdu" "4 < max_pdu" by (simp_all add: max_pdu_def)
  then show ?thesis using rd small huge cb cu cc by auto
qed

theorem pdu_length_unchecked_witness:
  "read_cb False True \<lparr>avail = [0, 0, 0, 2, 9, 9, 9], closed = False\<rparr> (connection_new 0) = Undef \<and>
   read_cb False True \<lparr>avail = [0xff, 0, 0, 2, 9, 9, 9], closed = False\<rparr> (connection_new 0) = Aborted"
proof -
  have n: "2 = sint (ntohl [0, 0, 0, 2])" "- 16777214 = sint (ntohl [0xff, 0, 0, 2])" by code_simp+
  show ?thesis
    using pdu_length_unchecked [of "connection_new 0" "[0, 0, 0, 2]"
        "\<lparr>avail = [0, 0, 0, 2, 9, 9, 9], closed = False\<rparr>" "[9, 9, 9]" 2 _ False True, OF _ _ _ _ n(1) refl]
      pdu_length_unchecked [of "connection_new 0" "[0xff, 0, 0, 2]"
        "\<lparr>avail = [0xff, 0, 0, 2, 9, 9, 9], closed = False\<rparr>" "[9, 9, 9]" "- 16777214" _ False True, OF _ _ _ _ n(2) refl]
    by (simp add: connection_new_def)
qed

end
