(* ===== verification/Rpc_Channel.thy ===== *)
theory Rpc_Channel
  imports Connection
begin

text \<open>
  The client's channel (\<open>rpc/rpc.cc\<close>: \<open>rpcc::get_refconn\<close>, the end of \<open>call1\<close>, \<open>rpcc::~rpcc\<close>;
  \<open>rpc/connection.cc\<close>: \<open>connect_to_dst\<close>, \<open>tcpsconn::accept_conn\<close>) and the addresses it connects to
  (\<open>make_sockaddr\<close>).  Connections are objects in a heap, shared through pointers: \<open>chan_\<close> of the
  client and the local \<open>ch\<close> of each thread inside \<open>call1\<close>.  \<open>chan_m_\<close> makes \<open>get_refconn\<close> one step;
  the results of \<open>connect\<close> and \<open>select\<close> are arguments.
\<close>

section \<open>Pointers to connections\<close>

type_synonym heap = "nat \<rightharpoonup> connection"

text \<open>A call through a pointer to a freed object has no meaning; \<open>decref\<close> may free the object.\<close>

definition heap_decref :: "nat \<Rightarrow> heap \<Rightarrow> heap outcome" where
  "heap_decref a h =
     (case h a of
        None \<Rightarrow> Undef
      | Some c \<Rightarrow> obind (conn_decref c) (\<lambda>r. Ret (h(a := r))))"

definition heap_incref :: "nat \<Rightarrow> heap \<Rightarrow> heap outcome" where
  "heap_incref a h = (case h a of None \<Rightarrow> Undef | Some c \<Rightarrow> Ret (h(a \<mapsto> conn_incref c)))"

text \<open>\<open>new\<close> is the address of the new object, \<open>None\<close> when \<open>connect\<close> fails.\<close>

definition connect_to_dst :: "nat option \<Rightarrow> int \<Rightarrow> heap \<Rightarrow> nat option \<times> heap" where
  "connect_to_dst new l h =
     (case new of None \<Rightarrow> (None, h) | Some a \<Rightarrow> (Some a, h(a \<mapsto> connection_new l)))"

section \<open>The channel of a client\<close>

text \<open>\<open>chan\<close> is \<open>chan_\<close>, \<open>held t\<close> the pointer \<open>ch\<close> of thread \<open>t\<close> in \<open>call1\<close>.\<close>

record channel =
  objs :: heap
  chan :: "nat option"
  held :: "nat \<Rightarrow> nat option"

definition channel_init :: channel where
  "channel_init = \<lparr>objs = Map.empty, chan = None, held = (\<lambda>_. None)\<rparr>"

text \<open>The first \<open>if\<close> of \<open>get_refconn\<close>: \<open>chan_\<close> and the heap afterwards.\<close>

definition renew :: "nat option \<Rightarrow> int \<Rightarrow> nat option \<Rightarrow> heap \<Rightarrow> (nat option \<times> heap) outcome" where
  "renew new l ch h =
     (case ch of
        None \<Rightarrow> Ret (connect_to_dst new l h)
      | Some a \<Rightarrow>
          (case h a of
             None \<Rightarrow> Undef
           | Some c \<Rightarrow>
               if isdead c then obind (heap_decref a h) (\<lambda>h1. Ret (connect_to_dst new l h1))
               else Ret (ch, h)))"

definition get_refconn :: "nat option \<Rightarrow> int \<Rightarrow> nat \<Rightarrow> channel \<Rightarrow> channel outcome" where
  "get_refconn new l t s =
     obind (renew new l (chan s) (objs s)) (\<lambda>(ch, h1).
       case ch of
         None \<Rightarrow> Ret (s\<lparr>objs := h1, chan := None\<rparr>)
       | Some a \<Rightarrow>
           obind (case held s t of None \<Rightarrow> Ret h1 | Some b \<Rightarrow> heap_decref b h1) (\<lambda>h2.
           obind (heap_incref a h2) (\<lambda>h3.
             Ret (s\<lparr>objs := h3, chan := Some a, held := (held s)(t := Some a)\<rparr>))))"

text \<open>The end of \<open>call1\<close>.\<close>

definition release_conn :: "nat \<Rightarrow> channel \<Rightarrow> channel outcome" where
  "release_conn t s =
     (case held s t of
        None \<Rightarrow> Ret s
      | Some a \<Rightarrow> obind (heap_decref a (objs s)) (\<lambda>h. Ret (s\<lparr>objs := h, held := (held s)(t := None)\<rparr>)))"

text \<open>The destructor, which checks that no call is left in \<open>calls_\<close>, whose size is \<open>ncalls\<close>.\<close>

definition rpcc_destroy :: "nat \<Rightarrow> channel \<Rightarrow> channel outcome" where
  "rpcc_destroy ncalls s =
     obind (case chan s of
        None \<Rightarrow> Ret s
      | Some a \<Rightarrow>
          (case objs s a of
             None \<Rightarrow> Undef
           | Some c \<Rightarrow> obind (heap_decref a ((objs s)(a \<mapsto> snd (closeconn c))))
               (\<lambda>h. Ret (s\<lparr>objs := h\<rparr>))))
       (\<lambda>s1. if ncalls \<noteq> 0 then Aborted else Ret s1)"

text \<open>
  What can happen: a thread fetches the channel for a transmission, or leaves \<open>call1\<close>; a connection
  dies (in a callback, or because a send failed).  A new object has a fresh address.
\<close>

inductive channel_step :: "channel \<Rightarrow> channel \<Rightarrow> bool" where
  fetch: "(\<forall>a. new = Some a \<longrightarrow> objs s a = None) \<Longrightarrow> get_refconn new l t s = Ret s' \<Longrightarrow> channel_step s s'"
| leave: "release_conn t s = Ret s' \<Longrightarrow> channel_step s s'"
| die: "objs s a = Some c \<Longrightarrow> channel_step s (s\<lparr>objs := (objs s)(a \<mapsto> c\<lparr>dead := True\<rparr>)\<rparr>)"

inductive channel_reachable :: "channel \<Rightarrow> bool" where
  "channel_reachable channel_init"
| "channel_reachable s \<Longrightarrow> channel_step s s' \<Longrightarrow> channel_reachable s'"

inductive_cases channel_stepE: "channel_step s s'"

section \<open>Reference counts\<close>

text \<open>
  \<open>counted cnt h\<close>: exactly the objects with a reference are allocated, and each knows how many
  there are.
\<close>

definition counted :: "(nat \<Rightarrow> int) \<Rightarrow> heap \<Rightarrow> bool" where
  "counted cnt h \<longleftrightarrow> (\<forall>a. h a = None \<longrightarrow> cnt a = 0) \<and>
     (\<forall>a c. h a = Some c \<longrightarrow> 0 < cnt a \<and> refno c = cnt a \<and> cbuf (wpdu c) = None)"

definition same_life :: "heap \<Rightarrow> heap \<Rightarrow> bool" where
  "same_life h h' \<longleftrightarrow> (\<forall>a c'. h' a = Some c' \<longrightarrow> (\<exists>c. h a = Some c \<and> dead c' = dead c))"

lemma countedD:
  "counted cnt h \<Longrightarrow> h a = Some c \<Longrightarrow> 0 < cnt a \<and> refno c = cnt a \<and> cbuf (wpdu c) = None"
  "counted cnt h \<Longrightarrow> h a = None \<Longrightarrow> cnt a = 0"
  by (simp_all add: counted_def)

lemma counted_alloc: "counted cnt h \<Longrightarrow> cnt a \<noteq> 0 \<Longrightarrow> \<exists>c. h a = Some c"
  using countedD(2) by (cases "h a") auto

lemma counted_upd:
  assumes "counted cnt h" and "0 < n" "refno c = n" "cbuf (wpdu c) = None"
  shows "counted (cnt(a := n)) (h(a \<mapsto> c))"
  using assms by (auto simp: counted_def)

lemma counted_free: "counted cnt h \<Longrightarrow> counted (cnt(a := 0)) (h(a := None))"
  by (auto simp: counted_def)

lemma decref_counted:
  assumes "counted cnt h" and "h a = Some c" and "cnt a = 1 \<Longrightarrow> dead c"
  obtains h' where "heap_decref a h = Ret h'" "counted (cnt(a := cnt a - 1)) h'" "same_life h h'"
proof (cases "cnt a = 1")
  case True
  then have "conn_decref c = Ret None"
    using countedD(1) [OF assms(1,2)] assms(3) by (simp add: conn_decref_def conn_delete_def)
  then show thesis
    using that [of "h(a := None)"] counted_free [OF assms(1), of a] True assms(2)
    by (simp add: heap_decref_def same_life_def)
next
  case False
  let ?c = "c\<lparr>refno := refno c - 1\<rparr>"
  have "conn_decref c = Ret (Some ?c)" and r: "0 < cnt a - 1" "refno ?c = cnt a - 1" "cbuf (wpdu ?c) = None"
    using countedD(1) [OF assms(1,2)] False by (simp_all add: conn_decref_def)
  then show thesis
    using that [of "h(a \<mapsto> ?c)"] counted_upd [OF assms(1) r] assms(2)
    by (simp add: heap_decref_def same_life_def)
qed

lemma incref_counted:
  assumes "counted cnt h" and "h a = Some c"
  obtains h' where "heap_incref a h = Ret h'" "counted (cnt(a := cnt a + 1)) h'" "same_life h h'"
proof -
  have r: "0 < cnt a + 1" "refno (conn_incref c) = cnt a + 1" "cbuf (wpdu (conn_incref c)) = None"
    using countedD(1) [OF assms] by (simp_all add: conn_incref_def)
  then show thesis
    using that [of "h(a \<mapsto> conn_incref c)"] counted_upd [OF assms(1) r] assms(2)
    by (simp add: heap_incref_def same_life_def conn_incref_def)
qed

lemma connect_counted:
  assumes "counted cnt h" and "new = Some a \<longrightarrow> h a = None" and "connect_to_dst new l h = (ch, h')"
  shows "ch = new \<and> counted (case new of None \<Rightarrow> cnt | Some a \<Rightarrow> cnt(a := 1)) h' \<and>
    (\<forall>b. new \<noteq> Some b \<longrightarrow> h' b = h b)"
  using assms counted_upd [OF assms(1), of 1 "connection_new l"]
  by (auto simp: connect_to_dst_def connection_new_def split: option.splits)

section \<open>The invariant of the channel\<close>

definition holders :: "channel \<Rightarrow> nat \<Rightarrow> nat set" where
  "holders s a = {t. held s t = Some a}"

text \<open>How many pointers to an object there are.\<close>

definition pointers :: "channel \<Rightarrow> nat \<Rightarrow> int" where
  "pointers s a = of_bool (chan s = Some a) + int (card (holders s a))"

definition channel_inv :: "channel \<Rightarrow> bool" where
  "channel_inv s \<longleftrightarrow> finite {t. held s t \<noteq> None} \<and> counted (pointers s) (objs s) \<and>
     (\<forall>a c. objs s a = Some c \<and> chan s \<noteq> Some a \<longrightarrow> dead c)"

lemma finite_holders: "channel_inv s \<Longrightarrow> finite (holders s a)"
  by (rule finite_subset [of _ "{t. held s t \<noteq> None}"]) (auto simp: holders_def channel_inv_def)

lemma pointers_objs [simp]: "pointers (s\<lparr>objs := h\<rparr>) = pointers s"
  by (simp add: pointers_def holders_def fun_eq_iff)

lemma pointers_drop:
  assumes "channel_inv s" and "held s t = Some b"
  shows "pointers (s\<lparr>held := (held s)(t := None)\<rparr>) = (pointers s)(b := pointers s b - 1)"
proof
  fix a
  have "holders (s\<lparr>held := (held s)(t := None)\<rparr>) a = holders s a - {t}"
    by (auto simp: holders_def split: if_splits)
  moreover have "int (card (holders s a - {t})) = int (card (holders s a)) - of_bool (a = b)"
  proof (cases "a = b")
    case True
    then have "t \<in> holders s a" using assms(2) by (simp add: holders_def)
    from card_Suc_Diff1 [OF finite_holders [OF assms(1)] this] True show ?thesis by simp
  next
    case False
    then have "t \<notin> holders s a" using assms(2) by (simp add: holders_def)
    with False show ?thesis by simp
  qed
  ultimately show "pointers (s\<lparr>held := (held s)(t := None)\<rparr>) a = ((pointers s)(b := pointers s b - 1)) a"
    by (simp add: pointers_def)
qed

lemma pointers_take:
  assumes "channel_inv s" and "held s t = None"
  shows "pointers (s\<lparr>held := (held s)(t \<mapsto> b)\<rparr>) = (pointers s)(b := pointers s b + 1)"
proof
  fix a
  have "holders (s\<lparr>held := (held s)(t \<mapsto> b)\<rparr>) a = (if a = b then insert t (holders s a) else holders s a)"
    using assms(2) by (auto simp: holders_def split: if_splits)
  moreover have "t \<notin> holders s a" using assms(2) by (auto simp: holders_def)
  ultimately show "pointers (s\<lparr>held := (held s)(t \<mapsto> b)\<rparr>) a = ((pointers s)(b := pointers s b + 1)) a"
    using finite_holders [OF assms(1), of a] by (auto simp: pointers_def)
qed

lemma held_pointers:
  assumes "channel_inv s" and "held s t = Some b"
  shows "of_bool (chan s = Some b) + 1 \<le> pointers s b"
proof -
  have "holders s b \<noteq> {}" using assms(2) by (auto simp: holders_def)
  then have "0 < card (holders s b)" using finite_holders [OF assms(1)] by (simp add: card_gt_0_iff)
  then show ?thesis by (simp add: pointers_def)
qed

lemma pointed_alloc:
  assumes "channel_inv s"
  shows "held s t = Some b \<Longrightarrow> \<exists>c. objs s b = Some c" "chan s = Some b \<Longrightarrow> \<exists>c. objs s b = Some c"
  using assms held_pointers [OF assms, of t b] counted_alloc [of "pointers s" "objs s" b]
  by (auto simp: channel_inv_def pointers_def of_bool_def split: if_splits)

lemma drop_ok:
  assumes inv: "channel_inv s"
  obtains h where "(case held s t of None \<Rightarrow> Ret (objs s) | Some b \<Rightarrow> heap_decref b (objs s)) = Ret h"
    "channel_inv (s\<lparr>objs := h, held := (held s)(t := None)\<rparr>)"
proof (cases "held s t")
  case None
  then have "s\<lparr>objs := objs s, held := (held s)(t := None)\<rparr> = s" by (simp add: fun_upd_idem)
  with None inv show thesis by (intro that [of "objs s"]) simp_all
next
  case (Some b)
  obtain c where c: "objs s b = Some c" using pointed_alloc(1) [OF inv Some] by blast
  have "dead c" if "pointers s b = 1"
    using held_pointers [OF inv Some] that c inv by (auto simp: channel_inv_def of_bool_def split: if_splits)
  moreover have "counted (pointers s) (objs s)" using inv by (simp add: channel_inv_def)
  ultimately obtain h where h: "heap_decref b (objs s) = Ret h"
    "counted ((pointers s)(b := pointers s b - 1)) h" "same_life (objs s) h"
    using c decref_counted by metis
  let ?s = "s\<lparr>objs := h, held := (held s)(t := None)\<rparr>"
  have "pointers ?s = (pointers s)(b := pointers s b - 1)"
    using pointers_drop [OF inv Some] by (simp add: pointers_def holders_def fun_eq_iff)
  moreover have "finite {u. held ?s u \<noteq> None}"
    by (rule finite_subset [of _ "{u. held s u \<noteq> None}"]) (use inv in \<open>auto simp: channel_inv_def\<close>)
  moreover have "\<forall>a c. objs ?s a = Some c \<and> chan ?s \<noteq> Some a \<longrightarrow> dead c"
    using inv h(3) by (fastforce simp: channel_inv_def same_life_def)
  ultimately have "channel_inv ?s" using h(2) by (simp add: channel_inv_def)
  with h(1) Some show thesis by (intro that [of h]) simp_all
qed

lemma take_ok:
  assumes inv: "channel_inv s" and "held s t = None" and ch: "chan s = Some a"
  obtains h where "heap_incref a (objs s) = Ret h" "channel_inv (s\<lparr>objs := h, held := (held s)(t \<mapsto> a)\<rparr>)"
proof -
  obtain c where c: "objs s a = Some c" using pointed_alloc(2) [OF inv ch] by blast
  have "counted (pointers s) (objs s)" using inv by (simp add: channel_inv_def)
  then obtain h where h: "heap_incref a (objs s) = Ret h"
    "counted ((pointers s)(a := pointers s a + 1)) h" "same_life (objs s) h"
    using c incref_counted by metis
  let ?s = "s\<lparr>objs := h, held := (held s)(t \<mapsto> a)\<rparr>"
  have "pointers ?s = (pointers s)(a := pointers s a + 1)"
    using pointers_take [OF inv assms(2)] by (simp add: pointers_def holders_def fun_eq_iff)
  moreover have "finite {u. held ?s u \<noteq> None}"
    by (rule finite_subset [of _ "insert t {u. held s u \<noteq> None}"]) (use inv in \<open>auto simp: channel_inv_def\<close>)
  moreover have "\<forall>a c. objs ?s a = Some c \<and> chan ?s \<noteq> Some a \<longrightarrow> dead c"
    using inv h(3) by (fastforce simp: channel_inv_def same_life_def)
  ultimately have "channel_inv ?s" using h(2) by (simp add: channel_inv_def)
  with h(1) show thesis by (rule that)
qed

lemma connect_ok:
  assumes inv: "channel_inv s" and ch: "chan s = None" and "\<forall>a. new = Some a \<longrightarrow> objs s a = None"
  shows "channel_inv (s\<lparr>objs := snd (connect_to_dst new l (objs s)), chan := fst (connect_to_dst new l (objs s))\<rparr>)"
proof (cases new)
  case None
  then have "s\<lparr>objs := objs s, chan := None\<rparr> = s" using ch by simp
  with None inv show ?thesis by (simp add: connect_to_dst_def)
next
  case (Some a)
  let ?s = "s\<lparr>objs := (objs s)(a \<mapsto> connection_new l), chan := Some a\<rparr>"
  have cnt: "counted (pointers s) (objs s)" using inv by (simp add: channel_inv_def)
  then have "pointers s a = 0" using assms(3) Some countedD(2) by simp
  then have "pointers ?s = (pointers s)(a := 1)"
    using ch by (auto simp: pointers_def holders_def fun_eq_iff)
  moreover have "counted ((pointers s)(a := 1)) ((objs s)(a \<mapsto> connection_new l))"
    by (rule counted_upd [OF cnt]) (simp_all add: connection_new_def)
  ultimately have "channel_inv ?s"
    using inv ch by (auto simp: channel_inv_def split: if_splits)
  with Some show ?thesis by (simp add: connect_to_dst_def)
qed

lemma abandon_ok:
  assumes inv: "channel_inv s" and ch: "chan s = Some a" and c: "objs s a = Some c" "dead c"
  obtains h where "heap_decref a (objs s) = Ret h" "channel_inv (s\<lparr>objs := h, chan := None\<rparr>)"
    "same_life (objs s) h"
proof -
  have "counted (pointers s) (objs s)" using inv by (simp add: channel_inv_def)
  from decref_counted [OF this c(1)] c(2) obtain h where h: "heap_decref a (objs s) = Ret h"
    "counted ((pointers s)(a := pointers s a - 1)) h" "same_life (objs s) h" by blast
  have "pointers (s\<lparr>objs := h, chan := None\<rparr>) = (pointers s)(a := pointers s a - 1)"
    using ch by (auto simp: pointers_def holders_def fun_eq_iff)
  moreover have "dead c'" if hb: "h b = Some c'" for b c'
  proof -
    obtain d where "objs s b = Some d" "dead c' = dead d" using h(3) hb by (auto simp: same_life_def)
    then show ?thesis using inv c ch by (cases "b = a") (auto simp: channel_inv_def)
  qed
  ultimately have "channel_inv (s\<lparr>objs := h, chan := None\<rparr>)" using inv h(2) by (simp add: channel_inv_def)
  with h(1) show thesis using h(3) by (rule that)
qed

lemma renew_ok:
  assumes inv: "channel_inv s" and fresh: "\<forall>a. new = Some a \<longrightarrow> objs s a = None"
  obtains ch h where "renew new l (chan s) (objs s) = Ret (ch, h)" "channel_inv (s\<lparr>objs := h, chan := ch\<rparr>)"
proof (cases "chan s")
  case None
  then show thesis
    using that connect_ok [OF inv None fresh] by (simp add: renew_def prod_eq_iff)
next
  case (Some a)
  obtain c where c: "objs s a = Some c" using pointed_alloc(2) [OF inv Some] by blast
  show thesis
  proof (cases "dead c")
    case True
    obtain h where h: "heap_decref a (objs s) = Ret h" "channel_inv (s\<lparr>objs := h, chan := None\<rparr>)"
      "same_life (objs s) h" by (rule abandon_ok [OF inv Some c True])
    have "\<forall>a. new = Some a \<longrightarrow> h a = None"
      using fresh h(3) by (auto simp: same_life_def) (metis option.exhaust option.distinct(1))
    with connect_ok [OF h(2), of new l] show thesis
      using that [of "fst (connect_to_dst new l h)" "snd (connect_to_dst new l h)"] Some c True h(1)
      by (simp add: renew_def isdead_def)
  next
    case False
    then have "renew new l (chan s) (objs s) = Ret (chan s, objs s)"
      using Some c by (simp add: renew_def isdead_def)
    with inv show thesis using that by simp
  qed
qed

lemma get_refconn_ok:
  assumes inv: "channel_inv s" and fresh: "\<forall>a. new = Some a \<longrightarrow> objs s a = None"
  obtains s' where "get_refconn new l t s = Ret s'" "channel_inv s'"
    "case chan s' of None \<Rightarrow> held s' = held s | Some a \<Rightarrow> held s' = (held s)(t \<mapsto> a)"
proof -
  obtain ch h where r: "renew new l (chan s) (objs s) = Ret (ch, h)"
    "channel_inv (s\<lparr>objs := h, chan := ch\<rparr>)" by (rule renew_ok [OF assms])
  show thesis
  proof (cases ch)
    case None
    with r show thesis using that [of "s\<lparr>objs := h, chan := None\<rparr>"] by (simp add: get_refconn_def)
  next
    case (Some a)
    let ?s1 = "s\<lparr>objs := h, chan := ch\<rparr>"
    obtain h2 where d: "(case held ?s1 t of None \<Rightarrow> Ret (objs ?s1) | Some b \<Rightarrow> heap_decref b (objs ?s1)) = Ret h2"
      "channel_inv (?s1\<lparr>objs := h2, held := (held ?s1)(t := None)\<rparr>)"
      by (rule drop_ok [OF r(2)])
    let ?s2 = "?s1\<lparr>objs := h2, held := (held ?s1)(t := None)\<rparr>"
    have 2: "held ?s2 t = None" "chan ?s2 = Some a" using Some by simp_all
    obtain h3 where k: "heap_incref a (objs ?s2) = Ret h3"
      "channel_inv (?s2\<lparr>objs := h3, held := (held ?s2)(t \<mapsto> a)\<rparr>)"
      by (rule take_ok [OF d(2) 2])
    have d1: "(case held s t of None \<Rightarrow> Ret h | Some b \<Rightarrow> heap_decref b h) = Ret h2"
      using d(1) by (simp split: option.splits)
    have eq: "?s2\<lparr>objs := h3, held := (held ?s2)(t \<mapsto> a)\<rparr> = s\<lparr>objs := h3, chan := Some a, held := (held s)(t \<mapsto> a)\<rparr>"
      using Some by (cases s) simp
    show thesis
      using that [of "s\<lparr>objs := h3, chan := Some a, held := (held s)(t \<mapsto> a)\<rparr>"] r(1) k(1)
        k(2) [unfolded eq] Some
      by (simp add: get_refconn_def d1)
  qed
qed

lemma release_ok:
  assumes "channel_inv s"
  obtains s' where "release_conn t s = Ret s'" "channel_inv s'" "held s' = (held s)(t := None)"
proof -
  obtain h where h: "(case held s t of None \<Rightarrow> Ret (objs s) | Some b \<Rightarrow> heap_decref b (objs s)) = Ret h"
    "channel_inv (s\<lparr>objs := h, held := (held s)(t := None)\<rparr>)" by (rule drop_ok [OF assms])
  show thesis
  proof (cases "held s t")
    case None
    then show thesis using that [of s] assms by (simp add: release_conn_def fun_upd_idem)
  next
    case (Some b)
    then show thesis using that [of "s\<lparr>objs := h, held := (held s)(t := None)\<rparr>"] h
      by (simp add: release_conn_def)
  qed
qed

lemma die_ok:
  assumes "channel_inv s" and "objs s a = Some c"
  shows "channel_inv (s\<lparr>objs := (objs s)(a \<mapsto> c\<lparr>dead := True\<rparr>)\<rparr>)"
  using assms by (auto simp: channel_inv_def counted_def split: if_splits)

lemma channel_reachable_inv: "channel_reachable s \<Longrightarrow> channel_inv s"
proof (induction rule: channel_reachable.induct)
  case 1
  show ?case by (simp add: channel_inv_def channel_init_def counted_def pointers_def holders_def)
next
  case (2 s s')
  from 2(2) show ?case
  proof (cases rule: channel_step.cases)
    case (fetch new l t)
    then show ?thesis using get_refconn_ok [OF 2(3)] by (metis outcome.inject)
  next
    case (leave t)
    then show ?thesis using release_ok [OF 2(3)] by (metis outcome.inject)
  next
    case (die a c)
    then show ?thesis using die_ok [OF 2(3)] by simp
  qed
qed

lemma destroy_ok:
  assumes inv: "channel_inv s" and idle: "\<forall>t. held s t = None"
  shows "\<exists>s'. rpcc_destroy 0 s = Ret s' \<and> objs s' = Map.empty"
proof (cases "chan s")
  case None
  then have "objs s = Map.empty"
    using inv idle by (auto simp: channel_inv_def counted_def pointers_def holders_def)
  then show ?thesis using None by (simp add: rpcc_destroy_def)
next
  case (Some a)
  obtain c where c: "objs s a = Some c" using pointed_alloc(2) [OF inv Some] by blast
  let ?s = "s\<lparr>objs := (objs s)(a \<mapsto> c\<lparr>dead := True\<rparr>)\<rparr>"
  have cl: "snd (closeconn c) = c\<lparr>dead := True\<rparr>" by (auto simp: closeconn_def)
  obtain h where h: "heap_decref a (objs ?s) = Ret h" "channel_inv (?s\<lparr>objs := h, chan := None\<rparr>)"
    by (rule abandon_ok [OF die_ok [OF inv c], of a "c\<lparr>dead := True\<rparr>"]) (simp_all add: Some)
  have "h = Map.empty"
    using h(2) idle by (auto simp: channel_inv_def counted_def pointers_def holders_def)
  then show ?thesis using Some c h(1) by (simp add: rpcc_destroy_def cl)
qed

text \<open>
  C18: connections are freed when they should be and not before.  However threads fetch the channel
  and leave, and whenever connections die, the allocated connections are exactly those the client
  or a thread inside a call points to, each counts its pointers correctly, and fetching and
  leaving go through without touching a freed object or failing a check; a fetched channel is
  what the client uses.  When no call is in progress, so that no thread holds a connection and
  \<open>calls_\<close> is empty, destroying the client frees everything.
\<close>

theorem channel_references:
  assumes "channel_reachable s"
  shows "dom (objs s) = {a. chan s = Some a} \<union> {a. \<exists>t. held s t = Some a} \<and>
    (\<forall>a c. objs s a = Some c \<longrightarrow> refno c = of_bool (chan s = Some a) + int (card {t. held s t = Some a})) \<and>
    (\<forall>new. (\<forall>a. new = Some a \<longrightarrow> objs s a = None) \<longrightarrow>
      (\<exists>s'. get_refconn new l t s = Ret s' \<and> (chan s' \<noteq> None \<longrightarrow> held s' t = chan s'))) \<and>
    (\<exists>s'. release_conn t s = Ret s' \<and> held s' t = None) \<and>
    ((\<forall>t. held s t = None) \<longrightarrow> (\<exists>s'. rpcc_destroy 0 s = Ret s' \<and> objs s' = Map.empty))"
proof (intro conjI)
  have inv: "channel_inv s" by (rule channel_reachable_inv [OF assms])
  then have cnt: "counted (pointers s) (objs s)" by (simp add: channel_inv_def)
  show "dom (objs s) = {a. chan s = Some a} \<union> {a. \<exists>t. held s t = Some a}"
  proof (intro set_eqI iffI)
    fix a
    assume "a \<in> dom (objs s)"
    then have "0 < pointers s a" using countedD(1) [OF cnt] by auto
    then have "chan s = Some a \<or> holders s a \<noteq> {}" by (auto simp: pointers_def)
    then show "a \<in> {a. chan s = Some a} \<union> {a. \<exists>t. held s t = Some a}" by (auto simp: holders_def)
  qed (use pointed_alloc [OF inv] in blast)
  show "\<forall>a c. objs s a = Some c \<longrightarrow> refno c = of_bool (chan s = Some a) + int (card {t. held s t = Some a})"
    using countedD(1) [OF cnt] by (simp add: pointers_def holders_def)
  show "\<forall>new. (\<forall>a. new = Some a \<longrightarrow> objs s a = None) \<longrightarrow>
      (\<exists>s'. get_refconn new l t s = Ret s' \<and> (chan s' \<noteq> None \<longrightarrow> held s' t = chan s'))"
  proof (intro allI impI)
    fix new
    assume "\<forall>a. new = Some a \<longrightarrow> objs s a = None"
    then obtain s' where "get_refconn new l t s = Ret s'"
      "case chan s' of None \<Rightarrow> held s' = held s | Some a \<Rightarrow> held s' = (held s)(t \<mapsto> a)"
      by (rule get_refconn_ok [OF inv])
    then show "\<exists>s'. get_refconn new l t s = Ret s' \<and> (chan s' \<noteq> None \<longrightarrow> held s' t = chan s')"
      by (auto split: option.splits)
  qed
  show "\<exists>s'. release_conn t s = Ret s' \<and> held s' t = None"
    using release_ok [OF inv, of t] by (metis fun_upd_same)
  show "(\<forall>t. held s t = None) \<longrightarrow> (\<exists>s'. rpcc_destroy 0 s = Ret s' \<and> objs s' = Map.empty)"
    using destroy_ok [OF inv] by blast
qed

text \<open>One thread has fetched a first connection.\<close>

definition demo_channel :: channel where
  "demo_channel = \<lparr>objs = [5 \<mapsto> (connection_new 0)\<lparr>refno := 2\<rparr>], chan = Some 5, held = (\<lambda>_. None)(1 \<mapsto> 5)\<rparr>"

lemma demo_channel_fetched: "get_refconn (Some 5) 0 1 channel_init = Ret demo_channel"
  by (simp add: get_refconn_def renew_def connect_to_dst_def channel_init_def heap_incref_def
      conn_incref_def connection_new_def demo_channel_def)

theorem channel_references_witness:
  "dom (objs demo_channel) = {a. chan demo_channel = Some a} \<union> {a. \<exists>t. held demo_channel t = Some a} \<and>
   (\<exists>s'. release_conn 1 demo_channel = Ret s' \<and> held s' 1 = None)"
proof -
  have "channel_step channel_init demo_channel"
    by (rule channel_step.fetch [OF _ demo_channel_fetched]) (simp add: channel_init_def)
  then have "channel_reachable demo_channel"
    by (rule channel_reachable.intros(2) [OF channel_reachable.intros(1)])
  from channel_references [OF this, of 0 1] show ?thesis by blast
qed

section \<open>Accepting connections\<close>

text \<open>
  What \<open>select\<close> in the accept loop reports: an interruption, an error, the pipe that the destructor
  closes, the listening socket with the result of \<open>accept\<close>, or neither of the two.
\<close>

datatype accept_event = Interrupted | Select_error | Pipe_ready | Tcp_ready int | None_ready

text \<open>
  The loop over what it observes: whether it is still running, and the table.  A failed \<open>accept\<close>
  ends the thread.
\<close>

fun accept_conn ::
  "int \<Rightarrow> accept_event list \<Rightarrow> (int \<times> connection) list \<Rightarrow> (bool \<times> (int \<times> connection) list) outcome" where
  "accept_conn l [] conns = Ret (True, conns)"
| "accept_conn l (Interrupted # es) conns = accept_conn l es conns"
| "accept_conn l (Select_error # es) conns = Aborted"
| "accept_conn l (Pipe_ready # es) conns = Ret (False, conns)"
| "accept_conn l (Tcp_ready s1 # es) conns =
     (if s1 < 0 then Ret (False, conns) else obind (process_accept s1 l conns) (accept_conn l es))"
| "accept_conn l (None_ready # es) conns = Aborted"

definition table_ok :: "(int \<times> connection) list \<Rightarrow> bool" where
  "table_ok conns \<longleftrightarrow> sorted_wrt (<) (map fst conns) \<and>
     (\<forall>(fd, c) \<in> set conns. collectable c \<longrightarrow> cbuf (wpdu c) = None)"

lemma collect_filter:
  "\<forall>(fd, c) \<in> set conns. collectable c \<longrightarrow> cbuf (wpdu c) = None \<Longrightarrow>
   collect conns = Ret (filter (\<lambda>(fd, c). \<not> collectable c) conns)"
  by (induction conns rule: collect.induct)
    (auto simp: conn_decref_def conn_delete_def collectable_def isdead_def conn_ref_def)

lemma sorted_filter_keys: "sorted_wrt (<) (map fst xs) \<Longrightarrow> sorted_wrt (<) (map fst (filter P xs))"
  by (induction xs) auto

lemma process_accept_ok:
  assumes "table_ok conns"
  obtains conns' where "process_accept fd l conns = Ret conns'" "table_ok conns'"
    "set conns' = insert (fd, connection_new l) {(k, c) \<in> set conns. k \<noteq> fd \<and> \<not> collectable c}"
proof -
  let ?r = "filter (\<lambda>(fd, c). \<not> collectable c) conns"
  let ?t = "filter (\<lambda>(k, _). k < fd) ?r @ (fd, connection_new l) # filter (\<lambda>(k, _). fd < k) ?r"
  have s: "sorted_wrt (<) (map fst ?r)"
    using assms by (auto simp: table_ok_def intro!: sorted_filter_keys)
  have "sorted_wrt (<) (map fst ?t)"
    using sorted_filter_keys [OF s, of "\<lambda>(k, _). k < fd"] sorted_filter_keys [OF s, of "\<lambda>(k, _). fd < k"]
    by (auto simp: sorted_wrt_append simp del: filter_filter)
  moreover have "process_accept fd l conns = Ret ?t"
    using assms collect_filter [of conns] by (simp add: process_accept_def table_ok_def)
  moreover have "\<not> collectable (connection_new l)"
    by (simp add: collectable_def isdead_def connection_new_def)
  ultimately show thesis by (intro that [of ?t]) (auto simp: table_ok_def)
qed

text \<open>
  As long as \<open>select\<close> reports no error, the loop goes on, the table stays well formed, and no
  connection that is alive or referred to elsewhere leaves it unless its descriptor is used again.
\<close>

lemma accept_keeps_connections:
  assumes "table_ok conns" and "set es \<subseteq> {Interrupted} \<union> Tcp_ready ` {0..}"
  shows "\<exists>conns'. accept_conn l es conns = Ret (True, conns') \<and> table_ok conns' \<and>
    {(k, c) \<in> set conns. \<not> collectable c \<and> Tcp_ready k \<notin> set es} \<subseteq> set conns'"
  using assms
proof (induction es arbitrary: conns)
  case (Cons e es)
  show ?case
  proof (cases "e = Interrupted")
    case True
    then show ?thesis using Cons.IH [of conns] Cons.prems by auto
  next
    case False
    then obtain fd where fd: "e = Tcp_ready fd" "0 \<le> fd" using Cons.prems(2) by auto
    obtain c1 where c1: "process_accept fd l conns = Ret c1" "table_ok c1"
      "set c1 = insert (fd, connection_new l) {(k, c) \<in> set conns. k \<noteq> fd \<and> \<not> collectable c}"
      by (rule process_accept_ok [OF Cons.prems(1)])
    obtain c2 where c2: "accept_conn l es c1 = Ret (True, c2)" "table_ok c2"
      "{(k, c) \<in> set c1. \<not> collectable c \<and> Tcp_ready k \<notin> set es} \<subseteq> set c2"
      using Cons.IH [OF c1(2)] Cons.prems(2) by auto
    have "{(k, c) \<in> set conns. \<not> collectable c \<and> Tcp_ready k \<notin> set (e # es)} \<subseteq> set c2"
      using c2(3) c1(3) fd(1) by auto
    then show ?thesis using c1(1) c2(1,2) fd by auto
  qed
qed auto

section \<open>Addresses\<close>

record sockaddr_in =
  s_addr :: uint
  sin_port :: "16 word"

text \<open>The order of addresses.\<close>

definition sockaddr_less :: "sockaddr_in \<Rightarrow> sockaddr_in \<Rightarrow> bool" where
  "sockaddr_less a b \<longleftrightarrow> s_addr a < s_addr b \<or> (s_addr a = s_addr b \<and> sin_port a < sin_port b)"

text \<open>\<open>atoi\<close>: blanks, a sign, then digits up to the first other character.\<close>

definition digit_val :: "char \<Rightarrow> int" where
  "digit_val c = int (of_char c) - 48"

definition is_digit :: "char \<Rightarrow> bool" where
  "is_digit c \<longleftrightarrow> 0 \<le> digit_val c \<and> digit_val c \<le> 9"

definition is_space :: "char \<Rightarrow> bool" where
  "is_space c \<longleftrightarrow> of_char c \<in> {9, 10, 11, 12, 13, 32 :: nat}"

definition digits_val :: "string \<Rightarrow> int" where
  "digits_val s = foldl (\<lambda>n c. 10 * n + digit_val c) 0 (takeWhile is_digit s)"

definition atoi :: "string \<Rightarrow> int" where
  "atoi s =
     (case dropWhile is_space s of
        [] \<Rightarrow> 0
      | c # rest \<Rightarrow>
          if c = CHR ''-'' then - digits_val rest
          else if c = CHR ''+'' then digits_val rest
          else digits_val (c # rest))"

definition htons :: "16 word \<Rightarrow> 16 word" where
  "htons x = push_bit 8 x OR drop_bit 8 x"

text \<open>
  The first \<open>make_sockaddr\<close>: what stands before the first colon is copied into an array of 200 bytes.
\<close>

definition split_hostport :: "string \<Rightarrow> (string \<times> string) outcome" where
  "split_hostport s =
     (let h = takeWhile (\<lambda>c. c \<noteq> CHR '':'') s in
      if h = s then Ret (''127.0.0.1'', s)
      else if 200 \<le> length h then Undef
      else Ret (h, drop (Suc (length h)) s))"

text \<open>
  The second one; \<open>inet\<close> and \<open>byname\<close> are \<open>inet_addr\<close> and \<open>gethostbyname\<close>, \<open>None\<close> when they fail.
  The result is \<open>None\<close> when the program exits.
\<close>

definition make_sockaddr2 ::
  "(string \<Rightarrow> uint option) \<Rightarrow> (string \<Rightarrow> uint option) \<Rightarrow> string \<Rightarrow> string \<Rightarrow> sockaddr_in option" where
  "make_sockaddr2 inet byname host port =
     (let p = htons (word_of_int (atoi port)) in
      case inet host of
        Some a \<Rightarrow> Some \<lparr>s_addr = a, sin_port = p\<rparr>
      | None \<Rightarrow>
          (case byname host of
             None \<Rightarrow> None
           | Some a \<Rightarrow> Some \<lparr>s_addr = a, sin_port = p\<rparr>))"

definition make_sockaddr ::
  "(string \<Rightarrow> uint option) \<Rightarrow> (string \<Rightarrow> uint option) \<Rightarrow> string \<Rightarrow> sockaddr_in option outcome" where
  "make_sockaddr inet byname s =
     obind (split_hostport s) (\<lambda>(host, port). Ret (make_sockaddr2 inet byname host port))"

lemma sockaddr_less_order:
  "\<not> sockaddr_less a a"
  "sockaddr_less a b \<Longrightarrow> sockaddr_less b c \<Longrightarrow> sockaddr_less a c"
  "sockaddr_less a b \<or> a = b \<or> sockaddr_less b a"
  by (auto simp: sockaddr_less_def) (cases a; cases b; auto)

lemma split_hostport_colon:
  assumes "CHR '':'' \<notin> set h"
  shows "split_hostport (h @ '':'' @ p) = (if 200 \<le> length h then Undef else Ret (h, p))"
proof -
  have "takeWhile (\<lambda>c. c \<noteq> CHR '':'') (h @ '':'' @ p) = h"
    using assms by (simp add: takeWhile_append2 takeWhile_tail) (induction h, auto)
  then show ?thesis by (simp add: split_hostport_def)
qed

lemma split_hostport_plain: "CHR '':'' \<notin> set p \<Longrightarrow> split_hostport p = Ret (''127.0.0.1'', p)"
  by (auto simp: split_hostport_def Let_def takeWhile_eq_all_conv)

text \<open>A port number above 65535 is taken modulo 65536 without a complaint.\<close>

lemma port_wraps:
  "atoi p' = atoi p + 65536 * k \<Longrightarrow> make_sockaddr2 inet byname h p' = make_sockaddr2 inet byname h p"
proof -
  assume "atoi p' = atoi p + 65536 * k"
  then have "take_bit 16 (atoi p') = take_bit 16 (atoi p)" by (simp add: take_bit_eq_mod)
  then have "(word_of_int (atoi p') :: 16 word) = word_of_int (atoi p)"
    by (simp add: word_of_int_eq_iff)
  then show ?thesis by (simp add: make_sockaddr2_def)
qed

end
