(* ===== verification/Fifo.thy ===== *)
theory Fifo
  imports Prelude
begin

text \<open>
  The bounded queue \<open>fifo\<close> of \<open>rpc/fifo.h\<close>: its operations, and their interleaving by any number
  of threads with the two condition variables.  The queue keeps order, stays within its capacity,
  and no thread sleeps on it while it could go on unless another one is already on its way.
\<close>

section \<open>The queue\<close>

record 'a fifo =
  fifo_q :: "'a list"
  fifo_max :: uint

text \<open>The limit is an \<open>int\<close> kept in an \<open>unsigned int\<close>; 0 means no limit.\<close>

definition fifo_new :: "int \<Rightarrow> 'a fifo" where
  "fifo_new limit = \<lparr>fifo_q = [], fifo_max = word_of_int limit\<rparr>"

text \<open>\<open>size\<close> returns \<open>bool\<close>: only whether the queue is non-empty.\<close>

definition fifo_size :: "'a fifo \<Rightarrow> bool" where
  "fifo_size f \<longleftrightarrow> fifo_q f \<noteq> []"

definition fifo_space :: "'a fifo \<Rightarrow> bool" where
  "fifo_space f \<longleftrightarrow> fifo_max f = 0 \<or> length (fifo_q f) < unat (fifo_max f)"

text \<open>
  One pass of the loop of \<open>enq\<close>: the element is pushed, or the call waits, or it returns \<open>false\<close>.
\<close>

datatype 'a enq_result = Enqueued "'a fifo" | Enq_waits | Enq_refused

definition fifo_enq :: "'a \<Rightarrow> bool \<Rightarrow> 'a fifo \<Rightarrow> 'a enq_result" where
  "fifo_enq e blocking f =
     (if fifo_space f then Enqueued (f\<lparr>fifo_q := fifo_q f @ [e]\<rparr>)
      else if blocking then Enq_waits else Enq_refused)"

text \<open>
  One pass of the loop of \<open>deq\<close>: \<open>None\<close> when it waits; otherwise the element, the queue, and
  whether \<open>has_space_c_\<close> is signalled.
\<close>

definition fifo_deq :: "'a fifo \<Rightarrow> ('a \<times> 'a fifo \<times> bool) option" where
  "fifo_deq f =
     (case fifo_q f of
        [] \<Rightarrow> None
      | x # rest \<Rightarrow> Some (x, f\<lparr>fifo_q := rest\<rparr>,
          fifo_max f \<noteq> 0 \<and> length rest < unat (fifo_max f)))"

section \<open>Threads\<close>

text \<open>
  A thread outside the queue, asleep in \<open>enq\<close> or \<open>deq\<close>, or woken there and about to test again.
  \<open>put_log\<close> and \<open>got_log\<close> record the elements in the order the calls returned.
\<close>

datatype 'a fifo_thread = Outside | Enq_asleep 'a | Enq_awake 'a | Deq_asleep | Deq_awake

record 'a fifo_sys =
  fq :: "'a fifo"
  fthr :: "nat \<Rightarrow> 'a fifo_thread"
  put_log :: "'a list"
  got_log :: "'a list"

definition fifo_sys_init :: "int \<Rightarrow> 'a fifo_sys" where
  "fifo_sys_init limit = \<lparr>fq = fifo_new limit, fthr = (\<lambda>_. Outside), put_log = [], got_log = []\<rparr>"

definition deq_sleepers :: "'a fifo_sys \<Rightarrow> nat set" where
  "deq_sleepers s = {t. fthr s t = Deq_asleep}"

definition enq_sleepers :: "'a fifo_sys \<Rightarrow> nat set" where
  "enq_sleepers s = {t. \<exists>e. fthr s t = Enq_asleep e}"

definition deq_woken :: "'a fifo_sys \<Rightarrow> nat set" where
  "deq_woken s = {t. fthr s t = Deq_awake}"

definition enq_woken :: "'a fifo_sys \<Rightarrow> nat set" where
  "enq_woken s = {t. \<exists>e. fthr s t = Enq_awake e}"

fun wake :: "'a fifo_thread \<Rightarrow> 'a fifo_thread" where
  "wake (Enq_asleep e) = Enq_awake e"
| "wake Deq_asleep = Deq_awake"
| "wake x = x"

text \<open>
  \<open>pthread_cond_signal\<close> wakes at least one sleeper if there is one; sleepers also wake for no
  reason.
\<close>

definition signals :: "nat set \<Rightarrow> nat set \<Rightarrow> bool" where
  "signals sleepers woken \<longleftrightarrow> woken \<subseteq> sleepers \<and> (woken = {} \<longrightarrow> sleepers = {})"

inductive fifo_step :: "'a fifo_sys \<Rightarrow> 'a fifo_sys \<Rightarrow> bool" where
  enq_returns: "fthr s t = Outside \<or> fthr s t = Enq_awake e \<Longrightarrow> fifo_enq e b (fq s) = Enqueued f \<Longrightarrow>
     signals (deq_sleepers s) woken \<Longrightarrow>
     fifo_step s (s\<lparr>fq := f, put_log := put_log s @ [e],
       fthr := (\<lambda>w. if w = t then Outside else if w \<in> woken then wake (fthr s w) else fthr s w)\<rparr>)"
| enq_sleeps: "fthr s t = Outside \<or> fthr s t = Enq_awake e \<Longrightarrow> fifo_enq e b (fq s) = Enq_waits \<Longrightarrow>
     fifo_step s (s\<lparr>fthr := (fthr s)(t := Enq_asleep e)\<rparr>)"
| deq_returns: "fthr s t = Outside \<or> fthr s t = Deq_awake \<Longrightarrow> fifo_deq (fq s) = Some (e, f, sig) \<Longrightarrow>
     (if sig then signals (enq_sleepers s) woken else woken = {}) \<Longrightarrow>
     fifo_step s (s\<lparr>fq := f, got_log := got_log s @ [e],
       fthr := (\<lambda>w. if w = t then Outside else if w \<in> woken then wake (fthr s w) else fthr s w)\<rparr>)"
| deq_sleeps: "fthr s t = Outside \<or> fthr s t = Deq_awake \<Longrightarrow> fifo_deq (fq s) = None \<Longrightarrow>
     fifo_step s (s\<lparr>fthr := (fthr s)(t := Deq_asleep)\<rparr>)"
| wakes_up: "fifo_step s (s\<lparr>fthr := (fthr s)(t := wake (fthr s t))\<rparr>)"

inductive fifo_reachable :: "int \<Rightarrow> 'a fifo_sys \<Rightarrow> bool" for limit where
  fifo_start: "fifo_reachable limit (fifo_sys_init limit)"
| fifo_next: "fifo_reachable limit s \<Longrightarrow> fifo_step s t \<Longrightarrow> fifo_reachable limit t"

inductive_cases fifo_stepE: "fifo_step s t"

section \<open>Nobody sleeps in front of work\<close>

text \<open>
  The bookkeeping behind a condition variable, for one resource: with \<open>n\<close> units available, if anyone
  sleeps (\<open>S\<close>) then at least \<open>n\<close> threads (\<open>W\<close>) have been woken and have not yet run.
\<close>

definition alert :: "nat \<Rightarrow> nat set \<Rightarrow> nat set \<Rightarrow> bool" where
  "alert n S W \<longleftrightarrow> finite S \<and> finite W \<and> (S = {} \<or> n \<le> card W)"

lemma alert_taken: "alert n S W \<Longrightarrow> alert (n - 1) S (W - {t})"
  by (auto simp: alert_def card_Diff_singleton_if)

lemma alert_none: "alert n S W \<Longrightarrow> alert 0 (insert t S) (W - {t})"
  by (auto simp: alert_def)

lemma alert_signalled:
  assumes "alert n S W" and "S \<inter> W = {}" and "signals S V"
  shows "alert (Suc n) (S - V) (W \<union> V)"
proof (cases "S = {}")
  case False
  have f: "finite S" "finite W" "n \<le> card W" using assms(1) False by (auto simp: alert_def)
  have V: "V \<subseteq> S" "V \<noteq> {}" using assms(3) False by (auto simp: signals_def)
  then have "finite V" "W \<inter> V = {}" using f(1) assms(2) by (auto intro: finite_subset)
  moreover from this have "card (W \<union> V) = card W + card V" using f(2) by (simp add: card_Un_disjoint)
  moreover have "0 < card V" using V(2) \<open>finite V\<close> by (simp add: card_gt_0_iff)
  ultimately show ?thesis using f by (auto simp: alert_def)
qed (use assms in \<open>auto simp: alert_def signals_def\<close>)

lemma alert_moved:
  assumes "alert n S W"
  shows "alert n (S - {t}) (W \<union> S \<inter> {t})"
proof -
  have "card W \<le> card (W \<union> S \<inter> {t})" if "finite W" by (rule card_mono) (use that in auto)
  with assms show ?thesis by (auto simp: alert_def)
qed

definition fifo_room :: "'a fifo \<Rightarrow> nat" where
  "fifo_room f = unat (fifo_max f) - length (fifo_q f)"

definition fifo_inv :: "'a fifo_sys \<Rightarrow> bool" where
  "fifo_inv s \<longleftrightarrow> put_log s = got_log s @ fifo_q (fq s) \<and>
     (if fifo_max (fq s) = 0 then enq_sleepers s = {} else length (fifo_q (fq s)) \<le> unat (fifo_max (fq s))) \<and>
     alert (length (fifo_q (fq s))) (deq_sleepers s) (deq_woken s) \<and>
     alert (fifo_room (fq s)) (enq_sleepers s) (enq_woken s)"

lemmas fifo_sets = deq_sleepers_def enq_sleepers_def deq_woken_def enq_woken_def

lemma wake_iff [simp]:
  "wake x \<noteq> Enq_asleep e" "wake x \<noteq> Deq_asleep"
  "wake x = Enq_awake e \<longleftrightarrow> x = Enq_asleep e \<or> x = Enq_awake e"
  "wake x = Deq_awake \<longleftrightarrow> x = Deq_asleep \<or> x = Deq_awake" "wake x = Outside \<longleftrightarrow> x = Outside"
  by (cases x; simp)+

lemma sleepers_woken: "deq_sleepers s \<inter> deq_woken s = {}" "enq_sleepers s \<inter> enq_woken s = {}"
  by (auto simp: fifo_sets)

lemma fifo_inv_init: "fifo_inv (fifo_sys_init limit)"
  by (auto simp: fifo_inv_def fifo_sys_init_def fifo_new_def fifo_sets alert_def)

lemma fifo_inv_enq:
  assumes inv: "fifo_inv s" and t: "fthr s t = Outside \<or> fthr s t = Enq_awake e"
    and enq: "fifo_enq e b (fq s) = Enqueued f" and V: "signals (deq_sleepers s) V"
    and s': "s' = s\<lparr>fq := f, put_log := put_log s @ [e],
       fthr := (\<lambda>w. if w = t then Outside else if w \<in> V then wake (fthr s w) else fthr s w)\<rparr>"
  shows "fifo_inv s'"
proof -
  have f: "f = (fq s)\<lparr>fifo_q := fifo_q (fq s) @ [e]\<rparr>" "fifo_space (fq s)"
    using enq by (auto simp: fifo_enq_def split: if_splits)
  have sets: "deq_sleepers s' = deq_sleepers s - V" "deq_woken s' = deq_woken s \<union> V"
    "enq_sleepers s' = enq_sleepers s" "enq_woken s' = enq_woken s - {t}"
    using t V by (auto simp: fifo_sets s' signals_def)
  have "alert (Suc (length (fifo_q (fq s)))) (deq_sleepers s') (deq_woken s')"
    unfolding sets by (rule alert_signalled) (use inv V sleepers_woken in \<open>simp_all add: fifo_inv_def\<close>)
  moreover have "alert (fifo_room (fq s) - 1) (enq_sleepers s') (enq_woken s')"
    unfolding sets by (rule alert_taken) (use inv in \<open>simp add: fifo_inv_def\<close>)
  moreover have "fq s' = f" "put_log s' = put_log s @ [e]" "got_log s' = got_log s" by (simp_all add: s')
  ultimately show ?thesis
    using inv f by (auto simp: fifo_inv_def sets(3) fifo_room_def fifo_space_def)
qed

lemma fifo_inv_deq:
  assumes inv: "fifo_inv s" and t: "fthr s t = Outside \<or> fthr s t = Deq_awake"
    and deq: "fifo_deq (fq s) = Some (e, f, sig)"
    and V: "if sig then signals (enq_sleepers s) V else V = {}"
    and s': "s' = s\<lparr>fq := f, got_log := got_log s @ [e],
       fthr := (\<lambda>w. if w = t then Outside else if w \<in> V then wake (fthr s w) else fthr s w)\<rparr>"
  shows "fifo_inv s'"
proof -
  obtain rest where f: "fifo_q (fq s) = e # rest" "f = (fq s)\<lparr>fifo_q := rest\<rparr>"
    "sig \<longleftrightarrow> fifo_max (fq s) \<noteq> 0 \<and> length rest < unat (fifo_max (fq s))"
    using deq by (auto simp: fifo_deq_def split: list.splits)
  have V': "V \<subseteq> enq_sleepers s" using V by (auto simp: signals_def split: if_splits)
  have sets: "deq_sleepers s' = deq_sleepers s" "deq_woken s' = deq_woken s - {t}"
    "enq_sleepers s' = enq_sleepers s - V" "enq_woken s' = enq_woken s \<union> V"
    using t V' by (auto simp: fifo_sets s')
  have "alert (length (fifo_q (fq s)) - 1) (deq_sleepers s') (deq_woken s')"
    unfolding sets by (rule alert_taken) (use inv in \<open>simp add: fifo_inv_def\<close>)
  moreover have "alert (fifo_room f) (enq_sleepers s') (enq_woken s')"
  proof (cases "fifo_max (fq s) = 0")
    case True
    then show ?thesis using inv V' f by (auto simp: sets fifo_inv_def fifo_room_def alert_def)
  next
    case False
    then have "length (fifo_q (fq s)) \<le> unat (fifo_max (fq s))" using inv by (auto simp: fifo_inv_def)
    then have "sig" "fifo_room f = Suc (fifo_room (fq s))" using f False by (auto simp: fifo_room_def)
    moreover have "alert (Suc (fifo_room (fq s))) (enq_sleepers s - V) (enq_woken s \<union> V)"
      by (rule alert_signalled) (use inv V sleepers_woken(2) \<open>sig\<close> in \<open>simp_all add: fifo_inv_def\<close>)
    ultimately show ?thesis unfolding sets by simp
  qed
  moreover have "fq s' = f" "put_log s' = put_log s" "got_log s' = got_log s @ [e]" by (simp_all add: s')
  ultimately show ?thesis
    using inv f V' by (auto simp: fifo_inv_def sets(3))
qed

lemma fifo_inv_sleep:
  assumes "fifo_inv s"
  shows "fthr s t = Outside \<or> fthr s t = Enq_awake e \<Longrightarrow> fifo_enq e b (fq s) = Enq_waits \<Longrightarrow>
      fifo_inv (s\<lparr>fthr := (fthr s)(t := Enq_asleep e)\<rparr>)" (is "?e \<Longrightarrow> _ \<Longrightarrow> fifo_inv ?se")
    and "fthr s t = Outside \<or> fthr s t = Deq_awake \<Longrightarrow> fifo_deq (fq s) = None \<Longrightarrow>
      fifo_inv (s\<lparr>fthr := (fthr s)(t := Deq_asleep)\<rparr>)" (is "?d \<Longrightarrow> _ \<Longrightarrow> fifo_inv ?sd")
proof -
  assume t: ?e and w: "fifo_enq e b (fq s) = Enq_waits"
  have full: "fifo_max (fq s) \<noteq> 0" "fifo_room (fq s) = 0"
    using w by (auto simp: fifo_enq_def fifo_space_def fifo_room_def split: if_splits)
  have sets: "enq_sleepers ?se = insert t (enq_sleepers s)" "enq_woken ?se = enq_woken s - {t}"
    "deq_sleepers ?se = deq_sleepers s" "deq_woken ?se = deq_woken s"
    using t by (auto simp: fifo_sets)
  show "fifo_inv ?se"
    unfolding fifo_inv_def sets using assms full alert_none [of _ "enq_sleepers s" "enq_woken s" t]
    by (auto simp: fifo_inv_def)
next
  assume t: ?d and w: "fifo_deq (fq s) = None"
  have empty: "fifo_q (fq s) = []" using w by (auto simp: fifo_deq_def split: list.splits)
  have sets: "deq_sleepers ?sd = insert t (deq_sleepers s)" "deq_woken ?sd = deq_woken s - {t}"
    "enq_sleepers ?sd = enq_sleepers s" "enq_woken ?sd = enq_woken s"
    using t by (auto simp: fifo_sets)
  show "fifo_inv ?sd"
    unfolding fifo_inv_def sets using assms empty alert_none [of _ "deq_sleepers s" "deq_woken s" t]
    by (auto simp: fifo_inv_def)
qed

lemma fifo_inv_wakes_up:
  assumes "fifo_inv s"
  shows "fifo_inv (s\<lparr>fthr := (fthr s)(t := wake (fthr s t))\<rparr>)" (is "fifo_inv ?s")
proof -
  have sets: "deq_sleepers ?s = deq_sleepers s - {t}" "deq_woken ?s = deq_woken s \<union> deq_sleepers s \<inter> {t}"
    "enq_sleepers ?s = enq_sleepers s - {t}" "enq_woken ?s = enq_woken s \<union> enq_sleepers s \<inter> {t}"
    by (auto simp: fifo_sets)
  show ?thesis
    unfolding fifo_inv_def sets
    using assms alert_moved [of _ "deq_sleepers s" "deq_woken s" t] alert_moved [of _ "enq_sleepers s" "enq_woken s" t]
    by (auto simp: fifo_inv_def)
qed

lemma fifo_inv_step:
  assumes "fifo_step s s'" and "fifo_inv s"
  shows "fifo_inv s'"
  using assms
proof (cases rule: fifo_step.cases)
  case (enq_returns t e b f V)
  show ?thesis by (rule fifo_inv_enq [OF assms(2) enq_returns(2-4,1)])
next
  case (enq_sleeps t e b)
  then show ?thesis using fifo_inv_sleep(1) [OF assms(2)] by blast
next
  case (deq_returns t e f sig V)
  show ?thesis by (rule fifo_inv_deq [OF assms(2) deq_returns(2-4,1)])
next
  case (deq_sleeps t)
  then show ?thesis using fifo_inv_sleep(2) [OF assms(2)] by blast
next
  case (wakes_up t)
  then show ?thesis using fifo_inv_wakes_up [OF assms(2)] by blast
qed

lemma fifo_reachable_inv: "fifo_reachable limit s \<Longrightarrow> fifo_inv s \<and> fifo_max (fq s) = word_of_int limit"
proof (induction rule: fifo_reachable.induct)
  case fifo_start
  show ?case using fifo_inv_init by (simp add: fifo_sys_init_def fifo_new_def)
next
  case (fifo_next s t)
  from fifo_next(2) have "fifo_max (fq t) = fifo_max (fq s)"
    by cases (auto simp: fifo_enq_def fifo_deq_def split: if_splits list.splits)
  with fifo_next show ?case using fifo_inv_step by auto
qed

text \<open>A woken thread that finds what it waited for takes it.\<close>

lemma deq_woken_takes:
  assumes "fthr s w = Deq_awake" and "fifo_q (fq s) = x # rest"
  obtains s' where "fifo_step s s'" "got_log s' = got_log s @ [x]" "fthr s' w = Outside"
proof -
  let ?sig = "fifo_max (fq s) \<noteq> 0 \<and> length rest < unat (fifo_max (fq s))"
  have "fifo_deq (fq s) = Some (x, (fq s)\<lparr>fifo_q := rest\<rparr>, ?sig)" using assms(2) by (simp add: fifo_deq_def)
  moreover have "if ?sig then signals (enq_sleepers s) (if ?sig then enq_sleepers s else {})
      else (if ?sig then enq_sleepers s else {}) = {}" by (auto simp: signals_def)
  ultimately show thesis using that [OF deq_returns] assms(1) by fastforce
qed

lemma enq_woken_puts:
  assumes "fthr s w = Enq_awake e" and "fifo_space (fq s)"
  obtains s' where "fifo_step s s'" "put_log s' = put_log s @ [e]" "fthr s' w = Outside"
proof -
  have "fifo_enq e True (fq s) = Enqueued ((fq s)\<lparr>fifo_q := fifo_q (fq s) @ [e]\<rparr>)"
    using assms(2) by (simp add: fifo_enq_def)
  moreover have "signals (deq_sleepers s) (deq_sleepers s)" by (auto simp: signals_def)
  ultimately show thesis using that [OF enq_returns] assms(1) by fastforce
qed

lemma alert_obtain:
  assumes "alert n S W" and "t \<in> S" and "0 < n"
  obtains w where "w \<in> W"
  using assms by (cases "W = {}") (auto simp: alert_def)

text \<open>
  C34: the queue under any interleaving of any number of threads.  What was taken, followed by what
  is in the queue, is what was put in, in that order; a limited queue is never longer than its
  limit; and no thread is left sleeping: if one sleeps in \<open>deq\<close> while there is an element, another
  one has been woken and takes the first element in its next step, and if one sleeps in \<open>enq\<close>
  while there is room, another one has been woken and puts its element in.
\<close>

theorem fifo_order_and_wakeups:
  assumes "fifo_reachable limit s"
  shows "put_log s = got_log s @ fifo_q (fq s) \<and>
    ((word_of_int limit :: uint) \<noteq> 0 \<longrightarrow> length (fifo_q (fq s)) \<le> unat (word_of_int limit :: uint)) \<and>
    (fthr s t = Deq_asleep \<and> fifo_q (fq s) \<noteq> [] \<longrightarrow>
      (\<exists>w s'. fthr s w = Deq_awake \<and> fifo_step s s' \<and> fthr s' w = Outside \<and>
        got_log s' = got_log s @ [hd (fifo_q (fq s))])) \<and>
    (fthr s t = Enq_asleep e \<and> fifo_space (fq s) \<longrightarrow>
      (\<exists>w e' s'. fthr s w = Enq_awake e' \<and> fifo_step s s' \<and> fthr s' w = Outside \<and>
        put_log s' = put_log s @ [e']))"
proof (intro conjI impI)
  have inv: "fifo_inv s" "fifo_max (fq s) = word_of_int limit" using fifo_reachable_inv [OF assms] by auto
  then show "put_log s = got_log s @ fifo_q (fq s)" by (simp add: fifo_inv_def)
  show "length (fifo_q (fq s)) \<le> unat (word_of_int limit :: uint)" if "(word_of_int limit :: uint) \<noteq> 0"
    using inv that by (simp add: fifo_inv_def)
  show "\<exists>w s'. fthr s w = Deq_awake \<and> fifo_step s s' \<and> fthr s' w = Outside \<and>
      got_log s' = got_log s @ [hd (fifo_q (fq s))]" if h: "fthr s t = Deq_asleep \<and> fifo_q (fq s) \<noteq> []"
  proof -
    obtain x rest where q: "fifo_q (fq s) = x # rest" using h by (cases "fifo_q (fq s)") auto
    obtain w where "fthr s w = Deq_awake"
      using inv(1) h q by (auto simp: fifo_inv_def fifo_sets elim!: alert_obtain [of _ _ _ t])
    then show ?thesis using q deq_woken_takes by (metis list.sel(1))
  qed
  show "\<exists>w e' s'. fthr s w = Enq_awake e' \<and> fifo_step s s' \<and> fthr s' w = Outside \<and>
      put_log s' = put_log s @ [e']" if h: "fthr s t = Enq_asleep e \<and> fifo_space (fq s)"
  proof -
    have "0 < fifo_room (fq s)" "t \<in> enq_sleepers s" "alert (fifo_room (fq s)) (enq_sleepers s) (enq_woken s)"
      using inv(1) h by (auto simp: fifo_inv_def fifo_sets fifo_room_def fifo_space_def split: if_splits)
    then obtain w e' where "fthr s w = Enq_awake e'"
      by (auto simp: enq_woken_def elim!: alert_obtain)
    then show ?thesis using h enq_woken_puts by metis
  qed
qed

text \<open>A queue for one element: thread 1 puts \<open>7\<close>, thread 2 sleeps in \<open>enq\<close>, thread 3 takes \<open>7\<close>.\<close>

theorem fifo_order_and_wakeups_witness:
  "\<exists>s. fifo_reachable 1 (s :: nat fifo_sys) \<and> fthr s 2 = Enq_asleep 8 \<and> put_log s = [7] \<and>
     put_log s = got_log s @ fifo_q (fq s) \<and> length (fifo_q (fq s)) \<le> 1"
proof -
  let ?s0 = "fifo_sys_init 1 :: nat fifo_sys"
  let ?s1 = "?s0\<lparr>fq := (fq ?s0)\<lparr>fifo_q := [7]\<rparr>, put_log := [7]\<rparr>"
  let ?s2 = "?s1\<lparr>fthr := (fthr ?s1)(2 := Enq_asleep 8)\<rparr>"
  have "fifo_step ?s0 (?s0\<lparr>fq := (fq ?s0)\<lparr>fifo_q := [7]\<rparr>, put_log := put_log ?s0 @ [7], fthr := (\<lambda>w. if w = 1
      then Outside else if w \<in> {} then wake (fthr ?s0 w) else fthr ?s0 w)\<rparr>)"
    by (rule enq_returns [where b = True])
      (auto simp: fifo_sys_init_def fifo_new_def fifo_enq_def fifo_space_def signals_def deq_sleepers_def)
  moreover have "(\<lambda>w. if w = 1 then Outside else if w \<in> {} then wake (fthr ?s0 w) else fthr ?s0 w) = fthr ?s0"
    by (auto simp: fifo_sys_init_def)
  ultimately have "fifo_step ?s0 ?s1" by (simp add: fifo_sys_init_def)
  moreover have "fifo_step ?s1 ?s2"
    by (rule enq_sleeps [where b = True])
      (simp_all add: fifo_sys_init_def fifo_new_def fifo_enq_def fifo_space_def)
  ultimately have r: "fifo_reachable 1 ?s2" using fifo_start fifo_next by blast
  then show ?thesis
    using fifo_order_and_wakeups [OF r, of 2 8]
    by (intro exI [of _ ?s2]) (simp add: fifo_sys_init_def fifo_new_def)
qed

end
