(* ===== verification/Thr_Pool.thy ===== *)
theory Thr_Pool
  imports Fifo "HOL-Library.Multiset"
begin

text \<open>
  The thread pool of \<open>rpc/thr_pool.h\<close> and \<open>rpc/thr_pool.cc\<close>, on top of the queue: adding and taking
  jobs, the worker loop, and the destructor that sends one poison pill per worker.  A worker or a
  destructor that waits on the queue is one that has no step; the theory \<open>Fifo\<close> shows that such a
  wait ends when the queue allows it.
\<close>

section \<open>The pool\<close>

text \<open>A job is a function with its argument; the pill is the job whose function is \<open>NULL\<close>.\<close>

datatype 'j job_t = Job 'j | Pill

record 'j thrpool =
  nthreads :: int
  blockadd :: bool
  jobq :: "'j job_t fifo"

definition thrpool_new :: "int \<Rightarrow> bool \<Rightarrow> 'j thrpool" where
  "thrpool_new sz blocking = \<lparr>nthreads = sz, blockadd = blocking, jobq = fifo_new (100 * sz)\<rparr>"

definition addJob :: "'j \<Rightarrow> 'j thrpool \<Rightarrow> (bool \<times> 'j thrpool) outcome" where
  "addJob j p =
     (case fifo_enq (Job j) (blockadd p) (jobq p) of
        Enqueued q \<Rightarrow> Ret (True, p\<lparr>jobq := q\<rparr>)
      | Enq_waits \<Rightarrow> Blocked
      | Enq_refused \<Rightarrow> Ret (False, p))"

definition takeJob :: "'j thrpool \<Rightarrow> (bool \<times> 'j job_t \<times> 'j thrpool) outcome" where
  "takeJob p =
     (case fifo_deq (jobq p) of
        None \<Rightarrow> Blocked
      | Some (j, q, _) \<Rightarrow> Ret (j \<noteq> Pill, j, p\<lparr>jobq := q\<rparr>))"

text \<open>
  \<open>addObjJob\<close> allocates a wrapper, which the job frees when it has run: the result and whether the
  wrapper is still owned by nobody.
\<close>

definition addObjJob :: "'j \<Rightarrow> 'j thrpool \<Rightarrow> (bool \<times> bool \<times> 'j thrpool) outcome" where
  "addObjJob j p =
     (case addJob j p of
        Ret (ok, p') \<Rightarrow> Ret (ok, \<not> ok, p')
      | Blocked \<Rightarrow> Blocked | Aborted \<Rightarrow> Aborted | Thrown \<Rightarrow> Thrown | Undef \<Rightarrow> Undef)"

text \<open>One pill of the destructor's first loop.\<close>

definition send_pill :: "'j thrpool \<Rightarrow> 'j thrpool outcome" where
  "send_pill p =
     (case fifo_enq Pill True (jobq p) of
        Enqueued q \<Rightarrow> Ret (p\<lparr>jobq := q\<rparr>)
      | _ \<Rightarrow> Blocked)"

section \<open>Workers\<close>

text \<open>
  A worker is about to take a job, runs one, or has left \<open>do_worker\<close>.  \<open>accepted\<close> and \<open>finished\<close> record the
  jobs \<open>addJob\<close> took and those that have been run; \<open>closing\<close> is the destructor, which is called when
  no other thread uses the pool any more, and \<open>pills\<close> counts the pills it has sent.
\<close>

datatype 'j worker = Taking | Working 'j | Exited

record 'j pool_sys =
  pool :: "'j thrpool"
  workers :: "nat \<Rightarrow> 'j worker"
  accepted :: "'j list"
  finished :: "'j list"
  closing :: bool
  pills :: nat

definition pool_sys_init :: "nat \<Rightarrow> bool \<Rightarrow> 'j pool_sys" where
  "pool_sys_init n blocking = \<lparr>pool = thrpool_new (int n) blocking, workers = (\<lambda>_. Taking),
     accepted = [], finished = [], closing = False, pills = 0\<rparr>"

inductive pool_step :: "nat \<Rightarrow> 'j pool_sys \<Rightarrow> 'j pool_sys \<Rightarrow> bool" for n where
  add: "\<not> closing s \<Longrightarrow> addJob j (pool s) = Ret (True, p) \<Longrightarrow>
     pool_step n s (s\<lparr>pool := p, accepted := accepted s @ [j]\<rparr>)"
| take_job: "i < n \<Longrightarrow> workers s i = Taking \<Longrightarrow> takeJob (pool s) = Ret (True, Job j, p) \<Longrightarrow>
     pool_step n s (s\<lparr>pool := p, workers := (workers s)(i := Working j)\<rparr>)"
| finish: "i < n \<Longrightarrow> workers s i = Working j \<Longrightarrow>
     pool_step n s (s\<lparr>workers := (workers s)(i := Taking), finished := finished s @ [j]\<rparr>)"
| leave: "i < n \<Longrightarrow> workers s i = Taking \<Longrightarrow> takeJob (pool s) = Ret (False, x, p) \<Longrightarrow>
     pool_step n s (s\<lparr>pool := p, workers := (workers s)(i := Exited)\<rparr>)"
| close: "\<not> closing s \<Longrightarrow> pool_step n s (s\<lparr>closing := True\<rparr>)"
| pill: "closing s \<Longrightarrow> pills s < n \<Longrightarrow> send_pill (pool s) = Ret p \<Longrightarrow>
     pool_step n s (s\<lparr>pool := p, pills := pills s + 1\<rparr>)"

inductive pool_reachable :: "nat \<Rightarrow> bool \<Rightarrow> 'j pool_sys \<Rightarrow> bool" for n blocking where
  pool_start: "pool_reachable n blocking (pool_sys_init n blocking)"
| pool_next: "pool_reachable n blocking s \<Longrightarrow> pool_step n s t \<Longrightarrow> pool_reachable n blocking t"

section \<open>Every accepted job is run\<close>

fun busy :: "'j worker \<Rightarrow> 'j multiset" where
  "busy (Working j) = {#j#}"
| "busy _ = {#}"

definition in_work :: "nat \<Rightarrow> 'j pool_sys \<Rightarrow> 'j multiset" where
  "in_work n s = (\<Sum>i<n. busy (workers s i))"

definition gone :: "nat \<Rightarrow> 'j pool_sys \<Rightarrow> nat" where
  "gone n s = card {i. i < n \<and> workers s i = Exited}"

definition pool_queue :: "'j pool_sys \<Rightarrow> 'j job_t list" where
  "pool_queue s = fifo_q (jobq (pool s))"

lemma in_work_upd:
  assumes "i < n" and "workers s' = (workers s)(i := w)"
  shows "in_work n s' + busy (workers s i) = in_work n s + busy w"
proof -
  have "in_work n t = busy (workers t i) + (\<Sum>k\<in>{..<n} - {i}. busy (workers t k))" for t :: "'a pool_sys"
    unfolding in_work_def using assms(1) by (intro sum.remove) auto
  from this [of s] this [of s'] show ?thesis using assms(2) by (simp add: ac_simps)
qed

lemma gone_upd:
  assumes "i < n" and "workers s' = (workers s)(i := w)" and "workers s i \<noteq> Exited"
  shows "gone n s' = gone n s + (if w = Exited then 1 else 0)"
proof -
  have "{k. k < n \<and> workers s' k = Exited} =
      (if w = Exited then insert i {k. k < n \<and> workers s k = Exited} else {k. k < n \<and> workers s k = Exited})"
    using assms by auto
  then show ?thesis using assms(3) by (simp add: gone_def)
qed

lemma gone_le: "gone n s \<le> n"
proof -
  have "gone n s \<le> card {..<n}" unfolding gone_def by (rule card_mono) auto
  then show ?thesis by simp
qed

lemma gone_all: "(\<forall>i<n. workers s i = Exited) \<longleftrightarrow> gone n s = n"
proof
  assume "gone n s = n"
  then have "{i. i < n \<and> workers s i = Exited} = {..<n}"
    unfolding gone_def by (intro card_subset_eq) auto
  then show "\<forall>i<n. workers s i = Exited" by auto
next
  assume "\<forall>i<n. workers s i = Exited"
  then have "{i. i < n \<and> workers s i = Exited} = {..<n}" by auto
  then show "gone n s = n" by (simp add: gone_def)
qed

lemma addJob_queue:
  assumes "addJob j p = Ret (True, p')"
  shows "fifo_q (jobq p') = fifo_q (jobq p) @ [Job j]" "fifo_max (jobq p') = fifo_max (jobq p)"
  using assms by (auto simp: addJob_def fifo_enq_def split: if_splits)

lemma takeJob_queue:
  assumes "takeJob p = Ret (b, x, p')"
  shows "fifo_q (jobq p) = x # fifo_q (jobq p')" "b \<longleftrightarrow> x \<noteq> Pill" "fifo_max (jobq p') = fifo_max (jobq p)"
  using assms by (auto simp: takeJob_def fifo_deq_def split: option.splits list.splits)

lemma send_pill_queue:
  assumes "send_pill p = Ret p'"
  shows "fifo_q (jobq p') = fifo_q (jobq p) @ [Pill]" "fifo_max (jobq p') = fifo_max (jobq p)"
  using assms by (auto simp: send_pill_def fifo_enq_def split: if_splits)

text \<open>
  The invariant: the queue holds jobs and behind them pills; each pill sent is in the queue or has
  been taken by a worker that left; a worker leaves only when no job is left in the queue; and no
  accepted job is lost or run twice.
\<close>

definition pool_inv :: "nat \<Rightarrow> 'j pool_sys \<Rightarrow> bool" where
  "pool_inv n s \<longleftrightarrow>
     (\<exists>jobs k. pool_queue s = map Job jobs @ replicate k Pill \<and> pills s = k + gone n s \<and>
       (0 < gone n s \<longrightarrow> jobs = []) \<and>
       mset (accepted s) = mset (finished s) + mset jobs + in_work n s) \<and>
     (0 < pills s \<longrightarrow> closing s) \<and> pills s \<le> n \<and> fifo_max (jobq (pool s)) = word_of_int (100 * int n)"

lemma pool_invI:
  assumes "pool_queue s = map Job jobs @ replicate k Pill" "pills s = k + gone n s"
    "0 < gone n s \<longrightarrow> jobs = []" "mset (accepted s) = mset (finished s) + mset jobs + in_work n s"
    "0 < pills s \<longrightarrow> closing s" "pills s \<le> n" "fifo_max (jobq (pool s)) = word_of_int (100 * int n)"
  shows "pool_inv n s"
  unfolding pool_inv_def using assms by (intro conjI exI [of _ jobs] exI [of _ k]) auto

lemma pool_inv_init: "pool_inv n (pool_sys_init n blocking)"
  by (rule pool_invI [where jobs = "[]" and k = 0])
    (simp_all add: pool_sys_init_def thrpool_new_def fifo_new_def pool_queue_def gone_def in_work_def)

lemma queue_front:
  assumes "map Job jobs @ replicate k Pill = x # q"
  shows "(\<exists>j js. jobs = j # js \<and> x = Job j \<and> q = map Job js @ replicate k Pill) \<or>
    (\<exists>k'. jobs = [] \<and> k = Suc k' \<and> x = Pill \<and> q = replicate k' Pill)"
  using assms by (cases jobs; cases k) auto

lemma pool_inv_step:
  assumes "pool_step n s t" and "pool_inv n s"
  shows "pool_inv n t"
proof -
  obtain jobs k where q: "pool_queue s = map Job jobs @ replicate k Pill" "pills s = k + gone n s"
      "0 < gone n s \<longrightarrow> jobs = []" "mset (accepted s) = mset (finished s) + mset jobs + in_work n s"
    and c: "0 < pills s \<longrightarrow> closing s" "pills s \<le> n" "fifo_max (jobq (pool s)) = word_of_int (100 * int n)"
    using assms(2) by (auto simp: pool_inv_def)
  have same: "gone n t = gone n s" "in_work n t = in_work n s" if "workers t = workers s"
    using that by (simp_all add: gone_def in_work_def)
  from assms(1) show ?thesis
  proof cases
    case (add j p)
    then have "k = 0" "gone n s = 0" using q(2) c(1) by auto
    then show ?thesis
      using add q c same addJob_queue [OF add(3)]
      by (intro pool_invI [of _ "jobs @ [j]" 0]) (auto simp: pool_queue_def)
  next
    case (take_job i j p)
    note tq = takeJob_queue [OF take_job(4)]
    obtain js where js: "jobs = j # js" "fifo_q (jobq p) = map Job js @ replicate k Pill"
      using queue_front [of jobs k "Job j" "fifo_q (jobq p)"] q(1) tq(1) by (auto simp: pool_queue_def)
    have "in_work n t = in_work n s + {#j#}" "gone n t = gone n s"
      using in_work_upd [of i n t s] gone_upd [of i n t s] take_job by simp_all
    then show ?thesis
      using take_job(1) q js c tq(3) by (intro pool_invI [of _ js k]) (auto simp: pool_queue_def)
  next
    case (finish i j)
    have "in_work n t + {#j#} = in_work n s" "gone n t = gone n s"
      using in_work_upd [of i n t s] gone_upd [of i n t s] finish by simp_all
    moreover have "pool t = pool s" "pills t = pills s" "closing t = closing s" "accepted t = accepted s"
      "finished t = finished s @ [j]" using finish(1) by simp_all
    ultimately show ?thesis
      using q c by (intro pool_invI [of _ jobs k]) (auto simp: pool_queue_def)
  next
    case (leave i x p)
    note tq = takeJob_queue [OF leave(4)]
    obtain k' where k': "jobs = []" "k = Suc k'" "fifo_q (jobq p) = replicate k' Pill"
      using queue_front [of jobs k x "fifo_q (jobq p)"] q(1) tq(1,2) by (auto simp: pool_queue_def)
    have "in_work n t = in_work n s" "gone n t = gone n s + 1"
      using in_work_upd [of i n t s] gone_upd [of i n t s] leave by simp_all
    then show ?thesis
      using leave(1) q k' c tq(3) by (intro pool_invI [of _ "[]" k']) (auto simp: pool_queue_def)
  next
    case close
    then show ?thesis using q c same by (intro pool_invI [of _ jobs k]) (auto simp: pool_queue_def)
  next
    case (pill p)
    then show ?thesis
      using q c same send_pill_queue [OF pill(4)]
      by (intro pool_invI [of _ jobs "Suc k"]) (auto simp: pool_queue_def replicate_append_same)
  qed
qed

lemma pool_reachable_inv: "pool_reachable n blocking s \<Longrightarrow> pool_inv n s"
  by (induction rule: pool_reachable.induct) (auto intro: pool_inv_init pool_inv_step)

section \<open>Shutting down\<close>

text \<open>What is left to do once the destructor runs.\<close>

definition pool_work :: "nat \<Rightarrow> 'j pool_sys \<Rightarrow> nat" where
  "pool_work n s = 3 * (n - pills s) + 2 * length (pool_queue s) + size (in_work n s)"

lemma closing_step:
  assumes "pool_step n s t" and "closing s"
  shows "closing t \<and> pool_work n t < pool_work n s"
  using assms(1)
proof cases
  case (take_job i j p)
  have "in_work n t = in_work n s + {#j#}" using in_work_upd [of i n t s] take_job by simp
  then show ?thesis
    using assms(2) take_job takeJob_queue [OF take_job(4)] by (simp add: pool_work_def pool_queue_def)
next
  case (finish i j)
  have "in_work n s = in_work n t + {#j#}" using in_work_upd [of i n t s] finish by simp
  then have "size (in_work n s) = Suc (size (in_work n t))" by simp
  moreover have "pool t = pool s" "pills t = pills s" "closing t = closing s" using finish(1) by simp_all
  ultimately show ?thesis using assms(2) by (simp add: pool_work_def pool_queue_def)
next
  case (leave i x p)
  have "in_work n t = in_work n s" using in_work_upd [of i n t s] leave by simp
  then show ?thesis
    using assms(2) leave takeJob_queue [OF leave(4)] by (simp add: pool_work_def pool_queue_def)
next
  case (pill p)
  then have "in_work n t = in_work n s" by (simp add: in_work_def)
  then show ?thesis
    using assms(2) pill send_pill_queue [OF pill(4)] by (simp add: pool_work_def pool_queue_def)
qed (use assms(2) in simp_all)

lemma closing_progress:
  assumes inv: "pool_inv n s" and "closing s" and "i < n" "workers s i \<noteq> Exited"
  obtains t where "pool_step n s t"
proof (cases "workers s i")
  case (Working j)
  show ?thesis by (rule that [OF finish [of i n s j, OF assms(3) Working]])
next
  case Taking
  show ?thesis
  proof (cases "pool_queue s")
    case (Cons x q)
    then have "takeJob (pool s) = Ret (x \<noteq> Pill, x, (pool s)\<lparr>jobq := (jobq (pool s))\<lparr>fifo_q := q\<rparr>\<rparr>)"
      by (simp add: takeJob_def fifo_deq_def pool_queue_def)
    then show ?thesis
      using that [OF take_job [OF assms(3) Taking]] that [OF leave [OF assms(3) Taking]] by (cases x) auto
  next
    case Nil
    have "gone n s < n" using gone_le [of n s] gone_all [of n s] assms(3,4) by fastforce
    then have "pills s < n" using inv Nil by (auto simp: pool_inv_def)
    moreover have "fifo_space (jobq (pool s))"
      using Nil by (simp add: fifo_space_def pool_queue_def unat_gt_0)
    then obtain p where "send_pill (pool s) = Ret p" by (auto simp: send_pill_def fifo_enq_def)
    ultimately show ?thesis using that [OF pool_step.pill [OF assms(2)]] by blast
  qed
qed (use assms(4) in simp)

text \<open>
  C35: shutting down the pool loses no job and ends.  Whatever the workers were doing when the
  destructor started, as long as a worker is left some thread has a step to make, each step brings
  the end nearer by a measure, and when all workers have left, which is what the joins wait for,
  every job that was ever accepted has been run exactly once and the queue is empty.
\<close>

theorem pool_drains:
  assumes "pool_reachable n blocking s" and "closing s" and "0 < n"
  shows "(if \<forall>i<n. workers s i = Exited
      then mset (finished s) = mset (accepted s) \<and> fifo_q (jobq (pool s)) = []
      else \<exists>t. pool_step n s t) \<and>
    (\<forall>t. pool_step n s t \<longrightarrow> closing t \<and> pool_work n t < pool_work n s)"
proof (rule conjI)
  have inv: "pool_inv n s" using assms(1) by (rule pool_reachable_inv)
  show "if \<forall>i<n. workers s i = Exited
      then mset (finished s) = mset (accepted s) \<and> fifo_q (jobq (pool s)) = [] else \<exists>t. pool_step n s t"
  proof (cases "\<forall>i<n. workers s i = Exited")
    case True
    then have "in_work n s = {#}" by (simp add: in_work_def)
    moreover have "gone n s = n" using True by (simp only: gone_all)
    ultimately have g: "gone n s = n" "in_work n s = {#}" by simp_all
    show ?thesis using True inv assms(3) by (auto simp: pool_inv_def pool_queue_def g)
  next
    case False
    then obtain i where "i < n" "workers s i \<noteq> Exited" by blast
    with closing_progress [OF inv assms(2)] show ?thesis using False by metis
  qed
  show "\<forall>t. pool_step n s t \<longrightarrow> closing t \<and> pool_work n t < pool_work n s"
    using closing_step assms(2) by blast
qed

text \<open>A pool with one worker that is closed with one job waiting.\<close>

definition demo_pool :: "nat pool_sys" where
  "demo_pool = (pool_sys_init 1 False)\<lparr>
     pool := \<lparr>nthreads = 1, blockadd = False, jobq = \<lparr>fifo_q = [Job 5], fifo_max = 100\<rparr>\<rparr>,
     accepted := [5], closing := True\<rparr>"

theorem pool_drains_witness: "\<exists>t. pool_step 1 demo_pool t"
proof -
  let ?s1 = "(pool_sys_init 1 False)\<lparr>
     pool := \<lparr>nthreads = 1, blockadd = False, jobq = \<lparr>fifo_q = [Job 5], fifo_max = 100\<rparr>\<rparr>,
     accepted := [5 :: nat]\<rparr>"
  have "pool_step 1 (pool_sys_init 1 False) ((pool_sys_init 1 False)\<lparr>
     pool := \<lparr>nthreads = 1, blockadd = False, jobq = \<lparr>fifo_q = [Job 5], fifo_max = 100\<rparr>\<rparr>,
     accepted := accepted (pool_sys_init 1 False) @ [5 :: nat]\<rparr>)"
    by (rule add) (simp_all add: pool_sys_init_def thrpool_new_def addJob_def fifo_new_def fifo_enq_def
        fifo_space_def)
  then have "pool_reachable 1 False ?s1"
    using pool_next [OF pool_start, of 1 False ?s1] by (simp add: pool_sys_init_def)
  moreover have "pool_step 1 ?s1 (?s1\<lparr>closing := True\<rparr>)" by (rule close) (simp add: pool_sys_init_def)
  ultimately have r: "pool_reachable 1 False demo_pool"
    unfolding demo_pool_def using pool_next by (fastforce simp: pool_sys_init_def)
  have "closing demo_pool" "workers demo_pool 0 = Taking"
    by (simp_all add: demo_pool_def pool_sys_init_def)
  then show ?thesis using pool_drains [OF r] by (auto split: if_splits)
qed

end
