(* ===== verification/Rpc_Lifetime.thy ===== *)
theory Rpc_Lifetime
  imports Rpc_Channel Rpc_System Thr_Pool
begin

text \<open>
  The life of a server object: the constructor of the listener, the thread that accepts
  connections, \<open>got_pdu\<close> handing messages to the thread pool, the workers that run \<open>dispatch\<close>, and the
  destructors \<open>rpcs::~rpcs\<close>, \<open>tcpsconn::~tcpsconn\<close> and \<open>ThrPool::~ThrPool\<close> in their order.
\<close>

section \<open>The listener\<close>

text \<open>
  The results of the calls the constructor of \<open>tcpsconn\<close> makes, in their order.  Each failure ends the
  process: in a \<open>VERIFY\<close>, or, for the thread, in the \<open>exit\<close> of \<open>method_thread\<close>.
\<close>

record listen_obs =
  socket_ret :: int
  bind_ret :: int
  listen_ret :: int
  pipe_ret :: int
  thread_started :: bool

definition tcpsconn_new :: "listen_obs \<Rightarrow> (int \<times> connection) list outcome" where
  "tcpsconn_new e =
     (if socket_ret e < 0 then Aborted
      else if bind_ret e < 0 then Aborted
      else if listen_ret e < 0 then Aborted
      else if pipe_ret e < 0 then Aborted
      else if \<not> thread_started e then Aborted
      else Ret [])"

section \<open>The server with its threads\<close>

text \<open>
  \<open>Serving\<close>: the object is in use.  \<open>Pipe_closed\<close>: \<open>~tcpsconn\<close> has closed its end of the pipe and waits
  for the accepting thread.  \<open>Listener_gone\<close>: the listener is deleted and \<open>~ThrPool\<close> runs or is about
  to run.  \<open>Gone\<close>: the destructor has returned.
\<close>

datatype stage = Serving | Pipe_closed | Listener_gone | Gone

type_synonym djob = "conn \<times> byte list"

record 's server_sys =
  obj :: "'s rpcs"
  conn_table :: "(int \<times> connection) list"
  accepting :: bool
  disp :: "djob pool_sys"
  stage :: stage

text \<open>The size of the pool \<open>rpcs\<close> creates.\<close>

definition dispatch_threads :: nat where
  "dispatch_threads = 6"

definition server_new :: "listen_obs \<Rightarrow> 's rpcs \<Rightarrow> 's server_sys outcome" where
  "server_new e sv =
     obind (tcpsconn_new e) (\<lambda>t. Ret \<lparr>obj = sv, conn_table = t, accepting = True,
       disp = pool_sys_init dispatch_threads False, stage = Serving\<rparr>)"

text \<open>
  Messages are handed over by the polling thread as long as there are connections; \<open>~tcpsconn\<close> closes
  them all, and once \<open>closeconn\<close> has returned no callback of a connection is active, as long as no
  wait of \<open>block_remove_fd\<close> returns without its signal (theory \<open>Poll_Mgr\<close>).  Which connections are
  dead when a request runs (\<open>down\<close>) is arbitrary.  \<open>reachable_\<close> is true throughout: nothing
  in the repository calls \<open>set_reachable\<close>.  \<open>dispatch\<close> is one step here; its two halves are
  interleaved in theory \<open>Rpc_System\<close>.
\<close>

inductive server_step :: "(conn \<Rightarrow> int \<times> int) \<Rightarrow> int \<Rightarrow> 's server_sys \<Rightarrow> 's server_sys \<Rightarrow> bool"
  for born l where
  accept: "accepting s \<Longrightarrow> stage s \<in> {Serving, Pipe_closed} \<Longrightarrow> e = Pipe_ready \<longrightarrow> stage s = Pipe_closed \<Longrightarrow>
     accept_conn l [e] (conn_table s) = Ret (go, t) \<Longrightarrow>
     server_step born l s (s\<lparr>accepting := go, conn_table := t\<rparr>)"
| enqueue: "stage s \<in> {Serving, Pipe_closed} \<Longrightarrow> addObjJob (c, b) (pool (disp s)) = Ret (True, w, p) \<Longrightarrow>
     server_step born l s (s\<lparr>obj := snd (rpcs_got_pdu True True True c (obj s)),
       disp := (disp s)\<lparr>pool := p, accepted := accepted (disp s) @ [(c, b)]\<rparr>\<rparr>)"
| reject: "stage s \<in> {Serving, Pipe_closed} \<Longrightarrow> addObjJob (c, b) (pool (disp s)) = Ret (False, w, p) \<Longrightarrow>
     server_step born l s (s\<lparr>obj := snd (rpcs_got_pdu True False True c (obj s))\<rparr>)"
| fetch: "i < dispatch_threads \<Longrightarrow> workers (disp s) i = Taking \<Longrightarrow> takeJob (pool (disp s)) = Ret (True, Job j, p) \<Longrightarrow>
     server_step born l s (s\<lparr>disp := (disp s)\<lparr>pool := p, workers := (workers (disp s))(i := Working j)\<rparr>\<rparr>)"
| run: "i < dispatch_threads \<Longrightarrow> workers (disp s) i = Working (c, b) \<Longrightarrow> dispatch down born b c (obj s) = Ret sv \<Longrightarrow>
     server_step born l s (s\<lparr>obj := sv, disp := (disp s)\<lparr>workers := (workers (disp s))(i := Taking),
       finished := finished (disp s) @ [(c, b)]\<rparr>\<rparr>)"
| exit: "i < dispatch_threads \<Longrightarrow> workers (disp s) i = Taking \<Longrightarrow> takeJob (pool (disp s)) = Ret (False, x, p) \<Longrightarrow>
     server_step born l s (s\<lparr>disp := (disp s)\<lparr>pool := p, workers := (workers (disp s))(i := Exited)\<rparr>\<rparr>)"
| close_pipe: "stage s = Serving \<Longrightarrow> server_step born l s (s\<lparr>stage := Pipe_closed\<rparr>)"
| joined: "stage s = Pipe_closed \<Longrightarrow> \<not> accepting s \<Longrightarrow> tcpsconn_close (conn_table s) = Ret t \<Longrightarrow>
     server_step born l s (s\<lparr>conn_table := t, disp := (disp s)\<lparr>closing := True\<rparr>, stage := Listener_gone\<rparr>)"
| poison: "stage s = Listener_gone \<Longrightarrow> pills (disp s) < dispatch_threads \<Longrightarrow> send_pill (pool (disp s)) = Ret p \<Longrightarrow>
     server_step born l s (s\<lparr>disp := (disp s)\<lparr>pool := p, pills := pills (disp s) + 1\<rparr>\<rparr>)"
| freed: "stage s = Listener_gone \<Longrightarrow> pills (disp s) = dispatch_threads \<Longrightarrow>
     \<forall>i<dispatch_threads. workers (disp s) i = Exited \<Longrightarrow>
     server_step born l s (s\<lparr>obj := free_reply_window (obj s), stage := Gone\<rparr>)"

inductive server_runs :: "(conn \<Rightarrow> int \<times> int) \<Rightarrow> int \<Rightarrow> 's server_sys \<Rightarrow> 's server_sys \<Rightarrow> bool"
  for born l s0 where
  server_start: "server_runs born l s0 s0"
| server_next: "server_runs born l s0 s \<Longrightarrow> server_step born l s t \<Longrightarrow> server_runs born l s0 t"

section \<open>The pool inside the server\<close>

text \<open>Each step of the server is a step of the pool or leaves the pool as it is.\<close>

lemma addObj_added: "addObjJob j p = Ret (True, w, p') \<Longrightarrow> addJob j p = Ret (True, p')"
  by (auto simp: addObjJob_def split: outcome.splits)

definition life_ok :: "'s server_sys \<Rightarrow> bool" where
  "life_ok s \<longleftrightarrow> pool_inv dispatch_threads (disp s) \<and>
     (closing (disp s) \<longleftrightarrow> stage s \<in> {Listener_gone, Gone}) \<and>
     (stage s \<in> {Listener_gone, Gone} \<longrightarrow> \<not> accepting s) \<and>
     (stage s = Gone \<longrightarrow> (\<forall>i<dispatch_threads. workers (disp s) i = Exited) \<and> reply_window (obj s) = Map.empty)"

lemma server_pool_step:
  assumes "server_step born l s t" and "life_ok s"
  shows "disp t = disp s \<or> pool_step dispatch_threads (disp s) (disp t)"
  using assms(1)
proof cases
  case (enqueue c b w p)
  have "\<not> closing (disp s)" using assms(2) enqueue(2) by (auto simp: life_ok_def)
  from pool_step.add [OF this addObj_added [OF enqueue(3)]] show ?thesis using enqueue(1) by simp
next
  case (fetch i j p)
  from pool_step.take_job [OF fetch(2-4)] show ?thesis using fetch(1) by simp
next
  case (run i c b sv)
  from pool_step.finish [OF run(2,3)] show ?thesis using run(1) by simp
next
  case (exit i x p)
  from pool_step.leave [OF exit(2-4)] show ?thesis using exit(1) by simp
next
  case (joined t')
  have "\<not> closing (disp s)" using assms(2) joined(2) by (auto simp: life_ok_def)
  from pool_step.close [OF this] show ?thesis using joined(1) by simp
next
  case (poison p)
  have "closing (disp s)" using assms(2) poison(2) by (auto simp: life_ok_def)
  from pool_step.pill [OF this poison(3,4)] show ?thesis using poison(1) by simp
qed simp_all

lemma gone_still:
  assumes "life_ok s" and "stage s = Gone"
  shows "\<not> server_step born l s t"
proof
  assume "server_step born l s t"
  then show False using assms by cases (auto simp: life_ok_def)
qed

lemma life_ok_step:
  assumes "server_step born l s t" and "life_ok s"
  shows "life_ok t"
proof -
  have p: "pool_inv dispatch_threads (disp t)"
    using server_pool_step [OF assms] pool_inv_step assms(2) by (auto simp: life_ok_def)
  have "stage s \<noteq> Gone" using gone_still assms by blast
  with assms(1) show ?thesis
    using assms(2) p by cases (auto simp: life_ok_def free_reply_window_def)
qed

lemma life_ok_new: "server_new e sv = Ret s \<Longrightarrow> life_ok s"
  using pool_inv_init [of dispatch_threads False]
  by (auto simp: server_new_def tcpsconn_new_def life_ok_def pool_sys_init_def split: if_splits)

lemma life_ok_runs: "server_runs born l s0 s \<Longrightarrow> life_ok s0 \<Longrightarrow> life_ok s"
  by (induction rule: server_runs.induct) (auto intro: life_ok_step)

section \<open>References\<close>

text \<open>A request that names another server instance.\<close>

definition stale_job :: "uint \<Rightarrow> djob \<Rightarrow> bool" where
  "stale_job n j = (let (h, req) = unpack_req_header (unmarshall_of (snd j))
     in uok req \<and> rq_srv_nonce h \<noteq> 0 \<and> rq_srv_nonce h \<noteq> n)"

definition jobs_on :: "conn \<Rightarrow> djob list \<Rightarrow> int" where
  "jobs_on c js = int (length (filter (\<lambda>j. fst j = c) js))"

lemma jobs_on_simps [simp]: "jobs_on c [] = 0" "jobs_on c (js @ [j]) = jobs_on c js + (if fst j = c then 1 else 0)"
  by (simp_all add: jobs_on_def)

lemma jobs_on_mset: "mset js = mset js' \<Longrightarrow> jobs_on c js = jobs_on c js'"
  unfolding jobs_on_def by (metis mset_filter size_mset)

definition refs_ok :: "uint \<Rightarrow> 's server_sys \<Rightarrow> bool" where
  "refs_ok n s \<longleftrightarrow> nonce (obj s) = n \<and> (\<forall>c. owned (obj s) c =
     jobs_on c (accepted (disp s)) - jobs_on c (finished (disp s)) + jobs_on c (filter (stale_job n) (finished (disp s))))"

lemma dispatch_job:
  assumes "dispatch down born b c sv = Ret sv'"
  shows "owned sv' = (if stale_job (nonce sv) (c, b) then owned sv else (owned sv)(c := owned sv c - 1))"
  using dispatch_releases [OF assms, of "fst (unpack_req_header (unmarshall_of b))" "snd (unpack_req_header (unmarshall_of b))"]
  by (simp add: stale_job_def split_beta)

lemma reply_conn_nonce: "reply_conn down clt c s = Some (c', s') \<Longrightarrow> nonce s' = nonce s"
  by (auto simp: reply_conn_def split: if_splits option.splits)

lemma add_reply_nonce [simp]: "nonce (add_reply clt x b sz s) = nonce s"
  by (simp add: add_reply_def)

lemma dispatch_nonce:
  assumes "dispatch down born b c sv = Ret sv'"
  shows "nonce sv' = nonce sv"
proof -
  obtain h req where u: "unpack_req_header (unmarshall_of b) = (h, req)" by (metis prod.exhaust)
  have run: "nonce t = nonce s" if "dispatch_new down h f req c s = Ret t" for f s t
    using that by (auto simp: dispatch_new_def Let_def reply_conn_nonce split: prod.splits if_splits option.splits)
  let ?s2 = "save_conn born (rq_clt_nonce h) c (sv\<lparr>reply_window := touch [] (rq_clt_nonce h) (reply_window sv)\<rparr>)"
  obtain st s3 where ck: "checkduplicate_and_update (rq_clt_nonce h) (word_of_int (rq_xid h)) (word_of_int (rq_xid_rep h)) ?s2
      = (st, s3)" by (metis prod.exhaust)
  have "nonce (snd (st, s3)) = nonce sv" unfolding ck [symmetric] by simp
  then have n3: "nonce s3 = nonce sv" by simp
  show ?thesis
    using assms u ck n3 run by (cases st) (auto simp: dispatch_def split: if_splits option.splits)
qed

lemma refs_ok_step:
  assumes "server_step born l s t" and "refs_ok n s"
  shows "refs_ok n t"
  using assms(1)
proof cases
  case (enqueue c b w p)
  then show ?thesis using assms(2) by (auto simp: refs_ok_def rpcs_got_pdu_def)
next
  case (reject c b w p)
  then show ?thesis using assms(2) by (auto simp: refs_ok_def rpcs_got_pdu_def)
next
  case (run i c b down sv)
  then show ?thesis
    using assms(2) dispatch_job [OF run(4)] dispatch_nonce [OF run(4)] by (auto simp: refs_ok_def)
next
  case freed
  then show ?thesis using assms(2) by (auto simp: refs_ok_def free_reply_window_def)
qed (use assms(2) in \<open>simp_all add: refs_ok_def\<close>)

lemma refs_ok_runs: "server_runs born l s0 s \<Longrightarrow> refs_ok n s0 \<Longrightarrow> refs_ok n s"
  by (induction rule: server_runs.induct) (auto intro: refs_ok_step)

lemma refs_ok_new:
  assumes "server_new e sv = Ret s" and "conns sv = Map.empty" "refs sv = (\<lambda>_. 0)"
  shows "refs_ok (nonce sv) s"
  using assms by (auto simp: server_new_def tcpsconn_new_def refs_ok_def owned_def holders_def pool_sys_init_def split: if_splits)

section \<open>The destructor\<close>

lemma pool_drained:
  assumes "life_ok s" and "\<forall>i<dispatch_threads. workers (disp s) i = Exited"
  shows "mset (finished (disp s)) = mset (accepted (disp s))" "pool_queue (disp s) = []"
    "pills (disp s) = dispatch_threads"
proof -
  have "in_work dispatch_threads (disp s) = {#}" using assms(2) by (simp add: in_work_def)
  moreover have "Thr_Pool.gone dispatch_threads (disp s) = dispatch_threads" using assms(2) by (simp only: gone_all)
  ultimately show "mset (finished (disp s)) = mset (accepted (disp s))" "pool_queue (disp s) = []"
    "pills (disp s) = dispatch_threads"
    using assms(1) by (auto simp: life_ok_def pool_inv_def dispatch_threads_def)
qed

text \<open>
  The destructor returns, if the requests that are still to be run do: \<open>fine\<close> is what their handlers
  rely on.
\<close>

lemma pool_step_served:
  assumes ok: "life_ok s" "stage s = Listener_gone" and p: "pool_step dispatch_threads (disp s) d"
    and run: "\<And>c b sv. (c, b) \<in> set (accepted (disp s)) \<Longrightarrow> fine sv \<Longrightarrow>
      \<exists>sv'. dispatch (\<lambda>_. False) born b c sv = Ret sv' \<and> fine sv'" and f: "fine (obj s)"
  shows "\<exists>t. server_step born l s t \<and> disp t = d \<and> stage t = Listener_gone \<and> fine (obj t) \<and>
    accepted (disp t) = accepted (disp s)"
proof -
  have same: ?thesis if "server_step born l s t" "disp t = d" "stage t = Listener_gone" "fine (obj t)"
    "accepted (disp t) = accepted (disp s)" for t using that by blast
  from p show ?thesis
  proof cases
    case (add j p)
    then show ?thesis using ok by (simp add: life_ok_def)
  next
    case (take_job i j p)
    show ?thesis by (rule same [OF server_step.fetch [OF take_job(2-4)]]) (use take_job(1) ok(2) f in simp_all)
  next
    case (finish i j)
    have "j \<in># in_work dispatch_threads (disp s)"
      using finish(2,3) sum.remove [of "{..<dispatch_threads}" i "\<lambda>i. busy (workers (disp s) i)"]
      by (simp add: in_work_def)
    moreover obtain jobs where "mset (accepted (disp s)) = mset (finished (disp s)) + mset jobs + in_work dispatch_threads (disp s)"
      using ok(1) unfolding life_ok_def pool_inv_def by blast
    ultimately have "j \<in># mset (accepted (disp s))" by simp
    moreover obtain c b where j: "j = (c, b)" by fastforce
    ultimately obtain sv' where d: "dispatch (\<lambda>_. False) born b c (obj s) = Ret sv'" "fine sv'" using run [OF _ f] by auto
    show ?thesis
      by (rule same [OF server_step.run [OF finish(2) finish(3) [unfolded j] d(1)]]) (use finish(1) j ok(2) d(2) in simp_all)
  next
    case (leave i x p)
    show ?thesis by (rule same [OF server_step.exit [OF leave(2-4)]]) (use leave(1) ok(2) f in simp_all)
  next
    case close
    then show ?thesis using ok by (simp add: life_ok_def)
  next
    case (pill p)
    show ?thesis by (rule same [OF server_step.poison [OF ok(2) pill(3,4)]]) (use pill(1) ok(2) f in simp_all)
  qed
qed

lemma destructor_returns:
  assumes "life_ok s" "stage s = Listener_gone" "server_runs born l s0 s" "fine (obj s)"
    and "\<And>c b sv. (c, b) \<in> set (accepted (disp s)) \<Longrightarrow> fine sv \<Longrightarrow>
      \<exists>sv'. dispatch (\<lambda>_. False) born b c sv = Ret sv' \<and> fine sv'"
  shows "\<exists>t. server_runs born l s0 t \<and> stage t = Gone \<and> accepted (disp t) = accepted (disp s)"
  using assms
proof (induction "pool_work dispatch_threads (disp s)" arbitrary: s rule: less_induct)
  case less
  show ?case
  proof (cases "\<forall>i<dispatch_threads. workers (disp s) i = Exited")
    case True
    from server_next [OF less.prems(3) freed [OF less.prems(2) pool_drained(3) [OF less.prems(1) True] True]]
    show ?thesis by (intro exI [of _ "s\<lparr>obj := free_reply_window (obj s), stage := Gone\<rparr>"]) simp
  next
    case False
    then obtain i where i: "i < dispatch_threads" "workers (disp s) i \<noteq> Exited" by blast
    have c: "closing (disp s)" "pool_inv dispatch_threads (disp s)" using less.prems(1,2) by (simp_all add: life_ok_def)
    obtain d where d: "pool_step dispatch_threads (disp s) d" by (rule closing_progress [OF c(2,1) i])
    obtain t where t: "server_step born l s t" "disp t = d" "stage t = Listener_gone" "fine (obj t)"
      "accepted (disp t) = accepted (disp s)"
      using pool_step_served [OF less.prems(1,2) d less.prems(5,4)] by blast
    have "pool_work dispatch_threads (disp t) < pool_work dispatch_threads (disp s)"
      using closing_step [OF d c(1)] t(2) by simp
    from less.hyps [OF this life_ok_step [OF t(1) less.prems(1)] t(3) server_next [OF less.prems(3) t(1)] t(4)] less.prems(5) t(5)
    show ?thesis by simp
  qed
qed

text \<open>
  C33: destroying a server.  Once the listener is gone no message is accepted any more.  When the
  destructor returns, every message that was ever accepted has been dispatched exactly once, the
  table of replies is freed and no thread touches the object again.  The references to connections
  that are left are exactly those of the table of the clients' newest connections, which the
  destructor does not give back, and one for each request that was answered as belonging to another
  server instance.
\<close>

theorem server_destroyed:
  assumes "server_new e sv = Ret s0" and "conns sv = Map.empty" "refs sv = (\<lambda>_. 0)"
    and "server_runs born l s0 s"
  shows "if stage s = Gone
    then mset (finished (disp s)) = mset (accepted (disp s)) \<and> reply_window (obj s) = Map.empty \<and>
      (\<forall>t. \<not> server_step born l s t) \<and>
      (\<forall>c. refs (obj s) c = int (card {clt. conns (obj s) clt = Some c})
          + jobs_on c (filter (stale_job (nonce sv)) (finished (disp s))))
    else if stage s = Listener_gone then \<forall>t. server_step born l s t \<longrightarrow> accepted (disp t) = accepted (disp s)
    else \<not> closing (disp s)"
proof -
  have ok: "life_ok s" using life_ok_runs [OF assms(4) life_ok_new [OF assms(1)]] .
  have r: "refs_ok (nonce sv) s" using refs_ok_runs [OF assms(4) refs_ok_new [OF assms(1-3)]] .
  show ?thesis
  proof (cases "stage s = Gone")
    case True
    then have x: "\<forall>i<dispatch_threads. workers (disp s) i = Exited" "reply_window (obj s) = Map.empty"
      using ok by (auto simp: life_ok_def)
    have "refs (obj s) c = int (card {clt. conns (obj s) clt = Some c})
        + jobs_on c (filter (stale_job (nonce sv)) (finished (disp s)))" for c
    proof -
      have "owned (obj s) c = jobs_on c (filter (stale_job (nonce sv)) (finished (disp s)))"
        using r jobs_on_mset [OF pool_drained(1) [OF ok x(1)], of c] by (simp add: refs_ok_def)
      then show ?thesis by (simp add: owned_def holders_def)
    qed
    then show ?thesis using True x(2) pool_drained(1) [OF ok x(1)] gone_still [OF ok True] by simp
  next
    case False
    have "accepted (disp t) = accepted (disp s)" if "stage s = Listener_gone" "server_step born l s t" for t
      using that(2,1) by cases simp_all
    then show ?thesis using False ok by (auto simp: life_ok_def)
  qed
qed

text \<open>A server that accepts a message too short for a header and is destroyed before it is dispatched.\<close>

definition demo_obs_listen :: listen_obs where
  "demo_obs_listen = \<lparr>socket_ret = 3, bind_ret = 0, listen_ret = 0, pipe_ret = 0, thread_started = True\<rparr>"

theorem server_destroyed_witness:
  "\<exists>s0 s. server_new demo_obs_listen demo_rpcs = Ret s0 \<and> server_runs (\<lambda>_. (0, 0)) 0 s0 s \<and> stage s = Gone \<and>
     accepted (disp s) = [(3, [])] \<and> mset (finished (disp s)) = {#(3, [])#} \<and> reply_window (obj s) = Map.empty"
proof -
  let ?born = "\<lambda>_ :: conn. (0 :: int, 0 :: int)"
  obtain s0 where s0: "server_new demo_obs_listen demo_rpcs = Ret s0" "s0 = \<lparr>obj = demo_rpcs, conn_table = [], accepting = True,
       disp = pool_sys_init dispatch_threads False, stage = Serving\<rparr>"
    by (simp add: server_new_def tcpsconn_new_def demo_obs_listen_def)
  obtain p where p: "addObjJob (3, []) (pool (disp s0)) = Ret (True, False, p)"
    by (simp add: s0(2) addObjJob_def addJob_def pool_sys_init_def thrpool_new_def fifo_new_def fifo_enq_def fifo_space_def
        dispatch_threads_def)
  let ?s1 = "s0\<lparr>obj := snd (rpcs_got_pdu True True True 3 (obj s0)),
       disp := (disp s0)\<lparr>pool := p, accepted := accepted (disp s0) @ [(3, [])]\<rparr>\<rparr>"
  let ?s2 = "?s1\<lparr>stage := Pipe_closed\<rparr>" and ?s3 = "?s1\<lparr>stage := Pipe_closed, accepting := False, conn_table := []\<rparr>"
  let ?s4 = "?s3\<lparr>conn_table := [], disp := (disp ?s3)\<lparr>closing := True\<rparr>, stage := Listener_gone\<rparr>"
  have st: "stage s0 = Serving" "accepting s0" "conn_table s0 = []" by (simp_all add: s0(2))
  have "server_step ?born 0 s0 ?s1" by (rule enqueue [OF _ p]) (simp add: st)
  moreover have "server_step ?born 0 ?s1 ?s2" by (rule close_pipe) (simp add: st)
  moreover have "server_step ?born 0 ?s2 (?s2\<lparr>accepting := False, conn_table := []\<rparr>)"
    by (rule accept [of _ Pipe_ready]) (simp_all add: st)
  then have "server_step ?born 0 ?s2 ?s3" by simp
  moreover have "server_step ?born 0 ?s3 ?s4" by (rule joined) simp_all
  ultimately have r: "server_runs ?born 0 s0 ?s4" by (meson server_start server_next)
  have ok: "life_ok ?s4" using life_ok_runs [OF r life_ok_new [OF s0(1)]] .
  have a: "accepted (disp ?s4) = [(3, [])]" by (simp add: s0(2) pool_sys_init_def)
  have u: "\<not> uok (snd (unpack_req_header (unmarshall_of [])))" by code_simp
  have d: "\<exists>sv'. dispatch (\<lambda>_. False) ?born b c sv = Ret sv' \<and> True" if "(c, b) \<in> set (accepted (disp ?s4))" for c b sv
    using that u unfolding a by (simp add: dispatch_def split_beta)
  obtain t where t: "server_runs ?born 0 s0 t" "stage t = Gone" "accepted (disp t) = [(3, [])]"
    using destructor_returns [where fine = "\<lambda>_. True", OF ok _ r _ d] a by auto
  have "conns demo_rpcs = Map.empty" "refs demo_rpcs = (\<lambda>_. 0)" by (simp_all add: demo_rpcs_def)
  from server_destroyed [OF s0(1) this t(1)] t s0(1) show ?thesis by auto
qed

end
