(* ===== verification/Poll_Mgr.thy ===== *)
theory Poll_Mgr
  imports Prelude
begin

text \<open>
  The poll manager of \<open>rpc/pollmgr.h\<close> and \<open>rpc/pollmgr.cc\<close>: the two implementations of \<open>aio_mgr\<close>,
  \<open>SelectAIO\<close> and \<open>EPollAIO\<close>, the table of callbacks, and the loop of the polling thread with the
  handshake of \<open>block_remove_fd\<close>.  What \<open>select\<close> and \<open>epoll_wait\<close> report is an argument; \<open>epoll_ctl\<close>
  keeps the kernel's interest list as its manual page says, and its errors that do not depend on
  that list are an argument.
\<close>

section \<open>Flags\<close>

datatype poll_flag = CB_NONE | CB_RDONLY | CB_WRONLY | CB_RDWR | CB_MASK

fun flag_code :: "poll_flag \<Rightarrow> uint" where
  "flag_code CB_NONE = 0"
| "flag_code CB_RDONLY = 0x1"
| "flag_code CB_WRONLY = 0x10"
| "flag_code CB_RDWR = 0x11"
| "flag_code CB_MASK = NOT 0x11"

definition max_poll_fds :: nat where
  "max_poll_fds = 128"

section \<open>SelectAIO\<close>

text \<open>\<open>pipe0\<close> is the reading end of the pipe that interrupts \<open>select\<close>, with \<open>pipe_bytes\<close> in it.\<close>

record select_aio =
  rfds :: "nat set"
  wfds :: "nat set"
  highfds :: nat
  pipe0 :: nat
  pipe_bytes :: nat

definition select_new :: "nat \<Rightarrow> select_aio" where
  "select_new p = \<lparr>rfds = {p}, wfds = {}, highfds = p, pipe0 = p, pipe_bytes = 0\<rparr>"

definition select_watch :: "nat \<Rightarrow> poll_flag \<Rightarrow> select_aio \<Rightarrow> select_aio" where
  "select_watch fd flag a =
     (let a1 = (if highfds a \<le> fd then a\<lparr>highfds := fd\<rparr> else a);
          a2 = (if flag = CB_RDONLY then a1\<lparr>rfds := insert fd (rfds a1)\<rparr>
                else if flag = CB_WRONLY then a1\<lparr>wfds := insert fd (wfds a1)\<rparr>
                else a1\<lparr>rfds := insert fd (rfds a1), wfds := insert fd (wfds a1)\<rparr>)
      in a2\<lparr>pipe_bytes := pipe_bytes a2 + 1\<rparr>)"

definition select_is_watched :: "nat \<Rightarrow> poll_flag \<Rightarrow> select_aio \<Rightarrow> bool" where
  "select_is_watched fd flag a =
     (if flag = CB_RDONLY then fd \<in> rfds a
      else if flag = CB_WRONLY then fd \<in> wfds a
      else fd \<in> rfds a \<and> fd \<in> wfds a)"

text \<open>The loop that finds the highest descriptor still watched.\<close>

definition select_newh :: "nat set \<Rightarrow> nat set \<Rightarrow> nat \<Rightarrow> nat \<Rightarrow> nat" where
  "select_newh r w high pipe =
     fold (\<lambda>i newh. if i \<in> r then i else if i \<in> w then i else newh) [0..<Suc high] pipe"

definition select_unwatch :: "nat \<Rightarrow> poll_flag \<Rightarrow> select_aio \<Rightarrow> (bool \<times> select_aio) outcome" where
  "select_unwatch fd flag a =
     (if flag = CB_NONE \<or> flag = CB_MASK then Aborted
      else
        let a1 = (if flag = CB_RDONLY then a\<lparr>rfds := rfds a - {fd}\<rparr>
                  else if flag = CB_WRONLY then a\<lparr>wfds := wfds a - {fd}\<rparr>
                  else a\<lparr>wfds := wfds a - {fd}, rfds := rfds a - {fd}\<rparr>);
            off = (fd \<notin> rfds a1 \<and> fd \<notin> wfds a1);
            a2 = (if off \<and> fd = highfds a1 then a1\<lparr>highfds := select_newh (rfds a1) (wfds a1) (highfds a1) (pipe0 a1)\<rparr> else a1);
            a3 = (if flag = CB_RDWR then a2\<lparr>pipe_bytes := pipe_bytes a2 + 1\<rparr> else a2)
        in Ret (off, a3))"

text \<open>
  \<open>wait_ready\<close> after \<open>select\<close> has returned with the sets \<open>r\<close> and \<open>w\<close> out of the copies it was given.
\<close>

definition select_ready ::
  "nat \<Rightarrow> nat set \<Rightarrow> nat set \<Rightarrow> select_aio \<Rightarrow> (nat list \<times> nat list \<times> select_aio) outcome" where
  "select_ready high r w a =
     (if pipe0 a \<in> r \<and> pipe0 a \<le> high \<and> pipe_bytes a = 0 then Aborted
      else
        let fds = filter (\<lambda>fd. \<not> (fd = pipe0 a \<and> fd \<in> r)) [0..<Suc high]
        in Ret (filter (\<lambda>fd. fd \<in> r) fds, filter (\<lambda>fd. fd \<in> w) fds,
             if pipe0 a \<in> r \<and> pipe0 a \<le> high then a\<lparr>pipe_bytes := pipe_bytes a - 1\<rparr> else a))"

section \<open>EPollAIO\<close>

text \<open>\<open>interest\<close> is the kernel's list of descriptors behind \<open>pollfd_\<close>.\<close>

record epoll_aio =
  fdstatus :: "nat \<Rightarrow> uint"
  interest :: "nat set"

definition epoll_new :: epoll_aio where
  "epoll_new = \<lparr>fdstatus = (\<lambda>_. 0), interest = {}\<rparr>"

definition epollin :: uint where "epollin = 0x1"

definition epollout :: uint where "epollout = 0x4"

definition epollet :: uint where "epollet = 0x80000000"

datatype epoll_op = Epoll_add | Epoll_mod | Epoll_del

definition epoll_events :: "uint \<Rightarrow> uint" where
  "epoll_events st =
     epollet OR (if st AND flag_code CB_RDONLY \<noteq> 0 then epollin else 0)
       OR (if st AND flag_code CB_WRONLY \<noteq> 0 then epollout else 0)"

text \<open>
  \<open>epoll_ctl\<close>, \<open>None\<close> when it does not return 0: adding a descriptor that is registered fails with
  \<open>EEXIST\<close>, changing or deleting one that is not fails with \<open>ENOENT\<close>.  \<open>fails\<close> says which calls
  fail for another reason (a descriptor that is not open or cannot be polled, no memory).
\<close>

type_synonym epoll_errors = "epoll_op \<Rightarrow> nat \<Rightarrow> bool"

fun epoll_ctl :: "epoll_errors \<Rightarrow> epoll_op \<Rightarrow> nat \<Rightarrow> nat set \<Rightarrow> nat set option" where
  "epoll_ctl fails Epoll_add fd I = (if fails Epoll_add fd \<or> fd \<in> I then None else Some (insert fd I))"
| "epoll_ctl fails Epoll_mod fd I = (if fails Epoll_mod fd \<or> fd \<notin> I then None else Some I)"
| "epoll_ctl fails Epoll_del fd I = (if fails Epoll_del fd \<or> fd \<notin> I then None else Some (I - {fd}))"

definition epoll_watch :: "epoll_errors \<Rightarrow> nat \<Rightarrow> poll_flag \<Rightarrow> epoll_aio \<Rightarrow> epoll_aio outcome" where
  "epoll_watch fails fd flag a =
     (if max_poll_fds \<le> fd then Aborted
      else
        let op = (if fdstatus a fd \<noteq> 0 then Epoll_mod else Epoll_add);
            st = fdstatus a fd OR flag_code flag
        in if flag = CB_RDWR \<and> epoll_events st \<noteq> epollet OR epollin OR epollout then Aborted
           else case epoll_ctl fails op fd (interest a) of
             None \<Rightarrow> Aborted
           | Some I \<Rightarrow> Ret (a\<lparr>fdstatus := (fdstatus a)(fd := st), interest := I\<rparr>))"

definition epoll_unwatch :: "epoll_errors \<Rightarrow> nat \<Rightarrow> poll_flag \<Rightarrow> epoll_aio \<Rightarrow> (bool \<times> epoll_aio) outcome" where
  "epoll_unwatch fails fd flag a =
     (if max_poll_fds \<le> fd then Aborted
      else
        let st = fdstatus a fd AND NOT (flag_code flag);
            op = (if st \<noteq> 0 then Epoll_mod else Epoll_del)
        in if flag = CB_RDWR \<and> op \<noteq> Epoll_del then Aborted
           else case epoll_ctl fails op fd (interest a) of
             None \<Rightarrow> Aborted
           | Some I \<Rightarrow> Ret (op = Epoll_del, a\<lparr>fdstatus := (fdstatus a)(fd := st), interest := I\<rparr>))"

definition epoll_is_watched :: "nat \<Rightarrow> poll_flag \<Rightarrow> epoll_aio \<Rightarrow> bool outcome" where
  "epoll_is_watched fd flag a =
     (if max_poll_fds \<le> fd then Aborted
      else Ret (fdstatus a fd AND flag_code CB_MASK = flag_code flag))"

definition epoll_ready :: "(nat \<times> uint) list \<Rightarrow> nat list \<times> nat list" where
  "epoll_ready evs =
     (map fst (filter (\<lambda>(fd, e). e AND epollin \<noteq> 0) evs), map fst (filter (\<lambda>(fd, e). e AND epollout \<noteq> 0) evs))"

section \<open>What an aio manager promises\<close>

definition real_flag :: "poll_flag \<Rightarrow> bool" where
  "real_flag flag \<longleftrightarrow> flag = CB_RDONLY \<or> flag = CB_WRONLY \<or> flag = CB_RDWR"

definition wants_read :: "poll_flag \<Rightarrow> bool" where
  "wants_read flag \<longleftrightarrow> flag = CB_RDONLY \<or> flag = CB_RDWR"

definition wants_write :: "poll_flag \<Rightarrow> bool" where
  "wants_write flag \<longleftrightarrow> flag = CB_WRONLY \<or> flag = CB_RDWR"

lemmas flag_defs = real_flag_def wants_read_def wants_write_def

datatype aio_op = Watch nat poll_flag | Unwatch nat poll_flag

fun op_fd :: "aio_op \<Rightarrow> nat" where
  "op_fd (Watch fd flag) = fd"
| "op_fd (Unwatch fd flag) = fd"

fun op_flag :: "aio_op \<Rightarrow> poll_flag" where
  "op_flag (Watch fd flag) = flag"
| "op_flag (Unwatch fd flag) = flag"

text \<open>A sequence of calls on a manager, with the answers of \<open>unwatch_fd\<close>.\<close>

fun aio_run ::
  "(nat \<Rightarrow> poll_flag \<Rightarrow> 'a \<Rightarrow> 'a outcome) \<Rightarrow> (nat \<Rightarrow> poll_flag \<Rightarrow> 'a \<Rightarrow> (bool \<times> 'a) outcome) \<Rightarrow>
   aio_op list \<Rightarrow> 'a \<Rightarrow> (bool list \<times> 'a) outcome" where
  "aio_run watch unwatch [] a = Ret ([], a)"
| "aio_run watch unwatch (Watch fd flag # ops) a =
     (case watch fd flag a of Ret b \<Rightarrow> aio_run watch unwatch ops b | _ \<Rightarrow> Aborted)"
| "aio_run watch unwatch (Unwatch fd flag # ops) a =
     (case unwatch fd flag a of
        Ret (r, b) \<Rightarrow> (case aio_run watch unwatch ops b of Ret (rs, c) \<Rightarrow> Ret (r # rs, c) | _ \<Rightarrow> Aborted)
      | _ \<Rightarrow> Aborted)"

text \<open>The specification: which descriptors are watched for reading and which for writing.\<close>

type_synonym watching = "(nat \<Rightarrow> bool) \<times> (nat \<Rightarrow> bool)"

fun watch_spec :: "nat \<Rightarrow> poll_flag \<Rightarrow> watching \<Rightarrow> watching" where
  "watch_spec fd flag (r, w) = (r(fd := r fd \<or> wants_read flag), w(fd := w fd \<or> wants_write flag))"

fun unwatch_spec :: "nat \<Rightarrow> poll_flag \<Rightarrow> watching \<Rightarrow> bool \<times> watching" where
  "unwatch_spec fd flag (r, w) =
     (let r1 = r(fd := r fd \<and> \<not> wants_read flag); w1 = w(fd := w fd \<and> \<not> wants_write flag)
      in (\<not> r1 fd \<and> \<not> w1 fd, (r1, w1)))"

fun spec_run :: "aio_op list \<Rightarrow> watching \<Rightarrow> bool list \<times> watching" where
  "spec_run [] x = ([], x)"
| "spec_run (Watch fd flag # ops) x = spec_run ops (watch_spec fd flag x)"
| "spec_run (Unwatch fd flag # ops) x =
     (let (r, y) = unwatch_spec fd flag x; (rs, z) = spec_run ops y in (r # rs, z))"

text \<open>Whether a descriptor is watched for anything, and runs that unwatch watched descriptors only.\<close>

definition watched :: "watching \<Rightarrow> nat \<Rightarrow> bool" where
  "watched x fd \<longleftrightarrow> fst x fd \<or> snd x fd"

fun unwatches_watched :: "aio_op list \<Rightarrow> watching \<Rightarrow> bool" where
  "unwatches_watched [] x = True"
| "unwatches_watched (Watch fd flag # ops) x = unwatches_watched ops (watch_spec fd flag x)"
| "unwatches_watched (Unwatch fd flag # ops) x =
     (watched x fd \<and> unwatches_watched ops (snd (unwatch_spec fd flag x)))"

locale aio_mgr =
  fixes watch :: "nat \<Rightarrow> poll_flag \<Rightarrow> 'a \<Rightarrow> 'a outcome"
    and unwatch :: "nat \<Rightarrow> poll_flag \<Rightarrow> 'a \<Rightarrow> (bool \<times> 'a) outcome"
    and watching :: "'a \<Rightarrow> watching"
    and good :: "'a \<Rightarrow> bool"
    and usable :: "nat \<Rightarrow> bool"
  assumes watch_law: "good a \<Longrightarrow> usable fd \<Longrightarrow> real_flag flag \<Longrightarrow>
      \<exists>b. watch fd flag a = Ret b \<and> good b \<and> watching b = watch_spec fd flag (watching a)"
    and unwatch_law: "good a \<Longrightarrow> usable fd \<Longrightarrow> real_flag flag \<Longrightarrow> watched (watching a) fd \<Longrightarrow>
      \<exists>r b. unwatch fd flag a = Ret (r, b) \<and> good b \<and> (r, watching b) = unwatch_spec fd flag (watching a)"
begin

lemma run_refines:
  assumes "good a" and "\<forall>p \<in> set ops. usable (op_fd p) \<and> real_flag (op_flag p)"
    and "unwatches_watched ops (watching a)"
  shows "\<exists>rs b. aio_run watch unwatch ops a = Ret (rs, b) \<and> good b \<and>
    spec_run ops (watching a) = (rs, watching b)"
  using assms
proof (induction ops arbitrary: a)
  case (Cons p ops)
  show ?case
  proof (cases p)
    case (Watch fd flag)
    then obtain b where b: "watch fd flag a = Ret b" "good b" "watching b = watch_spec fd flag (watching a)"
      using watch_law [OF Cons.prems(1), of fd flag] Cons.prems(2) by auto
    from Cons.IH [OF b(2)] Cons.prems(2,3) show ?thesis using Watch b by auto
  next
    case (Unwatch fd flag)
    then obtain r b where b: "unwatch fd flag a = Ret (r, b)" "good b"
        "unwatch_spec fd flag (watching a) = (r, watching b)"
      using unwatch_law [OF Cons.prems(1), of fd flag] Cons.prems(2,3) by auto
    from Cons.IH [OF b(2)] Cons.prems(2,3) show ?thesis using Unwatch b by auto
  qed
qed simp

end

section \<open>Both managers keep the promise\<close>

lemma newh_bounds:
  assumes "i \<le> high" and "i \<in> R \<union> W"
  shows "i \<le> select_newh R W high p"
proof -
  have "i \<le> fold (\<lambda>i h. if i \<in> R then i else if i \<in> W then i else h) [0..<n] p" if "i < n" for n
    using assms(2) that by (induction n) (auto simp: less_Suc_eq)
  from this [of "Suc high"] assms(1) show ?thesis by (simp add: select_newh_def del: upt_Suc)
qed

definition select_ok :: "nat \<Rightarrow> select_aio \<Rightarrow> bool" where
  "select_ok p a \<longleftrightarrow> pipe0 a = p \<and> p \<in> rfds a \<and> (\<forall>fd \<in> rfds a \<union> wfds a. fd \<le> highfds a)"

definition select_watching :: "select_aio \<Rightarrow> watching" where
  "select_watching a = ((\<lambda>fd. fd \<in> rfds a \<and> fd \<noteq> pipe0 a), (\<lambda>fd. fd \<in> wfds a))"

lemma select_watch_ok:
  assumes "select_ok p a" and "fd \<noteq> p" and "real_flag flag"
  shows "select_ok p (select_watch fd flag a) \<and>
    select_watching (select_watch fd flag a) = watch_spec fd flag (select_watching a)"
  using assms
  by (auto simp: select_ok_def select_watch_def select_watching_def flag_defs Let_def fun_eq_iff
      intro: order_trans [of _ "highfds a"])

lemma select_unwatch_ok:
  assumes ok: "select_ok p a" and "fd \<noteq> p" and "real_flag flag"
  shows "\<exists>r b. select_unwatch fd flag a = Ret (r, b) \<and> select_ok p b \<and>
    (r, select_watching b) = unwatch_spec fd flag (select_watching a)"
proof -
  define R where "R = (if wants_read flag then rfds a - {fd} else rfds a)"
  define W where "W = (if wants_write flag then wfds a - {fd} else wfds a)"
  let ?h = "select_newh R W (highfds a) p"
  let ?off = "fd \<notin> R \<and> fd \<notin> W"
  let ?b = "a\<lparr>rfds := R, wfds := W, highfds := (if ?off \<and> fd = highfds a then ?h else highfds a),
    pipe_bytes := pipe_bytes a + (if flag = CB_RDWR then 1 else 0)\<rparr>"
  have p: "pipe0 a = p" "p \<in> rfds a" using ok by (simp_all add: select_ok_def)
  have "select_unwatch fd flag a = Ret (?off, ?b)"
    using assms(3) p
    by (cases a; cases flag) (auto simp: select_unwatch_def flag_defs R_def W_def Let_def)
  moreover have "i \<le> highfds a" if "i \<in> R \<union> W" for i
    using ok that by (auto simp: select_ok_def R_def W_def split: if_splits)
  moreover from this have "select_ok p ?b"
  proof -
    have "p \<in> R" using p(2) assms(2) by (simp add: R_def)
    then show ?thesis
      using p(1) \<open>\<And>i. i \<in> R \<union> W \<Longrightarrow> i \<le> highfds a\<close> newh_bounds [of _ "highfds a" R W p]
      by (auto simp: select_ok_def)
  qed
  moreover have "(?off, select_watching ?b) = unwatch_spec fd flag (select_watching a)"
    using assms(2) p by (auto simp: select_watching_def R_def W_def fun_eq_iff)
  ultimately show ?thesis by blast
qed

interpretation sel: aio_mgr "\<lambda>fd flag a. Ret (select_watch fd flag a)" select_unwatch select_watching
  "select_ok p" "\<lambda>fd. fd < max_poll_fds \<and> fd \<noteq> p" for p
  using select_watch_ok select_unwatch_ok by unfold_locales auto

definition epoll_ok :: "epoll_aio \<Rightarrow> bool" where
  "epoll_ok a \<longleftrightarrow> (\<forall>fd. fdstatus a fd \<in> {0, 0x1, 0x10, 0x11} \<and> (fd \<in> interest a \<longleftrightarrow> fdstatus a fd \<noteq> 0))"

definition epoll_watching :: "epoll_aio \<Rightarrow> watching" where
  "epoll_watching a = ((\<lambda>fd. fdstatus a fd AND 0x1 \<noteq> 0), (\<lambda>fd. fdstatus a fd AND 0x10 \<noteq> 0))"

text \<open>All values the status of a descriptor takes, by computation.\<close>

lemma status_watch:
  assumes "st \<in> {0, 0x1, 0x10, 0x11 :: uint}" and "real_flag flag"
  shows "st OR flag_code flag \<in> {0, 0x1, 0x10, 0x11}" "st OR flag_code flag \<noteq> 0"
    "(st OR flag_code flag) AND 0x1 \<noteq> 0 \<longleftrightarrow> st AND 0x1 \<noteq> 0 \<or> wants_read flag"
    "(st OR flag_code flag) AND 0x10 \<noteq> 0 \<longleftrightarrow> st AND 0x10 \<noteq> 0 \<or> wants_write flag"
    "flag = CB_RDWR \<longrightarrow> epoll_events (st OR flag_code flag) = epollet OR epollin OR epollout"
  using assms by (auto simp: flag_defs epoll_events_def epollet_def epollin_def epollout_def)

lemma status_unwatch:
  assumes "st \<in> {0, 0x1, 0x10, 0x11 :: uint}" and "real_flag flag"
  shows "st AND NOT (flag_code flag) \<in> {0, 0x1, 0x10, 0x11}"
    "(st AND NOT (flag_code flag)) AND 0x1 \<noteq> 0 \<longleftrightarrow> st AND 0x1 \<noteq> 0 \<and> \<not> wants_read flag"
    "(st AND NOT (flag_code flag)) AND 0x10 \<noteq> 0 \<longleftrightarrow> st AND 0x10 \<noteq> 0 \<and> \<not> wants_write flag"
    "st AND NOT (flag_code flag) = 0 \<longleftrightarrow> \<not> (st AND 0x1 \<noteq> 0 \<and> \<not> wants_read flag) \<and>
       \<not> (st AND 0x10 \<noteq> 0 \<and> \<not> wants_write flag)"
    "flag = CB_RDWR \<longrightarrow> st AND NOT (flag_code flag) = 0"
  using assms by (auto simp: flag_defs)

lemma epoll_watch_ok:
  assumes "epoll_ok a" and "fd < max_poll_fds" and "real_flag flag" and "\<And>op. \<not> fails op fd"
  shows "\<exists>b. epoll_watch fails fd flag a = Ret b \<and> epoll_ok b \<and>
    epoll_watching b = watch_spec fd flag (epoll_watching a)"
proof -
  have st: "fdstatus a fd \<in> {0, 0x1, 0x10, 0x11}" "fd \<in> interest a \<longleftrightarrow> fdstatus a fd \<noteq> 0"
    using assms(1) by (auto simp: epoll_ok_def)
  let ?b = "a\<lparr>fdstatus := (fdstatus a)(fd := fdstatus a fd OR flag_code flag), interest := insert fd (interest a)\<rparr>"
  have "epoll_watch fails fd flag a = Ret ?b"
    using assms(2,4) st(2) status_watch(5) [OF st(1) assms(3)] by (auto simp: epoll_watch_def Let_def insert_absorb)
  moreover have "epoll_ok ?b"
    using assms(1) status_watch(1,2) [OF st(1) assms(3)] by (auto simp: epoll_ok_def simp del: or_eq_0_iff)
  moreover have "epoll_watching ?b = watch_spec fd flag (epoll_watching a)"
    using status_watch(3,4) [OF st(1) assms(3)] by (auto simp: epoll_watching_def fun_eq_iff)
  ultimately show ?thesis by blast
qed

lemma epoll_unwatch_ok:
  assumes "epoll_ok a" and "fd < max_poll_fds" and "real_flag flag" and "watched (epoll_watching a) fd"
    and "\<And>op. \<not> fails op fd"
  shows "\<exists>r b. epoll_unwatch fails fd flag a = Ret (r, b) \<and> epoll_ok b \<and>
    (r, epoll_watching b) = unwatch_spec fd flag (epoll_watching a)"
proof -
  have st: "fdstatus a fd \<in> {0, 0x1, 0x10, 0x11}" using assms(1) by (simp add: epoll_ok_def)
  have reg: "fd \<in> interest a" using assms(1,4) by (auto simp: epoll_ok_def watched_def epoll_watching_def)
  let ?st = "fdstatus a fd AND NOT (flag_code flag)"
  let ?b = "a\<lparr>fdstatus := (fdstatus a)(fd := ?st), interest := (if ?st = 0 then interest a - {fd} else interest a)\<rparr>"
  have "epoll_unwatch fails fd flag a = Ret (?st = 0, ?b)"
    using assms(2,5) reg status_unwatch(5) [OF st assms(3)] by (simp add: epoll_unwatch_def Let_def)
  moreover have "epoll_ok ?b"
    using assms(1) status_unwatch(1) [OF st assms(3)] reg by (auto simp: epoll_ok_def)
  moreover have "(?st = 0, epoll_watching ?b) = unwatch_spec fd flag (epoll_watching a)"
    using status_unwatch(2-4) [OF st assms(3)] by (auto simp: epoll_watching_def fun_eq_iff Let_def)
  ultimately show ?thesis by blast
qed

interpretation ep: aio_mgr "epoll_watch fails" "epoll_unwatch fails" epoll_watching
  epoll_ok "\<lambda>fd. fd < max_poll_fds \<and> (\<forall>op. \<not> fails op fd)" for fails
  using epoll_watch_ok [of _ _ _ fails] epoll_unwatch_ok [of _ _ _ fails] by unfold_locales auto

text \<open>On a descriptor that is not watched, \<open>unwatch_fd\<close> of \<open>EPollAIO\<close> deletes what is not registered.\<close>

lemma epoll_unwatch_unwatched:
  assumes "epoll_ok a" and "real_flag flag" and "\<not> watched (epoll_watching a) fd"
  shows "epoll_unwatch fails fd flag a = Aborted"
proof -
  have "fdstatus a fd \<in> {0, 0x1, 0x10, 0x11}" using assms(1) by (simp add: epoll_ok_def)
  then have "fdstatus a fd = 0" using assms(3) by (auto simp: watched_def epoll_watching_def)
  moreover from this have "fd \<notin> interest a" using assms(1) by (simp add: epoll_ok_def)
  ultimately show ?thesis by (simp add: epoll_unwatch_def)
qed

lemma epoll_is_watched_never:
  assumes "epoll_ok a" and "fd < max_poll_fds" and "real_flag flag"
  shows "epoll_is_watched fd flag a = Ret False"
proof -
  have "fdstatus a fd \<in> {0, 0x1, 0x10, 0x11}" using assms(1) by (simp add: epoll_ok_def)
  then show ?thesis using assms(2,3) by (auto simp: epoll_is_watched_def flag_defs)
qed

text \<open>
  C39: where the two implementations of \<open>aio_mgr\<close> agree.  For every sequence of \<open>watch_fd\<close> and
  \<open>unwatch_fd\<close> on descriptors below the limit (other than the pipe of \<open>SelectAIO\<close>) on which \<open>epoll_ctl\<close>
  has no other reason to fail, and that unwatches only descriptors watched at that point, both run
  through without a failed check, give the same answers, and end up watching the same descriptors
  for the same events, which \<open>SelectAIO\<close> then finds below its highest descriptor and \<open>is_watched\<close> of
  \<open>SelectAIO\<close> reports.  They differ in two points: \<open>is_watched\<close> of \<open>EPollAIO\<close> answers no for every
  flag, because its mask is inverted; and unwatching a descriptor that is not watched returns true
  from \<open>SelectAIO\<close> and fails the check of \<open>EPollAIO\<close>, since \<open>epoll_ctl\<close> reports \<open>ENOENT\<close>.
\<close>

theorem aio_managers_agree:
  assumes "\<forall>p \<in> set ops. op_fd p < max_poll_fds \<and> op_fd p \<noteq> pfd \<and> real_flag (op_flag p) \<and> (\<forall>op. \<not> fails op (op_fd p))"
    and "unwatches_watched ops (\<lambda>_. False, \<lambda>_. False)"
  shows "\<exists>rs a e. aio_run (\<lambda>fd flag a. Ret (select_watch fd flag a)) select_unwatch ops (select_new pfd) = Ret (rs, a) \<and>
    aio_run (epoll_watch fails) (epoll_unwatch fails) ops epoll_new = Ret (rs, e) \<and>
    (\<forall>fd flag. fd < max_poll_fds \<and> fd \<noteq> pfd \<and> real_flag flag \<longrightarrow>
      select_is_watched fd flag a =
        ((wants_read flag \<longrightarrow> fdstatus e fd AND 0x1 \<noteq> 0) \<and>
         (wants_write flag \<longrightarrow> fdstatus e fd AND 0x10 \<noteq> 0)) \<and>
      (select_is_watched fd flag a \<longrightarrow> fd \<le> highfds a) \<and>
      epoll_is_watched fd flag e = Ret False \<and>
      (\<not> select_is_watched fd CB_RDONLY a \<and> \<not> select_is_watched fd CB_WRONLY a \<longrightarrow>
        (\<exists>b. select_unwatch fd flag a = Ret (True, b)) \<and> epoll_unwatch fails fd flag e = Aborted))"
proof -
  have init: "select_ok pfd (select_new pfd)" "epoll_ok epoll_new"
    "select_watching (select_new pfd) = (\<lambda>_. False, \<lambda>_. False)" "epoll_watching epoll_new = (\<lambda>_. False, \<lambda>_. False)"
    by (auto simp: select_ok_def select_new_def epoll_ok_def epoll_new_def select_watching_def epoll_watching_def)
  obtain rs a where a: "aio_run (\<lambda>fd flag a. Ret (select_watch fd flag a)) select_unwatch ops (select_new pfd) = Ret (rs, a)"
    "select_ok pfd a" "spec_run ops (\<lambda>_. False, \<lambda>_. False) = (rs, select_watching a)"
    using sel.run_refines [OF init(1), of ops] assms unfolding init(3) by blast
  obtain rs' e where e: "aio_run (epoll_watch fails) (epoll_unwatch fails) ops epoll_new = Ret (rs', e)"
    "epoll_ok e" "spec_run ops (\<lambda>_. False, \<lambda>_. False) = (rs', epoll_watching e)"
    using ep.run_refines [OF init(2), of ops fails] assms unfolding init(4) by blast
  have same: "rs' = rs" "epoll_watching e = select_watching a" using a(3) e(3) by simp_all
  have rd: "(fdstatus e x AND 0x1 \<noteq> 0) = (x \<in> rfds a \<and> x \<noteq> pfd)"
    and wr: "(fdstatus e x AND 0x10 \<noteq> 0) = (x \<in> wfds a)" for x
    using same(2) a(2) unfolding epoll_watching_def select_watching_def select_ok_def prod.inject fun_eq_iff by blast+
  have "select_is_watched fd flag a = ((wants_read flag \<longrightarrow> fdstatus e fd AND 0x1 \<noteq> 0) \<and>
      (wants_write flag \<longrightarrow> fdstatus e fd AND 0x10 \<noteq> 0))" "select_is_watched fd flag a \<longrightarrow> fd \<le> highfds a"
    if "fd \<noteq> pfd" "real_flag flag" for fd flag
    unfolding rd wr using that a(2) by (auto simp: select_is_watched_def select_ok_def flag_defs)
  moreover have "(\<exists>b. select_unwatch fd flag a = Ret (True, b)) \<and> epoll_unwatch fails fd flag e = Aborted"
    if "fd \<noteq> pfd" "real_flag flag" "\<not> select_is_watched fd CB_RDONLY a" "\<not> select_is_watched fd CB_WRONLY a" for fd flag
  proof -
    have n: "fd \<notin> rfds a" "fd \<notin> wfds a" using that(3,4) by (simp_all add: select_is_watched_def)
    then have "\<not> watched (epoll_watching e) fd"
      unfolding watched_def same(2) by (simp add: select_watching_def)
    moreover have "\<exists>b. select_unwatch fd flag a = Ret (True, b)"
      using n that(2) by (auto simp: select_unwatch_def flag_defs Let_def)
    ultimately show ?thesis using epoll_unwatch_unwatched [OF e(2) that(2)] by blast
  qed
  ultimately show ?thesis
    using a(1) e(1) same(1) epoll_is_watched_never [OF e(2)]
    by (intro exI [of _ rs] exI [of _ a] exI [of _ e]) blast
qed

theorem aio_managers_agree_witness:
  "\<exists>rs a e. aio_run (\<lambda>fd flag a. Ret (select_watch fd flag a)) select_unwatch
       [Watch 5 CB_RDONLY, Watch 5 CB_WRONLY, Unwatch 5 CB_RDONLY] (select_new 3) = Ret (rs, a) \<and>
     aio_run (epoll_watch (\<lambda>_ _. False)) (epoll_unwatch (\<lambda>_ _. False))
       [Watch 5 CB_RDONLY, Watch 5 CB_WRONLY, Unwatch 5 CB_RDONLY] epoll_new = Ret (rs, e) \<and>
     epoll_is_watched 5 CB_WRONLY e = Ret False"
proof -
  let ?ops = "[Watch 5 CB_RDONLY, Watch 5 CB_WRONLY, Unwatch 5 CB_RDONLY]"
  have ops: "\<forall>p \<in> set ?ops. op_fd p < max_poll_fds \<and> op_fd p \<noteq> 3 \<and> real_flag (op_flag p) \<and> (\<forall>op. \<not> False)"
    "unwatches_watched ?ops (\<lambda>_. False, \<lambda>_. False)"
    and f: "5 < max_poll_fds" "(5 :: nat) \<noteq> 3" "real_flag CB_WRONLY"
    by (simp_all add: max_poll_fds_def real_flag_def watched_def wants_read_def)
  from aio_managers_agree [where fails = "\<lambda>_ _. False", OF ops] f show ?thesis by blast
qed

section \<open>The manager\<close>

record 'c pollmgr =
  callbacks :: "nat \<Rightarrow> 'c option"
  aio :: select_aio
  pending_change :: bool

definition pollmgr_new :: "nat \<Rightarrow> 'c pollmgr" where
  "pollmgr_new p = \<lparr>callbacks = (\<lambda>_. None), aio = select_new p, pending_change = False\<rparr>"

definition add_callback :: "nat \<Rightarrow> poll_flag \<Rightarrow> 'c \<Rightarrow> 'c pollmgr \<Rightarrow> 'c pollmgr outcome" where
  "add_callback fd flag ch m =
     (if max_poll_fds \<le> fd then Aborted
      else let m1 = m\<lparr>aio := select_watch fd flag (aio m)\<rparr> in
        if callbacks m1 fd \<noteq> None \<and> callbacks m1 fd \<noteq> Some ch then Aborted
        else Ret (m1\<lparr>callbacks := (callbacks m1)(fd \<mapsto> ch)\<rparr>))"

text \<open>\<open>block_remove_fd\<close> up to its wait for \<open>changedone_c_\<close>, and after it.\<close>

definition block_remove_begin :: "nat \<Rightarrow> 'c pollmgr \<Rightarrow> 'c pollmgr outcome" where
  "block_remove_begin fd m =
     (case select_unwatch fd CB_RDWR (aio m) of
        Ret (r, a) \<Rightarrow> Ret (m\<lparr>aio := a, pending_change := True\<rparr>)
      | _ \<Rightarrow> Aborted)"

definition block_remove_end :: "nat \<Rightarrow> 'c pollmgr \<Rightarrow> 'c pollmgr" where
  "block_remove_end fd m = m\<lparr>callbacks := (callbacks m)(fd := None)\<rparr>"

definition del_callback :: "nat \<Rightarrow> poll_flag \<Rightarrow> 'c pollmgr \<Rightarrow> 'c pollmgr outcome" where
  "del_callback fd flag m =
     (case select_unwatch fd flag (aio m) of
        Ret (r, a) \<Rightarrow> Ret (m\<lparr>aio := a, callbacks := (if r then (callbacks m)(fd := None) else callbacks m)\<rparr>)
      | _ \<Rightarrow> Aborted)"

definition has_callback :: "nat \<Rightarrow> poll_flag \<Rightarrow> 'c \<Rightarrow> 'c pollmgr \<Rightarrow> bool" where
  "has_callback fd flag c m = (callbacks m fd = Some c \<and> select_is_watched fd flag (aio m))"

text \<open>The first section of the loop: whether the waiting removers are woken.\<close>

definition loop_top :: "'c pollmgr \<Rightarrow> bool \<times> 'c pollmgr" where
  "loop_top m = (if pending_change m then (True, m\<lparr>pending_change := False\<rparr>) else (False, m))"

section \<open>The polling thread and the removers\<close>

text \<open>
  Where the polling thread is in \<open>wait_loop\<close>: about to take the lock; about to copy the sets; in
  \<open>select\<close> with its copies; going through the ready descriptors; or inside a callback for one.  A
  remover waits in \<open>block_remove_fd\<close> until it is woken.  \<open>removed\<close> are the descriptors for which
  \<open>block_remove_fd\<close> has returned and that were not added again.  \<open>spurious\<close> is set once a wait of
  \<open>block_remove_fd\<close> has returned without the broadcast.
\<close>

datatype phase = Top | Unlocked | Selecting nat "nat set" "nat set" | Calling "nat list" "nat list"
  | Running nat "nat list" "nat list"

datatype remover = Elsewhere | Removing nat | Released nat

record 'c poll_sys =
  mgr :: "'c pollmgr"
  phase :: phase
  removers :: "nat \<Rightarrow> remover"
  removed :: "nat set"
  spurious :: bool

definition poll_sys_init :: "nat \<Rightarrow> 'c poll_sys" where
  "poll_sys_init p = \<lparr>mgr = pollmgr_new p, phase = Top, removers = (\<lambda>_. Elsewhere), removed = {},
     spurious = False\<rparr>"

text \<open>
  The steps; a step that calls back for a descriptor is labelled with it.  \<open>block_remove_fd\<close> waits
  without a loop, and \<open>pthread_cond_wait\<close> may return without a signal (\<open>wakes\<close>).  A descriptor that
  is being removed is not added meanwhile: \<open>connection\<close> does not add callbacks once it is dead, and
  the descriptor is closed only after the removal.
\<close>

inductive poll_step :: "'c poll_sys \<Rightarrow> nat option \<Rightarrow> 'c poll_sys \<Rightarrow> bool" where
  tops: "phase s = Top \<Longrightarrow> loop_top (mgr s) = (b, m) \<Longrightarrow>
     poll_step s None (s\<lparr>mgr := m, phase := Unlocked,
       removers := (\<lambda>t. case removers s t of Removing fd \<Rightarrow> if b then Released fd else Removing fd | x \<Rightarrow> x)\<rparr>)"
| copies: "phase s = Unlocked \<Longrightarrow> a = aio (mgr s) \<Longrightarrow>
     poll_step s None (s\<lparr>phase := Selecting (highfds a) (rfds a) (wfds a)\<rparr>)"
| interrupted: "phase s = Selecting high r w \<Longrightarrow> poll_step s None (s\<lparr>phase := Top\<rparr>)"
| selected: "phase s = Selecting high r w \<Longrightarrow> r' \<subseteq> r \<Longrightarrow> w' \<subseteq> w \<Longrightarrow>
     select_ready high r' w' (aio (mgr s)) = Ret (rs, ws, a) \<Longrightarrow>
     poll_step s None (s\<lparr>mgr := (mgr s)\<lparr>aio := a\<rparr>, phase := (if rs = [] \<and> ws = [] then Top else Calling rs ws)\<rparr>)"
| reads: "phase s = Calling (fd # rs) ws \<Longrightarrow> callbacks (mgr s) fd \<noteq> None \<Longrightarrow>
     poll_step s (Some fd) (s\<lparr>phase := Running fd rs ws\<rparr>)"
| writes: "phase s = Calling [] (fd # ws) \<Longrightarrow> callbacks (mgr s) fd \<noteq> None \<Longrightarrow>
     poll_step s (Some fd) (s\<lparr>phase := Running fd [] ws\<rparr>)"
| skips: "phase s = Calling (fd # rs) ws \<Longrightarrow> callbacks (mgr s) fd = None \<Longrightarrow>
     poll_step s None (s\<lparr>phase := Calling rs ws\<rparr>)"
| skips_write: "phase s = Calling [] (fd # ws) \<Longrightarrow> callbacks (mgr s) fd = None \<Longrightarrow>
     poll_step s None (s\<lparr>phase := Calling [] ws\<rparr>)"
| comes_back: "phase s = Running fd rs ws \<Longrightarrow> poll_step s None (s\<lparr>phase := Calling rs ws\<rparr>)"
| called: "phase s = Calling [] [] \<Longrightarrow> poll_step s None (s\<lparr>phase := Top\<rparr>)"
| adds: "add_callback fd flag ch (mgr s) = Ret m \<Longrightarrow>
     \<forall>t. removers s t \<noteq> Removing fd \<and> removers s t \<noteq> Released fd \<Longrightarrow>
     poll_step s None (s\<lparr>mgr := m, removed := removed s - {fd}\<rparr>)"
| deletes: "del_callback fd flag (mgr s) = Ret m \<Longrightarrow> poll_step s None (s\<lparr>mgr := m\<rparr>)"
| removes: "removers s t = Elsewhere \<Longrightarrow> block_remove_begin fd (mgr s) = Ret m \<Longrightarrow>
     poll_step s None (s\<lparr>mgr := m, removers := (removers s)(t := Removing fd)\<rparr>)"
| wakes: "removers s t = Removing fd \<Longrightarrow>
     poll_step s None (s\<lparr>removers := (removers s)(t := Released fd), spurious := True\<rparr>)"
| returns: "removers s t = Released fd \<Longrightarrow>
     poll_step s None (s\<lparr>mgr := block_remove_end fd (mgr s), removers := (removers s)(t := Elsewhere),
       removed := insert fd (removed s)\<rparr>)"

inductive poll_reachable :: "nat \<Rightarrow> 'c poll_sys \<Rightarrow> bool" for p where
  poll_start: "poll_reachable p (poll_sys_init p)"
| poll_next: "poll_reachable p s \<Longrightarrow> poll_step s lab t \<Longrightarrow> poll_reachable p t"

section \<open>No callback after removal\<close>

definition off :: "select_aio \<Rightarrow> nat \<Rightarrow> bool" where
  "off a fd \<longleftrightarrow> fd \<notin> rfds a \<and> fd \<notin> wfds a"

fun in_use :: "phase \<Rightarrow> nat set" where
  "in_use (Selecting high r w) = r \<union> w"
| "in_use (Calling rs ws) = set rs \<union> set ws"
| "in_use (Running fd rs ws) = insert fd (set rs \<union> set ws)"
| "in_use _ = {}"

definition poll_inv :: "'c poll_sys \<Rightarrow> bool" where
  "poll_inv s \<longleftrightarrow>
     (\<forall>t fd. removers s t = Removing fd \<longrightarrow> pending_change (mgr s) \<and> off (aio (mgr s)) fd) \<and>
     (\<forall>fd. fd \<in> removed s \<or> (\<exists>t. removers s t = Released fd) \<longrightarrow>
        off (aio (mgr s)) fd \<and> fd \<notin> in_use (phase s))"

lemma off_unwatch:
  assumes "select_unwatch fd flag a = Ret (r, b)"
  shows "off a x \<Longrightarrow> off b x" "flag = CB_RDWR \<Longrightarrow> off b fd"
  using assms by (auto simp: select_unwatch_def off_def Let_def split: if_splits)

lemma off_watch: "off a x \<Longrightarrow> x \<noteq> fd \<Longrightarrow> off (select_watch fd flag a) x"
  by (simp add: select_watch_def off_def Let_def)

lemma ready_in:
  assumes "select_ready high r w a = Ret (rs, ws, b)"
  shows "set rs \<subseteq> r" "set ws \<subseteq> w" "off b = off a"
  using assms by (auto simp: select_ready_def off_def fun_eq_iff Let_def split: if_splits)

text \<open>Steps that watch no new descriptor and take up none.\<close>

lemma poll_inv_less:
  assumes "poll_inv s" and "\<forall>x. off (aio (mgr s)) x \<longrightarrow> off (aio (mgr s')) x"
    and "in_use (phase s') \<subseteq> in_use (phase s)" and "removers s' = removers s" and "removed s' \<subseteq> removed s"
    and "pending_change (mgr s) \<longrightarrow> pending_change (mgr s')"
  shows "poll_inv s'"
  using assms unfolding poll_inv_def by (metis subsetD)

lemma poll_inv_step:
  assumes "poll_step s lab t" and "poll_inv s" and "\<not> spurious t"
  shows "poll_inv t"
  using assms(1)
proof cases
  case (tops b m)
  then have m: "aio m = aio (mgr s)" "b \<longleftrightarrow> pending_change (mgr s)" by (auto simp: loop_top_def split: if_splits)
  have "removers t x \<noteq> Removing fd" for x fd
    using tops(2) m(2) assms(2) by (cases "removers s x") (auto simp: poll_inv_def)
  moreover have "off (aio (mgr s)) fd" if "removers t x = Released fd" for x fd
    using tops(2) that assms(2) by (cases "removers s x") (auto simp: poll_inv_def split: if_splits)
  moreover have "off (aio (mgr s)) fd" if "fd \<in> removed s" for fd using assms(2) that by (simp add: poll_inv_def)
  moreover have "mgr t = m" "phase t = Unlocked" "removed t = removed s" using tops(2) by simp_all
  ultimately show ?thesis unfolding poll_inv_def m(1) [symmetric] by auto
next
  case (copies a)
  then show ?thesis using assms(2) by (auto simp: poll_inv_def off_def)
next
  case (interrupted high r w)
  then show ?thesis by (intro poll_inv_less [OF assms(2)]) auto
next
  case (selected high r w r' w' rs ws a)
  then show ?thesis using ready_in [OF selected(6)] by (intro poll_inv_less [OF assms(2)]) auto
next
  case (reads fd rs ws)
  then show ?thesis by (intro poll_inv_less [OF assms(2)]) auto
next
  case (writes fd ws)
  then show ?thesis by (intro poll_inv_less [OF assms(2)]) auto
next
  case (skips fd rs ws)
  then show ?thesis by (intro poll_inv_less [OF assms(2)]) auto
next
  case (skips_write fd ws)
  then show ?thesis by (intro poll_inv_less [OF assms(2)]) auto
next
  case (comes_back fd rs ws)
  then show ?thesis by (intro poll_inv_less [OF assms(2)]) auto
next
  case called
  then show ?thesis by (intro poll_inv_less [OF assms(2)]) auto
next
  case (adds fd flag ch m)
  then have "aio m = select_watch fd flag (aio (mgr s))" "pending_change m = pending_change (mgr s)"
    by (auto simp: add_callback_def Let_def split: if_splits)
  with adds assms(2) show ?thesis unfolding poll_inv_def by (fastforce intro: off_watch)
next
  case (deletes fd flag m)
  then obtain r a where "select_unwatch fd flag (aio (mgr s)) = Ret (r, a)" "aio m = a"
      "pending_change m = pending_change (mgr s)"
    by (auto simp: del_callback_def split: outcome.splits)
  then show ?thesis using deletes off_unwatch(1) by (intro poll_inv_less [OF assms(2)]) auto
next
  case (removes tid fd m)
  then obtain r a where a: "select_unwatch fd CB_RDWR (aio (mgr s)) = Ret (r, a)" "aio m = a" "pending_change m"
    by (auto simp: block_remove_begin_def split: outcome.splits)
  have "off (aio (mgr s)) x \<longrightarrow> off a x" "off a fd" for x using off_unwatch [OF a(1)] by auto
  with removes a(2,3) assms(2) show ?thesis by (auto simp: poll_inv_def)
next
  case (wakes tid fd)
  then show ?thesis using assms(3) by simp
next
  case (returns tid fd)
  then show ?thesis using assms(2) by (auto simp: poll_inv_def block_remove_end_def)
qed

lemma spurious_before: "poll_step s lab t \<Longrightarrow> \<not> spurious t \<Longrightarrow> \<not> spurious s"
  by (induction rule: poll_step.induct) simp_all

lemma poll_reachable_inv: "poll_reachable p s \<Longrightarrow> \<not> spurious s \<Longrightarrow> poll_inv s"
proof (induction rule: poll_reachable.induct)
  case poll_start
  show ?case by (simp add: poll_sys_init_def pollmgr_new_def poll_inv_def)
next
  case (poll_next s lab t)
  then show ?case using poll_inv_step spurious_before by blast
qed

text \<open>
  A run with a spurious wake-up: descriptor 5 is added, the loop finds it readable and calls back;
  meanwhile a thread removes it, and its wait returns without a broadcast.
\<close>

lemma spurious_removal:
  "\<exists>s. poll_reachable 3 (s :: nat poll_sys) \<and> 5 \<in> removed s \<and> phase s = Running 5 [] []"
proof -
  let ?s0 = "poll_sys_init 3 :: nat poll_sys"
  obtain m where m: "add_callback 5 CB_RDONLY 1 (mgr ?s0) = Ret m" "callbacks m 5 = Some 1" "5 \<in> rfds (aio m)"
      "pipe0 (aio m) = 3" "\<not> pending_change m"
    by (auto simp: poll_sys_init_def pollmgr_new_def add_callback_def select_watch_def select_new_def max_poll_fds_def Let_def)
  have h: "highfds (aio m) = 5"
    using m(1) by (auto simp: poll_sys_init_def pollmgr_new_def add_callback_def select_watch_def select_new_def
        max_poll_fds_def Let_def split: if_splits)
  let ?s1 = "?s0\<lparr>mgr := m, removed := removed ?s0 - {5}\<rparr>"
  have 1: "poll_reachable 3 ?s1"
    by (rule poll_next [OF poll_start adds [OF m(1)]]) (simp add: poll_sys_init_def)
  let ?s2 = "?s1\<lparr>mgr := m, phase := Unlocked, removers :=
    (\<lambda>t. case removers ?s1 t of Removing fd \<Rightarrow> if False then Released fd else Removing fd | x \<Rightarrow> x)\<rparr>"
  have 2: "poll_reachable 3 ?s2"
    by (rule poll_next [OF 1 tops]) (simp_all add: poll_sys_init_def loop_top_def m)
  let ?s3 = "?s2\<lparr>phase := Selecting 5 (rfds (aio m)) (wfds (aio m))\<rparr>"
  have 3: "poll_reachable 3 ?s3"
    using poll_next [OF 2 copies, OF _ refl] h by simp
  have r: "select_ready 5 {5} {} (aio (mgr ?s3)) = Ret ([5], [], aio m)"
    using m(4) by (simp add: select_ready_def upt_rec)
  let ?s4 = "?s3\<lparr>mgr := (mgr ?s3)\<lparr>aio := aio m\<rparr>, phase := (if [5 :: nat] = [] \<and> [] = ([] :: nat list) then Top else Calling [5] [])\<rparr>"
  have 4: "poll_reachable 3 ?s4"
    by (rule poll_next [OF 3 selected [OF _ _ _ r]]) (use m(3) in simp_all)
  let ?s5 = "?s4\<lparr>phase := Running 5 [] []\<rparr>"
  have 5: "poll_reachable 3 ?s5"
    by (rule poll_next [OF 4 reads]) (use m(2) in simp_all)
  obtain m' where m': "block_remove_begin 5 (mgr ?s5) = Ret m'"
    by (auto simp: block_remove_begin_def select_unwatch_def Let_def)
  let ?s6 = "?s5\<lparr>mgr := m', removers := (removers ?s5)(0 := Removing 5)\<rparr>"
  have 6: "poll_reachable 3 ?s6"
    by (rule poll_next [OF 5 removes [OF _ m']]) (simp add: poll_sys_init_def)
  let ?s7 = "?s6\<lparr>removers := (removers ?s6)(0 := Released 5), spurious := True\<rparr>"
  have 7: "poll_reachable 3 ?s7" by (rule poll_next [OF 6 wakes]) simp
  let ?s8 = "?s7\<lparr>mgr := block_remove_end 5 (mgr ?s7), removers := (removers ?s7)(0 := Elsewhere),
    removed := insert 5 (removed ?s7)\<rparr>"
  have "poll_reachable 3 ?s8" by (rule poll_next [OF 7 returns]) simp
  then show ?thesis by (intro exI [of _ ?s8]) simp
qed

text \<open>
  C38: what the return of \<open>block_remove_fd\<close> guarantees.  As long as no wait in \<open>block_remove_fd\<close> has
  returned without the broadcast: whatever other threads add, delete and remove, and wherever the
  polling thread was, once \<open>block_remove_fd\<close> has returned the descriptor is not watched, and the
  polling thread is not inside a callback for it, nor about to make one, until it is added again, as
  the comment of the function says.  The wait stands without a loop, and a spurious wake-up breaks
  the guarantee: then a state can be reached in which the descriptor has been removed and its
  callback is still running.
\<close>

theorem no_callback_after_removal:
  assumes "poll_reachable p s" and "\<not> spurious s" and "fd \<in> removed s" and "poll_step s lab t"
  shows "lab \<noteq> Some fd \<and> fd \<notin> in_use (phase s) \<and> (\<forall>rs ws. phase s \<noteq> Running fd rs ws) \<and>
    \<not> select_is_watched fd CB_RDONLY (aio (mgr s)) \<and> \<not> select_is_watched fd CB_WRONLY (aio (mgr s)) \<and>
    (\<exists>s'. poll_reachable 3 (s' :: nat poll_sys) \<and> 5 \<in> removed s' \<and> phase s' = Running 5 [] [])"
proof -
  have inv: "off (aio (mgr s)) fd" "fd \<notin> in_use (phase s)"
    using poll_reachable_inv [OF assms(1,2)] assms(3) by (auto simp: poll_inv_def)
  from assms(4) have "lab \<noteq> Some fd" by cases (use inv(2) in \<open>auto split: if_splits\<close>)
  moreover have "phase s \<noteq> Running fd rs ws" for rs ws using inv(2) by auto
  ultimately show ?thesis
    using inv spurious_removal by (simp add: off_def select_is_watched_def)
qed

text \<open>Descriptor 5 is removed before the loop runs for the first time.\<close>

theorem no_callback_after_removal_witness:
  "\<exists>s. poll_reachable 3 (s :: nat poll_sys) \<and> \<not> spurious s \<and> 5 \<in> removed s \<and>
     \<not> select_is_watched 5 CB_RDONLY (aio (mgr s))"
proof -
  let ?s0 = "poll_sys_init 3 :: nat poll_sys"
  obtain m where m: "block_remove_begin 5 (mgr ?s0) = Ret m" "pending_change m"
    by (auto simp: poll_sys_init_def pollmgr_new_def block_remove_begin_def select_unwatch_def Let_def)
  let ?s1 = "?s0\<lparr>mgr := m, removers := (removers ?s0)(0 := Removing 5)\<rparr>"
  have 1: "poll_reachable 3 ?s1"
    by (rule poll_next [OF poll_start removes]) (simp_all add: m, simp add: poll_sys_init_def)
  let ?s2 = "?s1\<lparr>mgr := m\<lparr>pending_change := False\<rparr>, phase := Unlocked, removers :=
    (\<lambda>t. case removers ?s1 t of Removing fd \<Rightarrow> if True then Released fd else Removing fd | x \<Rightarrow> x)\<rparr>"
  have 2: "poll_reachable 3 ?s2"
    by (rule poll_next [OF 1 tops]) (simp_all add: poll_sys_init_def loop_top_def m)
  let ?s3 = "?s2\<lparr>mgr := block_remove_end 5 (mgr ?s2), removers := (removers ?s2)(0 := Elsewhere),
    removed := insert 5 (removed ?s2)\<rparr>"
  have 3: "poll_reachable 3 ?s3" by (rule poll_next [OF 2 returns]) simp
  have n: "\<not> spurious ?s3" by (simp add: poll_sys_init_def)
  have "poll_step ?s3 None (?s3\<lparr>phase := Selecting (highfds (aio (mgr ?s3))) (rfds (aio (mgr ?s3))) (wfds (aio (mgr ?s3)))\<rparr>)"
    by (rule copies) simp_all
  from no_callback_after_removal [OF 3 n _ this, of 5] have "\<not> select_is_watched 5 CB_RDONLY (aio (mgr ?s3))"
    by simp
  then show ?thesis using 3 n by (intro exI [of _ ?s3]) simp
qed

end
