(* ===== verification/Threads.thy ===== *)
theory Threads
  imports Prelude
begin

text \<open>
  The thread starters of \<open>rpc/method_thread.h\<close> and the scoped mutex of \<open>rpc/slock.h\<close>.  A starter leaves
  the object, the method and the arguments in a block on the heap and passes its address to the new
  thread, which copies them, deletes the block and makes the call; the caller does not wait.
\<close>

section \<open>Starting a thread\<close>

text \<open>
  The four templates differ in the number of arguments: \<open>'c\<close> is the object with the method and its
  arguments, the fields of the local class \<open>XXX\<close>.
\<close>

datatype 'c child = Fresh nat | Calling 'c | Over

record 'c starts =
  blocks :: "nat \<rightharpoonup> 'c"
  children :: "nat \<rightharpoonup> 'c child"
  started :: "(nat \<times> 'c) list"
  called :: "(nat \<times> 'c) list"
  ended :: bool

definition starts_init :: "'c starts" where
  "starts_init = \<lparr>blocks = Map.empty, children = Map.empty, started = [], called = [], ended = False\<rparr>"

text \<open>
  \<open>err\<close> and \<open>derr\<close> are the results of \<open>pthread_create\<close> and \<open>pthread_detach\<close>, \<open>th\<close> the new thread.  \<open>None\<close>: the
  process exits with status 1.
\<close>

definition method_thread_parent :: "int \<Rightarrow> int \<Rightarrow> nat \<Rightarrow> bool \<Rightarrow> nat option outcome" where
  "method_thread_parent err derr th detach =
     (if err \<noteq> 0 then Ret None
      else if detach \<and> derr \<noteq> 0 then Aborted
      else Ret (Some th))"

definition method_thread_child :: "int \<Rightarrow> int \<Rightarrow> unit outcome" where
  "method_thread_child r1 r2 = (if r1 \<noteq> 0 then Aborted else if r2 \<noteq> 0 then Aborted else Ret ())"

text \<open>\<open>method_thread\<close>: \<open>p\<close> is the address \<open>new\<close> returns.\<close>

definition method_thread ::
  "nat \<Rightarrow> int \<Rightarrow> int \<Rightarrow> nat \<Rightarrow> bool \<Rightarrow> 'c \<Rightarrow> 'c starts \<Rightarrow> (nat option \<times> 'c starts) outcome" where
  "method_thread p err derr th detach c s =
     (let s1 = s\<lparr>blocks := (blocks s)(p \<mapsto> c)\<rparr> in
      obind (method_thread_parent err derr th detach) (\<lambda>r.
        case r of
          None \<Rightarrow> Ret (None, s1\<lparr>ended := True\<rparr>)
        | Some t \<Rightarrow> Ret (Some t, s1\<lparr>children := (children s)(t \<mapsto> Fresh p), started := started s @ [(t, c)]\<rparr>)))"

text \<open>\<open>yyy\<close> up to the call: reading a block that is not allocated has no meaning.\<close>

definition yyy :: "nat \<Rightarrow> int \<Rightarrow> int \<Rightarrow> 'c starts \<Rightarrow> ('c \<times> 'c starts) outcome" where
  "yyy p r1 r2 s =
     (case blocks s p of
        None \<Rightarrow> Undef
      | Some c \<Rightarrow> obind (method_thread_child r1 r2) (\<lambda>_. Ret (c, s\<lparr>blocks := (blocks s)(p := None)\<rparr>)))"

text \<open>Any threads start others; \<open>new\<close> returns an address that is free, \<open>pthread_create\<close> a new identifier.\<close>

inductive starts_step :: "'c starts \<Rightarrow> 'c starts \<Rightarrow> bool" where
  start: "\<not> ended s \<Longrightarrow> blocks s p = None \<Longrightarrow> children s th = None \<Longrightarrow>
     method_thread p err derr th detach c s = Ret (r, t) \<Longrightarrow> starts_step s t"
| enter: "\<not> ended s \<Longrightarrow> children s th = Some (Fresh p) \<Longrightarrow> yyy p r1 r2 s = Ret (c, t) \<Longrightarrow>
     starts_step s (t\<lparr>children := (children t)(th \<mapsto> Calling c)\<rparr>)"
| returns: "\<not> ended s \<Longrightarrow> children s th = Some (Calling c) \<Longrightarrow>
     starts_step s (s\<lparr>children := (children s)(th \<mapsto> Over), called := called s @ [(th, c)]\<rparr>)"

inductive starts_reachable :: "'c starts \<Rightarrow> bool" where
  starts_none: "starts_reachable starts_init"
| starts_next: "starts_reachable s \<Longrightarrow> starts_step s t \<Longrightarrow> starts_reachable t"

text \<open>What a thread has been started with, from where it is.\<close>

definition pending :: "'c starts \<Rightarrow> nat \<Rightarrow> 'c option" where
  "pending s th = (case children s th of
     Some (Fresh p) \<Rightarrow> blocks s p | Some (Calling c) \<Rightarrow> Some c | _ \<Rightarrow> None)"

definition starts_ok :: "'c starts \<Rightarrow> bool" where
  "starts_ok s \<longleftrightarrow>
     (\<forall>th p. children s th = Some (Fresh p) \<longrightarrow> blocks s p \<noteq> None) \<and>
     (\<forall>p. blocks s p \<noteq> None \<longrightarrow> (\<exists>th. children s th = Some (Fresh p))) \<and>
     (\<forall>th th' p. children s th = Some (Fresh p) \<longrightarrow> children s th' = Some (Fresh p) \<longrightarrow> th = th') \<and>
     dom (children s) = fst ` set (started s) \<and> distinct (map fst (started s)) \<and>
     {th. children s th = Some Over} = fst ` set (called s) \<and> distinct (map fst (called s)) \<and>
     set (called s) \<subseteq> set (started s) \<and>
     (\<forall>th c. pending s th = Some c \<longrightarrow> (th, c) \<in> set (started s))"

lemma starts_okD:
  assumes "starts_ok s"
  shows "children s th = Some (Fresh p) \<Longrightarrow> \<exists>c. blocks s p = Some c" "blocks s p = Some c \<Longrightarrow> \<exists>th. children s th = Some (Fresh p)"
    "children s th = Some (Fresh p) \<Longrightarrow> children s th' = Some (Fresh p) \<Longrightarrow> th = th'"
    "dom (children s) = fst ` set (started s)" "distinct (map fst (started s))"
    "{th. children s th = Some Over} = fst ` set (called s)" "distinct (map fst (called s))"
    "set (called s) \<subseteq> set (started s)" "pending s th = Some c \<Longrightarrow> (th, c) \<in> set (started s)"
  using assms unfolding starts_ok_def by auto

lemma pending_simps:
  "children s th = Some (Fresh p) \<Longrightarrow> pending s th = blocks s p" "children s th = Some (Calling c) \<Longrightarrow> pending s th = Some c"
  "children s th = None \<Longrightarrow> pending s th = None" "children s th = Some Over \<Longrightarrow> pending s th = None"
  by (simp_all add: pending_def)

lemma start_ok:
  assumes ok: "starts_ok s" and new: "blocks s p = None" "children s th = None"
  shows "starts_ok (s\<lparr>blocks := (blocks s)(p \<mapsto> c), children := (children s)(th \<mapsto> Fresh p), started := started s @ [(th, c)]\<rparr>)"
    (is "starts_ok ?t")
proof -
  note d = starts_okD [OF ok]
  have np: "children s x \<noteq> Some (Fresh p)" for x using d(1) new(1) by fastforce
  have nt: "th \<notin> fst ` set (started s)" using d(4) new(2) by blast
  have p: "pending ?t x = (if x = th then Some c else pending s x)" for x
    using np by (auto simp: pending_def split: option.splits child.splits)
  have "{x. children ?t x = Some Over} = {x. children s x = Some Over}" using new(2) by auto
  moreover have "\<exists>x. children ?t x = Some (Fresh q)" if q: "blocks ?t q \<noteq> None" for q
  proof (cases "q = p")
    case False
    then obtain x where x: "children s x = Some (Fresh q)" using q d(2) by auto
    then have "x \<noteq> th" using new(2) by auto
    with x show ?thesis by auto
  qed auto
  ultimately show ?thesis
    using d(1) d(3-9) np nt p unfolding starts_ok_def by (auto split: if_splits)
qed

lemma enter_ok:
  assumes ok: "starts_ok s" and f: "children s th = Some (Fresh p)" and b: "blocks s p = Some c"
  shows "starts_ok (s\<lparr>blocks := (blocks s)(p := None), children := (children s)(th \<mapsto> Calling c)\<rparr>)" (is "starts_ok ?t")
proof -
  note d = starts_okD [OF ok]
  have own: "children s x = Some (Fresh p) \<longleftrightarrow> x = th" for x using d(3) [OF _ f] f by blast
  have p: "pending ?t x = pending s x" for x
    using own [of x] f b by (cases "x = th") (auto simp: pending_def split: option.splits child.splits)
  have over: "{x. children ?t x = Some Over} = {x. children s x = Some Over}" using f by auto
  have dom: "dom (children ?t) = dom (children s)" using f by auto
  have alloc: "\<exists>x. children ?t x = Some (Fresh q)" if q: "blocks ?t q \<noteq> None" for q
  proof -
    obtain x where x: "children s x = Some (Fresh q)" "q \<noteq> p" using q d(2) by (auto split: if_splits)
    then have "x \<noteq> th" using f by auto
    with x show ?thesis by auto
  qed
  show ?thesis
    unfolding starts_ok_def over dom p using d(1) d(3-9) own alloc by (auto split: if_splits)
qed

lemma return_ok:
  assumes ok: "starts_ok s" and f: "children s th = Some (Calling c)"
  shows "starts_ok (s\<lparr>children := (children s)(th \<mapsto> Over), called := called s @ [(th, c)]\<rparr>)" (is "starts_ok ?t")
proof -
  note d = starts_okD [OF ok]
  have s: "(th, c) \<in> set (started s)" by (rule d(9)) (simp add: pending_def f)
  have nc: "th \<notin> fst ` set (called s)" using f unfolding d(6) [symmetric] by simp
  have fresh: "children ?t x = Some (Fresh q) \<longleftrightarrow> children s x = Some (Fresh q)" for x q using f by auto
  have p: "pending ?t x = Some y \<Longrightarrow> pending s x = Some y" for x y
    by (auto simp: pending_def split: option.splits child.splits if_splits)
  have over: "{x. children ?t x = Some Over} = insert th {x. children s x = Some Over}" by auto
  have dom: "dom (children ?t) = dom (children s)" using f by auto
  show ?thesis
    unfolding starts_ok_def over dom fresh using d s nc p by auto
qed

lemma starts_ok_step:
  assumes "starts_step s t" and ok: "starts_ok s"
  shows "ended t \<or> starts_ok t"
  using assms(1)
proof cases
  case (start p th err derr detach c r)
  then show ?thesis
    using start_ok [OF ok start(2,3), of c] by (auto simp: method_thread_def method_thread_parent_def split: if_splits)
next
  case (enter th p r1 r2 c s')
  then have "blocks s p = Some c" "s' = s\<lparr>blocks := (blocks s)(p := None)\<rparr>"
    by (auto simp: yyy_def method_thread_child_def split: option.splits if_splits)
  then show ?thesis using enter_ok [OF ok enter(3)] enter(1) by simp
next
  case (returns th c)
  then show ?thesis using return_ok [OF ok] by simp
qed

lemma starts_reachable_ok: "starts_reachable s \<Longrightarrow> ended s \<or> starts_ok s"
proof (induction rule: starts_reachable.induct)
  case starts_none
  then show ?case by (simp add: starts_ok_def starts_init_def pending_def)
next
  case (starts_next s t)
  have "\<not> ended s" using starts_next.hyps(2) by cases
  then show ?case using starts_next starts_ok_step by blast
qed

text \<open>
  Whatever the threads do, no block is read after it is freed or freed twice, and the blocks that are
  allocated are those of threads that have not begun; a thread calls what it was started with, once;
  and when all threads are over, everything that was started has been called and no block is left.
\<close>

lemma started_threads_call_once:
  assumes "starts_reachable s" and "\<not> ended s"
  shows "\<And>th p. children s th = Some (Fresh p) \<Longrightarrow> \<exists>c t. yyy p 0 0 s = Ret (c, t) \<and> (th, c) \<in> set (started s)"
    and "dom (blocks s) = {p. \<exists>th. children s th = Some (Fresh p)}"
    and "distinct (called s) \<and> set (called s) \<subseteq> set (started s)"
    and "ran (children s) \<subseteq> {Over} \<Longrightarrow> set (called s) = set (started s) \<and> blocks s = Map.empty"
proof -
  have ok: "starts_ok s" using starts_reachable_ok assms by blast
  note d = starts_okD [OF ok]
  show "\<exists>c t. yyy p 0 0 s = Ret (c, t) \<and> (th, c) \<in> set (started s)" if f: "children s th = Some (Fresh p)" for th p
  proof -
    obtain c where "blocks s p = Some c" using d(1) [OF f] by blast
    moreover from this f have "(th, c) \<in> set (started s)" by (intro d(9)) (simp add: pending_def)
    ultimately show ?thesis by (simp add: yyy_def method_thread_child_def)
  qed
  show "dom (blocks s) = {p. \<exists>th. children s th = Some (Fresh p)}" using d(1,2) by fastforce
  show "distinct (called s) \<and> set (called s) \<subseteq> set (started s)" using d(7,8) by (simp add: distinct_map)
  assume over: "ran (children s) \<subseteq> {Over}"
  have b: "blocks s = Map.empty"
  proof (rule ccontr)
    assume "blocks s \<noteq> Map.empty"
    then obtain p c where "blocks s p = Some c" by (auto simp: fun_eq_iff)
    then obtain th where "children s th = Some (Fresh p)" using d(2) by blast
    then show False using over by (auto simp: ran_def)
  qed
  have "x \<in> set (called s)" if "x \<in> set (started s)" for x
  proof -
    have "fst x \<in> dom (children s)" using that d(4) by simp
    then have "children s (fst x) = Some Over" using over by (auto simp: ran_def)
    then have "fst x \<in> fst ` set (called s)" using d(6) by blast
    then obtain y where "y \<in> set (called s)" "fst y = fst x" by auto
    then show ?thesis using d(5,8) that by (metis (no_types, opaque_lifting) distinct_map inj_onD subsetD)
  qed
  then show "set (called s) = set (started s) \<and> blocks s = Map.empty" using d(8) b by auto
qed

section \<open>The scoped mutex\<close>

text \<open>
  A mutex is free or held by a thread.  Locking one that is held waits, also in the thread that holds
  it; unlocking one that the thread does not hold has no meaning.
\<close>

definition ScopedLock_new :: "nat \<Rightarrow> nat option \<Rightarrow> nat option outcome" where
  "ScopedLock_new t m = (case m of None \<Rightarrow> Ret (Some t) | Some _ \<Rightarrow> Blocked)"

definition ScopedLock_delete :: "nat \<Rightarrow> nat option \<Rightarrow> nat option outcome" where
  "ScopedLock_delete t m = (if m = Some t then Ret None else Undef)"

text \<open>Threads that enter and leave blocks guarded by one mutex.\<close>

inductive guarded_step :: "nat option \<times> nat set \<Rightarrow> nat option \<times> nat set \<Rightarrow> bool" where
  enter_block: "t \<notin> inside \<Longrightarrow> ScopedLock_new t m = Ret m' \<Longrightarrow> guarded_step (m, inside) (m', insert t inside)"
| leave_block: "t \<in> inside \<Longrightarrow> ScopedLock_delete t m = Ret m' \<Longrightarrow> guarded_step (m, inside) (m', inside - {t})"

inductive guarded_reachable :: "nat option \<times> nat set \<Rightarrow> bool" where
  nobody: "guarded_reachable (None, {})"
| guarded_next: "guarded_reachable x \<Longrightarrow> guarded_step x y \<Longrightarrow> guarded_reachable y"

inductive_cases guarded_stepE [elim]: "guarded_step (m, inside) y"

text \<open>
  At most one thread is in a guarded block, the mutex says which, and that thread can always leave.
\<close>

lemma guarded_exclusive:
  assumes "guarded_reachable (m, inside)"
  shows "inside = (case m of None \<Rightarrow> {} | Some t \<Rightarrow> {t})" "t \<in> inside \<Longrightarrow> ScopedLock_delete t m = Ret None"
proof -
  have inv: "guarded_reachable x \<Longrightarrow> snd x = (case fst x of None \<Rightarrow> {} | Some t \<Rightarrow> {t})" for x
    by (induction rule: guarded_reachable.induct)
      (auto simp: ScopedLock_new_def ScopedLock_delete_def split: option.splits if_splits)
  from inv [OF assms] show "inside = (case m of None \<Rightarrow> {} | Some t \<Rightarrow> {t})" by simp
  then show "t \<in> inside \<Longrightarrow> ScopedLock_delete t m = Ret None"
    by (auto simp: ScopedLock_delete_def split: option.splits)
qed

end
