(* ===== verification/Sys_Calls.thy ===== *)
theory Sys_Calls
  imports Prelude
begin

text \<open>
  The ground of the two file system test programs: a process is the tree of the system calls it
  makes, a test is a parent that starts one child at a time, and the kernel, which is not part of
  the repository, is a function that answers calls.  \<open>posix\<close> states what the manual pages
  promise of it for one file system that is mounted at two places, and one thing more: that the
  kernel does not run out of resources, so that \<open>fork\<close>, \<open>creat\<close>, \<open>mkdir\<close> and \<open>write\<close> neither fail nor
  fall short for the lack of memory, space or descriptors.  The second half is a
  rely-guarantee calculus: what a process achieves whatever the other one does to the files, and
  how the achievements of parent and child fit together.
\<close>

section \<open>Processes\<close>

datatype oflag = O_WRONLY | O_APPEND | O_CREAT

datatype sys =
  Sleep nat | Creat string nat | Open string "oflag list" | Write int string | Read int nat | Close int
| Unlink string | Lseek int nat | Fsync int | Mkdir string nat | Access string
| Opendir string | Readdir int | Closedir int | Getpid | Fork | Waitpid int | Print string | Quit int

text \<open>
  The answer to a call: its result, \<open>errno\<close>, the bytes read or the name of a directory entry, and the
  status of a child, \<open>None\<close> when a signal killed it.
\<close>

record rep =
  r_val :: int
  r_err :: int
  r_data :: string
  r_status :: "int option"

text \<open>\<open>Crash\<close>: the C++ standard gives the step no meaning.  A process may go on for ever.\<close>

codatatype proc = Exit int | Crash | Sys sys "rep \<Rightarrow> proc"

text \<open>The constant \<open>EEXIST\<close> of \<open>errno.h\<close>.\<close>

definition eexist :: int where
  "eexist = 17"

section \<open>A parent and its child\<close>

datatype kid = No_Kid | Live int proc | Zombie int "int option"

fun kid_pid :: "kid \<Rightarrow> int option" where
  "kid_pid No_Kid = None"
| "kid_pid (Live c q) = Some c"
| "kid_pid (Zombie c st) = Some c"

fun plain :: "sys \<Rightarrow> bool" where
  "plain Fork \<longleftrightarrow> False"
| "plain (Waitpid c) \<longleftrightarrow> False"
| "plain c \<longleftrightarrow> True"

definition wait_rep :: "int \<Rightarrow> int option \<Rightarrow> rep" where
  "wait_rep c st = \<lparr>r_val = c, r_err = 0, r_data = [], r_status = st\<rparr>"

text \<open>
  \<open>K\<close> is the kernel: the process, the call and the kernel's state give the answer and the next state.
  \<open>fork\<close> duplicates the caller, \<open>waitpid\<close> waits until the child is a zombie.
\<close>

inductive sys_step :: "(int \<Rightarrow> sys \<Rightarrow> 's \<Rightarrow> rep \<times> 's) \<Rightarrow> int \<Rightarrow> proc \<times> kid \<times> 's \<Rightarrow> proc \<times> kid \<times> 's \<Rightarrow> bool"
  for K me where
  parent_call: "plain c \<Longrightarrow> K me c s = (r, t) \<Longrightarrow> sys_step K me (Sys c k, kid, s) (k r, kid, t)"
| parent_forks: "K me Fork s = (r, t) \<Longrightarrow> 0 < r_val r \<Longrightarrow>
    sys_step K me (Sys Fork k, No_Kid, s) (k r, Live (r_val r) (k (r\<lparr>r_val := 0\<rparr>)), t)"
| fork_fails: "K me Fork s = (r, t) \<Longrightarrow> r_val r < 0 \<Longrightarrow> sys_step K me (Sys Fork k, No_Kid, s) (k r, No_Kid, t)"
| parent_reaps: "sys_step K me (Sys (Waitpid c) k, Zombie c st, s) (k (wait_rep c st), No_Kid, s)"
| nothing_to_reap: "kid_pid kid \<noteq> Some c \<Longrightarrow> sys_step K me (Sys (Waitpid c) k, kid, s) (k (wait_rep (- 1) None), kid, s)"
| kid_call: "plain c \<Longrightarrow> K pid c s = (r, t) \<Longrightarrow> sys_step K me (p, Live pid (Sys c k), s) (p, Live pid (k r), t)"
| kid_exits: "K pid (Quit st) s = (r, t) \<Longrightarrow> sys_step K me (p, Live pid (Exit st), s) (p, Zombie pid (Some st), t)"
| kid_crashes: "sys_step K me (p, Live pid Crash, s) (p, Zombie pid None, s)"

inductive_cases parent_sysE: "sys_step K me (Sys c k, kid, s) m"
inductive_cases stepE: "sys_step K me (p, kid, s) m"

text \<open>
  Every run from here on ends, and ends with the parent at \<open>exit(0)\<close>: whichever process makes the next
  step, it can be made, and the same holds after it.
\<close>

inductive succeeds :: "(int \<Rightarrow> sys \<Rightarrow> 's \<Rightarrow> rep \<times> 's) \<Rightarrow> int \<Rightarrow> proc \<times> kid \<times> 's \<Rightarrow> bool" for K me where
  at_exit: "succeeds K me (Exit 0, No_Kid, s)"
| goes_on: "sys_step K me m m' \<Longrightarrow> (\<And>m'. sys_step K me m m' \<Longrightarrow> succeeds K me m') \<Longrightarrow> succeeds K me m"

section \<open>What the kernel promises\<close>

text \<open>
  A file system as the manual pages see it: the tree of names (paths below the mount point, as lists
  of components), the bytes of each file, the open files and the directories being read by process.
\<close>

datatype node = Dir | File nat

record ofile =
  o_ino :: nat
  o_pos :: nat
  o_app :: bool
  o_wr :: bool

record fs =
  nodes :: "string list \<rightharpoonup> node"
  bytes_of :: "nat \<Rightarrow> string"
  fds :: "int \<Rightarrow> int \<rightharpoonup> ofile"
  scans :: "int \<Rightarrow> int \<rightharpoonup> (string list \<times> string set \<times> string set)"

definition unused :: "fs \<Rightarrow> nat \<Rightarrow> bool" where
  "unused f i \<longleftrightarrow> (\<forall>k. nodes f k \<noteq> Some (File i)) \<and> (\<forall>p h e. fds f p h = Some e \<longrightarrow> o_ino e \<noteq> i)"

definition set_fd :: "int \<Rightarrow> int \<Rightarrow> ofile option \<Rightarrow> fs \<Rightarrow> fs" where
  "set_fd me h e f = f\<lparr>fds := (fds f)(me := (fds f me)(h := e))\<rparr>"

definition opens :: "int \<Rightarrow> ofile \<Rightarrow> fs \<Rightarrow> rep \<Rightarrow> fs \<Rightarrow> bool" where
  "opens me e f r g \<longleftrightarrow> 0 \<le> r_val r \<and> fds f me (r_val r) = None \<and> g = set_fd me (r_val r) (Some e) f"

definition new_file :: "string list \<Rightarrow> nat \<Rightarrow> fs \<Rightarrow> fs" where
  "new_file k i f = f\<lparr>nodes := (nodes f)(k \<mapsto> File i), bytes_of := (bytes_of f)(i := [])\<rparr>"

definition in_dir :: "fs \<Rightarrow> string list \<Rightarrow> bool" where
  "in_dir f k \<longleftrightarrow> k \<noteq> [] \<and> (butlast k = [] \<or> nodes f (butlast k) = Some Dir)"

text \<open>A write at an offset: a hole is filled with zeros.\<close>

definition wr :: "nat \<Rightarrow> string \<Rightarrow> string \<Rightarrow> string" where
  "wr pos d c = take pos c @ replicate (pos - length c) (CHR 0x00) @ d @ drop (pos + length d) c"

definition refused :: "fs \<Rightarrow> rep \<Rightarrow> fs \<Rightarrow> bool" where
  "refused f r g \<longleftrightarrow> r_val r < 0 \<and> g = f"

text \<open>
  \<open>loc\<close> says which paths lead into the file system.  A file that another process creates at the same
  time may make \<open>creat\<close> or \<open>open\<close> with \<open>O_CREAT\<close> answer \<open>EEXIST\<close>; the test programs allow for it.  An
  entry that is made or removed while a directory is read may be reported or not.  A call that the
  manual pages allow to fail for the lack of resources (\<open>ENOSPC\<close>, \<open>EMFILE\<close>, \<open>ENOMEM\<close>, \<open>EAGAIN\<close> of \<open>fork\<close>,
  a short \<open>write\<close>) is assumed not to: the test programs report such a failure as one of the file
  system.
\<close>

definition creates :: "int \<Rightarrow> string list \<Rightarrow> oflag list \<Rightarrow> fs \<Rightarrow> rep \<Rightarrow> fs \<Rightarrow> bool" where
  "creates me k fl f r g \<longleftrightarrow>
     (\<exists>i. unused f i \<and> opens me \<lparr>o_ino = i, o_pos = 0, o_app = O_APPEND \<in> set fl, o_wr = O_WRONLY \<in> set fl\<rparr> (new_file k i f) r g)"

definition posix_open :: "int \<Rightarrow> string list \<Rightarrow> oflag list \<Rightarrow> bool \<Rightarrow> fs \<Rightarrow> rep \<Rightarrow> fs \<Rightarrow> bool" where
  "posix_open me k fl trunc f r g \<longleftrightarrow>
     (case nodes f k of
        Some (File i) \<Rightarrow>
          opens me \<lparr>o_ino = i, o_pos = 0, o_app = O_APPEND \<in> set fl, o_wr = O_WRONLY \<in> set fl\<rparr>
            (if trunc then f\<lparr>bytes_of := (bytes_of f)(i := [])\<rparr> else f) r g \<or>
          O_CREAT \<in> set fl \<and> refused f r g \<and> r_err r = eexist
      | Some Dir \<Rightarrow> g = f
      | None \<Rightarrow> if O_CREAT \<in> set fl \<and> in_dir f k then creates me k fl f r g else refused f r g)"

fun posix :: "(string \<Rightarrow> string list option) \<Rightarrow> int \<Rightarrow> sys \<Rightarrow> fs \<Rightarrow> rep \<Rightarrow> fs \<Rightarrow> bool" where
  "posix loc me (Creat p mode) f r g \<longleftrightarrow>
     (case loc p of None \<Rightarrow> g = f | Some k \<Rightarrow> posix_open me k [O_WRONLY, O_CREAT] True f r g)"
| "posix loc me (Open p fl) f r g \<longleftrightarrow>
     (case loc p of None \<Rightarrow> g = f | Some k \<Rightarrow> posix_open me k fl False f r g)"
| "posix loc me (Write h d) f r g \<longleftrightarrow>
     (case fds f me h of
        None \<Rightarrow> refused f r g
      | Some e \<Rightarrow>
          if \<not> o_wr e then refused f r g
          else let c = bytes_of f (o_ino e); q = (if o_app e then length c else o_pos e)
               in r_val r = int (length d) \<and>
                  g = set_fd me h (Some (e\<lparr>o_pos := q + length d\<rparr>)) (f\<lparr>bytes_of := (bytes_of f)(o_ino e := wr q d c)\<rparr>))"
| "posix loc me (Read h n) f r g \<longleftrightarrow>
     (case fds f me h of
        None \<Rightarrow> refused f r g
      | Some e \<Rightarrow>
          if o_wr e then refused f r g
          else r_data r = take n (drop (o_pos e) (bytes_of f (o_ino e))) \<and> r_val r = int (length (r_data r)) \<and>
               g = set_fd me h (Some (e\<lparr>o_pos := o_pos e + length (r_data r)\<rparr>)) f)"
| "posix loc me (Lseek h n) f r g \<longleftrightarrow>
     (case fds f me h of
        None \<Rightarrow> refused f r g
      | Some e \<Rightarrow> r_val r = int n \<and> g = set_fd me h (Some (e\<lparr>o_pos := n\<rparr>)) f)"
| "posix loc me (Fsync h) f r g \<longleftrightarrow> (if fds f me h = None then refused f r g else r_val r = 0 \<and> g = f)"
| "posix loc me (Close h) f r g \<longleftrightarrow>
     (if fds f me h = None then refused f r g else r_val r = 0 \<and> g = set_fd me h None f)"
| "posix loc me (Unlink p) f r g \<longleftrightarrow>
     (case loc p of
        None \<Rightarrow> g = f
      | Some k \<Rightarrow> (case nodes f k of
          Some (File i) \<Rightarrow> r_val r = 0 \<and> g = f\<lparr>nodes := (nodes f)(k := None)\<rparr>
        | _ \<Rightarrow> refused f r g))"
| "posix loc me (Mkdir p mode) f r g \<longleftrightarrow>
     (case loc p of
        None \<Rightarrow> g = f
      | Some k \<Rightarrow> if nodes f k = None \<and> in_dir f k then r_val r = 0 \<and> g = f\<lparr>nodes := (nodes f)(k \<mapsto> Dir)\<rparr>
                   else refused f r g)"
| "posix loc me (Access p) f r g \<longleftrightarrow>
     g = f \<and> (case loc p of None \<Rightarrow> True | Some k \<Rightarrow> r_val r = 0 \<longleftrightarrow> nodes f k \<noteq> None)"
| "posix loc me (Opendir p) f r g \<longleftrightarrow>
     (case loc p of
        None \<Rightarrow> g = f
      | Some k \<Rightarrow>
          if nodes f k = Some Dir
          then r_val r \<noteq> 0 \<and> scans f me (r_val r) = None \<and>
               g = f\<lparr>scans := (scans f)(me := (scans f me)(r_val r \<mapsto> (k, {n. nodes f (k @ [n]) \<noteq> None}, {})))\<rparr>
          else r_val r = 0 \<and> g = f)"
| "posix loc me (Readdir h) f r g \<longleftrightarrow>
     (case scans f me h of
        None \<Rightarrow> r_val r = 0 \<and> g = f
      | Some (k, snap, seen) \<Rightarrow>
          if r_val r = 0 then g = f \<and> (\<forall>n \<in> snap. nodes f (k @ [n]) \<noteq> None \<longrightarrow> n \<in> seen)
          else r_data r \<notin> seen \<and> (r_data r \<in> {''.'', ''..''} \<or> r_data r \<in> snap \<or> nodes f (k @ [r_data r]) \<noteq> None) \<and>
               g = f\<lparr>scans := (scans f)(me := (scans f me)(h \<mapsto> (k, snap, insert (r_data r) seen)))\<rparr>)"
| "posix loc me (Closedir h) f r g \<longleftrightarrow> g = f\<lparr>scans := (scans f)(me := (scans f me)(h := None))\<rparr>"
| "posix loc me Getpid f r g \<longleftrightarrow> r_val r = me \<and> g = f"
| "posix loc me Fork f r g \<longleftrightarrow>
     0 < r_val r \<and> r_val r \<noteq> me \<and>
     g = f\<lparr>fds := (fds f)(r_val r := fds f me), scans := (scans f)(r_val r := scans f me)\<rparr>"
| "posix loc me (Quit st) f r g \<longleftrightarrow> g = f\<lparr>fds := (fds f)(me := Map.empty), scans := (scans f)(me := Map.empty)\<rparr>"
| "posix loc me c f r g \<longleftrightarrow> g = f"

text \<open>
  A kernel that keeps these promises: its state \<open>s\<close> stands for the file system \<open>\<alpha> s\<close>, and \<open>good\<close> is
  what its own data structures rely on.
\<close>

definition serves ::
  "(string \<Rightarrow> string list option) \<Rightarrow> ('s \<Rightarrow> fs) \<Rightarrow> ('s \<Rightarrow> bool) \<Rightarrow> (int \<Rightarrow> sys \<Rightarrow> 's \<Rightarrow> rep \<times> 's) \<Rightarrow> bool" where
  "serves loc \<alpha> good K \<longleftrightarrow>
     (\<forall>me c s. good s \<longrightarrow> good (snd (K me c s)) \<and> posix loc me c (\<alpha> s) (fst (K me c s)) (\<alpha> (snd (K me c s))))"

text \<open>No two names lead to the same file, and every name is in a directory.\<close>

definition fs_ok :: "fs \<Rightarrow> bool" where
  "fs_ok f \<longleftrightarrow>
     (\<forall>k l i. nodes f k = Some (File i) \<longrightarrow> nodes f l = Some (File i) \<longrightarrow> k = l) \<and>
     (\<forall>k n. nodes f (k @ [n]) \<noteq> None \<longrightarrow> k = [] \<or> nodes f k = Some Dir)"

lemma fs_okD:
  assumes "fs_ok f"
  shows "nodes f k = Some (File i) \<Longrightarrow> nodes f l = Some (File i) \<Longrightarrow> k = l"
    "nodes f (k @ [n]) \<noteq> None \<Longrightarrow> k = [] \<or> nodes f k = Some Dir"
  using assms unfolding fs_ok_def by blast+

lemma set_fd_simps [simp]:
  "nodes (set_fd me h e f) = nodes f" "bytes_of (set_fd me h e f) = bytes_of f" "scans (set_fd me h e f) = scans f"
  "fds (set_fd me h e f) = (fds f)(me := (fds f me)(h := e))"
  by (simp_all add: set_fd_def)

lemma new_file_simps [simp]:
  "nodes (new_file k i f) = (nodes f)(k \<mapsto> File i)" "bytes_of (new_file k i f) = (bytes_of f)(i := [])"
  "scans (new_file k i f) = scans f" "fds (new_file k i f) = fds f"
  by (simp_all add: new_file_def)

lemma fs_ok_nodes: "nodes g = nodes f \<Longrightarrow> fs_ok f \<Longrightarrow> fs_ok g"
  by (simp add: fs_ok_def)

lemma fs_ok_add:
  assumes ok: "fs_ok f" and k: "nodes f k = None" "in_dir f k" and x: "\<And>i l. x = File i \<Longrightarrow> nodes f l \<noteq> Some (File i)"
    and g: "nodes g = (nodes f)(k \<mapsto> x)"
  shows "fs_ok g"
proof -
  have "j = [] \<or> nodes g j = Some Dir" if n: "nodes g (j @ [n]) \<noteq> None" for j n
  proof (cases "j @ [n] = k")
    case True
    then have "j = [] \<or> nodes f j = Some Dir" using k(2) by (auto simp: in_dir_def)
    then show ?thesis using k(1) g by (cases "j = k") auto
  next
    case False
    then have "j = [] \<or> nodes f j = Some Dir" using n fs_okD(2) [OF ok] by (simp add: g)
    then show ?thesis using k(1) g by (cases "j = k") auto
  qed
  then show ?thesis using fs_okD(1) [OF ok] x unfolding fs_ok_def g by (auto split: if_splits)
qed

lemma fs_ok_remove:
  assumes ok: "fs_ok f" and k: "nodes f k = Some (File i)"
  shows "fs_ok (f\<lparr>nodes := (nodes f)(k := None)\<rparr>)"
proof -
  have "j = [] \<or> ((nodes f)(k := None)) j = Some Dir" if "((nodes f)(k := None)) (j @ [n]) \<noteq> None" for j n
    using fs_okD(2) [OF ok, of j n] that k by (auto split: if_splits)
  then show ?thesis using fs_okD(1) [OF ok] unfolding fs_ok_def by (auto split: if_splits)
qed

lemma posix_open_ok: "posix_open me k fl trunc f r g \<Longrightarrow> fs_ok f \<Longrightarrow> fs_ok g"
proof -
  assume p: "posix_open me k fl trunc f r g" and ok: "fs_ok f"
  show ?thesis
  proof (cases "nodes f k = None \<and> O_CREAT \<in> set fl \<and> in_dir f k")
    case True
    then obtain i where i: "unused f i" "nodes g = (nodes f)(k \<mapsto> File i)"
      using p by (auto simp: posix_open_def creates_def opens_def)
    show ?thesis by (rule fs_ok_add [OF ok _ _ _ i(2)]) (use True i(1) in \<open>auto simp: unused_def\<close>)
  next
    case False
    then have "nodes g = nodes f"
      using p by (auto simp: posix_open_def opens_def refused_def split: option.splits node.splits if_splits)
    then show ?thesis using ok by (rule fs_ok_nodes)
  qed
qed

lemma posix_ok:
  assumes ok: "fs_ok f" and p: "posix loc me c f r g"
  shows "fs_ok g"
proof (cases c)
  case (Unlink x)
  then show ?thesis
    using ok p fs_ok_remove [OF ok] by (auto simp: refused_def split: option.splits node.splits)
next
  case (Mkdir x mode)
  then consider "g = f" | k where "nodes f k = None" "in_dir f k" "g = f\<lparr>nodes := (nodes f)(k \<mapsto> Dir)\<rparr>"
    using p by (auto simp: refused_def split: option.splits if_splits)
  then show ?thesis using ok by cases (auto intro: fs_ok_add)
qed (use ok p posix_open_ok in \<open>auto simp: refused_def Let_def intro: fs_ok_nodes [OF _ ok] split: option.splits if_splits\<close>)

section \<open>Rely and guarantee\<close>

text \<open>
  \<open>rg loc me R G W f p\<close>: from \<open>f\<close> on, and while others change the file system by steps of \<open>R\<close>, process \<open>p\<close>
  makes steps of \<open>G\<close> and after finitely many of them comes to a point where \<open>W\<close> holds of what is left
  of it and stays true under \<open>R\<close>.
\<close>

inductive rg ::
  "(string \<Rightarrow> string list option) \<Rightarrow> int \<Rightarrow> (fs \<Rightarrow> fs \<Rightarrow> bool) \<Rightarrow> (fs \<Rightarrow> fs \<Rightarrow> bool) \<Rightarrow> (proc \<Rightarrow> fs \<Rightarrow> bool) \<Rightarrow> fs \<Rightarrow> proc \<Rightarrow> bool"
  for loc me R G W where
  rg_end: "(\<And>g. R\<^sup>*\<^sup>* f g \<Longrightarrow> fs_ok g \<Longrightarrow> W p g) \<Longrightarrow> rg loc me R G W f p"
| rg_sys: "plain c \<Longrightarrow> (\<And>g r h. R\<^sup>*\<^sup>* f g \<Longrightarrow> fs_ok g \<Longrightarrow> posix loc me c g r h \<Longrightarrow> G g h \<and> rg loc me R G W h (k r)) \<Longrightarrow>
    rg loc me R G W f (Sys c k)"

lemma rg_env: "rg loc me R G W f p \<Longrightarrow> R\<^sup>*\<^sup>* f g \<Longrightarrow> rg loc me R G W g p"
proof (induction rule: rg.induct)
  case (rg_end f p)
  then show ?case by (intro rg.rg_end) (blast intro: rtranclp_trans)
next
  case (rg_sys c f k)
  show ?case
  proof (rule rg.rg_sys [OF rg_sys.hyps(1)])
    fix g' r h assume *: "R\<^sup>*\<^sup>* g g'" "fs_ok g'" "posix loc me c g' r h"
    show "G g' h \<and> rg loc me R G W h (k r)"
      using rg_sys.IH [OF rtranclp_trans [OF rg_sys.prems *(1)] *(2,3)] by simp
  qed
qed

text \<open>One system call, when the assertion \<open>P\<close> before it is stable.\<close>

lemma rg_call:
  assumes "plain c" "P f" "\<And>g h. P g \<Longrightarrow> R g h \<Longrightarrow> P h"
    and "\<And>g r h. P g \<Longrightarrow> fs_ok g \<Longrightarrow> posix loc me c g r h \<Longrightarrow> G g h \<and> rg loc me R G W h (k r)"
  shows "rg loc me R G W f (Sys c k)"
proof (rule rg_sys [OF assms(1)])
  fix g r h
  assume env: "R\<^sup>*\<^sup>* f g" and g: "fs_ok g" "posix loc me c g r h"
  from env have "P g" by induction (use assms(2,3) in auto)
  then show "G g h \<and> rg loc me R G W h (k r)" using assms(4) g by blast
qed

lemma rg_stop:
  assumes "P f" "\<And>g h. P g \<Longrightarrow> R g h \<Longrightarrow> P h" "\<And>g. P g \<Longrightarrow> W p g"
  shows "rg loc me R G W f p"
proof (rule rg_end)
  fix g assume "R\<^sup>*\<^sup>* f g"
  then have "P g" by induction (use assms in auto)
  then show "W p g" by (rule assms(3))
qed

text \<open>A loop over a range.\<close>

lemma rg_loop:
  assumes body: "\<And>i f k. a \<le> i \<Longrightarrow> i < b \<Longrightarrow> P i f \<Longrightarrow> (\<And>g. P (Suc i) g \<Longrightarrow> rg loc me R G W g k) \<Longrightarrow> rg loc me R G W f (body i k)"
    and "P a f" "\<And>g. P b g \<Longrightarrow> rg loc me R G W g k" "a \<le> b"
  shows "rg loc me R G W f (foldr body [a..<b] k)"
  using assms
proof (induction "b - a" arbitrary: a f)
  case (Suc n)
  then have a: "a < b" "[a..<b] = a # [Suc a..<b]" by (simp_all add: upt_conv_Cons)
  have "rg loc me R G W g (foldr body [Suc a..<b] k)" if "P (Suc a) g" for g
    using Suc.hyps(1) [of "Suc a" g] Suc.hyps(2) Suc.prems(1,3) that a(1) by simp
  then show ?case using Suc.prems(1) [of a f] Suc.prems(2) a by simp
qed simp

section \<open>Parent and child together\<close>

lemma servesD:
  assumes "serves loc \<alpha> good K" "good s" "K me c s = (r, t)"
  shows "good t" "posix loc me c (\<alpha> s) r (\<alpha> t)"
  using assms unfolding serves_def by (metis fst_conv snd_conv)+

definition at_peace :: "('s \<Rightarrow> fs) \<Rightarrow> ('s \<Rightarrow> bool) \<Rightarrow> 's \<Rightarrow> bool" where
  "at_peace \<alpha> good s \<longleftrightarrow> good s \<and> fs_ok (\<alpha> s)"

lemma peace_step:
  assumes "serves loc \<alpha> good K" "at_peace \<alpha> good s" "K me c s = (r, t)"
  shows "at_peace \<alpha> good t" "posix loc me c (\<alpha> s) r (\<alpha> t)"
  using servesD [OF assms(1) _ assms(3)] assms(2) posix_ok unfolding at_peace_def by blast+

text \<open>\<open>wins\<close>: the program succeeds from every kernel state that stands for \<open>f\<close>, with no child.\<close>

definition wins ::
  "('s \<Rightarrow> fs) \<Rightarrow> ('s \<Rightarrow> bool) \<Rightarrow> (int \<Rightarrow> sys \<Rightarrow> 's \<Rightarrow> rep \<times> 's) \<Rightarrow> int \<Rightarrow> fs \<Rightarrow> proc \<Rightarrow> bool" where
  "wins \<alpha> good K me f p \<longleftrightarrow> (\<forall>s. at_peace \<alpha> good s \<longrightarrow> \<alpha> s = f \<longrightarrow> succeeds K me (p, No_Kid, s))"

lemma wins_exit: "wins \<alpha> good K me f (Exit 0)"
  by (simp add: wins_def at_exit)

lemma succeeds_step:
  assumes "\<exists>m'. sys_step K me m m'" "\<And>m'. sys_step K me m m' \<Longrightarrow> succeeds K me m'"
  shows "succeeds K me m"
  using assms goes_on by metis

lemma alone_step:
  "plain c \<Longrightarrow> sys_step K me (Sys c k, No_Kid, s) m' \<longleftrightarrow> m' = (k (fst (K me c s)), No_Kid, snd (K me c s))"
  by (cases "K me c s") (auto elim!: parent_sysE intro: parent_call)

lemma wins_seq:
  assumes srv: "serves loc \<alpha> good K" and p: "rg loc me R G W f p"
    and W: "\<And>q g. W q g \<Longrightarrow> fs_ok g \<Longrightarrow> wins \<alpha> good K me g q"
  shows "wins \<alpha> good K me f p"
  using p
proof induction
  case (rg_end f p)
  then show ?case using W unfolding wins_def at_peace_def by blast
next
  case (rg_sys c f k)
  show ?case
    unfolding wins_def
  proof (intro allI impI)
    fix s assume s: "at_peace \<alpha> good s" "\<alpha> s = f"
    obtain r t where K: "K me c s = (r, t)" by fastforce
    note t = peace_step [OF srv s(1) K]
    have "wins \<alpha> good K me (\<alpha> t) (k r)" using rg_sys.IH [of f r "\<alpha> t"] s t(2) by (auto simp: at_peace_def)
    then have "succeeds K me (k r, No_Kid, t)" using t(1) by (simp add: wins_def)
    then show "succeeds K me (Sys c k, No_Kid, s)"
      using succeeds_step [of K me "(Sys c k, No_Kid, s)"] by (simp add: alone_step [OF rg_sys.hyps(1)] K)
  qed
qed

text \<open>
  The parent runs up to \<open>waitpid\<close>, where \<open>Q1\<close> holds, and the child up to its exit, after which \<open>Q2\<close>
  holds.  Each side's guarantee is what the other one relies on.
\<close>

definition fork_join ::
  "(string \<Rightarrow> string list option) \<Rightarrow> ('s \<Rightarrow> fs) \<Rightarrow> ('s \<Rightarrow> bool) \<Rightarrow> (int \<Rightarrow> sys \<Rightarrow> 's \<Rightarrow> rep \<times> 's) \<Rightarrow> int \<Rightarrow> int \<Rightarrow>
   (fs \<Rightarrow> fs \<Rightarrow> bool) \<Rightarrow> (fs \<Rightarrow> fs \<Rightarrow> bool) \<Rightarrow> (fs \<Rightarrow> fs \<Rightarrow> bool) \<Rightarrow> (fs \<Rightarrow> fs \<Rightarrow> bool) \<Rightarrow>
   (fs \<Rightarrow> bool) \<Rightarrow> (fs \<Rightarrow> bool) \<Rightarrow> (fs \<Rightarrow> bool) \<Rightarrow> (rep \<Rightarrow> proc) \<Rightarrow> bool" where
  "fork_join loc \<alpha> good K me kid R1 G1 R2 G2 Q1 Q2 Q2' rest \<longleftrightarrow>
     (\<forall>g h. G1 g h \<longrightarrow> R2 g h) \<and> (\<forall>g h. G2 g h \<longrightarrow> R1 g h) \<and>
     (\<forall>g r h. Q2 g \<longrightarrow> fs_ok g \<longrightarrow> posix loc kid (Quit 0) g r h \<longrightarrow> G2 g h \<and> Q2' h) \<and>
     (\<forall>g h. Q2' g \<longrightarrow> R2 g h \<longrightarrow> Q2' h) \<and>
     (\<forall>g. Q1 g \<longrightarrow> Q2' g \<longrightarrow> fs_ok g \<longrightarrow> wins \<alpha> good K me g (rest (wait_rep kid (Some 0))))"

lemma fork_joinD:
  assumes "fork_join loc \<alpha> good K me kid R1 G1 R2 G2 Q1 Q2 Q2' rest"
  shows "G1 g h \<Longrightarrow> R2 g h" "G2 g h \<Longrightarrow> R1 g h"
    "Q2 g \<Longrightarrow> fs_ok g \<Longrightarrow> posix loc kid (Quit 0) g r h \<Longrightarrow> G2 g h \<and> Q2' h" "Q2' g \<Longrightarrow> R2 g h \<Longrightarrow> Q2' h"
    "Q1 g \<Longrightarrow> Q2' g \<Longrightarrow> fs_ok g \<Longrightarrow> wins \<alpha> good K me g (rest (wait_rep kid (Some 0)))"
  using assms unfolding fork_join_def by blast+

abbreviation at_fs :: "('s \<Rightarrow> fs) \<Rightarrow> ('s \<Rightarrow> bool) \<Rightarrow> 's \<Rightarrow> fs \<Rightarrow> bool" where
  "at_fs \<alpha> good s f \<equiv> at_peace \<alpha> good s \<and> \<alpha> s = f"

abbreviation "parent_ok loc me R1 G1 Q1 kid rest \<equiv> rg loc me R1 G1 (\<lambda>p g. p = Sys (Waitpid kid) rest \<and> Q1 g)"
abbreviation "kid_ok loc kid R2 G2 Q2 \<equiv> rg loc kid R2 G2 (\<lambda>q g. q = Exit 0 \<and> Q2 g)"

lemma after_kid:
  assumes srv: "serves loc \<alpha> good K" and fj: "fork_join loc \<alpha> good K me kid R1 G1 R2 G2 Q1 Q2 Q2' rest"
  shows "parent_ok loc me R1 G1 Q1 kid rest f p \<Longrightarrow> Q2' f \<Longrightarrow> at_fs \<alpha> good s f \<Longrightarrow> succeeds K me (p, Zombie kid (Some 0), s)"
proof (induction arbitrary: s rule: rg.induct)
  case (rg_end f p)
  then have p: "p = Sys (Waitpid kid) rest" "Q1 f" "fs_ok f" by (auto simp: at_peace_def)
  have "succeeds K me (rest (wait_rep kid (Some 0)), No_Kid, s)"
    using fork_joinD(5) [OF fj] p rg_end.prems unfolding wins_def by blast
  moreover have "sys_step K me (p, Zombie kid (Some 0), s) m' \<longleftrightarrow> m' = (rest (wait_rep kid (Some 0)), No_Kid, s)" for m'
    using p(1) by (auto elim!: parent_sysE intro: parent_reaps)
  ultimately show ?case using succeeds_step [of K me "(p, Zombie kid (Some 0), s)"] by simp
next
  case (rg_sys c f k)
  obtain r t where K: "K me c s = (r, t)" by fastforce
  note t = peace_step [OF srv _ K]
  have "G1 f (\<alpha> t) \<and> succeeds K me (k r, Zombie kid (Some 0), t)"
    using rg_sys.IH [of f r "\<alpha> t"] rg_sys.prems t fork_joinD(1,4) [OF fj] by (auto simp: at_peace_def)
  moreover have "sys_step K me (Sys c k, Zombie kid (Some 0), s) m' \<longleftrightarrow> m' = (k r, Zombie kid (Some 0), t)" for m'
    using rg_sys.hyps(1) K by (auto elim!: parent_sysE intro: parent_call)
  ultimately show ?case using succeeds_step [of K me "(Sys c k, Zombie kid (Some 0), s)"] by simp
qed

text \<open>The steps of the child while the parent is at \<open>p\<close>.\<close>

lemma kid_moves:
  assumes srv: "serves loc \<alpha> good K" and fj: "fork_join loc \<alpha> good K me kid R1 G1 R2 G2 Q1 Q2 Q2' rest"
    and q: "kid_ok loc kid R2 G2 Q2 f' q" and f': "R1\<^sup>*\<^sup>* f f'" and s: "at_fs \<alpha> good s f'" and p: "parent_ok loc me R1 G1 Q1 kid rest f p"
    and parent: "\<And>g c k q s r t. p = Sys c k \<Longrightarrow> plain c \<Longrightarrow> R1\<^sup>*\<^sup>* f g \<Longrightarrow> kid_ok loc kid R2 G2 Q2 g q \<Longrightarrow>
      at_fs \<alpha> good s g \<Longrightarrow> K me c s = (r, t) \<Longrightarrow> succeeds K me (k r, Live kid q, t)"
    and waits: "\<And>c k. p = Sys c k \<Longrightarrow> plain c \<or> c = Waitpid kid"
  shows "succeeds K me (p, Live kid q, s)"
  using q f' s
proof (induction arbitrary: s rule: rg.induct)
  case (rg_end f' q)
  then have q: "q = Exit 0" "Q2 f'" "kid_ok loc kid R2 G2 Q2 f' q" by (auto simp: at_peace_def intro: rg.rg_end)
  obtain r t where K: "K kid (Quit 0) s = (r, t)" by fastforce
  note t = peace_step [OF srv _ K]
  have t': "at_peace \<alpha> good t" "G2 f' (\<alpha> t)" "Q2' (\<alpha> t)"
    using rg_end.prems t fork_joinD(3) [OF fj q(2)] by (auto simp: at_peace_def)
  have "parent_ok loc me R1 G1 Q1 kid rest (\<alpha> t) p"
    using rg_env [OF p] rg_end.prems(1) fork_joinD(2) [OF fj t'(2)] by (meson rtranclp.rtrancl_into_rtrancl)
  then have z: "succeeds K me (p, Zombie kid (Some 0), t)" by (rule after_kid [OF srv fj]) (use t' in auto)
  show ?case
  proof (rule succeeds_step)
    show "\<exists>m'. sys_step K me (p, Live kid q, s) m'" using kid_exits [of K kid 0 s r t me p] K q(1) by blast
    show "succeeds K me m'" if "sys_step K me (p, Live kid q, s) m'" for m'
      using that z q K waits parent rg_end.prems by (auto elim!: stepE)
  qed
next
  case (rg_sys c f' k)
  obtain r t where K: "K kid c s = (r, t)" by fastforce
  note t = peace_step [OF srv _ K]
  have t': "at_peace \<alpha> good t" "G2 f' (\<alpha> t)"
    using rg_sys.IH [of f' r "\<alpha> t"] rg_sys.prems t by (auto simp: at_peace_def)
  have "R1\<^sup>*\<^sup>* f (\<alpha> t)" using rg_sys.prems(1) fork_joinD(2) [OF fj t'(2)] by simp
  then have z: "succeeds K me (p, Live kid (k r), t)"
    using rg_sys.IH [of f' r "\<alpha> t"] rg_sys.prems t t' by (auto simp: at_peace_def)
  have q: "kid_ok loc kid R2 G2 Q2 f' (Sys c k)" using rg_sys.hyps(1) rg_sys.IH by (intro rg.rg_sys) blast+
  show ?case
  proof (rule succeeds_step)
    show "\<exists>m'. sys_step K me (p, Live kid (Sys c k), s) m'" using kid_call [of c K kid s r t me p k] rg_sys.hyps(1) K by blast
    show "succeeds K me m'" if "sys_step K me (p, Live kid (Sys c k), s) m'" for m'
      using that z q K waits parent rg_sys.prems by (auto elim!: stepE)
  qed
qed

lemma together:
  assumes srv: "serves loc \<alpha> good K" and fj: "fork_join loc \<alpha> good K me kid R1 G1 R2 G2 Q1 Q2 Q2' rest"
  shows "parent_ok loc me R1 G1 Q1 kid rest f p \<Longrightarrow> R1\<^sup>*\<^sup>* f f' \<Longrightarrow> kid_ok loc kid R2 G2 Q2 f' q \<Longrightarrow> at_fs \<alpha> good s f' \<Longrightarrow>
    succeeds K me (p, Live kid q, s)"
proof (induction arbitrary: f' q s rule: rg.induct)
  case (rg_end f p)
  have p: "p = Sys (Waitpid kid) rest" using rg_end by (auto simp: at_peace_def)
  show ?case
    by (rule kid_moves [OF srv fj rg_end.prems(2,1,3) rg.rg_end]) (use rg_end.hyps p in auto)
next
  case (rg_sys c f k)
  show ?case
  proof (rule kid_moves [OF srv fj rg_sys.prems(2,1,3)])
    show "parent_ok loc me R1 G1 Q1 kid rest f (Sys c k)" using rg_sys.hyps(1) rg_sys.IH by (intro rg.rg_sys) blast+
    fix g c' k' q s r t
    assume eq: "Sys c k = Sys c' k'" and g: "R1\<^sup>*\<^sup>* f g" "kid_ok loc kid R2 G2 Q2 g q" "at_fs \<alpha> good s g" and K: "K me c' s = (r, t)"
    note t = peace_step [OF srv _ K]
    have "G1 g (\<alpha> t)" "at_peace \<alpha> good t" using rg_sys.IH [of g r "\<alpha> t"] g t eq by (auto simp: at_peace_def)
    moreover have "kid_ok loc kid R2 G2 Q2 (\<alpha> t) q" using rg_env [OF g(2)] fork_joinD(1) [OF fj calculation(1)] by blast
    ultimately show "succeeds K me (k' r, Live kid q, t)"
      using rg_sys.IH [of g r "\<alpha> t"] g t eq by (auto simp: at_peace_def)
  qed (use rg_sys.hyps(1) in auto)
qed

lemma wins_fork:
  assumes srv: "serves loc \<alpha> good K"
    and both: "\<And>r g. posix loc me Fork f r g \<Longrightarrow> fs_ok g \<Longrightarrow> \<exists>R1 G1 R2 G2 Q1 Q2 Q2' rest.
      fork_join loc \<alpha> good K me (r_val r) R1 G1 R2 G2 Q1 Q2 Q2' rest \<and>
      parent_ok loc me R1 G1 Q1 (r_val r) rest g (k r) \<and>
      kid_ok loc (r_val r) R2 G2 Q2 g (k (r\<lparr>r_val := 0\<rparr>))"
  shows "wins \<alpha> good K me f (Sys Fork k)"
  unfolding wins_def
proof (intro allI impI)
  fix s assume s: "at_peace \<alpha> good s" "\<alpha> s = f"
  obtain r t where K: "K me Fork s = (r, t)" by fastforce
  note t = peace_step [OF srv s(1) K]
  have g: "posix loc me Fork f r (\<alpha> t)" "fs_ok (\<alpha> t)" using t s(2) by (auto simp: at_peace_def)
  have "succeeds K me (k r, Live (r_val r) (k (r\<lparr>r_val := 0\<rparr>)), t)"
    using both [OF g] together [OF srv] t(1) by blast
  moreover have "sys_step K me (Sys Fork k, No_Kid, s) m' \<longleftrightarrow> m' = (k r, Live (r_val r) (k (r\<lparr>r_val := 0\<rparr>)), t)" for m'
  proof
    have pos: "0 < r_val r" using g(1) by simp
    show "m' = (k r, Live (r_val r) (k (r\<lparr>r_val := 0\<rparr>)), t) \<Longrightarrow> sys_step K me (Sys Fork k, No_Kid, s) m'"
      using parent_forks [of K me s r t k] K pos by simp
    show "sys_step K me (Sys Fork k, No_Kid, s) m' \<Longrightarrow> m' = (k r, Live (r_val r) (k (r\<lparr>r_val := 0\<rparr>)), t)"
      using K pos by (elim parent_sysE) simp_all
  qed
  ultimately show "succeeds K me (Sys Fork k, No_Kid, s)"
    using succeeds_step [of K me "(Sys Fork k, No_Kid, s)"] by simp
qed

end
