(* ===== verification/Fs_Test.thy ===== *)
theory Fs_Test
  imports Sys_Calls Dir_Format "HOL-Library.List_Lexorder" "HOL-Library.Char_ord"
begin

text \<open>
  The file system test programs \<open>test-lab-3-b.c\<close> and \<open>test-lab-3-c.c\<close>: each function is the tree of
  system calls it makes, with what follows as its last argument.  Messages on \<open>stderr\<close> are left out.
  The functions the two programs share are modelled once.
\<close>

section \<open>The functions of the tests\<close>

text \<open>\<open>sprintf\<close> into an array of 512 characters; \<open>%d\<close> prints a number that is not negative.\<close>

definition sprintf :: "string \<Rightarrow> (string \<Rightarrow> proc) \<Rightarrow> proc" where
  "sprintf n k = (if length n < 512 then k n else Crash)"

definition nth_name :: "string \<Rightarrow> nat \<Rightarrow> string" where
  "nth_name pre i = pre @ ''-'' @ dec_digits i"

text \<open>The four bytes of an \<open>int\<close>, least significant first, and the \<open>int\<close> of four bytes.\<close>

definition int_bytes :: "nat \<Rightarrow> string" where
  "int_bytes i = map char_of [i mod 256, i div 256 mod 256, i div 65536 mod 256, i div 16777216 mod 256 :: nat]"

fun bytes_nat :: "string \<Rightarrow> nat" where
  "bytes_nat [] = 0"
| "bytes_nat (c # cs) = of_char c + 256 * bytes_nat cs"

definition bytes_int :: "string \<Rightarrow> int" where
  "bytes_int s = sint (of_nat (bytes_nat s) :: 32 word)"

text \<open>\<open>strncmp(a, b, n) == 0\<close>: only characters up to the terminating zero and at most \<open>n\<close> of them count.\<close>

definition strncmp_eq :: "string \<Rightarrow> string \<Rightarrow> nat \<Rightarrow> bool" where
  "strncmp_eq a b n \<longleftrightarrow> take n (takeWhile (\<lambda>c. c \<noteq> CHR 0x00) a) = take n (takeWhile (\<lambda>c. c \<noteq> CHR 0x00) b)"

definition put_all :: "int \<Rightarrow> string \<Rightarrow> proc \<Rightarrow> proc" where
  "put_all fd inp k =
     Sys (Write fd inp) (\<lambda>w. if r_val w \<noteq> int (length inp) then Exit 1
     else Sys (Close fd) (\<lambda>c. if r_val c \<noteq> 0 then Exit 1 else k))"

definition create1 :: "string \<Rightarrow> string \<Rightarrow> string \<Rightarrow> proc \<Rightarrow> proc" where
  "create1 d f inp k =
     Sys (Sleep 1) (\<lambda>_. sprintf (d @ ''/'' @ f) (\<lambda>n.
     Sys (Creat n 438) (\<lambda>r. if r_val r < 0 then Exit 1 else put_all (r_val r) inp k)))"

text \<open>\<open>sz\<close> is the size of the local buffer: 21000 in the first program, 512 in the second.\<close>

definition check1 :: "nat \<Rightarrow> string \<Rightarrow> string \<Rightarrow> string \<Rightarrow> proc \<Rightarrow> proc" where
  "check1 sz d f inp k =
     sprintf (d @ ''/'' @ f) (\<lambda>n.
     Sys (Open n []) (\<lambda>fd. if r_val fd < 0 then Exit 1
     else Sys (Read (r_val fd) (sz - 1)) (\<lambda>cc. if r_val cc \<noteq> int (length inp) then Exit 1
     else Sys (Close (r_val fd)) (\<lambda>_. if sz \<le> length inp then Crash
     else if \<not> strncmp_eq (r_data cc) inp (length n) then Exit 1 else k))))"

definition unlink1 :: "string \<Rightarrow> string \<Rightarrow> proc \<Rightarrow> proc" where
  "unlink1 d f k =
     Sys (Sleep 1) (\<lambda>_. sprintf (d @ ''/'' @ f) (\<lambda>n.
     Sys (Unlink n) (\<lambda>r. if r_val r \<noteq> 0 then Exit 1 else k)))"

definition checknot :: "string \<Rightarrow> string \<Rightarrow> proc \<Rightarrow> proc" where
  "checknot d f k = sprintf (d @ ''/'' @ f) (\<lambda>n. Sys (Open n []) (\<lambda>fd. if r_val fd \<ge> 0 then Exit 1 else k))"

definition append1 :: "string \<Rightarrow> string \<Rightarrow> string \<Rightarrow> proc \<Rightarrow> proc" where
  "append1 d f inp k =
     Sys (Sleep 1) (\<lambda>_. sprintf (d @ ''/'' @ f) (\<lambda>n.
     Sys (Open n [O_WRONLY, O_APPEND]) (\<lambda>r. if r_val r < 0 then Exit 1 else put_all (r_val r) inp k)))"

definition write1_char :: "int \<Rightarrow> char \<Rightarrow> nat \<Rightarrow> proc \<Rightarrow> proc" where
  "write1_char fd c i k =
     Sys (Write fd [c]) (\<lambda>w. if r_val w \<noteq> 1 then Exit 1
     else Sys (Fsync fd) (\<lambda>r. if r_val r \<noteq> 0 then Exit 1 else k))"

definition write1_from :: "int \<Rightarrow> nat \<Rightarrow> nat \<Rightarrow> char \<Rightarrow> proc \<Rightarrow> proc" where
  "write1_from fd start n c k =
     Sys (Lseek fd start) (\<lambda>r. if r_val r \<noteq> int start then Exit 1
     else foldr (write1_char fd c) [0..<n] (Sys (Close fd) (\<lambda>r. if r_val r \<noteq> 0 then Exit 1 else k)))"

definition write1 :: "string \<Rightarrow> string \<Rightarrow> nat \<Rightarrow> nat \<Rightarrow> char \<Rightarrow> proc \<Rightarrow> proc" where
  "write1 d f start n c k =
     Sys (Sleep 1) (\<lambda>_. sprintf (d @ ''/'' @ f) (\<lambda>name.
     Sys (Open name [O_WRONLY, O_CREAT]) (\<lambda>r.
     if r_val r < 0 \<and> r_err r = eexist
     then Sys (Open name [O_WRONLY]) (\<lambda>r. if r_val r < 0 then Exit 1 else write1_from (r_val r) start n c k)
     else if r_val r < 0 then Exit 1 else write1_from (r_val r) start n c k)))"

definition checkread_char :: "int \<Rightarrow> char \<Rightarrow> nat \<Rightarrow> proc \<Rightarrow> proc" where
  "checkread_char fd c i k =
     Sys (Read fd 1) (\<lambda>r. if r_val r \<noteq> 1 then Exit 1 else if r_data r \<noteq> [c] then Exit 1 else k)"

definition checkread :: "string \<Rightarrow> string \<Rightarrow> nat \<Rightarrow> nat \<Rightarrow> char \<Rightarrow> proc \<Rightarrow> proc" where
  "checkread d f start n c k =
     Sys (Sleep 1) (\<lambda>_. sprintf (d @ ''/'' @ f) (\<lambda>name.
     Sys (Open name []) (\<lambda>fd. if r_val fd < 0 then Exit 1
     else Sys (Lseek (r_val fd) start) (\<lambda>r. if r_val r \<noteq> int start then Exit 1
     else foldr (checkread_char (r_val fd) c) [0..<n] (Sys (Close (r_val fd)) (\<lambda>_. k))))))"

definition createn_body :: "string \<Rightarrow> string \<Rightarrow> bool \<Rightarrow> nat \<Rightarrow> proc \<Rightarrow> proc" where
  "createn_body d pre dup i k =
     sprintf (d @ ''/'' @ nth_name pre i) (\<lambda>n.
     Sys (Creat n 438) (\<lambda>r.
     if r_val r < 0 \<and> dup \<and> r_err r = eexist then k
     else if r_val r < 0 then Exit 1 else put_all (r_val r) (int_bytes i) k))"

definition createn :: "string \<Rightarrow> string \<Rightarrow> nat \<Rightarrow> bool \<Rightarrow> proc \<Rightarrow> proc" where
  "createn d pre nf dup k = Sys (Sleep 1) (\<lambda>_. foldr (createn_body d pre dup) [0..<nf] k)"

definition checkn_body :: "string \<Rightarrow> string \<Rightarrow> nat \<Rightarrow> proc \<Rightarrow> proc" where
  "checkn_body d pre i k =
     sprintf (d @ ''/'' @ nth_name pre i) (\<lambda>n.
     Sys (Open n []) (\<lambda>fd. if r_val fd < 0 then Exit 1
     else Sys (Read (r_val fd) 4) (\<lambda>cc. if r_val cc \<noteq> 4 then Exit 1
     else if bytes_int (r_data cc) \<noteq> int i then Exit 1
     else Sys (Close (r_val fd)) (\<lambda>_. k))))"

definition checkn :: "string \<Rightarrow> string \<Rightarrow> nat \<Rightarrow> proc \<Rightarrow> proc" where
  "checkn d pre nf k = foldr (checkn_body d pre) [0..<nf] k"

definition unlinkn_body :: "string \<Rightarrow> string \<Rightarrow> nat \<Rightarrow> proc \<Rightarrow> proc" where
  "unlinkn_body d pre i k =
     sprintf (d @ ''/'' @ nth_name pre i) (\<lambda>n. Sys (Unlink n) (\<lambda>r. if r_val r \<noteq> 0 then Exit 1 else k))"

definition unlinkn :: "string \<Rightarrow> string \<Rightarrow> nat \<Rightarrow> proc \<Rightarrow> proc" where
  "unlinkn d pre nf k = Sys (Sleep 1) (\<lambda>_. foldr (unlinkn_body d pre) [0..<nf] k)"

text \<open>
  The loop over the entries of a directory: names that begin with a dot are left out, and the name
  after the thousandth is stored behind the array, which the warning does not prevent.
\<close>

definition dotted :: "string \<Rightarrow> bool" where
  "dotted n \<longleftrightarrow> n \<noteq> [] \<and> hd n = CHR ''.''"

primcorec dircheck_loop :: "int \<Rightarrow> string list \<Rightarrow> (string list \<Rightarrow> proc) \<Rightarrow> proc" where
  "dircheck_loop dp names k =
     Sys (Readdir dp) (\<lambda>e.
       if r_val e = 0 then k names
       else if dotted (r_data e) then dircheck_loop dp names k
       else if length names \<ge> 1000 then Crash
       else dircheck_loop dp (names @ [r_data e]) k)"

fun neighbours_differ :: "string list \<Rightarrow> bool" where
  "neighbours_differ (a # b # ns) \<longleftrightarrow> a \<noteq> b \<and> neighbours_differ (b # ns)"
| "neighbours_differ ns \<longleftrightarrow> True"

definition dircheck :: "string \<Rightarrow> nat \<Rightarrow> proc \<Rightarrow> proc" where
  "dircheck d nf k =
     Sys (Opendir d) (\<lambda>dp. if r_val dp = 0 then Exit 1
     else dircheck_loop (r_val dp) [] (\<lambda>names.
     Sys (Closedir (r_val dp)) (\<lambda>_.
     if nf \<noteq> length names then Exit 1
     else if \<not> neighbours_differ (sort names) then Exit 1 else k)))"

definition reap :: "int \<Rightarrow> proc \<Rightarrow> proc" where
  "reap pid k =
     Sys (Waitpid pid) (\<lambda>w.
       if r_val w < 0 then Exit 1 else if r_val w \<noteq> pid then Exit 1 else if r_status w \<noteq> Some 0 then Exit 1 else k)"

text \<open>\<open>fork\<close>: the child's part and what the parent does with the child's number.\<close>

definition fork :: "proc \<Rightarrow> (int \<Rightarrow> proc) \<Rightarrow> proc" where
  "fork child parent =
     Sys Fork (\<lambda>r. if r_val r < 0 then Exit 1 else if r_val r = 0 then child else parent (r_val r))"

section \<open>test-lab-3-b\<close>

definition big :: string where
  "big = replicate 20000 (CHR ''x'')"

definition huge :: string where
  "huge = replicate 131072 (CHR ''0'')"

text \<open>\<open>printf\<close>; line ends are left out.\<close>

definition say :: "string \<Rightarrow> proc \<Rightarrow> proc" where
  "say t k = Sys (Print t) (\<lambda>_. k)"

definition ok :: "proc \<Rightarrow> proc" where
  "ok k = say ''OK'' k"

definition test_create :: "string \<Rightarrow> string \<Rightarrow> proc \<Rightarrow> proc" where
  "test_create d1 d2 k =
     say ''Create then read: ''
     (create1 d1 ''f1'' ''aaa'' (check1 21000 d2 ''f1'' ''aaa'' (check1 21000 d1 ''f1'' ''aaa'' (ok k))))"

definition test_unlink :: "string \<Rightarrow> string \<Rightarrow> proc \<Rightarrow> proc" where
  "test_unlink d1 d2 k =
     say ''Unlink: ''
     (unlink1 d2 ''f1'' (create1 d1 ''fx1'' ''fxx'' (unlink1 d1 ''fx1'' (checknot d1 ''f1'' (checknot d2 ''f1''
     (create1 d1 ''f2'' ''222'' (unlink1 d2 ''f2'' (checknot d1 ''f2'' (checknot d2 ''f2''
     (create1 d1 ''f3'' ''333'' (check1 21000 d2 ''f3'' ''333'' (check1 21000 d1 ''f3'' ''333'' (unlink1 d1 ''f3''
     (create1 d2 ''fx2'' ''22'' (unlink1 d2 ''fx2'' (checknot d2 ''f3'' (checknot d1 ''f3'' (ok k))))))))))))))))))"

definition test_append :: "string \<Rightarrow> string \<Rightarrow> proc \<Rightarrow> proc" where
  "test_append d1 d2 k =
     say ''Append: ''
     (create1 d2 ''f1'' ''aaa'' (append1 d1 ''f1'' ''bbb'' (append1 d2 ''f1'' ''ccc''
     (check1 21000 d1 ''f1'' ''aaabbbccc'' (check1 21000 d2 ''f1'' ''aaabbbccc'' (ok k))))))"

definition test_readdir :: "string \<Rightarrow> string \<Rightarrow> proc \<Rightarrow> proc" where
  "test_readdir d1 d2 k =
     say ''Readdir: ''
     (dircheck d1 1 (dircheck d2 1 (unlink1 d1 ''f1'' (dircheck d1 0 (dircheck d2 0
     (create1 d2 ''f2'' ''aaa'' (create1 d1 ''f3'' ''aaa'' (dircheck d1 2 (dircheck d2 2
     (unlink1 d2 ''f2'' (dircheck d2 1 (dircheck d1 1 (unlink1 d2 ''f3'' (dircheck d1 0 (dircheck d2 0 (ok k))))))))))))))))"

definition test_sequential :: "string \<Rightarrow> string \<Rightarrow> proc \<Rightarrow> proc" where
  "test_sequential d1 d2 k =
     say ''Many sequential creates: ''
     (createn d1 ''aa'' 10 False (createn d2 ''bb'' 10 False (dircheck d2 20
     (checkn d2 ''bb'' 10 (checkn d2 ''aa'' 10 (checkn d1 ''aa'' 10 (checkn d1 ''bb'' 10
     (unlinkn d1 ''aa'' 10 (unlinkn d2 ''bb'' 10 (ok k))))))))))"

definition test_big :: "string \<Rightarrow> string \<Rightarrow> proc \<Rightarrow> proc" where
  "test_big d1 d2 k =
     say ''Write 20000 bytes: ''
     (create1 d1 ''bf'' big (check1 21000 d1 ''bf'' big (check1 21000 d2 ''bf'' big (unlink1 d1 ''bf'' (ok k)))))"

definition test_concurrent :: "string \<Rightarrow> string \<Rightarrow> proc \<Rightarrow> proc" where
  "test_concurrent d1 d2 k =
     say ''Concurrent creates: ''
     (fork (createn d2 ''xx'' 20 False (Exit 0)) (\<lambda>pid.
       createn d1 ''yy'' 20 False (Sys (Sleep 10) (\<lambda>_. reap pid (dircheck d1 40 (checkn d1 ''xx'' 20
       (checkn d2 ''yy'' 20 (unlinkn d1 ''xx'' 20 (unlinkn d1 ''yy'' 20 (ok k))))))))))"

definition test_same_file :: "string \<Rightarrow> string \<Rightarrow> proc \<Rightarrow> proc" where
  "test_same_file d1 d2 k =
     say ''Concurrent creates of the same file: ''
     (fork (createn d2 ''zz'' 20 True (Exit 0)) (\<lambda>pid.
       createn d1 ''zz'' 20 True (Sys (Sleep 4) (\<lambda>_. dircheck d1 20 (reap pid (checkn d1 ''zz'' 20
       (checkn d2 ''zz'' 20 (unlinkn d1 ''zz'' 20 (ok k)))))))))"

definition test_create_delete :: "string \<Rightarrow> string \<Rightarrow> proc \<Rightarrow> proc" where
  "test_create_delete d1 d2 k =
     say ''Concurrent create/delete: ''
     (createn d1 ''x1'' 20 False (createn d2 ''x2'' 20 False
     (fork (unlinkn d2 ''x1'' 20 (createn d1 ''x3'' 20 False (Exit 0))) (\<lambda>pid.
       createn d1 ''x4'' 20 False (reap pid (unlinkn d2 ''x2'' 20 (unlinkn d2 ''x4'' 20 (unlinkn d2 ''x3'' 20
       (dircheck d1 0 (ok k))))))))))"

definition test_same_server :: "string \<Rightarrow> string \<Rightarrow> proc \<Rightarrow> proc" where
  "test_same_server d1 d2 k =
     say ''Concurrent creates, same file, same server: ''
     (fork (createn d1 ''zz'' 20 True (Exit 0)) (\<lambda>pid.
       createn d1 ''zz'' 20 True (Sys (Sleep 2) (\<lambda>_. dircheck d1 20 (reap pid (checkn d1 ''zz'' 20
       (unlinkn d1 ''zz'' 20 (ok k))))))))"

definition test_parts :: "string \<Rightarrow> string \<Rightarrow> proc \<Rightarrow> proc" where
  "test_parts d1 d2 k =
     say ''Concurrent writes to different parts of same file: ''
     (create1 d1 ''www'' huge
     (fork (write1 d2 ''www'' 65536 64 (CHR ''2'') (Exit 0)) (\<lambda>pid.
       write1 d1 ''www'' 0 64 (CHR ''1'') (reap pid
       (checkread d1 ''www'' 0 64 (CHR ''1'') (checkread d2 ''www'' 0 64 (CHR ''1'')
       (checkread d1 ''www'' 65536 64 (CHR ''2'') (checkread d2 ''www'' 65536 64 (CHR ''2'') (ok k)))))))))"

definition main_b_tests :: "string \<Rightarrow> string \<Rightarrow> proc" where
  "main_b_tests d1 d2 =
     test_create d1 d2 (test_unlink d1 d2 (test_append d1 d2 (test_readdir d1 d2 (test_sequential d1 d2 (test_big d1 d2
     (test_concurrent d1 d2 (test_same_file d1 d2 (test_create_delete d1 d2 (test_same_server d1 d2 (test_parts d1 d2
     (say ''test-lab-3-b: Passed all tests.'' (Exit 0))))))))))))"

definition main_b :: "string list \<Rightarrow> proc" where
  "main_b args =
     (case args of
        [a1, a2] \<Rightarrow>
          Sys Getpid (\<lambda>me. sprintf (a1 @ ''/d'' @ dec_digits (nat (r_val me))) (\<lambda>d1.
          Sys (Mkdir d1 511) (\<lambda>r. if r_val r \<noteq> 0 then Exit 1
          else Sys Getpid (\<lambda>me. sprintf (a2 @ ''/d'' @ dec_digits (nat (r_val me))) (\<lambda>d2.
          Sys (Access d2) (\<lambda>r. if r_val r \<noteq> 0 then Exit 1 else main_b_tests d1 d2))))))
      | _ \<Rightarrow> Exit 1)"

section \<open>test-lab-3-c\<close>

definition createn_c :: "string \<Rightarrow> string \<Rightarrow> nat \<Rightarrow> proc \<Rightarrow> proc" where
  "createn_c d pre nf k =
     Sys (Sleep 1) (\<lambda>_. foldr (\<lambda>i k.
       sprintf (d @ ''/'' @ nth_name pre i) (\<lambda>n.
       Sys (Creat n 438) (\<lambda>r. if r_val r < 0 then Exit 1 else put_all (r_val r) (int_bytes i) k))) [0..<nf] k)"

definition main_c_tests :: "string \<Rightarrow> string \<Rightarrow> proc" where
  "main_c_tests d1 d2 =
     say ''Create/delete in separate directories: ''
     (fork (createn_c d2 ''xx'' 100 (unlinkn d2 ''xx'' 99 (Exit 0))) (\<lambda>pid.
       createn_c d1 ''yy'' 100 (unlinkn d1 ''yy'' 99 (Sys (Sleep 4) (\<lambda>_. reap pid
       (dircheck d1 1 (dircheck d2 1 (say ''tests completed OK'' (Exit 0)))))))))"

definition main_c :: "string list \<Rightarrow> proc" where
  "main_c args =
     (case args of
        [a1, a2] \<Rightarrow>
          Sys Getpid (\<lambda>me. sprintf (a1 @ ''/da'' @ dec_digits (nat (r_val me))) (\<lambda>d1.
          Sys (Mkdir d1 511) (\<lambda>r. if r_val r \<noteq> 0 then Exit 1
          else Sys Getpid (\<lambda>me. sprintf (a2 @ ''/db'' @ dec_digits (nat (r_val me))) (\<lambda>d2.
          Sys (Mkdir d2 511) (\<lambda>r. if r_val r \<noteq> 0 then Exit 1
          else Sys Getpid (\<lambda>me. sprintf (a2 @ ''/da'' @ dec_digits (nat (r_val me))) (\<lambda>dd.
          Sys (Access dd) (\<lambda>r. if r_val r \<noteq> 0 then Exit 1 else main_c_tests d1 d2)))))))))
      | _ \<Rightarrow> Exit 1)"

section \<open>What the checks do not see\<close>

text \<open>
  \<open>check1\<close> compares as many characters as the path has, which are fewer than 512, and not as many as
  the file has: what a long file holds behind them is not looked at.
\<close>

lemma check1_compares_prefix: "length n < 512 \<Longrightarrow> 512 \<le> length p \<Longrightarrow> strncmp_eq (p @ y) (p @ z) (length n)"
  by (cases "\<forall>c \<in> set p. c \<noteq> CHR 0x00") (auto simp: strncmp_eq_def takeWhile_append)

end
