(* ===== verification/Fs_Passes.thy ===== *)
theory Fs_Passes
  imports Fs_Test
begin

text \<open>
  The file system tests pass: on a kernel that keeps the promises of \<open>posix\<close>, every run of either
  program ends with \<open>exit(0)\<close>, however its two processes interleave.  First the rules for a process
  that owns a set of names, then those for the names and the file two processes share.
\<close>

section \<open>What is stored\<close>

datatype ent = EDir | EFile string

definition entry :: "fs \<Rightarrow> string list \<rightharpoonup> ent" where
  "entry f k = (case nodes f k of None \<Rightarrow> None | Some Dir \<Rightarrow> Some EDir | Some (File i) \<Rightarrow> Some (EFile (bytes_of f i)))"

lemma entry_None [simp]: "entry f k = None \<longleftrightarrow> nodes f k = None"
  by (auto simp: entry_def split: option.splits node.splits)

lemma entry_file: "entry f k = Some (EFile c) \<longleftrightarrow> (\<exists>i. nodes f k = Some (File i) \<and> bytes_of f i = c)"
  by (auto simp: entry_def split: option.splits node.splits)

lemma entry_dir [simp]: "entry f k = Some EDir \<longleftrightarrow> nodes f k = Some Dir"
  by (auto simp: entry_def split: option.splits node.splits)

lemma entry_frame: "nodes g = nodes f \<Longrightarrow> bytes_of g = bytes_of f \<Longrightarrow> entry g = entry f"
  by (auto simp: entry_def fun_eq_iff split: option.splits node.splits)

lemma entry_set_fd [simp]: "entry (set_fd me h e f) = entry f"
  by (rule entry_frame) simp_all

lemma entry_scans [simp]: "entry (f\<lparr>scans := x\<rparr>) = entry f" "entry (f\<lparr>fds := y\<rparr>) = entry f"
  by (rule entry_frame; simp)+

lemma entry_bytes:
  assumes ok: "fs_ok f" and k: "nodes f k = Some (File i)"
  shows "entry (f\<lparr>bytes_of := (bytes_of f)(i := c)\<rparr>) = (entry f)(k \<mapsto> EFile c)"
proof
  fix l
  show "entry (f\<lparr>bytes_of := (bytes_of f)(i := c)\<rparr>) l = ((entry f)(k \<mapsto> EFile c)) l"
    using fs_okD(1) [OF ok k, of l] k by (cases "l = k") (auto simp: entry_def split: option.splits node.splits)
qed

lemma entry_new: "unused f i \<Longrightarrow> entry (new_file k i f) = (entry f)(k \<mapsto> EFile [])"
  by (auto simp: entry_def unused_def fun_eq_iff split: option.splits node.splits)

lemma entry_unlink: "entry (f\<lparr>nodes := (nodes f)(k := None)\<rparr>) = (entry f)(k := None)"
  by (auto simp: entry_def fun_eq_iff split: option.splits node.splits)

lemma entry_mkdir: "entry (f\<lparr>nodes := (nodes f)(k \<mapsto> Dir)\<rparr>) = (entry f)(k \<mapsto> EDir)"
  by (auto simp: entry_def fun_eq_iff split: option.splits node.splits)

section \<open>Ownership\<close>

text \<open>What the others may do to a process that owns the names \<open>A\<close>, and what such a process may do.\<close>

definition others :: "int \<Rightarrow> string list set \<Rightarrow> fs \<Rightarrow> fs \<Rightarrow> bool" where
  "others me A f g \<longleftrightarrow>
     fds g me = fds f me \<and> scans g me = scans f me \<and> (\<forall>k. nodes f k = Some Dir \<longrightarrow> nodes g k = Some Dir) \<and>
     (\<forall>k \<in> A. nodes g k = nodes f k \<and> entry g k = entry f k)"

definition mine :: "int \<Rightarrow> string list set \<Rightarrow> fs \<Rightarrow> fs \<Rightarrow> bool" where
  "mine me A f g \<longleftrightarrow>
     (\<forall>p. p \<noteq> me \<longrightarrow> fds g p = fds f p \<and> scans g p = scans f p) \<and> (\<forall>k. nodes f k = Some Dir \<longrightarrow> nodes g k = Some Dir) \<and>
     (\<forall>k. k \<notin> A \<longrightarrow> nodes g k = nodes f k \<and> entry g k = entry f k)"

lemma mine_others: "mine me A f g \<Longrightarrow> me \<noteq> you \<Longrightarrow> A \<inter> B = {} \<Longrightarrow> others you B f g"
  by (auto simp: mine_def others_def)

definition has :: "string list set \<Rightarrow> (string list \<rightharpoonup> ent) \<Rightarrow> string list set \<Rightarrow> fs \<Rightarrow> bool" where
  "has A m Ds f \<longleftrightarrow> (\<forall>k \<in> A. entry f k = m k) \<and> (\<forall>d \<in> Ds. nodes f d = Some Dir)"

definition owns :: "int \<Rightarrow> string list set \<Rightarrow> (string list \<rightharpoonup> ent) \<Rightarrow> string list set \<Rightarrow> fs \<Rightarrow> bool" where
  "owns me A m Ds f \<longleftrightarrow> fds f me = Map.empty \<and> has A m Ds f"

definition holding ::
  "int \<Rightarrow> string list set \<Rightarrow> (string list \<rightharpoonup> ent) \<Rightarrow> string list set \<Rightarrow> string list \<Rightarrow> int \<Rightarrow> ofile \<Rightarrow> fs \<Rightarrow> bool" where
  "holding me A m Ds k h e f \<longleftrightarrow>
     fds f me = [h \<mapsto> e] \<and> nodes f k = Some (File (o_ino e)) \<and> k \<in> A \<and> has A m Ds f"

lemma has_file: "has A m Ds f \<Longrightarrow> k \<in> A \<Longrightarrow> m k = Some (EFile c) \<Longrightarrow> \<exists>i. nodes f k = Some (File i) \<and> bytes_of f i = c"
  unfolding has_def by (metis entry_file)

lemma has_stable: "has A m Ds g \<Longrightarrow> others me A g h \<Longrightarrow> has A m Ds h"
  by (auto simp: has_def others_def)

lemma owns_stable: "owns me A m Ds g \<Longrightarrow> others me A g h \<Longrightarrow> owns me A m Ds h"
  using has_stable [of A m Ds g me h] by (auto simp: owns_def others_def)

lemma holding_stable: "holding me A m Ds k l e g \<Longrightarrow> others me A g h \<Longrightarrow> holding me A m Ds k l e h"
  using has_stable [of A m Ds g me h] unfolding holding_def others_def by simp

abbreviation own ::
  "(string \<Rightarrow> string list option) \<Rightarrow> int \<Rightarrow> string list set \<Rightarrow> (proc \<Rightarrow> fs \<Rightarrow> bool) \<Rightarrow> fs \<Rightarrow> proc \<Rightarrow> bool" where
  "own loc me A W \<equiv> rg loc me (others me A) (mine me A) W"

lemma owns_call:
  assumes "plain c" "owns me A m Ds f"
    and "\<And>g r h. owns me A m Ds g \<Longrightarrow> fs_ok g \<Longrightarrow> posix loc me c g r h \<Longrightarrow> mine me A g h \<and> own loc me A W h (k r)"
  shows "own loc me A W f (Sys c k)"
  using assms owns_stable by (intro rg_call [where P = "owns me A m Ds"])

lemma holding_call:
  assumes "plain c" "holding me A m Ds kk l e f"
    and "\<And>g r h. holding me A m Ds kk l e g \<Longrightarrow> fs_ok g \<Longrightarrow> posix loc me c g r h \<Longrightarrow> mine me A g h \<and> own loc me A W h (k r)"
  shows "own loc me A W f (Sys c k)"
  using assms holding_stable by (intro rg_call [where P = "holding me A m Ds kk l e"])

lemma mine_refl [simp]: "mine me A f f"
  by (simp add: mine_def)

lemma own_idle:
  assumes "c = Sleep n \<or> c = Print t" "owns me A m Ds f" "\<And>g r. owns me A m Ds g \<Longrightarrow> own loc me A W g (k r)"
  shows "own loc me A W f (Sys c k)"
  by (rule owns_call [OF _ assms(2)]) (use assms(1,3) in auto)

lemma own_creat:
  assumes own: "owns me A m Ds f" and k: "k \<in> A" "m k = None" "k \<noteq> []" "butlast k \<in> Ds" "loc p = Some k"
    and go: "\<And>g r i. 0 \<le> r_val r \<Longrightarrow> holding me A (m(k \<mapsto> EFile [])) Ds k (r_val r) \<lparr>o_ino = i, o_pos = 0, o_app = False, o_wr = True\<rparr> g \<Longrightarrow>
      own loc me A W g (kk r)"
  shows "own loc me A W f (Sys (Creat p mode) kk)"
proof (rule owns_call [OF _ own])
  fix g r h assume g: "owns me A m Ds g" and p: "posix loc me (Creat p mode) g r h"
  have dir: "in_dir g k" "nodes g k = None" using g k by (auto simp: owns_def has_def in_dir_def)
  then obtain i where i: "unused g i" "opens me \<lparr>o_ino = i, o_pos = 0, o_app = False, o_wr = True\<rparr> (new_file k i g) r h"
    using p k(5) by (auto simp: posix_open_def creates_def)
  have e: "entry h = (entry g)(k \<mapsto> EFile [])" "nodes h = (nodes g)(k \<mapsto> File i)" "0 \<le> r_val r"
    using i entry_new [OF i(1), of k] by (auto simp: opens_def)
  have "holding me A (m(k \<mapsto> EFile [])) Ds k (r_val r) \<lparr>o_ino = i, o_pos = 0, o_app = False, o_wr = True\<rparr> h"
    using g i(2) e k(1) dir(2) by (auto simp: holding_def owns_def has_def opens_def)
  moreover have "mine me A g h" using i(2) e k(1) dir(2) by (auto simp: mine_def opens_def)
  ultimately show "mine me A g h \<and> own loc me A W h (kk r)" using go e(3) by blast
qed simp

lemma own_open:
  assumes own: "owns me A m Ds f" and k: "k \<in> A" "m k = Some (EFile c)" "loc p = Some k" "O_CREAT \<notin> set fl"
    and go: "\<And>g r i. 0 \<le> r_val r \<Longrightarrow>
      holding me A m Ds k (r_val r) \<lparr>o_ino = i, o_pos = 0, o_app = O_APPEND \<in> set fl, o_wr = O_WRONLY \<in> set fl\<rparr> g \<Longrightarrow>
      own loc me A W g (kk r)"
  shows "own loc me A W f (Sys (Open p fl) kk)"
proof (rule owns_call [OF _ own])
  fix g r h assume g: "owns me A m Ds g" and p: "posix loc me (Open p fl) g r h"
  obtain i where i: "nodes g k = Some (File i)" using g k has_file unfolding owns_def by blast
  then have o: "opens me \<lparr>o_ino = i, o_pos = 0, o_app = O_APPEND \<in> set fl, o_wr = O_WRONLY \<in> set fl\<rparr> g r h"
    using p k by (simp add: posix_open_def)
  then have "holding me A m Ds k (r_val r) \<lparr>o_ino = i, o_pos = 0, o_app = O_APPEND \<in> set fl, o_wr = O_WRONLY \<in> set fl\<rparr> h"
    using g i k(1) by (auto simp: holding_def owns_def has_def opens_def)
  then show "mine me A g h \<and> own loc me A W h (kk r)" using go o by (auto simp: mine_def opens_def)
qed simp

lemma own_open_fails:
  assumes own: "owns me A m Ds f" and k: "k \<in> A" "m k = None" "loc p = Some k" "O_CREAT \<notin> set fl"
    and go: "\<And>g r. r_val r < 0 \<Longrightarrow> owns me A m Ds g \<Longrightarrow> own loc me A W g (kk r)"
  shows "own loc me A W f (Sys (Open p fl) kk)"
proof (rule owns_call [OF _ own])
  fix g r h assume g: "owns me A m Ds g" and p: "posix loc me (Open p fl) g r h"
  have "nodes g k = None" using g k by (auto simp: owns_def has_def)
  then have "r_val r < 0" "h = g" using p k(3,4) by (auto simp: posix_open_def refused_def)
  then show "mine me A g h \<and> own loc me A W h (kk r)" using go g by simp
qed simp

lemma own_unlink:
  assumes own: "owns me A m Ds f" and k: "k \<in> A" "m k = Some (EFile c)" "loc p = Some k"
    and go: "\<And>g r. r_val r = 0 \<Longrightarrow> owns me A (m(k := None)) Ds g \<Longrightarrow> own loc me A W g (kk r)"
  shows "own loc me A W f (Sys (Unlink p) kk)"
proof (rule owns_call [OF _ own])
  fix g r h assume g: "owns me A m Ds g" and p: "posix loc me (Unlink p) g r h"
  obtain i where i: "nodes g k = Some (File i)" using g k has_file unfolding owns_def by blast
  then have h: "h = g\<lparr>nodes := (nodes g)(k := None)\<rparr>" "r_val r = 0" using p k(3) by simp_all
  have "owns me A (m(k := None)) Ds h" using g i by (auto simp: h owns_def has_def entry_unlink)
  then show "mine me A g h \<and> own loc me A W h (kk r)" using go h k(1) i by (auto simp: mine_def entry_unlink)
qed simp

lemma own_close:
  assumes h: "holding me A m Ds k h e f" and go: "\<And>g r. r_val r = 0 \<Longrightarrow> owns me A m Ds g \<Longrightarrow> own loc me A W g (kk r)"
  shows "own loc me A W f (Sys (Close h) kk)"
proof (rule holding_call [OF _ h])
  fix g r t assume g: "holding me A m Ds k h e g" and p: "posix loc me (Close h) g r t"
  then have t: "t = set_fd me h None g" "r_val r = 0" by (auto simp: holding_def)
  then have "owns me A m Ds t" using g by (auto simp: holding_def owns_def has_def)
  then show "mine me A g t \<and> own loc me A W t (kk r)" using go t by (auto simp: mine_def)
qed simp

lemma own_read:
  assumes h: "holding me A m Ds k h e f" and e: "\<not> o_wr e" "m k = Some (EFile c)"
    and go: "\<And>g r. r_data r = take n (drop (o_pos e) c) \<Longrightarrow> r_val r = int (length (r_data r)) \<Longrightarrow>
      holding me A m Ds k h (e\<lparr>o_pos := o_pos e + length (r_data r)\<rparr>) g \<Longrightarrow> own loc me A W g (kk r)"
  shows "own loc me A W f (Sys (Read h n) kk)"
proof (rule holding_call [OF _ h])
  fix g r t assume g: "holding me A m Ds k h e g" and p: "posix loc me (Read h n) g r t"
  have "entry g k = Some (EFile c)" using g e by (simp add: holding_def has_def)
  then have "bytes_of g (o_ino e) = c" using g by (auto simp: entry_file holding_def)
  then have r: "r_data r = take n (drop (o_pos e) c)" "r_val r = int (length (r_data r))"
    "t = set_fd me h (Some (e\<lparr>o_pos := o_pos e + length (r_data r)\<rparr>)) g" using p g e(1) by (auto simp: holding_def)
  then have "holding me A m Ds k h (e\<lparr>o_pos := o_pos e + length (r_data r)\<rparr>) t" using g by (auto simp: holding_def has_def)
  then show "mine me A g t \<and> own loc me A W t (kk r)" using go r by (auto simp: mine_def)
qed simp

lemma own_lseek:
  assumes h: "holding me A m Ds k h e f"
    and go: "\<And>g r. r_val r = int n \<Longrightarrow> holding me A m Ds k h (e\<lparr>o_pos := n\<rparr>) g \<Longrightarrow> own loc me A W g (kk r)"
  shows "own loc me A W f (Sys (Lseek h n) kk)"
proof (rule holding_call [OF _ h])
  fix g r t assume g: "holding me A m Ds k h e g" and p: "posix loc me (Lseek h n) g r t"
  then have r: "r_val r = int n" "t = set_fd me h (Some (e\<lparr>o_pos := n\<rparr>)) g" by (auto simp: holding_def)
  then have "holding me A m Ds k h (e\<lparr>o_pos := n\<rparr>) t" using g by (auto simp: holding_def has_def)
  then show "mine me A g t \<and> own loc me A W t (kk r)" using go r by (auto simp: mine_def)
qed simp

lemma own_write:
  assumes h: "holding me A m Ds k h e f" and e: "o_wr e" "m k = Some (EFile c)" "q = (if o_app e then length c else o_pos e)"
    and go: "\<And>g r. r_val r = int (length d) \<Longrightarrow> holding me A (m(k \<mapsto> EFile (wr q d c))) Ds k h (e\<lparr>o_pos := q + length d\<rparr>) g \<Longrightarrow>
      own loc me A W g (kk r)"
  shows "own loc me A W f (Sys (Write h d) kk)"
proof (rule holding_call [OF _ h])
  fix g r t assume g: "holding me A m Ds k h e g" and ok: "fs_ok g" and p: "posix loc me (Write h d) g r t"
  have "entry g k = Some (EFile c)" using g e by (simp add: holding_def has_def)
  then have c: "bytes_of g (o_ino e) = c" using g by (auto simp: entry_file holding_def)
  define g' where "g' = g\<lparr>bytes_of := (bytes_of g)(o_ino e := wr q d c)\<rparr>"
  have e': "entry g' = (entry g)(k \<mapsto> EFile (wr q d c))" "nodes g' = nodes g" "fds g' = fds g" "scans g' = scans g"
    using entry_bytes [OF ok] g by (auto simp: g'_def holding_def)
  have r: "r_val r = int (length d)" "t = set_fd me h (Some (e\<lparr>o_pos := q + length d\<rparr>)) g'"
    using p g e(1,3) c by (auto simp: holding_def Let_def g'_def)
  have "holding me A (m(k \<mapsto> EFile (wr q d c))) Ds k h (e\<lparr>o_pos := q + length d\<rparr>) t"
    using g e' by (auto simp: r(2) holding_def has_def)
  then show "mine me A g t \<and> own loc me A W t (kk r)" using go r e' g by (auto simp: mine_def holding_def)
qed simp

lemma own_put_all:
  assumes h: "holding me A m Ds k h e f" and e: "o_wr e" "m k = Some (EFile c)" "q = (if o_app e then length c else o_pos e)"
    and go: "\<And>g. owns me A (m(k \<mapsto> EFile (wr q d c))) Ds g \<Longrightarrow> own loc me A W g kk"
  shows "own loc me A W f (put_all h d kk)"
  unfolding put_all_def by (rule own_write [OF h e]) (auto intro!: own_close go)

section \<open>Names and paths\<close>

definition fname :: "string \<Rightarrow> bool" where
  "fname n \<longleftrightarrow> n \<noteq> [] \<and> CHR ''/'' \<notin> set n \<and> length n < 200"

text \<open>The path \<open>d\<close> leads to the directory \<open>D\<close> of the file system.\<close>

definition leads :: "(string \<Rightarrow> string list option) \<Rightarrow> string \<Rightarrow> string \<Rightarrow> bool" where
  "leads loc d D \<longleftrightarrow> length d < 300 \<and> loc d = Some [D] \<and> (\<forall>n. fname n \<longrightarrow> loc (d @ ''/'' @ n) = Some [D, n])"

lemma leads_path: "leads loc d D \<Longrightarrow> fname n \<Longrightarrow> loc (d @ ''/'' @ n) = Some [D, n] \<and> sprintf (d @ ''/'' @ n) k = k (d @ ''/'' @ n)"
  by (simp add: leads_def sprintf_def fname_def)

lemma dec_digits_length: "length (dec_digits i) \<le> Suc i"
proof (induction i rule: dec_digits.induct)
  case (1 n)
  show ?case
  proof (cases "n < 10")
    case False
    then have "length (dec_digits (n div 10)) \<le> Suc (n div 10)" using 1 by simp
    moreover have "n div 10 < n" using False by simp
    ultimately show ?thesis using False by (simp add: dec_digits.simps [of n])
  qed (simp add: dec_digits.simps [of n])
qed

lemma nth_name_fname: "fname p \<Longrightarrow> length p \<le> 50 \<Longrightarrow> i < 100 \<Longrightarrow> fname (nth_name p i)"
  using dec_digits_length [of i] dec_digits_all [of i] digit_not_special by (fastforce simp: fname_def nth_name_def)

lemma dec_digits_inj: "dec_digits i = dec_digits j \<longleftrightarrow> i = j"
  by (metis digits_value_dec)

lemma nth_name_eq: "length p = length q \<Longrightarrow> nth_name p i = nth_name q j \<longleftrightarrow> p = q \<and> i = j"
  by (auto simp: nth_name_def dec_digits_inj)

lemma int_bytes_length [simp]: "length (int_bytes i) = 4"
  by (simp add: int_bytes_def)

lemma bytes_int_bytes: "i < 2 ^ 31 \<Longrightarrow> bytes_int (int_bytes i) = int i"
proof -
  assume i: "i < 2 ^ 31"
  have "i div 16777216 mod 256 = i div 16777216" using i by simp
  moreover have "i div 65536 = i div 256 div 256" "i div 16777216 = i div 256 div 256 div 256"
    by (simp_all add: div_mult2_eq [symmetric])
  then have "i mod 256 + 256 * (i div 256 mod 256 + 256 * (i div 65536 mod 256 + 256 * (i div 16777216))) = i"
    by (simp only: mod_mult_div_eq)
  ultimately have "bytes_nat (int_bytes i) = i" by (simp add: int_bytes_def)
  then show ?thesis using i by (simp add: bytes_int_def signed_of_nat signed_take_bit_int_eq_self)
qed

lemma wr_simps [simp]: "wr 0 d [] = d" "wr (length c) d c = c @ d"
  by (simp_all add: wr_def)

section \<open>The functions of the tests on owned names\<close>

lemma own_create1:
  assumes "owns me A m Ds f" "leads loc d D" "fname n" "[D, n] \<in> A" "m [D, n] = None" "[D] \<in> Ds"
    and go: "\<And>g. owns me A (m([D, n] \<mapsto> EFile inp)) Ds g \<Longrightarrow> own loc me A W g k"
  shows "own loc me A W f (create1 d n inp k)"
  unfolding create1_def
  by (rule own_idle [OF _ assms(1)]) (use assms leads_path [OF assms(2,3)] in \<open>auto intro!: own_creat own_put_all\<close>)

lemma own_check1:
  assumes "owns me A m Ds f" "leads loc d D" "fname n" "[D, n] \<in> A" "m [D, n] = Some (EFile inp)" "length inp < sz"
    and go: "\<And>g. owns me A m Ds g \<Longrightarrow> own loc me A W g k"
  shows "own loc me A W f (check1 sz d n inp k)"
proof -
  have "own loc me A W f (Sys (Open (d @ ''/'' @ n) []) (\<lambda>fd. if r_val fd < 0 then Exit 1
     else Sys (Read (r_val fd) (sz - 1)) (\<lambda>cc. if r_val cc \<noteq> int (length inp) then Exit 1
     else Sys (Close (r_val fd)) (\<lambda>_. if sz \<le> length inp then Crash
     else if \<not> strncmp_eq (r_data cc) inp (length (d @ ''/'' @ n)) then Exit 1 else k))))"
    by (rule own_open [OF assms(1,4,5)], use leads_path [OF assms(2,3)] in \<open>simp_all\<close>,
        rule own_read, assumption, use assms(5,6) go in \<open>auto simp: strncmp_eq_def intro!: own_close\<close>)
  then show ?thesis by (simp only: check1_def leads_path [OF assms(2,3), THEN conjunct2])
qed

lemma own_unlink1:
  assumes "owns me A m Ds f" "leads loc d D" "fname n" "[D, n] \<in> A" "m [D, n] = Some (EFile c)"
    and go: "\<And>g. owns me A (m([D, n] := None)) Ds g \<Longrightarrow> own loc me A W g k"
  shows "own loc me A W f (unlink1 d n k)"
  unfolding unlink1_def
  by (rule own_idle [OF _ assms(1)]) (use assms leads_path [OF assms(2,3)] in \<open>auto intro!: own_unlink\<close>)

lemma own_checknot:
  assumes "owns me A m Ds f" "leads loc d D" "fname n" "[D, n] \<in> A" "m [D, n] = None"
    and go: "\<And>g. owns me A m Ds g \<Longrightarrow> own loc me A W g k"
  shows "own loc me A W f (checknot d n k)"
  unfolding checknot_def using assms leads_path [OF assms(2,3)] by (auto intro!: own_open_fails)

lemma own_append1:
  assumes "owns me A m Ds f" "leads loc d D" "fname n" "[D, n] \<in> A" "m [D, n] = Some (EFile c)"
    and go: "\<And>g. owns me A (m([D, n] \<mapsto> EFile (c @ inp))) Ds g \<Longrightarrow> own loc me A W g k"
  shows "own loc me A W f (append1 d n inp k)"
  unfolding append1_def
  by (rule own_idle [OF _ assms(1)]) (use assms leads_path [OF assms(2,3)] in \<open>auto intro!: own_open own_put_all\<close>)

text \<open>The files \<open>p-0\<close> to \<open>p-(n-1)\<close>.\<close>

fun added :: "string \<Rightarrow> string \<Rightarrow> nat \<Rightarrow> (string list \<rightharpoonup> ent) \<Rightarrow> (string list \<rightharpoonup> ent)" where
  "added D p 0 m = m"
| "added D p (Suc n) m = (added D p n m)([D, nth_name p n] \<mapsto> EFile (int_bytes n))"

fun removed :: "string \<Rightarrow> string \<Rightarrow> nat \<Rightarrow> (string list \<rightharpoonup> ent) \<Rightarrow> (string list \<rightharpoonup> ent)" where
  "removed D p 0 m = m"
| "removed D p (Suc n) m = (removed D p n m)([D, nth_name p n] := None)"

definition series :: "string \<Rightarrow> string \<Rightarrow> nat \<Rightarrow> string list set" where
  "series D p n = (\<lambda>i. [D, nth_name p i]) ` {..<n}"

lemma series_Suc: "series D p (Suc n) = insert [D, nth_name p n] (series D p n)"
  by (simp add: series_def lessThan_Suc)

lemma series_mem: "[D, nth_name p i] \<in> series D p n \<longleftrightarrow> i < n"
  by (auto simp: series_def nth_name_eq)

lemma added_at: "i < n \<Longrightarrow> added D p n m [D, nth_name p i] = Some (EFile (int_bytes i))"
  by (induction n) (auto simp: nth_name_eq)

lemma added_other: "k \<notin> series D p n \<Longrightarrow> added D p n m k = m k"
  by (induction n) (auto simp: series_Suc)

lemma removed_at: "removed D p n m k = (if k \<in> series D p n then None else m k)"
  by (induction n) (auto simp: series_Suc, auto simp: series_def)

lemma own_createn:
  assumes "owns me A m Ds f" "leads loc d D" "fname p" "length p \<le> 50" "n \<le> 100" "[D] \<in> Ds"
    and new: "series D p n \<subseteq> A" "\<And>k. k \<in> series D p n \<Longrightarrow> m k = None"
    and go: "\<And>g. owns me A (added D p n m) Ds g \<Longrightarrow> own loc me A W g k"
  shows "own loc me A W f (createn d p n dup k)"
proof -
  have body: "own loc me A W g (createn_body d p dup i kk)"
    if i: "i < n" and g: "owns me A (added D p i m) Ds g"
      and kk: "\<And>g. owns me A (added D p (Suc i) m) Ds g \<Longrightarrow> own loc me A W g kk" for i g kk
  proof -
    have "[D, nth_name p i] \<in> series D p n" using i by (simp add: series_mem)
    then have "[D, nth_name p i] \<in> A" "added D p i m [D, nth_name p i] = None"
      using new added_other [of "[D, nth_name p i]" D p i m] by (auto simp: series_mem)
    then show ?thesis
      unfolding createn_body_def using leads_path [OF assms(2) nth_name_fname [OF assms(3,4)]] i assms(5,6) kk
      by (auto intro!: own_creat [OF g] own_put_all)
  qed
  show ?thesis
    unfolding createn_def
    by (rule own_idle [OF _ assms(1)], simp, rule rg_loop [where P = "\<lambda>i. owns me A (added D p i m) Ds"])
      (use body go in simp_all)
qed

lemma own_checkn:
  assumes "owns me A m Ds f" "leads loc d D" "fname p" "length p \<le> 50" "n \<le> 100"
    and old: "series D p n \<subseteq> A" "\<And>i. i < n \<Longrightarrow> m [D, nth_name p i] = Some (EFile (int_bytes i))"
    and go: "\<And>g. owns me A m Ds g \<Longrightarrow> own loc me A W g k"
  shows "own loc me A W f (checkn d p n k)"
proof -
  have body: "own loc me A W g (checkn_body d p i kk)"
    if i: "i < n" and g: "owns me A m Ds g" and kk: "\<And>g. owns me A m Ds g \<Longrightarrow> own loc me A W g kk" for i g kk
  proof -
    have A: "[D, nth_name p i] \<in> A" using old(1) i series_mem [of D p i n] by blast
    have "own loc me A W g (Sys (Open (d @ ''/'' @ nth_name p i) []) (\<lambda>fd. if r_val fd < 0 then Exit 1
     else Sys (Read (r_val fd) 4) (\<lambda>cc. if r_val cc \<noteq> 4 then Exit 1
     else if bytes_int (r_data cc) \<noteq> int i then Exit 1
     else Sys (Close (r_val fd)) (\<lambda>_. kk))))"
      by (rule own_open [OF g A old(2) [OF i]],
          use leads_path [OF assms(2) nth_name_fname [OF assms(3,4)]] i assms(5) in \<open>simp_all\<close>,
          rule own_read, assumption, use old(2) [OF i] i assms(5) kk bytes_int_bytes [of i] in \<open>auto intro: own_close\<close>)
    then show ?thesis
      using leads_path [OF assms(2) nth_name_fname [OF assms(3,4)]] i assms(5) by (simp add: checkn_body_def)
  qed
  show ?thesis
    unfolding checkn_def by (rule rg_loop [where P = "\<lambda>i. owns me A m Ds"]) (use assms(1) body go in simp_all)
qed

lemma own_unlinkn:
  assumes "owns me A m Ds f" "leads loc d D" "fname p" "length p \<le> 50" "n \<le> 100"
    and old: "series D p n \<subseteq> A" "\<And>i. i < n \<Longrightarrow> \<exists>c. m [D, nth_name p i] = Some (EFile c)"
    and go: "\<And>g. owns me A (removed D p n m) Ds g \<Longrightarrow> own loc me A W g k"
  shows "own loc me A W f (unlinkn d p n k)"
proof -
  have body: "own loc me A W g (unlinkn_body d p i kk)"
    if i: "i < n" and g: "owns me A (removed D p i m) Ds g"
      and kk: "\<And>g. owns me A (removed D p (Suc i) m) Ds g \<Longrightarrow> own loc me A W g kk" for i g kk
  proof -
    obtain c where c: "removed D p i m [D, nth_name p i] = Some (EFile c)"
      using old(2) [OF i] by (auto simp: removed_at series_mem)
    have "[D, nth_name p i] \<in> A" using old(1) i series_mem [of D p i n] by blast
    then show ?thesis
      unfolding unlinkn_body_def using leads_path [OF assms(2) nth_name_fname [OF assms(3,4)]] i assms(5) kk
      by (auto intro!: own_unlink [OF g _ c])
  qed
  show ?thesis
    unfolding unlinkn_def
    by (rule own_idle [OF _ assms(1)], simp, rule rg_loop [where P = "\<lambda>i. owns me A (removed D p i m) Ds"])
      (use body go in simp_all)
qed

section \<open>Reading a directory\<close>

abbreviation dots :: "string set" where
  "dots \<equiv> {''.'', ''..''}"

lemma dots_dotted: "n \<in> dots \<Longrightarrow> dotted n"
  by (auto simp: dotted_def)

lemma neighbours_differ_distinct: "distinct ns \<Longrightarrow> neighbours_differ ns"
  by (induction ns rule: neighbours_differ.induct) auto

text \<open>
  \<open>P\<close> is kept by the others and fixes the entries of the directory; reading it changes nothing but the
  reader's own position.
\<close>

definition quiet :: "int \<Rightarrow> (fs \<Rightarrow> fs \<Rightarrow> bool) \<Rightarrow> (fs \<Rightarrow> fs \<Rightarrow> bool) \<Rightarrow> string \<Rightarrow> string set \<Rightarrow> (fs \<Rightarrow> bool) \<Rightarrow> bool" where
  "quiet me R G D S P \<longleftrightarrow>
     (\<forall>g h. P g \<longrightarrow> R g h \<longrightarrow> P h \<and> scans h me = scans g me) \<and>
     (\<forall>g. P g \<longrightarrow> nodes g [D] = Some Dir \<and> {n. nodes g [D, n] \<noteq> None} = S \<and> G g g) \<and>
     (\<forall>g x. P g \<longrightarrow> P (g\<lparr>scans := (scans g)(me := x)\<rparr>) \<and> G g (g\<lparr>scans := (scans g)(me := x)\<rparr>))"

lemma quietD:
  assumes "quiet me R G D S P" "P g"
  shows "R g h \<Longrightarrow> P h" "R g h \<Longrightarrow> scans h me = scans g me" "nodes g [D] = Some Dir" "{n. nodes g [D, n] \<noteq> None} = S" "G g g"
    "P (g\<lparr>scans := (scans g)(me := x)\<rparr>)" "G g (g\<lparr>scans := (scans g)(me := x)\<rparr>)"
  using assms unfolding quiet_def by blast+

lemma rg_quiet_call:
  assumes q: "quiet me R G D S P" and P: "P f" and c: "plain c"
    and go: "\<And>g r h. P g \<Longrightarrow> scans g me = scans f me \<Longrightarrow> posix loc me c g r h \<Longrightarrow> G g h \<and> rg loc me R G W h (k r)"
  shows "rg loc me R G W f (Sys c k)"
  by (rule rg_call [where P = "\<lambda>g. P g \<and> scans g me = scans f me", OF c]) (use P go quietD(1,2) [OF q] in auto)

lemma rg_dircheck_loop:
  assumes q: "quiet me R G D S P" and S: "finite S" "card {n \<in> S. \<not> dotted n} \<le> 1000"
    and go: "\<And>g names. P g \<Longrightarrow> set names = {n \<in> S. \<not> dotted n} \<Longrightarrow> distinct names \<Longrightarrow> rg loc me R G W g (kk names)"
    and f: "P f" "scans f me dp = Some ([D], S, seen)" "seen \<subseteq> S \<union> dots"
    and names: "set names = {n \<in> seen. \<not> dotted n}" "distinct names"
  shows "rg loc me R G W f (dircheck_loop dp names kk)"
  using f names
proof (induction "card (S \<union> dots - seen)" arbitrary: f seen names rule: less_induct)
  case less
  have next_ok: "rg loc me R G W h
      (if r_val r = 0 then kk names else if dotted (r_data r) then dircheck_loop dp names kk
       else if length names \<ge> 1000 then Crash else dircheck_loop dp (names @ [r_data r]) kk) \<and> G g h"
    if g: "P g" "scans g me = scans f me" and p: "posix loc me (Readdir dp) g r h" for g r h
  proof (cases "r_val r = 0")
    case True
    have "n \<in> seen" if "n \<in> S" for n using that p g(2) less.prems(2) True quietD(4) [OF q g(1)] by auto
    then have "S \<subseteq> seen" "h = g" using p g(2) less.prems(2) True by auto
    then have "set names = {n \<in> S. \<not> dotted n}" using less.prems(3,4) dots_dotted by blast
    then show ?thesis using True go [OF g(1)] less.prems(5) \<open>h = g\<close> quietD(5) [OF q g(1)] by simp
  next
    case False
    let ?n = "r_data r"
    let ?seen = "insert ?n seen"
    have n: "?n \<notin> seen" "?n \<in> S \<union> dots"
      and h: "h = g\<lparr>scans := (scans g)(me := (scans g me)(dp \<mapsto> ([D], S, ?seen)))\<rparr>"
      using p g(2) less.prems(2) False quietD(4) [OF q g(1)] by auto
    have P: "P h" "G g h" "scans h me dp = Some ([D], S, ?seen)" using quietD(6,7) [OF q g(1)] by (simp_all add: h)
    have "S \<union> dots - ?seen \<subset> S \<union> dots - seen" using n by blast
    then have "card (S \<union> dots - ?seen) < card (S \<union> dots - seen)" by (rule psubset_card_mono [rotated]) (use S(1) in simp)
    note IH = less.hyps [OF this P(1,3)]
    have sub: "?seen \<subseteq> S \<union> dots" using n(2) less.prems(3) by blast
    show ?thesis
    proof (cases "dotted ?n")
      case True
      have "set names = {n \<in> ?seen. \<not> dotted n}" using True less.prems(4) by auto
      then have "rg loc me R G W h (dircheck_loop dp names kk)" using less.prems(5) by (intro IH sub)
      then show ?thesis using True False P(2) by simp
    next
      case nd: False
      have new: "set (names @ [?n]) = {n \<in> ?seen. \<not> dotted n}" "distinct (names @ [?n])"
        using nd n(1) less.prems(4,5) by auto
      then have "set (names @ [?n]) \<subseteq> {n \<in> S. \<not> dotted n}" using sub dots_dotted by blast
      then have "length (names @ [?n]) \<le> 1000"
        using card_mono [of "{n \<in> S. \<not> dotted n}" "set (names @ [?n])"] S distinct_card [OF new(2)] by simp
      then show ?thesis using IH [OF sub new] False nd P(2) by simp
    qed
  qed
  show ?case
    by (subst dircheck_loop.code, rule rg_quiet_call [OF q less.prems(1)]) (use next_ok in \<open>simp_all only: plain.simps simp_thms\<close>)
qed

lemma rg_dircheck:
  assumes q: "quiet me R G D S P" and P: "P f" and d: "leads loc d D" and S: "finite S" "card {n \<in> S. \<not> dotted n} = nf" "nf \<le> 1000"
    and go: "\<And>g. P g \<Longrightarrow> rg loc me R G W g k"
  shows "rg loc me R G W f (dircheck d nf k)"
  unfolding dircheck_def
proof (rule rg_quiet_call [OF q P])
  let ?last = "\<lambda>dp names. Sys (Closedir dp) (\<lambda>_. if nf \<noteq> length names then Exit 1
      else if \<not> neighbours_differ (sort names) then Exit 1 else k)"
  have fin: "rg loc me R G W g (?last dp names)"
    if g: "P g" and names: "set names = {n \<in> S. \<not> dotted n}" "distinct names" for g names dp
  proof (rule rg_quiet_call [OF q g])
    have "length names = nf" "neighbours_differ (sort names)"
      using names S(2) distinct_card [OF names(2)] by (simp_all add: neighbours_differ_distinct)
    then show "G g h \<and> rg loc me R G W h (if nf \<noteq> length names then Exit 1 else if \<not> neighbours_differ (sort names) then Exit 1 else k)"
      if "P g" "posix loc me (Closedir dp) g r h" for g r h
      using that quietD(6,7) [OF q that(1)] go by simp
  qed simp
  fix g r h assume g: "P g" and p: "posix loc me (Opendir d) g r h"
  have h: "r_val r \<noteq> 0" "h = g\<lparr>scans := (scans g)(me := (scans g me)(r_val r \<mapsto> ([D], S, {})))\<rparr>"
    using p d quietD(3,4) [OF q g] by (auto simp: leads_def)
  have "rg loc me R G W h (dircheck_loop (r_val r) [] (?last (r_val r)))"
    by (rule rg_dircheck_loop [OF q S(1), where seen = "{}"]) (use S fin h quietD(6) [OF q g] in auto)
  then show "G g h \<and> rg loc me R G W h (if r_val r = 0 then Exit 1 else dircheck_loop (r_val r) [] (?last (r_val r)))"
    using h quietD(7) [OF q g] by simp
qed simp

lemma own_dircheck:
  assumes "owns me A m Ds f" "leads loc d D" "[D] \<in> Ds" "\<And>n. [D, n] \<in> A"
    and S: "finite {n. m [D, n] \<noteq> None}" "card {n. m [D, n] \<noteq> None \<and> \<not> dotted n} = nf" "nf \<le> 1000"
    and go: "\<And>g. owns me A m Ds g \<Longrightarrow> own loc me A W g k"
  shows "own loc me A W f (dircheck d nf k)"
proof (rule rg_dircheck [where P = "owns me A m Ds" and S = "{n. m [D, n] \<noteq> None}", OF _ assms(1,2) S(1)])
  show "quiet me (others me A) (mine me A) D {n. m [D, n] \<noteq> None} (owns me A m Ds)"
    unfolding quiet_def
  proof (intro conjI allI impI)
    fix g assume g: "owns me A m Ds g"
    show "owns me A m Ds h" if "others me A g h" for h using owns_stable [OF g that] .
    show "scans h me = scans g me" if "others me A g h" for h using that by (simp add: others_def)
    show "nodes g [D] = Some Dir" using g assms(3) by (simp add: owns_def has_def)
    have "nodes g [D, n] = None \<longleftrightarrow> m [D, n] = None" for n
      using g assms(4) [of n] entry_None [of g "[D, n]"] by (simp add: owns_def has_def)
    then show "{n. nodes g [D, n] \<noteq> None} = {n. m [D, n] \<noteq> None}" by simp
    show "owns me A m Ds (g\<lparr>scans := (scans g)(me := x)\<rparr>)" for x using g by (simp add: owns_def has_def)
  qed (auto simp: mine_def)
qed (use S go in \<open>auto simp: conj_commute\<close>)

end
