(* ===== verification/Fs_Shared.thy ===== *)
theory Fs_Shared
  imports Fs_Passes
begin

text \<open>
  Two processes on the same names: both create the files \<open>p-0\<close>, \<open>p-1\<close>, ... and write their numbers into
  them, and both write to parts of one file.
\<close>

section \<open>The same files created by two processes\<close>

text \<open>
  A file of the series is complete, or it is empty and one of the processes \<open>ps\<close> has it open at offset 0
  and is about to write it.
\<close>

definition writing :: "fs \<Rightarrow> nat \<Rightarrow> int \<Rightarrow> bool" where
  "writing f i q \<longleftrightarrow> (\<exists>h e. fds f q h = Some e \<and> o_ino e = i \<and> o_pos e = 0)"

definition filling :: "string \<Rightarrow> string \<Rightarrow> nat \<Rightarrow> int set \<Rightarrow> fs \<Rightarrow> bool" where
  "filling D p n ps f \<longleftrightarrow>
     (\<forall>j<n. nodes f [D, nth_name p j] \<noteq> Some Dir \<and>
       (\<forall>i. nodes f [D, nth_name p j] = Some (File i) \<longrightarrow>
          bytes_of f i = int_bytes j \<or> bytes_of f i = [] \<and> (\<exists>q \<in> ps. writing f i q)))"

definition keeps :: "string \<Rightarrow> string \<Rightarrow> nat \<Rightarrow> int set \<Rightarrow> fs \<Rightarrow> fs \<Rightarrow> bool" where
  "keeps D p n ps f g \<longleftrightarrow>
     (\<forall>k. nodes f k = Some Dir \<longrightarrow> nodes g k = Some Dir) \<and>
     (\<forall>k. k \<notin> series D p n \<longrightarrow> nodes g k = nodes f k \<and> entry g k = entry f k) \<and>
     (\<forall>k \<in> series D p n. nodes f k \<noteq> None \<longrightarrow> nodes g k = nodes f k) \<and>
     (filling D p n ps f \<longrightarrow> filling D p n ps g)"

definition sh_rely :: "string \<Rightarrow> string \<Rightarrow> nat \<Rightarrow> int set \<Rightarrow> int \<Rightarrow> fs \<Rightarrow> fs \<Rightarrow> bool" where
  "sh_rely D p n ps me f g \<longleftrightarrow> fds g me = fds f me \<and> scans g me = scans f me \<and> keeps D p n ps f g"

definition sh_guar :: "string \<Rightarrow> string \<Rightarrow> nat \<Rightarrow> int set \<Rightarrow> int \<Rightarrow> fs \<Rightarrow> fs \<Rightarrow> bool" where
  "sh_guar D p n ps me f g \<longleftrightarrow> (\<forall>q. q \<noteq> me \<longrightarrow> fds g q = fds f q \<and> scans g q = scans f q) \<and> keeps D p n ps f g"

lemma sh_harmless: "sh_guar D p n ps me f g \<Longrightarrow> me \<noteq> you \<Longrightarrow> sh_rely D p n ps you f g"
  by (simp add: sh_guar_def sh_rely_def)

text \<open>Common to both states of a process: the rest of the directory, and the files before the \<open>j\<close>th exist.\<close>

definition sh_inv :: "string \<Rightarrow> string \<Rightarrow> nat \<Rightarrow> int set \<Rightarrow> (string list \<rightharpoonup> ent) \<Rightarrow> string list set \<Rightarrow> nat \<Rightarrow> fs \<Rightarrow> bool" where
  "sh_inv D p n ps m Ds j f \<longleftrightarrow>
     has (- series D p n) m Ds f \<and> filling D p n ps f \<and> j \<le> n \<and> (\<forall>l<j. nodes f [D, nth_name p l] \<noteq> None)"

definition sh_idle where
  "sh_idle D p n ps m Ds me j f \<longleftrightarrow> fds f me = Map.empty \<and> sh_inv D p n ps m Ds j f"

definition sh_open where
  "sh_open D p n ps m Ds me j h e f \<longleftrightarrow>
     fds f me = [h \<mapsto> e] \<and> o_wr e \<and> \<not> o_app e \<and> nodes f [D, nth_name p j] = Some (File (o_ino e)) \<and>
     sh_inv D p n ps m Ds (Suc j) f"

lemma keeps_inv:
  assumes "keeps D p n ps f g" "sh_inv D p n ps m Ds j f"
  shows "sh_inv D p n ps m Ds j g"
proof -
  have "nodes g [D, nth_name p l] \<noteq> None" if "l < j" for l
  proof -
    have "[D, nth_name p l] \<in> series D p n" using that assms(2) by (simp add: sh_inv_def series_mem)
    then show ?thesis using that assms by (simp add: keeps_def sh_inv_def)
  qed
  then show ?thesis using assms by (simp add: keeps_def sh_inv_def has_def)
qed

lemma sh_idle_stable: "sh_idle D p n ps m Ds me j f \<Longrightarrow> sh_rely D p n ps me f g \<Longrightarrow> sh_idle D p n ps m Ds me j g"
  using keeps_inv unfolding sh_idle_def sh_rely_def by metis

lemma sh_open_stable:
  assumes "sh_open D p n ps m Ds me j h e f" "sh_rely D p n ps me f g"
  shows "sh_open D p n ps m Ds me j h e g"
proof -
  have "[D, nth_name p j] \<in> series D p n" using assms(1) by (simp add: sh_open_def sh_inv_def series_mem)
  then have "nodes g [D, nth_name p j] = nodes f [D, nth_name p j]"
    using assms by (simp add: sh_open_def sh_rely_def keeps_def)
  then show ?thesis using assms keeps_inv unfolding sh_open_def sh_rely_def by metis
qed

lemma fillingD:
  assumes "filling D p n ps f" "l < n" "nodes f [D, nth_name p l] = Some (File i)"
  shows "bytes_of f i = int_bytes l \<or> bytes_of f i = [] \<and> (\<exists>q \<in> ps. writing f i q)"
  using assms unfolding filling_def by blast

lemma filling_creat:
  assumes "filling D p n ps g" "fds g me = Map.empty" "me \<in> ps"
    and h: "nodes h = (nodes g)([D, nth_name p j] \<mapsto> File i)" "bytes_of h = (bytes_of g)(i := [])"
      "fds h = (fds g)(me := [x \<mapsto> \<lparr>o_ino = i, o_pos = 0, o_app = False, o_wr = True\<rparr>])"
    and new: "\<And>k. k \<noteq> [D, nth_name p j] \<Longrightarrow> nodes g k \<noteq> Some (File i)"
  shows "filling D p n ps h"
  unfolding filling_def
proof (intro allI impI conjI)
  fix l assume l: "l < n"
  show "nodes h [D, nth_name p l] \<noteq> Some Dir" using assms(1) l h(1) by (simp add: filling_def)
  fix i' assume i': "nodes h [D, nth_name p l] = Some (File i')"
  show "bytes_of h i' = int_bytes l \<or> bytes_of h i' = [] \<and> (\<exists>q \<in> ps. writing h i' q)"
  proof (cases "l = j")
    case True
    then have "writing h i' me" using i' h by (simp add: writing_def)
    then show ?thesis using True i' h assms(3) by auto
  next
    case False
    then have g: "nodes g [D, nth_name p l] = Some (File i')" "i' \<noteq> i" using i' h(1) new by (auto simp: nth_name_eq)
    have "writing g i' q \<Longrightarrow> writing h i' q" for q using assms(2) h(3) by (auto simp: writing_def)
    then show ?thesis using fillingD [OF assms(1) l g(1)] g(2) h(2) by auto
  qed
qed

lemma filling_write:
  assumes "filling D p n ps g" "fs_ok g" "fds g me = [x \<mapsto> e]" "nodes g [D, nth_name p j] = Some (File (o_ino e))"
    and h: "nodes h = nodes g" "bytes_of h = (bytes_of g)(o_ino e := int_bytes j)" "fds h = (fds g)(me := [x \<mapsto> e'])"
  shows "filling D p n ps h"
  unfolding filling_def
proof (intro allI impI conjI)
  fix l assume l: "l < n"
  show "nodes h [D, nth_name p l] \<noteq> Some Dir" using assms(1) l h(1) by (simp add: filling_def)
  fix i' assume i': "nodes h [D, nth_name p l] = Some (File i')"
  show "bytes_of h i' = int_bytes l \<or> bytes_of h i' = [] \<and> (\<exists>q \<in> ps. writing h i' q)"
  proof (cases "i' = o_ino e")
    case True
    then have "l = j" using fs_okD(1) [OF assms(2), of "[D, nth_name p l]" i' "[D, nth_name p j]"] i' h(1) assms(4) by (simp add: nth_name_eq)
    then show ?thesis using True h(2) by simp
  next
    case False
    then have "writing g i' q \<Longrightarrow> writing h i' q" for q using assms(3) h(3) by (auto simp: writing_def split: if_splits)
    then show ?thesis using fillingD [OF assms(1) l, of i'] i' False h(1,2) by auto
  qed
qed

lemma filling_close:
  assumes "filling D p n ps g" "fds g me = [x \<mapsto> e]" "o_pos e \<noteq> 0"
    and h: "nodes h = nodes g" "bytes_of h = bytes_of g" "fds h = (fds g)(me := Map.empty)"
  shows "filling D p n ps h"
proof -
  have "writing g i q \<Longrightarrow> writing h i q" for i q using assms(2,3) h(3) by (auto simp: writing_def split: if_splits)
  then show ?thesis using assms(1) h(1,2) unfolding filling_def by metis
qed

lemma wr_over: "length c \<le> length d \<Longrightarrow> wr 0 d c = d"
  by (simp add: wr_def)

abbreviation share ::
  "(string \<Rightarrow> string list option) \<Rightarrow> string \<Rightarrow> string \<Rightarrow> nat \<Rightarrow> int set \<Rightarrow> int \<Rightarrow> (proc \<Rightarrow> fs \<Rightarrow> bool) \<Rightarrow> fs \<Rightarrow> proc \<Rightarrow> bool" where
  "share loc D p n ps me W \<equiv> rg loc me (sh_rely D p n ps me) (sh_guar D p n ps me) W"

text \<open>What \<open>creat\<close> does to a name that is not a directory, for a process with no open files.\<close>

definition fresh_fd :: "nat \<Rightarrow> ofile" where
  "fresh_fd i = \<lparr>o_ino = i, o_pos = 0, o_app = False, o_wr = True\<rparr>"

lemma creat_cases:
  assumes ok: "fs_ok g" and k: "nodes g k \<noteq> Some Dir" "in_dir g k" "loc x = Some k" "fds g me = Map.empty"
    and p: "posix loc me (Creat x mode) g r h"
  obtains (refused) "r_val r < 0" "r_err r = eexist" "h = g" "nodes g k \<noteq> None"
    | (opened) i where "0 \<le> r_val r" "nodes h = (nodes g)(k \<mapsto> File i)" "bytes_of h = (bytes_of g)(i := [])" "scans h = scans g"
        "fds h = (fds g)(me := [r_val r \<mapsto> fresh_fd i])" "entry h = (entry g)(k \<mapsto> EFile [])"
        "\<And>l. l \<noteq> k \<Longrightarrow> nodes g l \<noteq> Some (File i)" "nodes g k \<in> {None, Some (File i)}"
proof (cases "nodes g k")
  case None
  then obtain i where i: "unused g i" "opens me (fresh_fd i) (new_file k i g) r h"
    using p k(2,3) by (auto simp: posix_open_def creates_def fresh_fd_def)
  show ?thesis
    by (rule opened [of i]) (use i k(4) None entry_new [OF i(1), of k] in \<open>auto simp: opens_def unused_def\<close>)
next
  case (Some y)
  then obtain i where i: "nodes g k = Some (File i)" using k(1) by (cases y) auto
  then consider "r_val r < 0 \<and> r_err r = eexist \<and> h = g" | "opens me (fresh_fd i) (g\<lparr>bytes_of := (bytes_of g)(i := [])\<rparr>) r h"
    using p k(3) by (auto simp: posix_open_def refused_def fresh_fd_def)
  then show ?thesis
  proof cases
    case 2
    have "nodes g l \<noteq> Some (File i)" if "l \<noteq> k" for l using that fs_okD(1) [OF ok i, of l] by blast
    then show ?thesis
      by (intro opened [of i]) (use 2 i k(4) entry_bytes [OF ok i, of "[]"] in \<open>simp_all add: opens_def fun_upd_idem\<close>)
  qed (use refused i in auto)
qed

lemma sh_creat_step:
  assumes g: "sh_idle D p n ps m Ds me j g" "fs_ok g" and j: "j < n" "[D] \<in> Ds" "me \<in> ps" "loc x = Some [D, nth_name p j]"
    and p: "posix loc me (Creat x mode) g r h"
  shows "sh_guar D p n ps me g h \<and>
    (r_val r < 0 \<and> r_err r = eexist \<and> sh_idle D p n ps m Ds me (Suc j) h \<or>
     0 \<le> r_val r \<and> (\<exists>i. sh_open D p n ps m Ds me j (r_val r) (fresh_fd i) h))"
proof -
  let ?k = "[D, nth_name p j]"
  have k: "?k \<in> series D p n" using j(1) by (simp add: series_mem)
  have inv: "fds g me = Map.empty" "has (- series D p n) m Ds g" "filling D p n ps g" "\<forall>l<j. nodes g [D, nth_name p l] \<noteq> None"
    using g(1) by (auto simp: sh_idle_def sh_inv_def)
  have nd: "nodes g ?k \<noteq> Some Dir" "in_dir g ?k" using inv(2,3) j(1,2) by (auto simp: filling_def in_dir_def has_def)
  show ?thesis
  proof (rule creat_cases [OF g(2) nd j(4) inv(1) p])
    assume r: "r_val r < 0" "r_err r = eexist" "h = g" "nodes g ?k \<noteq> None"
    then have "sh_idle D p n ps m Ds me (Suc j) h" using g(1) j(1) by (auto simp: sh_idle_def sh_inv_def less_Suc_eq)
    then show ?thesis using r by (simp add: sh_guar_def keeps_def)
  next
    fix i assume h: "0 \<le> r_val r" "nodes h = (nodes g)(?k \<mapsto> File i)" "bytes_of h = (bytes_of g)(i := [])" "scans h = scans g"
      "fds h = (fds g)(me := [r_val r \<mapsto> fresh_fd i])" "entry h = (entry g)(?k \<mapsto> EFile [])"
      "\<And>l. l \<noteq> ?k \<Longrightarrow> nodes g l \<noteq> Some (File i)" "nodes g ?k \<in> {None, Some (File i)}"
    have fill: "filling D p n ps h" by (rule filling_creat [OF inv(3,1) j(3) h(2,3) h(5) [unfolded fresh_fd_def] h(7)])
    have "sh_open D p n ps m Ds me j (r_val r) (fresh_fd i) h"
      using h inv fill j(1,2) k nd(1) by (auto simp: sh_open_def sh_inv_def has_def less_Suc_eq fresh_fd_def)
    moreover have "sh_guar D p n ps me g h" using h fill k by (auto simp: sh_guar_def keeps_def)
    ultimately show ?thesis using h(1) by blast
  qed
qed

lemma sh_put_all:
  assumes f: "sh_open D p n ps m Ds me j x e f" and e: "o_pos e = 0"
    and go: "\<And>g. sh_idle D p n ps m Ds me (Suc j) g \<Longrightarrow> share loc D p n ps me W g k"
  shows "share loc D p n ps me W f (put_all x (int_bytes j) k)"
  unfolding put_all_def
proof (rule rg_call [where P = "sh_open D p n ps m Ds me j x e", OF _ f sh_open_stable])
  let ?e = "e\<lparr>o_pos := 4\<rparr>"
  fix g r h assume g: "sh_open D p n ps m Ds me j x e g" "fs_ok g" and p: "posix loc me (Write x (int_bytes j)) g r h"
  have inv: "fds g me = [x \<mapsto> e]" "o_wr e" "\<not> o_app e" "nodes g [D, nth_name p j] = Some (File (o_ino e))" "j < n"
    "filling D p n ps g" "[D, nth_name p j] \<in> series D p n"
    using g(1) by (auto simp: sh_open_def sh_inv_def series_mem)
  have c: "length (bytes_of g (o_ino e)) \<le> length (int_bytes j)" using fillingD [OF inv(6,5,4)] by auto
  then have h: "h = set_fd me x (Some ?e) (g\<lparr>bytes_of := (bytes_of g)(o_ino e := int_bytes j)\<rparr>)" "r_val r = 4"
    using p inv(1-3) e wr_over [OF c] by (auto simp: Let_def)
  have ent: "entry h = (entry g)([D, nth_name p j] \<mapsto> EFile (int_bytes j))" using entry_bytes [OF g(2) inv(4)] by (simp add: h(1))
  have fill: "filling D p n ps h" by (rule filling_write [OF inv(6) g(2) inv(1,4), of _ ?e]) (simp_all add: h(1) inv(1))
  have h': "sh_open D p n ps m Ds me j x ?e h"
    using g(1) fill ent inv(7) by (auto simp: sh_open_def sh_inv_def has_def h(1))
  have "share loc D p n ps me W h (Sys (Close x) (\<lambda>c. if r_val c \<noteq> 0 then Exit 1 else k))"
  proof (rule rg_call [where P = "sh_open D p n ps m Ds me j x ?e", OF _ h' sh_open_stable])
    fix g r h assume g: "sh_open D p n ps m Ds me j x ?e g" and p: "posix loc me (Close x) g r h"
    have h: "h = set_fd me x None g" "r_val r = 0" and x: "fds g me = [x \<mapsto> ?e]" using g p by (auto simp: sh_open_def)
    have fill: "filling D p n ps h"
      by (rule filling_close [OF _ x]) (use g x in \<open>auto simp: h(1) sh_open_def sh_inv_def\<close>)
    then have "sh_idle D p n ps m Ds me (Suc j) h" using g x by (auto simp: sh_open_def sh_idle_def sh_inv_def has_def h(1))
    moreover have "sh_guar D p n ps me g h" using fill by (auto simp: sh_guar_def keeps_def h(1))
    ultimately show "sh_guar D p n ps me g h \<and> share loc D p n ps me W h (if r_val r \<noteq> 0 then Exit 1 else k)" using go h(2) by simp
  qed simp_all
  moreover have "sh_guar D p n ps me g h" using fill ent inv(7) by (auto simp: sh_guar_def keeps_def h(1))
  ultimately show "sh_guar D p n ps me g h \<and> share loc D p n ps me W h (if r_val r \<noteq> int (length (int_bytes j)) then Exit 1
      else Sys (Close x) (\<lambda>c. if r_val c \<noteq> 0 then Exit 1 else k))" using h(2) by simp
qed simp_all

lemma sh_pause:
  assumes "sh_idle D p n ps m Ds me j f" "\<And>g. sh_idle D p n ps m Ds me j g \<Longrightarrow> share loc D p n ps me W g k"
  shows "share loc D p n ps me W f (Sys (Sleep t) (\<lambda>_. k))"
  by (rule rg_call [where P = "sh_idle D p n ps m Ds me j", OF _ assms(1) sh_idle_stable])
    (use assms(2) in \<open>auto simp: sh_guar_def keeps_def\<close>)

lemma sh_createn:
  assumes "sh_idle D p n ps m Ds me 0 f" "leads loc d D" "fname p" "length p \<le> 50" "n \<le> 100" "[D] \<in> Ds" "me \<in> ps"
    and go: "\<And>g. sh_idle D p n ps m Ds me n g \<Longrightarrow> share loc D p n ps me W g k"
  shows "share loc D p n ps me W f (createn d p n True k)"
proof -
  have body: "share loc D p n ps me W g (createn_body d p True j kk)"
    if j: "j < n" and g: "sh_idle D p n ps m Ds me j g"
      and kk: "\<And>g. sh_idle D p n ps m Ds me (Suc j) g \<Longrightarrow> share loc D p n ps me W g kk" for j g kk
  proof -
    have path: "loc (d @ ''/'' @ nth_name p j) = Some [D, nth_name p j]"
      "sprintf (d @ ''/'' @ nth_name p j) k = k (d @ ''/'' @ nth_name p j)" for k
      using leads_path [OF assms(2) nth_name_fname [OF assms(3,4)]] j assms(5) by auto
    show ?thesis
      unfolding createn_body_def path(2)
    proof (rule rg_call [where P = "sh_idle D p n ps m Ds me j", OF _ g sh_idle_stable])
      fix g r h assume g: "sh_idle D p n ps m Ds me j g" "fs_ok g" and p: "posix loc me (Creat (d @ ''/'' @ nth_name p j) 438) g r h"
      then show "sh_guar D p n ps me g h \<and> share loc D p n ps me W h
          (if r_val r < 0 \<and> True \<and> r_err r = eexist then kk else if r_val r < 0 then Exit 1 else put_all (r_val r) (int_bytes j) kk)"
        using sh_creat_step [OF g j assms(6,7) path(1) p] kk by (auto intro: sh_put_all simp: fresh_fd_def)
    qed simp_all
  qed
  show ?thesis
    unfolding createn_def
    by (rule sh_pause [OF assms(1)], rule rg_loop [where P = "sh_idle D p n ps m Ds me"]) (use body go in simp_all)
qed

lemma filling_scans [simp]: "filling D p n ps (f\<lparr>scans := x\<rparr>) = filling D p n ps f"
  by (simp add: filling_def writing_def)

lemma sh_quiet:
  assumes "[D] \<in> Ds" "\<And>x. m [D, x] = None"
  shows "quiet me (sh_rely D p n ps me) (sh_guar D p n ps me) D (nth_name p ` {..<n}) (sh_idle D p n ps m Ds me n)"
  unfolding quiet_def
proof (intro conjI allI impI)
  fix g assume g: "sh_idle D p n ps m Ds me n g"
  show "sh_idle D p n ps m Ds me n h" if "sh_rely D p n ps me g h" for h using sh_idle_stable [OF g that] .
  show "scans h me = scans g me" if "sh_rely D p n ps me g h" for h using that by (simp add: sh_rely_def)
  show "nodes g [D] = Some Dir" using g assms(1) by (simp add: sh_idle_def sh_inv_def has_def)
  have "nodes g [D, x] \<noteq> None \<longleftrightarrow> x \<in> nth_name p ` {..<n}" for x
  proof (cases "[D, x] \<in> series D p n")
    case True
    then show ?thesis using g by (auto simp: sh_idle_def sh_inv_def series_def)
  next
    case False
    then have "entry g [D, x] = None" using g assms(2) by (simp add: sh_idle_def sh_inv_def has_def)
    then show ?thesis using False by (auto simp: series_def)
  qed
  then show "{x. nodes g [D, x] \<noteq> None} = nth_name p ` {..<n}" by blast
  show "sh_idle D p n ps m Ds me n (g\<lparr>scans := (scans g)(me := x)\<rparr>)" for x using g by (simp add: sh_idle_def sh_inv_def has_def)
qed (auto simp: sh_guar_def keeps_def)

lemma sh_dircheck:
  assumes "sh_idle D p n ps m Ds me n f" "leads loc d D" "[D] \<in> Ds" "\<And>x. m [D, x] = None" "n \<le> 1000" "p \<noteq> []" "hd p \<noteq> CHR ''.''"
    and "\<And>g. sh_idle D p n ps m Ds me n g \<Longrightarrow> share loc D p n ps me W g k"
  shows "share loc D p n ps me W f (dircheck d n k)"
proof (rule rg_dircheck [OF sh_quiet [where m = m, OF assms(3,4)] assms(1,2)])
  have "{x \<in> nth_name p ` {..<n}. \<not> dotted x} = nth_name p ` {..<n}" using assms(6,7) by (auto simp: nth_name_def dotted_def)
  then show "card {x \<in> nth_name p ` {..<n}. \<not> dotted x} = n" by (simp add: card_image inj_on_def nth_name_eq)
qed (use assms in auto)

text \<open>When both have finished, every file is complete.\<close>

lemma filled:
  assumes g: "sh_idle D p n {me, kid} m Ds me n g" and kid: "fds g kid = Map.empty"
  shows "owns me UNIV (added D p n m) Ds g"
proof -
  have inv: "fds g me = Map.empty" "has (- series D p n) m Ds g" "filling D p n {me, kid} g" "\<forall>l<n. nodes g [D, nth_name p l] \<noteq> None"
    using g by (auto simp: sh_idle_def sh_inv_def)
  have none: "\<not> writing g i q" if "q \<in> {me, kid}" for i q using that inv(1) kid by (auto simp: writing_def)
  have "entry g k = added D p n m k" for k
  proof (cases "k \<in> series D p n")
    case True
    then obtain j where j: "k = [D, nth_name p j]" "j < n" by (auto simp: series_def)
    then obtain x where x: "nodes g k = Some x" using inv(4) by auto
    then obtain i where i: "nodes g k = Some (File i)" using j inv(3) by (cases x) (auto simp: filling_def)
    then have "bytes_of g i = int_bytes j" using fillingD [OF inv(3) j(2)] j(1) none by blast
    then have "entry g k = Some (EFile (int_bytes j))" using i by (auto simp: entry_file)
    then show ?thesis using j by (simp add: added_at)
  next
    case False
    then show ?thesis using inv(2) by (simp add: has_def added_other)
  qed
  then show ?thesis using inv(1,2) by (simp add: owns_def has_def)
qed

section \<open>Two parts of one file\<close>

definition pt_keeps :: "string list \<Rightarrow> fs \<Rightarrow> fs \<Rightarrow> (nat \<Rightarrow> bool) \<Rightarrow> bool" where
  "pt_keeps w f g X \<longleftrightarrow>
     nodes g = nodes f \<and> (\<forall>k. k \<noteq> w \<longrightarrow> entry g k = entry f k) \<and>
     (\<forall>c. entry f w = Some (EFile c) \<longrightarrow> (\<exists>c'. entry g w = Some (EFile c') \<and> length c' = length c \<and> (\<forall>x. X x \<longrightarrow> c' ! x = c ! x)))"

definition pt_rely :: "string list \<Rightarrow> nat \<Rightarrow> nat \<Rightarrow> int \<Rightarrow> fs \<Rightarrow> fs \<Rightarrow> bool" where
  "pt_rely w a n me f g \<longleftrightarrow> fds g me = fds f me \<and> scans g me = scans f me \<and> pt_keeps w f g (\<lambda>x. a \<le> x \<and> x < a + n)"

definition pt_guar :: "string list \<Rightarrow> nat \<Rightarrow> nat \<Rightarrow> int \<Rightarrow> fs \<Rightarrow> fs \<Rightarrow> bool" where
  "pt_guar w a n me f g \<longleftrightarrow> (\<forall>q. q \<noteq> me \<longrightarrow> fds g q = fds f q \<and> scans g q = scans f q) \<and> pt_keeps w f g (\<lambda>x. x < a \<or> a + n \<le> x)"

lemma pt_keeps_mono: "pt_keeps w f g X \<Longrightarrow> (\<And>x. Y x \<Longrightarrow> X x) \<Longrightarrow> pt_keeps w f g Y"
  unfolding pt_keeps_def by meson

lemma pt_harmless: "pt_guar w a n me f g \<Longrightarrow> me \<noteq> you \<Longrightarrow> a + n \<le> a' \<or> a' + n' \<le> a \<Longrightarrow> pt_rely w a' n' you f g"
  unfolding pt_guar_def pt_rely_def by (auto elim!: pt_keeps_mono)

text \<open>The first \<open>i\<close> bytes of the part are written.\<close>

definition pt_inv :: "string list \<Rightarrow> nat \<Rightarrow> nat \<Rightarrow> nat \<Rightarrow> char \<Rightarrow> (string list \<rightharpoonup> ent) \<Rightarrow> nat \<Rightarrow> fs \<Rightarrow> bool" where
  "pt_inv w a n L ch m i f \<longleftrightarrow>
     i \<le> n \<and> (\<forall>k. k \<noteq> w \<longrightarrow> entry f k = m k) \<and>
     (\<exists>c. entry f w = Some (EFile c) \<and> length c = L \<and> (\<forall>x<i. c ! (a + x) = ch))"

definition pt_idle where
  "pt_idle w a n L ch m me i f \<longleftrightarrow> fds f me = Map.empty \<and> pt_inv w a n L ch m i f"

definition pt_open where
  "pt_open w a n L ch m me i h pos f \<longleftrightarrow>
     (\<exists>e. fds f me = [h \<mapsto> e] \<and> o_wr e \<and> \<not> o_app e \<and> o_pos e = pos \<and> nodes f w = Some (File (o_ino e))) \<and> pt_inv w a n L ch m i f"

lemma pt_inv_stable:
  assumes "pt_inv w a n L ch m i f" "pt_rely w a n me f g"
  shows "pt_inv w a n L ch m i g"
proof -
  obtain c where c: "entry f w = Some (EFile c)" "length c = L" "\<forall>x<i. c ! (a + x) = ch" "i \<le> n"
    using assms(1) by (auto simp: pt_inv_def)
  then obtain c' where c': "entry g w = Some (EFile c')" "length c' = L" "\<forall>x. a \<le> x \<and> x < a + n \<longrightarrow> c' ! x = c ! x"
    using assms(2) by (auto simp: pt_rely_def pt_keeps_def)
  have "\<forall>x<i. c' ! (a + x) = ch" using c(3,4) c'(3) by auto
  then show ?thesis using assms c c' by (auto simp: pt_inv_def pt_rely_def pt_keeps_def)
qed

lemma pt_idle_stable: "pt_idle w a n L ch m me i f \<Longrightarrow> pt_rely w a n me f g \<Longrightarrow> pt_idle w a n L ch m me i g"
  using pt_inv_stable unfolding pt_idle_def pt_rely_def by metis

lemma pt_open_stable: "pt_open w a n L ch m me i h pos f \<Longrightarrow> pt_rely w a n me f g \<Longrightarrow> pt_open w a n L ch m me i h pos g"
  using pt_inv_stable [of w a n L ch m i f me g] by (auto simp: pt_open_def pt_rely_def pt_keeps_def)

lemma pt_guar_fd [simp]: "pt_guar w a n me g g" "pt_guar w a n me g (set_fd me h e g)"
  by (auto simp: pt_guar_def pt_keeps_def)

lemma pt_open_fd: "pt_open w a n L ch m me i h pos f \<Longrightarrow> \<exists>e. fds f me h = Some e"
  by (auto simp: pt_open_def)

abbreviation part ::
  "(string \<Rightarrow> string list option) \<Rightarrow> string list \<Rightarrow> nat \<Rightarrow> nat \<Rightarrow> int \<Rightarrow> (proc \<Rightarrow> fs \<Rightarrow> bool) \<Rightarrow> fs \<Rightarrow> proc \<Rightarrow> bool" where
  "part loc w a n me W \<equiv> rg loc me (pt_rely w a n me) (pt_guar w a n me) W"

lemma pt_opening:
  assumes f: "pt_idle w a n L ch m me 0 f" and x: "loc x = Some w" "set fl \<subseteq> {O_WRONLY, O_CREAT}" "O_WRONLY \<in> set fl"
    and go: "\<And>g r. 0 \<le> r_val r \<Longrightarrow> pt_open w a n L ch m me 0 (r_val r) 0 g \<Longrightarrow> part loc w a n me W g (kk r)"
    and again: "\<And>g r. O_CREAT \<in> set fl \<Longrightarrow> r_val r < 0 \<Longrightarrow> r_err r = eexist \<Longrightarrow> pt_idle w a n L ch m me 0 g \<Longrightarrow> part loc w a n me W g (kk r)"
  shows "part loc w a n me W f (Sys (Open x fl) kk)"
proof (rule rg_call [where P = "pt_idle w a n L ch m me 0", OF _ f pt_idle_stable])
  fix g r h assume g: "pt_idle w a n L ch m me 0 g" and p: "posix loc me (Open x fl) g r h"
  have inv: "pt_inv w a n L ch m 0 g" "fds g me = Map.empty" using g by (auto simp: pt_idle_def)
  then obtain i where i: "nodes g w = Some (File i)" unfolding pt_inv_def by (metis entry_file)
  have app: "O_APPEND \<notin> set fl" using x(2) by auto
  consider "opens me \<lparr>o_ino = i, o_pos = 0, o_app = False, o_wr = True\<rparr> g r h" | "O_CREAT \<in> set fl" "r_val r < 0" "r_err r = eexist" "h = g"
    using p x(1,3) i app by (auto simp: posix_open_def refused_def)
  then show "pt_guar w a n me g h \<and> part loc w a n me W h (kk r)"
  proof cases
    case 1
    then have "pt_open w a n L ch m me 0 (r_val r) 0 h" using inv i by (auto simp: opens_def pt_open_def pt_inv_def)
    then show ?thesis using 1 go by (auto simp: opens_def)
  next
    case 2
    then show ?thesis using again g by auto
  qed
qed simp_all

lemma wr_char: "x < length c \<Longrightarrow> wr x [ch] c = c[x := ch]"
  by (simp add: wr_def upd_conv_take_nth_drop)

lemma pt_write_char:
  assumes f: "pt_open w a n L ch m me i h (a + i) f" and i: "i < n" "a + n \<le> L"
    and go: "\<And>g. pt_open w a n L ch m me (Suc i) h (a + Suc i) g \<Longrightarrow> part loc w a n me W g k"
  shows "part loc w a n me W f (write1_char h ch i k)"
  unfolding write1_char_def
proof (rule rg_call [where P = "pt_open w a n L ch m me i h (a + i)", OF _ f pt_open_stable])
  fix g r t assume g: "pt_open w a n L ch m me i h (a + i) g" "fs_ok g" and p: "posix loc me (Write h [ch]) g r t"
  obtain e where e: "fds g me = [h \<mapsto> e]" "o_wr e" "\<not> o_app e" "o_pos e = a + i" "nodes g w = Some (File (o_ino e))"
    using g(1) by (auto simp: pt_open_def)
  obtain c where c: "entry g w = Some (EFile c)" "length c = L" "\<forall>x<i. c ! (a + x) = ch" "\<forall>k. k \<noteq> w \<longrightarrow> entry g k = m k"
    using g(1) by (auto simp: pt_open_def pt_inv_def)
  have b: "bytes_of g (o_ino e) = c" using c(1) e(5) by (auto simp: entry_file)
  have t: "t = set_fd me h (Some (e\<lparr>o_pos := Suc (a + i)\<rparr>)) (g\<lparr>bytes_of := (bytes_of g)(o_ino e := c[a + i := ch])\<rparr>)" "r_val r = 1"
    using p e b c(2) i by (auto simp: Let_def wr_char)
  have ent: "entry t = (entry g)(w \<mapsto> EFile (c[a + i := ch]))" using entry_bytes [OF g(2) e(5)] by (simp add: t(1))
  have "\<forall>x<Suc i. c[a + i := ch] ! (a + x) = ch" using c(2,3) i by (auto simp: nth_list_update less_Suc_eq)
  then have "pt_open w a n L ch m me (Suc i) h (a + Suc i) t"
    using e c(2,4) i(1) ent by (auto simp: pt_open_def pt_inv_def t(1))
  moreover have "part loc w a n me W u (Sys (Fsync h) (\<lambda>r. if r_val r \<noteq> 0 then Exit 1 else k))"
    if u: "pt_open w a n L ch m me (Suc i) h (a + Suc i) u" for u
    by (rule rg_call [where P = "pt_open w a n L ch m me (Suc i) h (a + Suc i)", OF _ u pt_open_stable])
      (use go pt_open_fd in \<open>auto split: if_splits\<close>)
  moreover have "pt_guar w a n me g t" using ent c(1) i(1) by (auto simp: pt_guar_def pt_keeps_def t(1))
  ultimately show "pt_guar w a n me g t \<and> part loc w a n me W t (if r_val r \<noteq> 1 then Exit 1
      else Sys (Fsync h) (\<lambda>r. if r_val r \<noteq> 0 then Exit 1 else k))" using t(2) by simp
qed simp_all

lemma pt_write1_from:
  assumes f: "pt_open w a n L ch m me 0 h 0 f" and L: "a + n \<le> L"
    and go: "\<And>g. pt_idle w a n L ch m me n g \<Longrightarrow> part loc w a n me W g k"
  shows "part loc w a n me W f (write1_from h a n ch k)"
  unfolding write1_from_def
proof (rule rg_call [where P = "pt_open w a n L ch m me 0 h 0", OF _ f pt_open_stable])
  fix g r t assume g: "pt_open w a n L ch m me 0 h 0 g" and p: "posix loc me (Lseek h a) g r t"
  have fin: "part loc w a n me W u (Sys (Close h) (\<lambda>r. if r_val r \<noteq> 0 then Exit 1 else k))"
    if u: "pt_open w a n L ch m me n h (a + n) u" for u
  proof (rule rg_call [where P = "pt_open w a n L ch m me n h (a + n)", OF _ u pt_open_stable])
    fix g r t assume g: "pt_open w a n L ch m me n h (a + n) g" and p: "posix loc me (Close h) g r t"
    then have t: "t = set_fd me h None g" "r_val r = 0" by (auto simp: pt_open_def)
    then have "pt_idle w a n L ch m me n t" using g by (auto simp: pt_open_def pt_idle_def pt_inv_def)
    then show "pt_guar w a n me g t \<and> part loc w a n me W t (if r_val r \<noteq> 0 then Exit 1 else k)"
      using t go by auto
  qed simp_all
  have t: "r_val r = int a" "pt_open w a n L ch m me 0 h a t" "pt_guar w a n me g t"
    using g p by (auto simp: pt_open_def pt_inv_def)
  have "part loc w a n me W t (foldr (write1_char h ch) [0..<n] (Sys (Close h) (\<lambda>r. if r_val r \<noteq> 0 then Exit 1 else k)))"
    by (rule rg_loop [where P = "\<lambda>i. pt_open w a n L ch m me i h (a + i)"]) (use pt_write_char L t(2) fin in auto)
  then show "pt_guar w a n me g t \<and> part loc w a n me W t (if r_val r \<noteq> int a then Exit 1
      else foldr (write1_char h ch) [0..<n] (Sys (Close h) (\<lambda>r. if r_val r \<noteq> 0 then Exit 1 else k)))" using t by simp
qed simp_all

lemma pt_write1:
  assumes f: "pt_idle [D, x] a n L ch m me 0 f" and d: "leads loc d D" "fname x" and L: "a + n \<le> L"
    and go: "\<And>g. pt_idle [D, x] a n L ch m me n g \<Longrightarrow> part loc [D, x] a n me W g k"
  shows "part loc [D, x] a n me W f (write1 d x a n ch k)"
  unfolding write1_def leads_path [OF d, THEN conjunct2]
proof (rule rg_call [where P = "pt_idle [D, x] a n L ch m me 0", OF _ f pt_idle_stable])
  let ?name = "d @ ''/'' @ x"
  have path: "loc ?name = Some [D, x]" using leads_path [OF d] by simp
  fix g r h assume g: "pt_idle [D, x] a n L ch m me 0 g" and p: "posix loc me (Sleep 1) g r h"
  have again: "part loc [D, x] a n me W g (Sys (Open ?name [O_WRONLY]) (\<lambda>r. if r_val r < 0 then Exit 1 else write1_from (r_val r) a n ch k))"
    if "pt_idle [D, x] a n L ch m me 0 g" for g
    by (rule pt_opening [where loc = loc, OF that path]) (use go L in \<open>auto intro: pt_write1_from\<close>)
  have "part loc [D, x] a n me W g (Sys (Open ?name [O_WRONLY, O_CREAT]) (\<lambda>r. if r_val r < 0 \<and> r_err r = eexist
     then Sys (Open ?name [O_WRONLY]) (\<lambda>r. if r_val r < 0 then Exit 1 else write1_from (r_val r) a n ch k)
     else if r_val r < 0 then Exit 1 else write1_from (r_val r) a n ch k))"
    by (rule pt_opening [where loc = loc, OF g path]) (use go L again in \<open>auto intro: pt_write1_from\<close>)
  then show "pt_guar [D, x] a n me g h \<and> part loc [D, x] a n me W h (Sys (Open ?name [O_WRONLY, O_CREAT]) (\<lambda>r. if r_val r < 0 \<and> r_err r = eexist
     then Sys (Open ?name [O_WRONLY]) (\<lambda>r. if r_val r < 0 then Exit 1 else write1_from (r_val r) a n ch k)
     else if r_val r < 0 then Exit 1 else write1_from (r_val r) a n ch k))"
    using p by simp
qed simp_all

end
