(* ===== verification/Fs_Kernel.thy ===== *)
theory Fs_Kernel
  imports Sys_Calls Dir_Format
begin

text \<open>
  A kernel that keeps the promises of \<open>posix\<close>: the file system itself, a counter from which file
  numbers, descriptors and handles are taken, and a list of all names that were ever used, which
  \<open>readdir\<close> walks through.
\<close>

type_synonym simple_state = "fs \<times> nat \<times> string list"

definition ans :: "int \<Rightarrow> rep" where
  "ans v = \<lparr>r_val = v, r_err = 0, r_data = [], r_status = None\<rparr>"

definition simple_open :: "int \<Rightarrow> string list \<Rightarrow> oflag list \<Rightarrow> bool \<Rightarrow> simple_state \<Rightarrow> rep \<times> simple_state" where
  "simple_open me k fl trunc = (\<lambda>(f, n, used).
     let e = (\<lambda>i. \<lparr>o_ino = i, o_pos = 0, o_app = O_APPEND \<in> set fl, o_wr = O_WRONLY \<in> set fl\<rparr>) in
     case nodes f k of
       Some (File i) \<Rightarrow>
         (ans (int n), set_fd me (int n) (Some (e i)) (if trunc then f\<lparr>bytes_of := (bytes_of f)(i := [])\<rparr> else f), Suc n, used)
     | Some Dir \<Rightarrow> (ans (- 1), f, n, used)
     | None \<Rightarrow> if O_CREAT \<in> set fl \<and> in_dir f k
               then (ans (int n), set_fd me (int n) (Some (e n)) (new_file k n f), Suc n, last k # used)
               else (ans (- 1), f, n, used))"

fun simple_kernel :: "(string \<Rightarrow> string list option) \<Rightarrow> int \<Rightarrow> sys \<Rightarrow> simple_state \<Rightarrow> rep \<times> simple_state" where
  "simple_kernel loc me (Creat p mode) (f, n, used) =
     (case loc p of None \<Rightarrow> (ans (- 1), f, n, used) | Some k \<Rightarrow> simple_open me k [O_WRONLY, O_CREAT] True (f, n, used))"
| "simple_kernel loc me (Open p fl) (f, n, used) =
     (case loc p of None \<Rightarrow> (ans (- 1), f, n, used) | Some k \<Rightarrow> simple_open me k fl False (f, n, used))"
| "simple_kernel loc me (Write h d) (f, n, used) =
     (case fds f me h of
        None \<Rightarrow> (ans (- 1), f, n, used)
      | Some e \<Rightarrow>
          if \<not> o_wr e then (ans (- 1), f, n, used)
          else let c = bytes_of f (o_ino e); q = (if o_app e then length c else o_pos e)
               in (ans (int (length d)),
                   set_fd me h (Some (e\<lparr>o_pos := q + length d\<rparr>)) (f\<lparr>bytes_of := (bytes_of f)(o_ino e := wr q d c)\<rparr>), n, used))"
| "simple_kernel loc me (Read h l) (f, n, used) =
     (case fds f me h of
        None \<Rightarrow> (ans (- 1), f, n, used)
      | Some e \<Rightarrow>
          if o_wr e then (ans (- 1), f, n, used)
          else let d = take l (drop (o_pos e) (bytes_of f (o_ino e)))
               in ((ans (int (length d)))\<lparr>r_data := d\<rparr>, set_fd me h (Some (e\<lparr>o_pos := o_pos e + length d\<rparr>)) f, n, used))"
| "simple_kernel loc me (Lseek h l) (f, n, used) =
     (case fds f me h of
        None \<Rightarrow> (ans (- 1), f, n, used)
      | Some e \<Rightarrow> (ans (int l), set_fd me h (Some (e\<lparr>o_pos := l\<rparr>)) f, n, used))"
| "simple_kernel loc me (Fsync h) (f, n, used) = (ans (if fds f me h = None then - 1 else 0), f, n, used)"
| "simple_kernel loc me (Close h) (f, n, used) =
     (if fds f me h = None then (ans (- 1), f, n, used) else (ans 0, set_fd me h None f, n, used))"
| "simple_kernel loc me (Unlink p) (f, n, used) =
     (case loc p of
        None \<Rightarrow> (ans (- 1), f, n, used)
      | Some k \<Rightarrow> (case nodes f k of
          Some (File i) \<Rightarrow> (ans 0, f\<lparr>nodes := (nodes f)(k := None)\<rparr>, n, used)
        | _ \<Rightarrow> (ans (- 1), f, n, used)))"
| "simple_kernel loc me (Mkdir p mode) (f, n, used) =
     (case loc p of
        None \<Rightarrow> (ans (- 1), f, n, used)
      | Some k \<Rightarrow> if nodes f k = None \<and> in_dir f k then (ans 0, f\<lparr>nodes := (nodes f)(k \<mapsto> Dir)\<rparr>, n, last k # used)
                   else (ans (- 1), f, n, used))"
| "simple_kernel loc me (Access p) (f, n, used) =
     (ans (case loc p of None \<Rightarrow> - 1 | Some k \<Rightarrow> if nodes f k = None then - 1 else 0), f, n, used)"
| "simple_kernel loc me (Opendir p) (f, n, used) =
     (case loc p of
        None \<Rightarrow> (ans 0, f, n, used)
      | Some k \<Rightarrow>
          if nodes f k = Some Dir
          then (ans (int n), f\<lparr>scans := (scans f)(me := (scans f me)(int n \<mapsto> (k, {x. nodes f (k @ [x]) \<noteq> None}, {})))\<rparr>, Suc n, used)
          else (ans 0, f, n, used))"
| "simple_kernel loc me (Readdir h) (f, n, used) =
     (case scans f me h of
        None \<Rightarrow> (ans 0, f, n, used)
      | Some (k, snap, seen) \<Rightarrow>
          (case find (\<lambda>x. nodes f (k @ [x]) \<noteq> None \<and> x \<notin> seen) used of
             None \<Rightarrow> (ans 0, f, n, used)
           | Some x \<Rightarrow> ((ans 1)\<lparr>r_data := x\<rparr>, f\<lparr>scans := (scans f)(me := (scans f me)(h \<mapsto> (k, snap, insert x seen)))\<rparr>, n, used)))"
| "simple_kernel loc me (Closedir h) (f, n, used) =
     (ans 0, f\<lparr>scans := (scans f)(me := (scans f me)(h := None))\<rparr>, n, used)"
| "simple_kernel loc me Getpid (f, n, used) = (ans me, f, n, used)"
| "simple_kernel loc me Fork (f, n, used) =
     (ans (\<bar>me\<bar> + 1), f\<lparr>fds := (fds f)(\<bar>me\<bar> + 1 := fds f me), scans := (scans f)(\<bar>me\<bar> + 1 := scans f me)\<rparr>, n, used)"
| "simple_kernel loc me (Quit st) (f, n, used) =
     (ans 0, f\<lparr>fds := (fds f)(me := Map.empty), scans := (scans f)(me := Map.empty)\<rparr>, n, used)"
| "simple_kernel loc me c (f, n, used) = (ans 0, f, n, used)"

definition simple_good :: "simple_state \<Rightarrow> bool" where
  "simple_good = (\<lambda>(f, n, used).
     0 < n \<and> (\<forall>k i. nodes f k = Some (File i) \<longrightarrow> i < n) \<and>
     (\<forall>p h e. fds f p h = Some e \<longrightarrow> h < int n \<and> o_ino e < n) \<and>
     (\<forall>p h x. scans f p h = Some x \<longrightarrow> h < int n) \<and>
     (\<forall>k. k \<noteq> [] \<longrightarrow> nodes f k \<noteq> None \<longrightarrow> last k \<in> set used))"

lemma ans_simps [simp]: "r_val (ans v) = v" "r_err (ans v) = 0" "r_data (ans v) = []"
  by (simp_all add: ans_def)

lemma simple_goodD:
  assumes "simple_good (f, n, used)"
  shows "0 < n" "nodes f k = Some (File i) \<Longrightarrow> i < n" "fds f p h = Some e \<Longrightarrow> h < int n" "fds f p h = Some e \<Longrightarrow> o_ino e < n"
    "scans f p h = Some x \<Longrightarrow> h < int n" "k \<noteq> [] \<Longrightarrow> nodes f k \<noteq> None \<Longrightarrow> last k \<in> set used"
  using assms unfolding simple_good_def by blast+

text \<open>What is taken from the counter is new.\<close>

lemma simple_new:
  assumes "simple_good (f, n, used)"
  shows "unused f n" "fds f p (int n) = None" "scans f p (int n) = None"
proof -
  show "fds f p (int n) = None" using simple_goodD(3) [OF assms, of p "int n"] by (cases "fds f p (int n)") auto
  show "scans f p (int n) = None" using simple_goodD(5) [OF assms, of p "int n"] by (cases "scans f p (int n)") auto
  show "unused f n" unfolding unused_def using simple_goodD(2,4) [OF assms] by blast
qed

definition known_fd :: "fs \<Rightarrow> int \<Rightarrow> nat \<Rightarrow> bool" where
  "known_fd f h i \<longleftrightarrow> (\<exists>q e. fds f q h = Some e \<and> o_ino e = i)"

definition known_scan :: "fs \<Rightarrow> int \<Rightarrow> bool" where
  "known_scan f h \<longleftrightarrow> (\<exists>q. scans f q h \<noteq> None)"

lemma known_fdI [intro]: "fds f q h = Some e \<Longrightarrow> known_fd f h (o_ino e)"
  by (auto simp: known_fd_def)

lemma known_scanI [intro]: "scans f q h \<noteq> None \<Longrightarrow> known_scan f h" "scans f q h = Some x \<Longrightarrow> known_scan f h"
  unfolding known_scan_def by (blast, metis option.discI)

lemma simple_good_step:
  assumes "simple_good (f, n, used)" "n \<le> n'" "set used \<subseteq> set used'"
    and "\<And>k i. nodes g k = Some (File i) \<Longrightarrow> nodes f k = Some (File i) \<or> i < n'"
    and "\<And>p h e. fds g p h = Some e \<Longrightarrow> known_fd f h (o_ino e) \<or> h < int n' \<and> o_ino e < n'"
    and "\<And>p h x. scans g p h = Some x \<Longrightarrow> known_scan f h \<or> h < int n'"
    and "\<And>k. k \<noteq> [] \<Longrightarrow> nodes g k \<noteq> None \<Longrightarrow> nodes f k \<noteq> None \<or> last k \<in> set used'"
  shows "simple_good (g, n', used')"
  unfolding simple_good_def
proof (clarify, intro conjI allI impI)
  note d = simple_goodD [OF assms(1)]
  show "0 < n'" using d(1) assms(2) by simp
  show "i < n'" if "nodes g k = Some (File i)" for k i using assms(4) [OF that] d(2) assms(2) by fastforce
  show "h < int n'" "o_ino e < n'" if "fds g p h = Some e" for p h e using assms(5) [OF that] d(3,4) assms(2) by (fastforce simp: known_fd_def)+
  show "h < int n'" if "scans g p h = Some x" for p h x using assms(6) [OF that] d(5) assms(2) by (fastforce simp: known_scan_def)
  show "last k \<in> set used'" if "k \<noteq> []" "nodes g k \<noteq> None" for k using assms(7) [OF that] d(6) [OF that(1)] assms(3) by blast
qed

lemma simple_open_serves:
  assumes "simple_good (f, n, used)" "simple_open me k fl trunc (f, n, used) = (r, g, n', used')"
  shows "simple_good (g, n', used') \<and> posix_open me k fl trunc f r g"
proof (cases "nodes f k")
  case None
  show ?thesis
  proof (cases "O_CREAT \<in> set fl \<and> in_dir f k")
    case True
    then have s: "r = ans (int n)" "n' = Suc n" "used' = last k # used"
      "g = set_fd me (int n) (Some \<lparr>o_ino = n, o_pos = 0, o_app = O_APPEND \<in> set fl, o_wr = O_WRONLY \<in> set fl\<rparr>) (new_file k n f)"
      using assms(2) None by (auto simp: simple_open_def Let_def)
    have "simple_good (g, n', used')" unfolding s by (rule simple_good_step [OF assms(1)]) (auto split: if_splits)
    moreover have "creates me k fl f r g"
      unfolding creates_def opens_def by (rule exI [of _ n]) (use simple_new [OF assms(1)] in \<open>auto simp: s\<close>)
    ultimately show ?thesis using True None by (simp add: posix_open_def)
  qed (use assms None in \<open>auto simp: simple_open_def Let_def posix_open_def refused_def\<close>)
next
  case (Some x)
  show ?thesis
  proof (cases x)
    case (File i)
    let ?f = "if trunc then f\<lparr>bytes_of := (bytes_of f)(i := [])\<rparr> else f"
    have s: "r = ans (int n)" "n' = Suc n" "used' = used"
      "g = set_fd me (int n) (Some \<lparr>o_ino = i, o_pos = 0, o_app = O_APPEND \<in> set fl, o_wr = O_WRONLY \<in> set fl\<rparr>) ?f"
      using assms(2) Some File by (auto simp: simple_open_def Let_def)
    have i: "i < n" using simple_goodD(2) [OF assms(1)] Some File by simp
    have "simple_good (g, n', used')" unfolding s by (rule simple_good_step [OF assms(1)]) (use i in \<open>auto split: if_splits\<close>)
    then show ?thesis using Some File simple_new [OF assms(1)] by (auto simp: posix_open_def opens_def s)
  qed (use assms Some in \<open>auto simp: simple_open_def Let_def posix_open_def\<close>)
qed

lemma simple_good_same:
  assumes "simple_good (f, n, used)" "nodes g = nodes f" "scans g = scans f"
    and "\<And>p h e. fds g p h = Some e \<Longrightarrow> known_fd f h (o_ino e)"
  shows "simple_good (g, n, used)"
  by (rule simple_good_step [OF assms(1)]) (use assms(2-4) in auto)

lemma simple_good_scan:
  assumes "simple_good (f, n, used)" "n \<le> m" "\<And>h. x h \<noteq> None \<Longrightarrow> scans f me h \<noteq> None \<or> h < int m"
  shows "simple_good (f\<lparr>scans := (scans f)(me := x)\<rparr>, m, used)"
proof (rule simple_good_step [OF assms(1,2)])
  show "known_scan f h \<or> h < int m" if "scans (f\<lparr>scans := (scans f)(me := x)\<rparr>) p h = Some y" for p h y
    using that assms(3) [of h] by (cases "p = me") (auto split: if_splits)
qed auto

definition sound :: "(string \<Rightarrow> string list option) \<Rightarrow> int \<Rightarrow> sys \<Rightarrow> simple_state \<Rightarrow> bool" where
  "sound loc me c s \<longleftrightarrow> (case simple_kernel loc me c s of (r, t) \<Rightarrow> simple_good t \<and> posix loc me c (fst s) r (fst t))"

lemma open_sound:
  assumes g: "simple_good (f, n, used)"
  shows "sound loc me (Creat p mode) (f, n, used)" "sound loc me (Open p fl) (f, n, used)"
proof -
  have o: "case simple_open me k fl t (f, n, used) of (r, u) \<Rightarrow> simple_good u \<and> posix_open me k fl t f r (fst u)" for k fl t
    using simple_open_serves [OF g, of me k fl t] by (cases "simple_open me k fl t (f, n, used)") auto
  show "sound loc me (Creat p mode) (f, n, used)" "sound loc me (Open p fl) (f, n, used)"
    using g o by (auto simp: sound_def split: option.splits prod.splits)
qed

lemma fd_sound:
  assumes g: "simple_good (f, n, used)"
  shows "sound loc me (Write h d) (f, n, used)" "sound loc me (Read h l) (f, n, used)" "sound loc me (Lseek h l) (f, n, used)"
    "sound loc me (Fsync h) (f, n, used)" "sound loc me (Close h) (f, n, used)"
proof -
  have same: "simple_good (set_fd me h e' f', n, used)"
    if "fds f me h = Some e" "nodes f' = nodes f" "scans f' = scans f" "fds f' = fds f" "\<And>x. e' = Some x \<Longrightarrow> o_ino x = o_ino e" for e e' f'
  proof (rule simple_good_same [OF g])
    show "known_fd f x (o_ino y)" if "fds (set_fd me h e' f') p x = Some y" for p x y
    proof (cases "p = me \<and> x = h")
      case True
      then have "o_ino y = o_ino e" using that \<open>fds f' = fds f\<close> \<open>\<And>x. e' = Some x \<Longrightarrow> o_ino x = o_ino e\<close> by simp
      then show ?thesis using True known_fdI [OF \<open>fds f me h = Some e\<close>] by simp
    next
      case False
      then have "fds f p x = Some y" using that \<open>fds f' = fds f\<close> by (auto split: if_splits)
      then show ?thesis by (rule known_fdI)
    qed
  qed (use that in simp_all)
  show "sound loc me (Write h d) (f, n, used)" "sound loc me (Read h l) (f, n, used)" "sound loc me (Lseek h l) (f, n, used)"
    "sound loc me (Fsync h) (f, n, used)" "sound loc me (Close h) (f, n, used)"
    using g by (cases "fds f me h"; auto simp: sound_def refused_def Let_def intro!: same)+
qed

lemma scan_sound:
  assumes g: "simple_good (f, n, used)"
  shows "sound loc me (Opendir p) (f, n, used)" "sound loc me (Readdir h) (f, n, used)" "sound loc me (Closedir h) (f, n, used)"
proof -
  show "sound loc me (Opendir p) (f, n, used)"
    using g simple_goodD(1) [OF g] simple_new(3) [OF g]
    by (auto simp: sound_def split: option.splits if_splits intro!: simple_good_scan [OF g])
  show "sound loc me (Closedir h) (f, n, used)"
    by (auto simp: sound_def split: if_splits intro!: simple_good_scan [OF g])
  show "sound loc me (Readdir h) (f, n, used)"
  proof (cases "scans f me h")
    case (Some a)
    obtain k snap seen where a: "a = (k, snap, seen)" by (cases a)
    have listed: "x \<in> set used" if "nodes f (k @ [x]) \<noteq> None" for x using simple_goodD(6) [OF g, of "k @ [x]"] that by simp
    show ?thesis
    proof (cases "find (\<lambda>x. nodes f (k @ [x]) \<noteq> None \<and> x \<notin> seen) used")
      case None
      then have "\<forall>x. nodes f (k @ [x]) \<noteq> None \<longrightarrow> x \<in> seen" using listed unfolding find_None_iff by blast
      then show ?thesis using Some a None g by (simp add: sound_def)
    next
      case (Some x)
      then have x: "nodes f (k @ [x]) \<noteq> None" "x \<notin> seen" by (auto simp: find_Some_iff)
      show ?thesis
        using \<open>scans f me h = Some a\<close> Some x a by (auto simp: sound_def split: if_splits intro!: simple_good_scan [OF g])
    qed
  qed (use g in \<open>simp add: sound_def\<close>)
qed

lemma names_sound:
  assumes g: "simple_good (f, n, used)"
  shows "sound loc me (Unlink p) (f, n, used)" "sound loc me (Mkdir p mode) (f, n, used)" "sound loc me (Access p) (f, n, used)"
proof -
  have del: "simple_good (f\<lparr>nodes := (nodes f)(k := None)\<rparr>, n, used)" for k
    by (rule simple_good_step [OF g]) (auto split: if_splits)
  have add: "simple_good (f\<lparr>nodes := (nodes f)(k \<mapsto> Dir)\<rparr>, n, last k # used)" for k
    by (rule simple_good_step [OF g]) (auto split: if_splits)
  show "sound loc me (Unlink p) (f, n, used)" "sound loc me (Mkdir p mode) (f, n, used)" "sound loc me (Access p) (f, n, used)"
    using g del add by (auto simp: sound_def refused_def split: option.splits node.splits)
qed

lemma process_sound:
  assumes g: "simple_good (f, n, used)"
  shows "sound loc me Fork (f, n, used)" "sound loc me (Quit st) (f, n, used)"
    "sound loc me Getpid (f, n, used)" "sound loc me (Sleep l) (f, n, used)" "sound loc me (Waitpid pid) (f, n, used)" "sound loc me (Print t) (f, n, used)"
proof -
  have "simple_good (f\<lparr>fds := (fds f)(\<bar>me\<bar> + 1 := fds f me), scans := (scans f)(\<bar>me\<bar> + 1 := scans f me)\<rparr>, n, used)"
    by (rule simple_good_step [OF g]) (auto split: if_splits)
  then show "sound loc me Fork (f, n, used)" by (simp add: sound_def)
  have "simple_good (f\<lparr>fds := (fds f)(me := Map.empty), scans := (scans f)(me := Map.empty)\<rparr>, n, used)"
    by (rule simple_good_step [OF g]) (auto split: if_splits)
  then show "sound loc me (Quit st) (f, n, used)" by (simp add: sound_def)
qed (use g in \<open>simp_all add: sound_def\<close>)

lemma simple_kernel_serves: "serves loc fst simple_good (simple_kernel loc)"
proof -
  have "sound loc me c (f, n, used)" if g: "simple_good (f, n, used)" for me c f n used
    by (cases c) (simp_all only: open_sound [OF g] fd_sound [OF g] scan_sound [OF g] names_sound [OF g] process_sound [OF g])
  then have "sound loc me c s" if "simple_good s" for me c s using that by (cases s) auto
  then show ?thesis unfolding serves_def sound_def by (simp add: case_prod_beta)
qed

text \<open>The file system is mounted at \<open>/a\<close> and at \<open>/b\<close>, and empty.\<close>

definition simple_loc :: "string \<Rightarrow> string list option" where
  "simple_loc p = (if take 3 p \<in> {''/a/'', ''/b/''} then Some (split (drop 3 p) (CHR ''/'')) else None)"

definition simple_start :: simple_state where
  "simple_start = (\<lparr>nodes = Map.empty, bytes_of = (\<lambda>_. []), fds = (\<lambda>_. Map.empty), scans = (\<lambda>_. Map.empty)\<rparr>, 1, [])"

lemma simple_start_good: "simple_good simple_start"
  by (simp add: simple_start_def simple_good_def)

lemma split_last: "x \<noteq> [] \<Longrightarrow> d \<notin> set x \<Longrightarrow> split x d = [x]"
proof -
  assume x: "x \<noteq> []" "d \<notin> set x"
  then have e: "takeWhile (\<lambda>c. c \<noteq> d) x = x" "dropWhile (\<lambda>c. c \<noteq> d) x = []" by auto
  show ?thesis unfolding split.simps [of x] e using x(1) by simp
qed

lemma simple_loc_at:
  assumes "a \<in> {''/a'', ''/b''}" "x \<noteq> []" "CHR ''/'' \<notin> set x"
  shows "simple_loc (a @ ''/'' @ x) = Some [x]" "y \<noteq> [] \<Longrightarrow> CHR ''/'' \<notin> set y \<Longrightarrow> simple_loc (a @ ''/'' @ x @ ''/'' @ y) = Some [x, y]"
  using assms split_last by (auto simp: simple_loc_def)

end
