(* ===== verification/Fs_Verdict.thy ===== *)
theory Fs_Verdict
  imports Fs_Shared Fs_Kernel
begin

text \<open>
  The two programs as a whole: the tests one process makes on a directory, the tests with two
  processes, and the theorem that both programs pass.
\<close>

section \<open>One directory\<close>

definition tree :: "(string list \<rightharpoonup> ent) \<Rightarrow> string \<Rightarrow> (string \<rightharpoonup> string) \<Rightarrow> (string list \<rightharpoonup> ent)" where
  "tree b D \<mu> k = (if k = [D] then Some EDir else if length k = 2 \<and> hd k = D then map_option EFile (\<mu> (last k)) else b k)"

lemma tree_at [simp]: "tree b D \<mu> [D, n] = map_option EFile (\<mu> n)" "tree b D \<mu> [D] = Some EDir"
  by (simp_all add: tree_def)

lemma pair_list: "length k = 2 \<Longrightarrow> k = [hd k, last k]"
  by (cases k; cases "tl k") auto

lemma tree_upd: "(tree b D \<mu>)([D, n] \<mapsto> EFile c) = tree b D (\<mu>(n \<mapsto> c))" "(tree b D \<mu>)([D, n] := None) = tree b D (\<mu>(n := None))"
  using pair_list by (fastforce simp: tree_def fun_eq_iff)+

fun addn :: "string \<Rightarrow> nat \<Rightarrow> (string \<rightharpoonup> string) \<Rightarrow> (string \<rightharpoonup> string)" where
  "addn p 0 \<mu> = \<mu>"
| "addn p (Suc n) \<mu> = (addn p n \<mu>)(nth_name p n \<mapsto> int_bytes n)"

fun deln :: "string \<Rightarrow> nat \<Rightarrow> (string \<rightharpoonup> string) \<Rightarrow> (string \<rightharpoonup> string)" where
  "deln p 0 \<mu> = \<mu>"
| "deln p (Suc n) \<mu> = (deln p n \<mu>)(nth_name p n := None)"

definition names :: "string \<Rightarrow> nat \<Rightarrow> string list" where
  "names p n = map (nth_name p) [0..<n]"

lemma tree_addn: "added D p n (tree b D \<mu>) = tree b D (addn p n \<mu>)"
  by (induction n) (simp_all add: tree_upd, simp_all add: fun_upd_def)

lemma tree_deln: "removed D p n (tree b D \<mu>) = tree b D (deln p n \<mu>)"
  by (induction n) (simp_all add: tree_upd, simp_all add: fun_upd_def)

lemma names_set: "x \<in> set (names p n) \<longleftrightarrow> (\<exists>i<n. x = nth_name p i)"
  by (auto simp: names_def)

lemma names_props [simp]: "distinct (names p n)" "length (names p n) = n"
  by (auto simp: names_def distinct_map inj_on_def nth_name_eq)

lemma names_disjoint: "length p = length q \<Longrightarrow> p \<noteq> q \<Longrightarrow> set (names p n) \<inter> set (names q l) = {}"
  by (auto simp: names_set nth_name_eq)

lemma addn_at: "addn p n \<mu> x = (if \<exists>i<n. x = nth_name p i then Some (int_bytes (THE i. x = nth_name p i)) else \<mu> x)"
  by (induction n) (auto simp: nth_name_eq less_Suc_eq)

lemma deln_at: "deln p n \<mu> x = (if x \<in> set (names p n) then None else \<mu> x)"
  by (induction n) (auto simp: names_set less_Suc_eq)

lemma addn_nth: "addn p n \<mu> (nth_name p i) = (if i < n then Some (int_bytes i) else \<mu> (nth_name p i))"
  by (auto simp: addn_at nth_name_eq)

lemma addn_other: "x \<notin> set (names p n) \<Longrightarrow> addn p n \<mu> x = \<mu> x"
  by (auto simp: addn_at names_set)

lemma dom_addn: "dom (addn p n \<mu>) = set (names p n) \<union> dom \<mu>"
  by (auto simp: addn_at names_set split: if_splits)

lemma deln_addn: "dom \<mu> \<inter> set (names p n) = {} \<Longrightarrow> deln p n (addn p n \<mu>) = \<mu>"
  by (intro ext, rename_tac x, case_tac "\<mu> x") (auto simp: deln_at addn_other dom_def disjoint_iff)

lemma deln_addn_other: "length p = length q \<Longrightarrow> p \<noteq> q \<Longrightarrow> deln q l (addn p n \<mu>) = addn p n (deln q l \<mu>)"
  by (auto simp: fun_eq_iff deln_at addn_at names_set nth_name_eq)

lemma addn_nth_other: "length p = length q \<Longrightarrow> p \<noteq> q \<Longrightarrow> addn p n \<mu> (nth_name q i) = \<mu> (nth_name q i)"
  by (simp add: addn_at nth_name_eq)

lemma names_not_dotted: "p \<noteq> [] \<Longrightarrow> hd p \<noteq> CHR ''.'' \<Longrightarrow> n \<in> set (names p l) \<Longrightarrow> \<not> dotted n"
  by (auto simp: names_set nth_name_def dotted_def)

lemmas series_simps = addn_nth addn_nth_other dom_addn deln_addn deln_addn_other names_disjoint Int_Un_distrib Int_Un_distrib2 Int_commute

text \<open>The process has no file open and the directory holds \<open>\<mu>\<close>.\<close>

abbreviation st :: "int \<Rightarrow> (string list \<rightharpoonup> ent) \<Rightarrow> string \<Rightarrow> (string \<rightharpoonup> string) \<Rightarrow> fs \<Rightarrow> bool" where
  "st me b D \<mu> \<equiv> owns me UNIV (tree b D \<mu>) {[D]}"

lemma st_create1:
  assumes "st me b D \<mu> f" "leads loc d D" "fname n" "\<mu> n = None"
    and "\<And>g. st me b D (\<mu>(n \<mapsto> inp)) g \<Longrightarrow> own loc me UNIV W g k"
  shows "own loc me UNIV W f (create1 d n inp k)"
  by (rule own_create1 [OF assms(1-3)]) (use assms in \<open>auto simp: tree_upd\<close>)

lemma st_check1:
  assumes "st me b D \<mu> f" "leads loc d D" "fname n" "\<mu> n = Some inp" "length inp < sz"
    and "\<And>g. st me b D \<mu> g \<Longrightarrow> own loc me UNIV W g k"
  shows "own loc me UNIV W f (check1 sz d n inp k)"
  by (rule own_check1 [OF assms(1-3)]) (use assms in auto)

lemma st_unlink1:
  assumes "st me b D \<mu> f" "leads loc d D" "fname n" "\<mu> n = Some c"
    and "\<And>g. st me b D (\<mu>(n := None)) g \<Longrightarrow> own loc me UNIV W g k"
  shows "own loc me UNIV W f (unlink1 d n k)"
  by (rule own_unlink1 [OF assms(1-3)]) (use assms in \<open>auto simp: tree_upd\<close>)

lemma st_checknot:
  assumes "st me b D \<mu> f" "leads loc d D" "fname n" "\<mu> n = None" "\<And>g. st me b D \<mu> g \<Longrightarrow> own loc me UNIV W g k"
  shows "own loc me UNIV W f (checknot d n k)"
  by (rule own_checknot [OF assms(1-3)]) (use assms in auto)

lemma st_append1:
  assumes "st me b D \<mu> f" "leads loc d D" "fname n" "\<mu> n = Some c"
    and "\<And>g. st me b D (\<mu>(n \<mapsto> c @ inp)) g \<Longrightarrow> own loc me UNIV W g k"
  shows "own loc me UNIV W f (append1 d n inp k)"
  by (rule own_append1 [OF assms(1-3)]) (use assms in \<open>auto simp: tree_upd\<close>)

lemma st_createn:
  assumes "st me b D \<mu> f" "leads loc d D" "fname p" "length p \<le> 50" "n \<le> 100" "dom \<mu> \<inter> set (names p n) = {}"
    and "\<And>g. st me b D (addn p n \<mu>) g \<Longrightarrow> own loc me UNIV W g k"
  shows "own loc me UNIV W f (createn d p n dup k)"
proof -
  have "tree b D \<mu> l = None" if "l \<in> series D p n" for l
    using that assms(6) by (fastforce simp: series_def names_def)
  then show ?thesis by (intro own_createn [OF assms(1-5)]) (use assms(7) in \<open>auto simp: tree_addn\<close>)
qed

lemma st_checkn:
  assumes "st me b D \<mu> f" "leads loc d D" "fname p" "length p \<le> 50" "n \<le> 100" "\<And>i. i < n \<Longrightarrow> \<mu> (nth_name p i) = Some (int_bytes i)"
    and "\<And>g. st me b D \<mu> g \<Longrightarrow> own loc me UNIV W g k"
  shows "own loc me UNIV W f (checkn d p n k)"
  by (rule own_checkn [OF assms(1-5)]) (use assms(6,7) in auto)

lemma st_unlinkn:
  assumes "st me b D \<mu> f" "leads loc d D" "fname p" "length p \<le> 50" "n \<le> 100" "set (names p n) \<subseteq> dom \<mu>"
    and "\<And>g. st me b D (deln p n \<mu>) g \<Longrightarrow> own loc me UNIV W g k"
  shows "own loc me UNIV W f (unlinkn d p n k)"
proof -
  have "\<exists>c. tree b D \<mu> [D, nth_name p i] = Some (EFile c)" if "i < n" for i
    using that assms(6) by (auto simp: names_def dom_def image_subset_iff)
  then show ?thesis by (intro own_unlinkn [OF assms(1-5)]) (use assms(7) in \<open>auto simp: tree_deln\<close>)
qed

lemma st_dircheck:
  assumes "st me b D \<mu> f" "leads loc d D" "dom \<mu> = set ns" "distinct ns" "\<forall>n \<in> set ns. \<not> dotted n" "nf = length ns" "nf \<le> 1000"
    and "\<And>g. st me b D \<mu> g \<Longrightarrow> own loc me UNIV W g k"
  shows "own loc me UNIV W f (dircheck d nf k)"
proof -
  have S: "{n. tree b D \<mu> [D, n] \<noteq> None} = set ns" using assms(3) by auto
  moreover have "{n. tree b D \<mu> [D, n] \<noteq> None \<and> \<not> dotted n} = set ns" using assms(3,5) by auto
  ultimately show ?thesis
    by (intro own_dircheck [OF assms(1,2)]) (use assms(4,6,7,8) distinct_card [OF assms(4)] in simp_all)
qed

lemma st_say:
  assumes "st me b D \<mu> f" "\<And>g. st me b D \<mu> g \<Longrightarrow> own loc me UNIV W g k"
  shows "own loc me UNIV W f (say t k)"
  unfolding say_def by (rule own_idle [OF _ assms(1)]) (use assms(2) in auto)

lemma st_end:
  assumes "st me b D \<mu> f" "\<mu> = \<nu>" "\<And>g. st me b D \<nu> g \<Longrightarrow> W p g"
  shows "own loc me UNIV W f p"
  by (rule rg_stop [where P = "st me b D \<nu>"]) (use assms owns_stable in auto)

lemma fname_lit [simp]: "fname n \<longleftrightarrow> n \<noteq> [] \<and> CHR ''/'' \<notin> set n \<and> length n < 200"
  by (simp add: fname_def)

lemmas st_rules = st_create1 st_check1 st_unlink1 st_checknot st_append1 st_say

section \<open>The tests with one process\<close>

lemma test_create_ok:
  assumes d: "leads loc d1 D" "leads loc d2 D" and f: "st me b D Map.empty f"
  shows "own loc me UNIV (\<lambda>q g. q = k \<and> st me b D [''f1'' \<mapsto> ''aaa''] g) f (test_create d1 d2 k)"
  unfolding test_create_def ok_def
  by (assumption | rule f d st_rules conjI refl | rule st_end | simp)+

lemma test_unlink_ok:
  assumes d: "leads loc d1 D" "leads loc d2 D" and f: "st me b D [''f1'' \<mapsto> ''aaa''] f"
  shows "own loc me UNIV (\<lambda>q g. q = k \<and> st me b D Map.empty g) f (test_unlink d1 d2 k)"
  unfolding test_unlink_def ok_def
  by (assumption | rule f d st_rules conjI refl | rule st_end | simp)+

lemma test_append_ok:
  assumes d: "leads loc d1 D" "leads loc d2 D" and f: "st me b D Map.empty f"
  shows "own loc me UNIV (\<lambda>q g. q = k \<and> st me b D [''f1'' \<mapsto> ''aaabbbccc''] g) f (test_append d1 d2 k)"
  unfolding test_append_def ok_def
  by (assumption | rule f d st_rules conjI refl | rule st_end | simp)+

lemma st_dir0:
  assumes "st me b D \<mu> f" "leads loc d D" "dom \<mu> = {}" "\<And>g. st me b D \<mu> g \<Longrightarrow> own loc me UNIV W g k"
  shows "own loc me UNIV W f (dircheck d 0 k)"
  by (rule st_dircheck [OF assms(1,2), of "[]"]) (use assms in auto)

lemma st_dir1:
  assumes "st me b D \<mu> f" "leads loc d D" "dom \<mu> = {n}" "\<not> dotted n" "\<And>g. st me b D \<mu> g \<Longrightarrow> own loc me UNIV W g k"
  shows "own loc me UNIV W f (dircheck d 1 k)"
  by (rule st_dircheck [OF assms(1,2), of "[n]"]) (use assms in auto)

lemma st_dir2:
  assumes "st me b D \<mu> f" "leads loc d D" "dom \<mu> = {n, n'}" "n \<noteq> n'" "\<not> dotted n" "\<not> dotted n'"
    "\<And>g. st me b D \<mu> g \<Longrightarrow> own loc me UNIV W g k"
  shows "own loc me UNIV W f (dircheck d 2 k)"
  by (rule st_dircheck [OF assms(1,2), of "[n, n']"]) (use assms in auto)

lemma test_readdir_ok:
  assumes d: "leads loc d1 D" "leads loc d2 D" and f: "st me b D [''f1'' \<mapsto> ''aaabbbccc''] f"
  shows "own loc me UNIV (\<lambda>q g. q = k \<and> st me b D Map.empty g) f (test_readdir d1 d2 k)"
  unfolding test_readdir_def ok_def
  by (assumption | rule f d st_rules st_dir0 st_dir1 st_dir2 conjI refl | rule st_end | simp add: dotted_def fun_upd_twist [of "''f2''"])+

lemma st_dir_series:
  assumes "st me b D \<mu> f" "leads loc d D" "dom \<mu> = set (names p n) \<union> set (names q l)" "length p = length q" "p \<noteq> q" "nf = n + l" "nf \<le> 1000"
    and "p \<noteq> []" "hd p \<noteq> CHR ''.''" "q \<noteq> []" "hd q \<noteq> CHR ''.''" "\<And>g. st me b D \<mu> g \<Longrightarrow> own loc me UNIV W g k"
  shows "own loc me UNIV W f (dircheck d nf k)"
  by (rule st_dircheck [OF assms(1,2), of "names p n @ names q l"])
    (use assms names_disjoint [OF assms(4,5), of n l] names_not_dotted in auto)

lemmas st_series_rules = st_createn st_checkn st_unlinkn

lemma test_sequential_ok:
  assumes d: "leads loc d1 D" "leads loc d2 D" and f: "st me b D Map.empty f"
  shows "own loc me UNIV (\<lambda>q g. q = k \<and> st me b D Map.empty g) f (test_sequential d1 d2 k)"
  unfolding test_sequential_def ok_def
  by (assumption | rule f d st_rules st_series_rules conjI refl | rule st_dir_series [where p = "''bb''" and q = "''aa''" and n = 10 and l = 10]
      | rule st_end | simp add: series_simps)+

lemma test_big_ok:
  assumes d: "leads loc d1 D" "leads loc d2 D" and f: "st me b D Map.empty f"
  shows "own loc me UNIV (\<lambda>q g. q = k \<and> st me b D Map.empty g) f (test_big d1 d2 k)"
proof -
  have "length big < 21000" by (simp add: big_def)
  then show ?thesis
    unfolding test_big_def ok_def by - (assumption | rule f d st_rules conjI refl | rule st_end | simp)+
qed

section \<open>Two processes with names of their own\<close>

lemma wins_own:
  assumes "serves loc \<alpha> good K" "own loc me UNIV (\<lambda>q g. q = k \<and> P g) f p" "\<And>g. P g \<Longrightarrow> wins \<alpha> good K me g k"
  shows "wins \<alpha> good K me f p"
  by (rule wins_seq [OF assms(1,2)]) (use assms(3) in blast)

lemma fork_idle:
  assumes "owns me UNIV m Ds f" "posix loc me Fork f r g"
  shows "owns me A m Ds g" "owns (r_val r) B m Ds g" "0 < r_val r" "r_val r \<noteq> me"
proof -
  have g: "g = f\<lparr>fds := (fds f)(r_val r := fds f me), scans := (scans f)(r_val r := scans f me)\<rparr>" and kid: "0 < r_val r" "r_val r \<noteq> me"
    using assms(2) by simp_all
  then show "owns me A m Ds g" "owns (r_val r) B m Ds g" "0 < r_val r" "r_val r \<noteq> me"
    using assms(1) by (auto simp: owns_def has_def g)
qed

lemma wins_disjoint:
  assumes srv: "serves loc \<alpha> good K" and f: "owns me UNIV m Ds f"
    and child: "\<And>kid g. owns kid B m Ds g \<Longrightarrow> own loc kid B (\<lambda>q g. q = Exit 0 \<and> owns kid B mk Ds g) g child"
    and parent: "\<And>kid g. owns me (- B) m Ds g \<Longrightarrow> own loc me (- B) (\<lambda>q g. q = reap kid rest \<and> owns me (- B) mp Ds g) g (parent kid)"
    and go: "\<And>g. owns me UNIV (\<lambda>k. if k \<in> B then mk k else mp k) Ds g \<Longrightarrow> wins \<alpha> good K me g rest"
  shows "wins \<alpha> good K me f (fork child parent)"
  unfolding fork_def
proof (rule wins_fork [OF srv], intro exI conjI)
  fix r g assume p: "posix loc me Fork f r g" and ok: "fs_ok g"
  note i = fork_idle [OF f p]
  let ?kid = "r_val r"
  let ?rest = "\<lambda>w. if r_val w < 0 then Exit 1 else if r_val w \<noteq> ?kid then Exit 1 else if r_status w \<noteq> Some 0 then Exit 1 else rest"
  show "fork_join loc \<alpha> good K me ?kid (others me (- B)) (mine me (- B)) (others ?kid B) (mine ?kid B)
      (owns me (- B) mp Ds) (owns ?kid B mk Ds) (has B mk Ds) ?rest"
    unfolding fork_join_def
  proof (intro conjI allI impI)
    show "mine me (- B) g h \<Longrightarrow> others ?kid B g h" for g h by (rule mine_others) (use i(4) in auto)
    show "mine ?kid B g h \<Longrightarrow> others me (- B) g h" for g h by (rule mine_others) (use i(4) in auto)
    show "mine ?kid B g h" "has B mk Ds h" if "owns ?kid B mk Ds g" "posix loc ?kid (Quit 0) g r' h" for g r' h
      using that by (auto simp: mine_def owns_def has_def)
    show "has B mk Ds g \<Longrightarrow> others ?kid B g h \<Longrightarrow> has B mk Ds h" for g h by (rule has_stable)
    fix g assume "owns me (- B) mp Ds g" "has B mk Ds g"
    then have "owns me UNIV (\<lambda>k. if k \<in> B then mk k else mp k) Ds g" by (auto simp: owns_def has_def)
    then show "wins \<alpha> good K me g (?rest (wait_rep ?kid (Some 0)))" using go i(3) by (simp add: wait_rep_def)
  qed
  show "parent_ok loc me (others me (- B)) (mine me (- B)) (owns me (- B) mp Ds) ?kid ?rest g
      (if r_val r < 0 then Exit 1 else if r_val r = 0 then child else parent (r_val r))"
    using parent [OF i(1), of ?kid] i(3) by (simp add: reap_def)
  show "kid_ok loc ?kid (others ?kid B) (mine ?kid B) (owns ?kid B mk Ds) g
      (if r_val (r\<lparr>r_val := 0\<rparr>) < 0 then Exit 1 else if r_val (r\<lparr>r_val := 0\<rparr>) = 0 then child else parent (r_val (r\<lparr>r_val := 0\<rparr>)))"
    using child [OF i(2)] by simp
qed

lemma own_end:
  assumes "owns me A m Ds f" "\<And>g. owns me A m Ds g \<Longrightarrow> W p g"
  shows "own loc me A W f p"
  by (rule rg_stop [where P = "owns me A m Ds"]) (use assms owns_stable in auto)

lemma own_sleep:
  assumes "owns me A m Ds f" "\<And>g. owns me A m Ds g \<Longrightarrow> own loc me A W g k"
  shows "own loc me A W f (Sys (Sleep n) (\<lambda>_. k))"
  by (rule own_idle [OF _ assms(1)]) (use assms(2) in auto)

text \<open>What the child's names hold with what the parent's hold.\<close>

lemma tree_joined:
  assumes "B \<subseteq> range (\<lambda>n. [D, n])"
  shows "(\<lambda>k. if k \<in> B then tree b D \<mu> k else tree b D \<nu> k) = tree b D (\<lambda>n. if [D, n] \<in> B then \<mu> n else \<nu> n)"
proof
  fix k show "(if k \<in> B then tree b D \<mu> k else tree b D \<nu> k) = tree b D (\<lambda>n. if [D, n] \<in> B then \<mu> n else \<nu> n) k"
    using assms pair_list [of k] by (cases "length k = 2 \<and> hd k = D") (auto simp: tree_def)
qed

lemma series_names: "[D, n] \<in> series D p l \<longleftrightarrow> n \<in> set (names p l)"
  by (auto simp: series_def names_def)

lemma series_range: "series D p l \<subseteq> range (\<lambda>n. [D, n])"
  by (auto simp: series_def)

lemma test_concurrent_ok:
  assumes srv: "serves loc \<alpha> good K" and d: "leads loc d1 D" "leads loc d2 D" and f: "st me b D Map.empty f"
    and go: "\<And>g. st me b D Map.empty g \<Longrightarrow> wins \<alpha> good K me g k"
  shows "wins \<alpha> good K me f (test_concurrent d1 d2 k)"
proof -
  let ?B = "series D ''xx'' 20"
  let ?rest = "dircheck d1 40 (checkn d1 ''xx'' 20 (checkn d2 ''yy'' 20 (unlinkn d1 ''xx'' 20 (unlinkn d1 ''yy'' 20 (ok k)))))"
  let ?\<mu> = "addn ''xx'' 20 (addn ''yy'' 20 Map.empty)"
  have rest: "wins \<alpha> good K me g ?rest" if g: "st me b D ?\<mu> g" for g
    by (rule wins_own [OF srv _ go], unfold ok_def)
      (assumption | rule g d st_rules st_series_rules conjI refl | rule st_dir_series [where p = "''xx''" and q = "''yy''" and n = 20 and l = 20]
       | rule st_end | simp add: series_simps)+
  have joined: "(\<lambda>k. if k \<in> ?B then added D ''xx'' 20 (tree b D Map.empty) k else added D ''yy'' 20 (tree b D Map.empty) k) = tree b D ?\<mu>"
    unfolding tree_addn tree_joined [OF series_range] series_names
    by (rule arg_cong [where f = "tree b D"]) (auto simp: fun_eq_iff addn_at names_set)
  have yy: "series D ''yy'' 20 \<subseteq> - ?B" by (auto simp: series_def nth_name_eq)
  have fork: "wins \<alpha> good K me g (fork (createn d2 ''xx'' 20 False (Exit 0)) (\<lambda>pid. createn d1 ''yy'' 20 False (Sys (Sleep 10) (\<lambda>_. reap pid ?rest))))"
    if g: "st me b D Map.empty g" for g
  proof (rule wins_disjoint [OF srv g, where B = ?B])
    have none: "tree b D Map.empty l = None" if "l \<in> series D p n" for l p n using that by (auto simp: series_def)
    show "own loc kid ?B (\<lambda>q g. q = Exit 0 \<and> owns kid ?B (added D ''xx'' 20 (tree b D Map.empty)) {[D]} g) g
        (createn d2 ''xx'' 20 False (Exit 0))" if "owns kid ?B (tree b D Map.empty) {[D]} g" for kid g
      by (rule own_createn [OF that d(2)]) (use none in \<open>auto intro: own_end\<close>)
    show "own loc me (- ?B) (\<lambda>q g. q = reap kid ?rest \<and> owns me (- ?B) (added D ''yy'' 20 (tree b D Map.empty)) {[D]} g) g
        (createn d1 ''yy'' 20 False (Sys (Sleep 10) (\<lambda>_. reap kid ?rest)))" if "owns me (- ?B) (tree b D Map.empty) {[D]} g" for kid g
      by (rule own_createn [OF that d(1)]) (use none yy in \<open>auto intro: own_end own_sleep\<close>)
    show "wins \<alpha> good K me g ?rest"
      if "owns me UNIV (\<lambda>k. if k \<in> ?B then added D ''xx'' 20 (tree b D Map.empty) k else added D ''yy'' 20 (tree b D Map.empty) k) {[D]} g" for g
      using rest that unfolding joined .
  qed
  show ?thesis
    unfolding test_concurrent_def
    by (rule wins_own [OF srv _ fork], rule st_say [OF f], rule st_end) auto
qed

lemma test_create_delete_ok:
  assumes srv: "serves loc \<alpha> good K" and d: "leads loc d1 D" "leads loc d2 D" and f: "st me b D Map.empty f"
    and go: "\<And>g. st me b D Map.empty g \<Longrightarrow> wins \<alpha> good K me g k"
  shows "wins \<alpha> good K me f (test_create_delete d1 d2 k)"
proof -
  let ?B = "series D ''x1'' 20 \<union> series D ''x3'' 20"
  let ?\<mu> = "addn ''x2'' 20 (addn ''x1'' 20 Map.empty)"
  let ?mk = "added D ''x3'' 20 (removed D ''x1'' 20 (tree b D ?\<mu>))" and ?mp = "added D ''x4'' 20 (tree b D ?\<mu>)"
  let ?\<nu> = "addn ''x3'' 20 (addn ''x4'' 20 (addn ''x2'' 20 Map.empty))"
  let ?rest = "unlinkn d2 ''x2'' 20 (unlinkn d2 ''x4'' 20 (unlinkn d2 ''x3'' 20 (dircheck d1 0 (ok k))))"
  let ?fork = "fork (unlinkn d2 ''x1'' 20 (createn d1 ''x3'' 20 False (Exit 0))) (\<lambda>pid. createn d1 ''x4'' 20 False (reap pid ?rest))"
  have rest: "wins \<alpha> good K me g ?rest" if g: "st me b D ?\<nu> g" for g
    by (rule wins_own [OF srv _ go], unfold ok_def)
      (assumption | rule g d st_rules st_series_rules st_dir0 conjI refl | rule st_end | simp add: series_simps | blast)+
  have joined: "(\<lambda>k. if k \<in> ?B then ?mk k else ?mp k) = tree b D ?\<nu>"
  proof -
    have "(\<lambda>n. if [D, n] \<in> ?B then addn ''x3'' 20 (deln ''x1'' 20 ?\<mu>) n else addn ''x4'' 20 ?\<mu> n) = ?\<nu>"
      by (auto simp: series_names fun_eq_iff addn_at deln_at names_set nth_name_eq)
    then show ?thesis unfolding tree_addn tree_deln by (subst tree_joined) (use series_range in auto)
  qed
  have sub: "series D ''x4'' 20 \<subseteq> - ?B" by (auto simp: series_def nth_name_eq)
  have at: "tree b D ?\<mu> [D, nth_name p i] = map_option EFile (?\<mu> (nth_name p i))" for p i by simp
  have fork: "wins \<alpha> good K me g ?fork" if g: "st me b D ?\<mu> g" for g
  proof (rule wins_disjoint [OF srv g, where B = ?B])
    show "own loc kid ?B (\<lambda>q g. q = Exit 0 \<and> owns kid ?B ?mk {[D]} g) g (unlinkn d2 ''x1'' 20 (createn d1 ''x3'' 20 False (Exit 0)))"
      if h: "owns kid ?B (tree b D ?\<mu>) {[D]} g" for kid g
    proof (rule own_unlinkn [OF h d(2)])
      have none: "removed D ''x1'' 20 (tree b D ?\<mu>) k = None" if "k \<in> series D ''x3'' 20" for k
        using that by (auto simp: series_def removed_at series_simps)
      show "own loc kid ?B (\<lambda>q g. q = Exit 0 \<and> owns kid ?B ?mk {[D]} g) g (createn d1 ''x3'' 20 False (Exit 0))"
        if "owns kid ?B (removed D ''x1'' 20 (tree b D ?\<mu>)) {[D]} g" for g
        by (rule own_createn [OF that d(1)]) (use none in \<open>auto intro: own_end\<close>)
    qed (simp_all add: series_simps)
    show "own loc me (- ?B) (\<lambda>q g. q = reap kid ?rest \<and> owns me (- ?B) ?mp {[D]} g) g (createn d1 ''x4'' 20 False (reap kid ?rest))"
      if h: "owns me (- ?B) (tree b D ?\<mu>) {[D]} g" for kid g
      by (rule own_createn [OF h d(1)]) (use sub in \<open>auto simp: series_def series_simps intro: own_end\<close>)
    show "wins \<alpha> good K me g ?rest" if "owns me UNIV (\<lambda>k. if k \<in> ?B then ?mk k else ?mp k) {[D]} g" for g
      using rest that unfolding joined .
  qed
  show ?thesis
    unfolding test_create_delete_def
    by (rule wins_own [OF srv _ fork]) (assumption | rule f d st_rules st_series_rules conjI refl | rule st_end | simp add: series_simps)+
qed

section \<open>Two processes with the same names\<close>

lemma sh_start: "owns q UNIV m Ds g \<Longrightarrow> \<forall>k \<in> series D p n. m k = None \<Longrightarrow> sh_idle D p n ps m Ds q 0 g"
proof -
  assume g: "owns q UNIV m Ds g" and none: "\<forall>k \<in> series D p n. m k = None"
  have "nodes g [D, nth_name p j] = None" if "j < n" for j
  proof -
    have "entry g [D, nth_name p j] = None" using g none that series_mem [of D p j n] by (simp add: owns_def has_def)
    then show ?thesis by simp
  qed
  then show ?thesis using g by (simp add: sh_idle_def sh_inv_def filling_def owns_def has_def)
qed

lemma wins_same:
  assumes srv: "serves loc \<alpha> good K" and f: "owns me UNIV m Ds f" and none: "\<forall>k \<in> series D p n. m k = None"
    and child: "\<And>kid g. sh_idle D p n {me, kid} m Ds kid 0 g \<Longrightarrow>
      share loc D p n {me, kid} kid (\<lambda>q g. q = Exit 0 \<and> sh_idle D p n {me, kid} m Ds kid n g) g child"
    and parent: "\<And>kid g. sh_idle D p n {me, kid} m Ds me 0 g \<Longrightarrow>
      share loc D p n {me, kid} me (\<lambda>q g. q = reap kid rest \<and> sh_idle D p n {me, kid} m Ds me n g) g (parent kid)"
    and go: "\<And>g. owns me UNIV (added D p n m) Ds g \<Longrightarrow> wins \<alpha> good K me g rest"
  shows "wins \<alpha> good K me f (fork child parent)"
  unfolding fork_def
proof (rule wins_fork [OF srv], intro exI conjI)
  fix r g assume p: "posix loc me Fork f r g" and ok: "fs_ok g"
  let ?kid = "r_val r"
  let ?ps = "{me, ?kid}"
  note i = fork_idle(1) [OF f p, of UNIV] fork_idle(2) [OF f p, of UNIV] fork_idle(3,4) [OF f p]
  let ?rest = "\<lambda>w. if r_val w < 0 then Exit 1 else if r_val w \<noteq> ?kid then Exit 1 else if r_status w \<noteq> Some 0 then Exit 1 else rest"
  show "fork_join loc \<alpha> good K me ?kid (sh_rely D p n ?ps me) (sh_guar D p n ?ps me) (sh_rely D p n ?ps ?kid) (sh_guar D p n ?ps ?kid)
      (sh_idle D p n ?ps m Ds me n) (sh_idle D p n ?ps m Ds ?kid n) (\<lambda>g. fds g ?kid = Map.empty) ?rest"
    unfolding fork_join_def
  proof (intro conjI allI impI)
    show "sh_guar D p n ?ps me g h \<Longrightarrow> sh_rely D p n ?ps ?kid g h" for g h using sh_harmless i(4) by metis
    show "sh_guar D p n ?ps ?kid g h \<Longrightarrow> sh_rely D p n ?ps me g h" for g h using sh_harmless i(4) by metis
    fix g r' h assume g: "sh_idle D p n ?ps m Ds ?kid n g" and q: "posix loc ?kid (Quit 0) g r' h"
    then have "h = g\<lparr>scans := (scans g)(?kid := Map.empty)\<rparr>" by (simp add: sh_idle_def fun_upd_idem)
    then show "sh_guar D p n ?ps ?kid g h" "fds h ?kid = Map.empty" using g by (auto simp: sh_guar_def keeps_def sh_idle_def)
  next
    show "fds h ?kid = Map.empty" if "fds g ?kid = Map.empty" "sh_rely D p n ?ps ?kid g h" for g h using that by (simp add: sh_rely_def)
    show "wins \<alpha> good K me g (?rest (wait_rep ?kid (Some 0)))" if "sh_idle D p n ?ps m Ds me n g" "fds g ?kid = Map.empty" for g
      using go [OF filled [OF that]] i(3) by (simp add: wait_rep_def)
  qed
  show "parent_ok loc me (sh_rely D p n ?ps me) (sh_guar D p n ?ps me) (sh_idle D p n ?ps m Ds me n) ?kid ?rest g
      (if r_val r < 0 then Exit 1 else if r_val r = 0 then child else parent (r_val r))"
    using parent [of ?kid g] sh_start [OF i(1) none] i(3) by (simp add: reap_def)
  show "kid_ok loc ?kid (sh_rely D p n ?ps ?kid) (sh_guar D p n ?ps ?kid) (sh_idle D p n ?ps m Ds ?kid n) g
      (if r_val (r\<lparr>r_val := 0\<rparr>) < 0 then Exit 1 else if r_val (r\<lparr>r_val := 0\<rparr>) = 0 then child else parent (r_val (r\<lparr>r_val := 0\<rparr>)))"
    using child [of ?kid g] sh_start [OF i(2) none] by simp
qed

lemma sh_end:
  assumes "sh_idle D p n ps m Ds me j f"
  shows "share loc D p n ps me (\<lambda>q g. q = k \<and> sh_idle D p n ps m Ds me j g) f k"
  by (rule rg_stop [where P = "sh_idle D p n ps m Ds me j"]) (use assms sh_idle_stable in auto)

text \<open>Both tests of this kind: \<open>da\<close> and \<open>db\<close> are the paths the child and the parent use.\<close>

lemma same_names_fork:
  assumes srv: "serves loc \<alpha> good K" and d: "leads loc da D" "leads loc db D" and f: "st me b D Map.empty f"
    and go: "\<And>g. st me b D (addn ''zz'' 20 Map.empty) g \<Longrightarrow> wins \<alpha> good K me g rest"
  shows "wins \<alpha> good K me f (fork (createn da ''zz'' 20 True (Exit 0)) (\<lambda>pid.
    createn db ''zz'' 20 True (Sys (Sleep t) (\<lambda>_. dircheck db 20 (reap pid rest)))))"
proof (rule wins_same [OF srv f, where D = D and p = "''zz''" and n = 20])
  show "\<forall>k \<in> series D ''zz'' 20. tree b D Map.empty k = None" by (auto simp: series_def)
  let ?m = "tree b D Map.empty"
  fix kid g
  show "share loc D ''zz'' 20 {me, kid} kid (\<lambda>q g. q = Exit 0 \<and> sh_idle D ''zz'' 20 {me, kid} ?m {[D]} kid 20 g) g (createn da ''zz'' 20 True (Exit 0))"
    if "sh_idle D ''zz'' 20 {me, kid} ?m {[D]} kid 0 g"
    by (rule sh_createn [OF that d(1)]) (auto intro: sh_end)
  show "share loc D ''zz'' 20 {me, kid} me (\<lambda>q g. q = reap kid rest \<and> sh_idle D ''zz'' 20 {me, kid} ?m {[D]} me 20 g) g
      (createn db ''zz'' 20 True (Sys (Sleep t) (\<lambda>_. dircheck db 20 (reap kid rest))))"
    if "sh_idle D ''zz'' 20 {me, kid} ?m {[D]} me 0 g"
    by (rule sh_createn [OF that d(2)]) (auto intro!: sh_pause sh_dircheck sh_end d(2))
qed (use go in \<open>simp add: tree_addn\<close>)

lemma test_same_file_ok:
  assumes srv: "serves loc \<alpha> good K" and d: "leads loc d1 D" "leads loc d2 D" and f: "st me b D Map.empty f"
    and go: "\<And>g. st me b D Map.empty g \<Longrightarrow> wins \<alpha> good K me g k"
  shows "wins \<alpha> good K me f (test_same_file d1 d2 k)"
proof -
  have rest: "wins \<alpha> good K me g (checkn d1 ''zz'' 20 (checkn d2 ''zz'' 20 (unlinkn d1 ''zz'' 20 (ok k))))"
    if g: "st me b D (addn ''zz'' 20 Map.empty) g" for g
    by (rule wins_own [OF srv _ go], unfold ok_def)
      (assumption | rule g d st_rules st_series_rules conjI refl | rule st_end | simp add: series_simps)+
  show ?thesis
    unfolding test_same_file_def
    by (rule wins_own [OF srv st_say [OF f st_end] same_names_fork [OF srv d(2,1) _ rest]]) auto
qed

lemma test_same_server_ok:
  assumes srv: "serves loc \<alpha> good K" and d: "leads loc d1 D" and f: "st me b D Map.empty f"
    and go: "\<And>g. st me b D Map.empty g \<Longrightarrow> wins \<alpha> good K me g k"
  shows "wins \<alpha> good K me f (test_same_server d1 d2 k)"
proof -
  have rest: "wins \<alpha> good K me g (checkn d1 ''zz'' 20 (unlinkn d1 ''zz'' 20 (ok k)))"
    if g: "st me b D (addn ''zz'' 20 Map.empty) g" for g
    by (rule wins_own [OF srv _ go], unfold ok_def)
      (assumption | rule g d st_rules st_series_rules conjI refl | rule st_end | simp add: series_simps)+
  show ?thesis
    unfolding test_same_server_def
    by (rule wins_own [OF srv st_say [OF f st_end] same_names_fork [OF srv d d _ rest]]) auto
qed

section \<open>Two parts of one file\<close>

lemma pt_start:
  assumes "owns q UNIV m Ds g" "m w = Some (EFile c)" "length c = L"
  shows "pt_idle w a n L ch m q 0 g"
  using assms by (simp add: pt_idle_def pt_inv_def owns_def has_def)

lemma pt_joined:
  assumes "pt_idle w a n L ch m me n g" "pt_inv w a' n' L ch' m n' g" "\<And>d. d \<in> Ds \<Longrightarrow> m d = Some EDir" "w \<notin> Ds"
  shows "\<exists>c. owns me UNIV (m(w \<mapsto> EFile c)) Ds g \<and> length c = L \<and> (\<forall>x<n. c ! (a + x) = ch) \<and> (\<forall>x<n'. c ! (a' + x) = ch')"
proof -
  obtain c where c: "entry g w = Some (EFile c)" "length c = L" "\<forall>x<n. c ! (a + x) = ch" "\<forall>x<n'. c ! (a' + x) = ch'"
    using assms(1,2) by (auto simp: pt_idle_def pt_inv_def)
  have "nodes g d = Some Dir" if "d \<in> Ds" for d
  proof -
    have "entry g d = m d" using assms(1,4) that by (auto simp: pt_idle_def pt_inv_def)
    then show ?thesis using assms(3) [OF that] by simp
  qed
  then have "owns me UNIV (m(w \<mapsto> EFile c)) Ds g"
    using assms(1) c(1) by (auto simp: owns_def has_def pt_idle_def pt_inv_def)
  then show ?thesis using c by blast
qed

lemma own_checkread:
  assumes "owns me A m Ds f" "leads loc d D" "fname n" "[D, n] \<in> A" "m [D, n] = Some (EFile c)" "a + l \<le> length c" "\<forall>x<l. c ! (a + x) = ch"
    and go: "\<And>g. owns me A m Ds g \<Longrightarrow> own loc me A W g k"
  shows "own loc me A W f (checkread d n a l ch k)"
proof -
  have path: "loc (d @ ''/'' @ n) = Some [D, n]" using leads_path [OF assms(2,3)] by simp
  have char: "own loc me A W g (checkread_char h ch i kk)"
    if "i < l" and g: "holding me A m Ds [D, n] h (e\<lparr>o_pos := a + i\<rparr>) g" and e: "\<not> o_wr e"
      and kk: "\<And>g. holding me A m Ds [D, n] h (e\<lparr>o_pos := a + Suc i\<rparr>) g \<Longrightarrow> own loc me A W g kk" for h e i kk g
  proof -
    have "take 1 (drop (a + i) c) = [ch]" using that(1) assms(6,7) by (simp add: take_Suc_conv_app_nth hd_drop_conv_nth take_Suc)
    then show ?thesis
      unfolding checkread_char_def by (intro own_read [OF g _ assms(5)]) (use e kk in auto)
  qed
  have loop: "own loc me A W g (foldr (checkread_char h ch) [0..<l] (Sys (Close h) (\<lambda>_. k)))"
    if "holding me A m Ds [D, n] h (e\<lparr>o_pos := a\<rparr>) g" "\<not> o_wr e" for h e g
    by (rule rg_loop [where P = "\<lambda>i. holding me A m Ds [D, n] h (e\<lparr>o_pos := a + i\<rparr>)"]) (use that char go in \<open>auto intro: own_close\<close>)
  have opened: "own loc me A W g (foldr (checkread_char h ch) [0..<l] (Sys (Close h) (\<lambda>_. k)))"
    if "holding me A m Ds [D, n] h \<lparr>o_ino = i, o_pos = a, o_app = False, o_wr = False\<rparr> g" for h i g
    using loop [of h "\<lparr>o_ino = i, o_pos = a, o_app = False, o_wr = False\<rparr>" g] that by simp
  have main: "own loc me A W g (Sys (Open (d @ ''/'' @ n) []) (\<lambda>fd. if r_val fd < 0 then Exit 1
     else Sys (Lseek (r_val fd) a) (\<lambda>r. if r_val r \<noteq> int a then Exit 1
     else foldr (checkread_char (r_val fd) ch) [0..<l] (Sys (Close (r_val fd)) (\<lambda>_. k)))))" if g: "owns me A m Ds g" for g
    by (rule own_open [where loc = loc, OF g assms(4,5) path]) (use opened in \<open>auto intro!: own_lseek\<close>)
  show ?thesis
    unfolding checkread_def leads_path [OF assms(2,3), THEN conjunct2] by (rule own_idle [OF _ assms(1)]) (use main in auto)
qed

lemma wins_parts:
  assumes srv: "serves loc \<alpha> good K" and f: "owns me UNIV m Ds f" and w: "m w = Some (EFile c)" "length c = L" "w \<notin> Ds"
    and Ds: "\<And>d. d \<in> Ds \<Longrightarrow> m d = Some EDir" and apart: "a + n \<le> a' \<or> a' + n' \<le> a"
    and child: "\<And>kid g. pt_idle w a' n' L ch' m kid 0 g \<Longrightarrow> part loc w a' n' kid (\<lambda>q g. q = Exit 0 \<and> pt_idle w a' n' L ch' m kid n' g) g child"
    and parent: "\<And>kid g. pt_idle w a n L ch m me 0 g \<Longrightarrow> part loc w a n me (\<lambda>q g. q = reap kid rest \<and> pt_idle w a n L ch m me n g) g (parent kid)"
    and go: "\<And>g c. owns me UNIV (m(w \<mapsto> EFile c)) Ds g \<Longrightarrow> length c = L \<Longrightarrow> \<forall>x<n. c ! (a + x) = ch \<Longrightarrow> \<forall>x<n'. c ! (a' + x) = ch' \<Longrightarrow>
      wins \<alpha> good K me g rest"
  shows "wins \<alpha> good K me f (fork child parent)"
  unfolding fork_def
proof (rule wins_fork [OF srv], intro exI conjI)
  fix r g assume p: "posix loc me Fork f r g" and ok: "fs_ok g"
  let ?kid = "r_val r"
  note i = fork_idle(1) [OF f p, of UNIV] fork_idle(2) [OF f p, of UNIV] fork_idle(3,4) [OF f p]
  let ?rest = "\<lambda>w. if r_val w < 0 then Exit 1 else if r_val w \<noteq> ?kid then Exit 1 else if r_status w \<noteq> Some 0 then Exit 1 else rest"
  show "fork_join loc \<alpha> good K me ?kid (pt_rely w a n me) (pt_guar w a n me) (pt_rely w a' n' ?kid) (pt_guar w a' n' ?kid)
      (pt_idle w a n L ch m me n) (pt_idle w a' n' L ch' m ?kid n') (pt_inv w a' n' L ch' m n') ?rest"
    unfolding fork_join_def
  proof (intro conjI allI impI)
    show "pt_guar w a n me g h \<Longrightarrow> pt_rely w a' n' ?kid g h" for g h by (rule pt_harmless) (use apart i(4) in auto)
    show "pt_guar w a' n' ?kid g h \<Longrightarrow> pt_rely w a n me g h" for g h by (rule pt_harmless) (use apart i(4) in auto)
    fix g r' h assume g: "pt_idle w a' n' L ch' m ?kid n' g" and q: "posix loc ?kid (Quit 0) g r' h"
    then have "h = g\<lparr>scans := (scans g)(?kid := Map.empty)\<rparr>" by (simp add: pt_idle_def fun_upd_idem)
    then show "pt_guar w a' n' ?kid g h" "pt_inv w a' n' L ch' m n' h" using g by (auto simp: pt_guar_def pt_keeps_def pt_idle_def pt_inv_def)
  next
    show "pt_inv w a' n' L ch' m n' g \<Longrightarrow> pt_rely w a' n' ?kid g h \<Longrightarrow> pt_inv w a' n' L ch' m n' h" for g h by (rule pt_inv_stable)
    show "wins \<alpha> good K me g (?rest (wait_rep ?kid (Some 0)))" if "pt_idle w a n L ch m me n g" "pt_inv w a' n' L ch' m n' g" for g
      using pt_joined [OF that Ds w(3)] go i(3) by (auto simp: wait_rep_def)
  qed
  show "parent_ok loc me (pt_rely w a n me) (pt_guar w a n me) (pt_idle w a n L ch m me n) ?kid ?rest g
      (if r_val r < 0 then Exit 1 else if r_val r = 0 then child else parent (r_val r))"
    using parent [OF pt_start [OF i(1) w(1,2)], of ?kid] i(3) by (simp add: reap_def)
  show "kid_ok loc ?kid (pt_rely w a' n' ?kid) (pt_guar w a' n' ?kid) (pt_idle w a' n' L ch' m ?kid n') g
      (if r_val (r\<lparr>r_val := 0\<rparr>) < 0 then Exit 1 else if r_val (r\<lparr>r_val := 0\<rparr>) = 0 then child else parent (r_val (r\<lparr>r_val := 0\<rparr>)))"
    using child [OF pt_start [OF i(2) w(1,2)]] by simp
qed

lemma pt_end:
  assumes "pt_idle w a n L ch m me i f"
  shows "part loc w a n me (\<lambda>q g. q = k \<and> pt_idle w a n L ch m me i g) f k"
  by (rule rg_stop [where P = "pt_idle w a n L ch m me i"]) (use assms pt_idle_stable in auto)

lemma st_checkread:
  assumes "st me b D \<mu> f" "leads loc d D" "fname n" "\<mu> n = Some c" "a + l \<le> length c" "\<forall>x<l. c ! (a + x) = ch"
    and "\<And>g. st me b D \<mu> g \<Longrightarrow> own loc me UNIV W g k"
  shows "own loc me UNIV W f (checkread d n a l ch k)"
  by (rule own_checkread [OF assms(1-3)]) (use assms in auto)

lemma test_parts_ok:
  assumes srv: "serves loc \<alpha> good K" and d: "leads loc d1 D" "leads loc d2 D" and f: "st me b D Map.empty f"
    and go: "\<And>g \<mu>. st me b D \<mu> g \<Longrightarrow> wins \<alpha> good K me g k"
  shows "wins \<alpha> good K me f (test_parts d1 d2 k)"
proof -
  let ?rest = "checkread d1 ''www'' 0 64 (CHR ''1'') (checkread d2 ''www'' 0 64 (CHR ''1'')
       (checkread d1 ''www'' 65536 64 (CHR ''2'') (checkread d2 ''www'' 65536 64 (CHR ''2'') (ok k))))"
  let ?m = "tree b D [''www'' \<mapsto> huge]"
  have rest: "wins \<alpha> good K me g ?rest"
    if g: "owns me UNIV (?m([D, ''www''] \<mapsto> EFile c)) {[D]} g" and L: "length c = 131072"
      and c: "\<forall>x<64. c ! (0 + x) = CHR ''1''" "\<forall>x<64. c ! (65536 + x) = CHR ''2''" for g c
  proof -
    have g': "st me b D [''www'' \<mapsto> c] g" using g by (simp add: tree_upd)
    have "own loc me UNIV (\<lambda>q h. q = k \<and> st me b D [''www'' \<mapsto> c] h) g ?rest"
      unfolding ok_def by (assumption | rule g' d c st_say st_checkread conjI refl | rule st_end | simp add: L)+
    then show ?thesis by (rule wins_own [OF srv _ go])
  qed
  have len: "length huge = 131072" by (simp add: huge_def)
  have fork: "wins \<alpha> good K me g (fork (write1 d2 ''www'' 65536 64 (CHR ''2'') (Exit 0)) (\<lambda>pid. write1 d1 ''www'' 0 64 (CHR ''1'') (reap pid ?rest)))"
    if g: "st me b D [''www'' \<mapsto> huge] g" for g
  proof (rule wins_parts [OF srv g, where w = "[D, ''www'']" and a = 0 and n = 64 and a' = 65536 and n' = 64])
    show "part loc [D, ''www''] 65536 64 kid (\<lambda>q g. q = Exit 0 \<and> pt_idle [D, ''www''] 65536 64 131072 (CHR ''2'') ?m kid 64 g) g
        (write1 d2 ''www'' 65536 64 (CHR ''2'') (Exit 0))" if "pt_idle [D, ''www''] 65536 64 131072 (CHR ''2'') ?m kid 0 g" for kid g
      by (rule pt_write1 [OF that d(2)]) (auto intro: pt_end)
    show "part loc [D, ''www''] 0 64 me (\<lambda>q g. q = reap kid ?rest \<and> pt_idle [D, ''www''] 0 64 131072 (CHR ''1'') ?m me 64 g) g
        (write1 d1 ''www'' 0 64 (CHR ''1'') (reap kid ?rest))" if "pt_idle [D, ''www''] 0 64 131072 (CHR ''1'') ?m me 0 g" for kid g
      by (rule pt_write1 [OF that d(1)]) (auto intro: pt_end)
  qed (use rest len in auto)
  show ?thesis
    unfolding test_parts_def
    by (rule wins_own [OF srv _ fork]) (assumption | rule f d st_rules conjI refl | rule st_end | simp)+
qed

section \<open>The programs\<close>

text \<open>The file system is mounted at \<open>a\<close>.\<close>

definition mounted :: "(string \<Rightarrow> string list option) \<Rightarrow> string \<Rightarrow> bool" where
  "mounted loc a \<longleftrightarrow> length a < 200 \<and>
     (\<forall>D. fname D \<longrightarrow> loc (a @ ''/'' @ D) = Some [D] \<and> (\<forall>n. fname n \<longrightarrow> loc (a @ ''/'' @ D @ ''/'' @ n) = Some [D, n]))"

lemma mounted_leads: "mounted loc a \<Longrightarrow> fname D \<Longrightarrow> length D < 90 \<Longrightarrow> leads loc (a @ ''/'' @ D) D"
  by (simp add: mounted_def leads_def)

lemma dec_digits_bound: "n < 10 ^ k \<Longrightarrow> 0 < k \<Longrightarrow> length (dec_digits n) \<le> k"
proof (induction n arbitrary: k rule: dec_digits.induct)
  case (1 n)
  show ?case
  proof (cases "n < 10")
    case True
    then show ?thesis using 1(3) by (simp add: dec_digits.simps [of n])
  next
    case False
    then obtain l where l: "k = Suc l" "0 < l" using 1(2,3) by (cases k; cases "k - 1") auto
    then have "n div 10 < 10 ^ l" using 1(2) by (simp add: less_mult_imp_div_less mult.commute)
    then show ?thesis using False 1(1) [OF False _ l(2)] l(1) by (simp add: dec_digits.simps [of n])
  qed
qed

text \<open>The name of a directory: some letters and the number of the process.\<close>

definition pid_name :: "string \<Rightarrow> int \<Rightarrow> string" where
  "pid_name p me = p @ dec_digits (nat me)"

lemma pid_name_ok:
  assumes "fname p" "length p \<le> 50" "0 < me" "me < 2 ^ 31"
  shows "fname (pid_name p me)" "length (pid_name p me) < 90"
proof -
  have "nat me < 10 ^ 10" using assms(3,4) by (simp add: nat_less_iff)
  then have "length (dec_digits (nat me)) \<le> 10" by (rule dec_digits_bound) simp
  moreover have "CHR ''/'' \<notin> set (dec_digits (nat me))" using dec_digits_all [of "nat me"] digit_not_special(4) by auto
  ultimately show "fname (pid_name p me)" "length (pid_name p me) < 90" using assms(1,2) by (auto simp: pid_name_def fname_def)
qed

lemma own_getpid:
  assumes "owns me A m Ds f" "\<And>g r. r_val r = me \<Longrightarrow> owns me A m Ds g \<Longrightarrow> own loc me A W g (k r)"
  shows "own loc me A W f (Sys Getpid k)"
  by (rule owns_call [OF _ assms(1)]) (use assms(2) in auto)

lemma own_access:
  assumes "owns me A m Ds f" "loc p = Some l" "l \<in> Ds" "\<And>g r. r_val r = 0 \<Longrightarrow> owns me A m Ds g \<Longrightarrow> own loc me A W g (k r)"
  shows "own loc me A W f (Sys (Access p) k)"
  by (rule owns_call [OF _ assms(1)]) (use assms(2-4) in \<open>auto simp: owns_def has_def\<close>)

lemma own_mkdir:
  assumes own: "owns me A m Ds f" and p: "loc p = Some [D]" "[D] \<in> A" "m [D] = None"
    and go: "\<And>g r. r_val r = 0 \<Longrightarrow> owns me A (m([D] \<mapsto> EDir)) (insert [D] Ds) g \<Longrightarrow> own loc me A W g (k r)"
  shows "own loc me A W f (Sys (Mkdir p mode) k)"
proof (rule owns_call [OF _ own])
  fix g r h assume g: "owns me A m Ds g" and q: "posix loc me (Mkdir p mode) g r h"
  have "entry g [D] = None" using g p by (simp add: owns_def has_def)
  then have h: "h = g\<lparr>nodes := (nodes g)([D] \<mapsto> Dir)\<rparr>" "r_val r = 0" using q p(1) by (auto simp: in_dir_def)
  have "owns me A (m([D] \<mapsto> EDir)) (insert [D] Ds) h" using g by (auto simp: h(1) owns_def has_def entry_mkdir)
  moreover have "mine me A g h" using p(2) by (auto simp: h(1) mine_def entry_mkdir)
  ultimately show "mine me A g h \<and> own loc me A W h (k r)" using go h(2) by blast
qed simp

lemma fresh_dir:
  assumes "fs_ok f" "nodes f [D] = None"
  shows "nodes f [D, n] = None"
  using fs_okD(2) [OF assms(1), of "[D]" n] assms(2) by (cases "nodes f [D, n]") auto

lemma own_path:
  assumes "owns me A m Ds f" "pre @ dec_digits (nat me) = ''/'' @ D" "length (a @ ''/'' @ D) < 512"
    and "\<And>g. owns me A m Ds g \<Longrightarrow> own loc me A W g (k (a @ ''/'' @ D))"
  shows "own loc me A W f (Sys Getpid (\<lambda>r. sprintf (a @ pre @ dec_digits (nat (r_val r))) k))"
proof (rule own_getpid [OF assms(1)])
  show "own loc me A W g (sprintf (a @ pre @ dec_digits (nat (r_val r))) k)" if "r_val r = me" "owns me A m Ds g" for g r
    unfolding that(1) assms(2) using assms(3,4) that(2) by (simp add: sprintf_def)
qed

lemma mkdir_tree:
  assumes "fs_ok f" "nodes f [D] = None"
  shows "(entry f)([D] \<mapsto> EDir) = tree (entry f) D Map.empty"
proof
  fix k show "((entry f)([D] \<mapsto> EDir)) k = tree (entry f) D Map.empty k"
    using fresh_dir [OF assms, of "last k"] pair_list [of k] by (auto simp: tree_def)
qed

lemma main_b_start:
  assumes a: "mounted loc a1" "mounted loc a2" and me: "0 < me" "me < 2 ^ 31"
    and f: "fds f me = Map.empty" "fs_ok f" "nodes f [D] = None" and D: "D = pid_name ''d'' me"
  shows "own loc me UNIV (\<lambda>q g. q = main_b_tests (a1 @ ''/'' @ D) (a2 @ ''/'' @ D) \<and> st me (entry f) D Map.empty g) f (main_b [a1, a2])"
proof -
  have nm: "fname D" "length D < 90" using pid_name_ok [of "''d''" me] me by (simp_all add: D fname_def)
  have path: "''/d'' @ dec_digits (nat me) = ''/'' @ D" by (simp add: D pid_name_def)
  have l: "leads loc (a1 @ ''/'' @ D) D" "leads loc (a2 @ ''/'' @ D) D" using mounted_leads a nm by blast+
  then have short: "length (a1 @ ''/'' @ D) < 512" "length (a2 @ ''/'' @ D) < 512"
    and loc: "loc (a1 @ ''/'' @ D) = Some [D]" "loc (a2 @ ''/'' @ D) = Some [D]"
    by (auto simp: leads_def)
  let ?W = "\<lambda>q g. q = main_b_tests (a1 @ ''/'' @ D) (a2 @ ''/'' @ D) \<and> st me (entry f) D Map.empty g"
  have tests: "own loc me UNIV ?W g (Sys Getpid (\<lambda>me. sprintf (a2 @ ''/d'' @ dec_digits (nat (r_val me))) (\<lambda>d2.
      Sys (Access d2) (\<lambda>r. if r_val r \<noteq> 0 then Exit 1 else main_b_tests (a1 @ ''/'' @ D) d2))))"
    if g: "st me (entry f) D Map.empty g" for g
    by (rule own_path [OF g path short(2)], rule own_access [where loc = loc, OF _ loc(2)], assumption) (auto intro: st_end)
  have s0: "owns me UNIV (entry f) {} f" using f(1) by (simp add: owns_def has_def)
  show ?thesis
    unfolding main_b_def list.case
    by (rule own_path [OF s0 path short(1)], rule own_mkdir [where loc = loc, OF _ loc(1)], assumption)
      (use f(3) tests mkdir_tree [OF f(2,3)] in simp_all)
qed

lemma main_b_tests_pass:
  assumes srv: "serves loc \<alpha> good K" and d: "leads loc d1 D" "leads loc d2 D" and f: "st me b D Map.empty f"
  shows "wins \<alpha> good K me f (main_b_tests d1 d2)"
proof -
  have fin: "wins \<alpha> good K me g (say ''test-lab-3-b: Passed all tests.'' (Exit 0))" if "st me b D \<mu> g" for g \<mu>
    by (rule wins_own [OF srv st_say [OF that st_end] wins_exit]) auto
  note seq = wins_own [OF srv]
  show ?thesis
    unfolding main_b_tests_def
    by (rule seq [OF test_create_ok [OF d f]], rule seq [OF test_unlink_ok [OF d]], assumption,
        rule seq [OF test_append_ok [OF d]], assumption, rule seq [OF test_readdir_ok [OF d]], assumption,
        rule seq [OF test_sequential_ok [OF d]], assumption, rule seq [OF test_big_ok [OF d]], assumption,
        rule test_concurrent_ok [OF srv d], assumption, rule test_same_file_ok [OF srv d], assumption,
        rule test_create_delete_ok [OF srv d], assumption, rule test_same_server_ok [OF srv d(1)], assumption,
        rule test_parts_ok [OF srv d], assumption, rule fin, assumption)
qed

lemma createn_c_eq: "createn_c d p n k = createn d p n False k"
proof -
  have "(\<lambda>i k. sprintf (d @ ''/'' @ nth_name p i) (\<lambda>n. Sys (Creat n 438) (\<lambda>r.
      if r_val r < 0 then Exit 1 else put_all (r_val r) (int_bytes i) k))) = createn_body d p False"
    by (simp add: createn_body_def fun_eq_iff)
  then show ?thesis by (simp add: createn_c_def createn_def)
qed

text \<open>All files of the series but the last are made and removed again.\<close>

definition leftover :: "string \<Rightarrow> string \<Rightarrow> nat \<Rightarrow> (string list \<rightharpoonup> ent) \<Rightarrow> (string list \<rightharpoonup> ent)" where
  "leftover D p n m = removed D p n (added D p (Suc n) m)"

lemma leftover_at:
  assumes "\<And>x. m [D, x] = None"
  shows "{x. leftover D p n m [D, x] \<noteq> None} = {nth_name p n}"
proof -
  have "leftover D p n m [D, x] \<noteq> None \<longleftrightarrow> x = nth_name p n" for x
  proof (cases "[D, x] \<in> series D p (Suc n)")
    case True
    then obtain i where "x = nth_name p i" "i < Suc n" by (auto simp: series_def)
    then show ?thesis by (auto simp: leftover_def removed_at series_mem added_at nth_name_eq simp del: added.simps)
  next
    case False
    then show ?thesis
      using assms added_other [OF False, of m] series_mem [of D p n "Suc n"] by (auto simp: leftover_def removed_at simp del: added.simps)
  qed
  then show ?thesis by blast
qed

lemma own_leftover:
  assumes f: "owns me A m Ds f" and d: "leads loc d D" and p: "fname p" "length p \<le> 50" "n < 100" and A: "[D] \<in> Ds" "\<And>x. [D, x] \<in> A" "\<And>x. m [D, x] = None"
    and go: "\<And>g. owns me A (leftover D p n m) Ds g \<Longrightarrow> own loc me A W g k"
  shows "own loc me A W f (createn_c d p (Suc n) (unlinkn d p n k))"
  unfolding createn_c_eq
proof (rule own_createn [OF f d p(1,2) _ A(1)])
  have sub: "series D p l \<subseteq> A" for l using A(2) by (auto simp: series_def)
  show "series D p (Suc n) \<subseteq> A" by (rule sub)
  show "m l = None" if "l \<in> series D p (Suc n)" for l using that A(3) by (auto simp: series_def)
  show "own loc me A W g (unlinkn d p n k)" if g: "owns me A (added D p (Suc n) m) Ds g" for g
  proof (rule own_unlinkn [OF g d p(1,2) _ sub])
    show "\<exists>c. added D p (Suc n) m [D, nth_name p i] = Some (EFile c)" if "i < n" for i
      using that added_at [of i "Suc n" D p m] by simp
    show "own loc me A W h k" if "owns me A (removed D p n (added D p (Suc n) m)) Ds h" for h
      using go that unfolding leftover_def by blast
  qed (use p(3) in simp)
qed (use p(3) in simp)

lemma leftover_dircheck:
  assumes f: "owns me UNIV m Ds f" and d: "leads loc d D" "[D] \<in> Ds" and m: "{x. m [D, x] \<noteq> None} = {nth_name p n}" "p \<noteq> []" "hd p \<noteq> CHR ''.''"
    and go: "\<And>g. owns me UNIV m Ds g \<Longrightarrow> own loc me UNIV W g k"
  shows "own loc me UNIV W f (dircheck d 1 k)"
proof (rule own_dircheck [OF f d])
  have "\<not> dotted (nth_name p n)" using m(2,3) by (simp add: dotted_def nth_name_def)
  then have "{x. m [D, x] \<noteq> None \<and> \<not> dotted x} = {nth_name p n}" using m(1) by blast
  then show "card {x. m [D, x] \<noteq> None \<and> \<not> dotted x} = 1" by simp
qed (use m(1) go in simp_all)

lemma main_c_tests_pass:
  assumes srv: "serves loc \<alpha> good K" and d: "leads loc d1 Da" "leads loc d2 Db" "Da \<noteq> Db" and f: "owns me UNIV m {[Db], [Da]} f"
    and m: "\<And>x. m [Da, x] = None" "\<And>x. m [Db, x] = None"
  shows "wins \<alpha> good K me f (main_c_tests d1 d2)"
proof -
  let ?B = "range (\<lambda>x. [Db, x])" and ?Ds = "{[Db], [Da]}"
  let ?mk = "leftover Db ''xx'' 99 m" and ?mp = "leftover Da ''yy'' 99 m"
  let ?m = "\<lambda>k. if k \<in> ?B then ?mk k else ?mp k"
  let ?last = "say ''tests completed OK'' (Exit 0)"
  let ?rest = "dircheck d1 1 (dircheck d2 1 ?last)"
  have "{x. ?m [Da, x] \<noteq> None} = {x. ?mp [Da, x] \<noteq> None}" using d(3) by auto
  then have da: "{x. ?m [Da, x] \<noteq> None} = {nth_name ''yy'' 99}" using leftover_at [of m, OF m(1)] by simp
  have db: "{x. ?m [Db, x] \<noteq> None} = {nth_name ''xx'' 99}" using leftover_at [of m, OF m(2)] by simp
  have say: "own loc me UNIV (\<lambda>q g. q = Exit 0 \<and> True) g ?last" if "owns me UNIV ?m ?Ds g" for g
    unfolding say_def by (rule own_idle [OF _ that]) (auto intro: own_end)
  have rest: "wins \<alpha> good K me g ?rest" if g: "owns me UNIV ?m ?Ds g" for g
  proof (rule wins_own [OF srv _ wins_exit])
    show "own loc me UNIV (\<lambda>q g. q = Exit 0 \<and> True) g ?rest"
      by (rule leftover_dircheck [OF g d(1) _ da], simp, simp, simp, rule leftover_dircheck [OF _ d(2) _ db], assumption) (use say in auto)
  qed
  have fork: "wins \<alpha> good K me g (fork (createn_c d2 ''xx'' 100 (unlinkn d2 ''xx'' 99 (Exit 0))) (\<lambda>pid.
       createn_c d1 ''yy'' 100 (unlinkn d1 ''yy'' 99 (Sys (Sleep 4) (\<lambda>_. reap pid ?rest)))))" if g: "owns me UNIV m ?Ds g" for g
  proof (rule wins_disjoint [OF srv g, where B = ?B])
    have h: "100 = Suc 99" by simp
    show "own loc kid ?B (\<lambda>q g. q = Exit 0 \<and> owns kid ?B ?mk ?Ds g) g (createn_c d2 ''xx'' 100 (unlinkn d2 ''xx'' 99 (Exit 0)))"
      if "owns kid ?B m ?Ds g" for kid g
      unfolding h by (rule own_leftover [OF that d(2)]) (use m in \<open>auto intro: own_end\<close>)
    show "own loc me (- ?B) (\<lambda>q g. q = reap kid ?rest \<and> owns me (- ?B) ?mp ?Ds g) g
        (createn_c d1 ''yy'' 100 (unlinkn d1 ''yy'' 99 (Sys (Sleep 4) (\<lambda>_. reap kid ?rest))))"
      if "owns me (- ?B) m ?Ds g" for kid g
      unfolding h by (rule own_leftover [OF that d(1)]) (use m d(3) in \<open>auto intro!: own_end own_sleep\<close>)
  qed (rule rest)
  show ?thesis
    unfolding main_c_tests_def
    by (rule wins_own [OF srv _ fork], unfold say_def, rule own_idle [OF _ f]) (auto intro: own_end)
qed

lemma main_c_start:
  assumes a: "mounted loc a1" "mounted loc a2" and me: "0 < me" "me < 2 ^ 31"
    and f: "fds f me = Map.empty" "nodes f [Da] = None" "nodes f [Db] = None"
    and D: "Da = pid_name ''da'' me" "Db = pid_name ''db'' me"
  shows "own loc me UNIV (\<lambda>q g. q = main_c_tests (a1 @ ''/'' @ Da) (a2 @ ''/'' @ Db) \<and>
    owns me UNIV ((entry f)([Da] \<mapsto> EDir, [Db] \<mapsto> EDir)) {[Db], [Da]} g) f (main_c [a1, a2])"
proof -
  have nm: "fname Da" "length Da < 90" "fname Db" "length Db < 90" "Da \<noteq> Db"
    using pid_name_ok [of "''da''" me] pid_name_ok [of "''db''" me] me by (simp_all add: D fname_def pid_name_def)
  have path: "''/da'' @ dec_digits (nat me) = ''/'' @ Da" "''/db'' @ dec_digits (nat me) = ''/'' @ Db" by (simp_all add: D pid_name_def)
  have "leads loc (a1 @ ''/'' @ Da) Da" "leads loc (a2 @ ''/'' @ Da) Da" "leads loc (a2 @ ''/'' @ Db) Db" using mounted_leads a nm by blast+
  then have short: "length (a1 @ ''/'' @ Da) < 512" "length (a2 @ ''/'' @ Db) < 512" "length (a2 @ ''/'' @ Da) < 512"
    and loc: "loc (a1 @ ''/'' @ Da) = Some [Da]" "loc (a2 @ ''/'' @ Db) = Some [Db]" "loc (a2 @ ''/'' @ Da) = Some [Da]"
    by (auto simp: leads_def)
  let ?d1 = "a1 @ ''/'' @ Da" and ?d2 = "a2 @ ''/'' @ Db" and ?m = "(entry f)([Da] \<mapsto> EDir, [Db] \<mapsto> EDir)"
  let ?W = "\<lambda>q g. q = main_c_tests ?d1 ?d2 \<and> owns me UNIV ?m {[Db], [Da]} g"
  let ?access = "\<lambda>d1 d2. Sys Getpid (\<lambda>me. sprintf (a2 @ ''/da'' @ dec_digits (nat (r_val me))) (\<lambda>dd.
      Sys (Access dd) (\<lambda>r. if r_val r \<noteq> 0 then Exit 1 else main_c_tests d1 d2)))"
  let ?second = "\<lambda>d1. Sys Getpid (\<lambda>me. sprintf (a2 @ ''/db'' @ dec_digits (nat (r_val me))) (\<lambda>d2.
      Sys (Mkdir d2 511) (\<lambda>r. if r_val r \<noteq> 0 then Exit 1 else ?access d1 d2)))"
  have access: "own loc me UNIV ?W g (?access ?d1 ?d2)" if g: "owns me UNIV ?m {[Db], [Da]} g" for g
    by (rule own_path [OF g path(1) short(3)], rule own_access [where loc = loc, OF _ loc(3)], assumption) (auto intro: own_end)
  have second: "own loc me UNIV ?W g (?second ?d1)" if g: "owns me UNIV ((entry f)([Da] \<mapsto> EDir)) {[Da]} g" for g
    by (rule own_path [OF g path(2) short(2)], rule own_mkdir [where loc = loc, OF _ loc(2)], assumption)
      (use f(3) nm(5) access in auto)
  have s0: "owns me UNIV (entry f) {} f" using f(1) by (simp add: owns_def has_def)
  show ?thesis
    unfolding main_c_def list.case
    by (rule own_path [OF s0 path(1) short(1)], rule own_mkdir [where loc = loc, OF _ loc(1)], assumption)
      (use f(2) second in auto)
qed

text \<open>
  C9: the file system test programs report no failure on a POSIX file system that is mounted at two
  places: however the two processes of a test interleave, and whether or not a file that appears at
  the same moment makes \<open>creat\<close> answer \<open>EEXIST\<close>, every run ends, and ends with \<open>exit(0)\<close>.  The
  hypotheses are what the manual pages promise of a kernel that does not run out of resources
  (\<open>fork\<close>, \<open>creat\<close>, \<open>mkdir\<close> and \<open>write\<close> do not fail or fall short for the lack of them), that both
  arguments are mount points of the file system, and that the names of the test's own directories
  are not taken.
\<close>

theorem file_system_tests_pass:
  assumes srv: "serves loc \<alpha> good K" and a: "mounted loc a1" "mounted loc a2" and me: "0 < me" "me < 2 ^ 31"
    and s: "good s" "fs_ok (\<alpha> s)" "fds (\<alpha> s) me = Map.empty"
    and free: "\<forall>p \<in> {''d'', ''da'', ''db''}. nodes (\<alpha> s) [pid_name p me] = None"
  shows "succeeds K me (main_b [a1, a2], No_Kid, s) \<and> succeeds K me (main_c [a1, a2], No_Kid, s)"
proof
  have l: "leads loc (a @ ''/'' @ pid_name p me) (pid_name p me)" if "mounted loc a" "p \<in> {''d'', ''da'', ''db''}" for a p
    using mounted_leads [OF that(1)] pid_name_ok [of p me] that(2) me by auto
  have "wins \<alpha> good K me (\<alpha> s) (main_b [a1, a2])"
    by (rule wins_own [OF srv main_b_start [OF a me s(3,2) _ refl]], use free in simp, rule main_b_tests_pass [OF srv]) (use l a in auto)
  then show "succeeds K me (main_b [a1, a2], No_Kid, s)" using s(1,2) by (simp add: wins_def at_peace_def)
  let ?m = "(entry (\<alpha> s))([pid_name ''da'' me] \<mapsto> EDir, [pid_name ''db'' me] \<mapsto> EDir)"
  have none: "?m [pid_name p me, x] = None" if "p \<in> {''da'', ''db''}" for p x using fresh_dir [OF s(2)] free that by auto
  have differ: "pid_name ''da'' me \<noteq> pid_name ''db'' me" by (simp add: pid_name_def)
  have tests: "wins \<alpha> good K me g (main_c_tests (a1 @ ''/'' @ pid_name ''da'' me) (a2 @ ''/'' @ pid_name ''db'' me))"
    if "owns me UNIV ?m {[pid_name ''db'' me], [pid_name ''da'' me]} g" for g
    by (rule main_c_tests_pass [OF srv l [OF a(1)] l [OF a(2)] differ that]) (simp_all only: none insertI1 insertI2)
  have "wins \<alpha> good K me (\<alpha> s) (main_c [a1, a2])"
    by (rule wins_own [OF srv main_c_start [OF a me s(3) _ _ refl refl] tests]) (use free in simp_all)
  then show "succeeds K me (main_c [a1, a2], No_Kid, s)" using s(1,2) by (simp add: wins_def at_peace_def)
qed

theorem file_system_tests_pass_witness:
  "serves simple_loc fst simple_good (simple_kernel simple_loc) \<and> mounted simple_loc ''/a'' \<and> mounted simple_loc ''/b'' \<and>
   simple_good simple_start \<and>
   succeeds (simple_kernel simple_loc) 42 (main_b [''/a'', ''/b''], No_Kid, simple_start) \<and>
   succeeds (simple_kernel simple_loc) 42 (main_c [''/a'', ''/b''], No_Kid, simple_start)"
proof -
  have a: "mounted simple_loc a" if "a \<in> {''/a'', ''/b''}" for a
    unfolding mounted_def using that simple_loc_at [OF that] by (auto simp: fname_def)
  have "succeeds (simple_kernel simple_loc) 42 (main_b [''/a'', ''/b''], No_Kid, simple_start) \<and>
      succeeds (simple_kernel simple_loc) 42 (main_c [''/a'', ''/b''], No_Kid, simple_start)"
    by (rule file_system_tests_pass [OF simple_kernel_serves a a]) (simp_all add: simple_start_good, simp_all add: simple_start_def fs_ok_def)
  then show ?thesis using simple_kernel_serves simple_start_good a by simp
qed

end
