(* ===== verification/Spec2Isabelle.thy ===== *)
theory Spec2Isabelle
  imports Session Group_Util Lock_Tester Rpc_Test Rpc_Lifetime Poll_Mgr Threads Fs_Verdict
begin

text \<open>
  A verification of YFS, a file system whose data lives on a server (\<open>src/\<close>).

  \<^bold>\<open>The program.\<close>  The kernel sends file requests to the FUSE front end (\<open>fuse.cc\<close>), which calls the
  file system client (\<open>yfs_client.cc\<close>).  The client keeps every file and directory as one extent
  on the extent server (\<open>extent_server.cc\<close>), which checks permissions, and takes a lock for each
  extent from the lock server (\<open>lock_server.cc\<close>) around each operation.  Both servers are reached
  through the stubs \<open>extent_client.cc\<close>, \<open>lock_client.cc\<close> over an RPC library (\<open>rpc/\<close>): calls are
  marshalled (\<open>marshall.h\<close>), sent and retried by \<open>rpcc\<close>, judged new or old and dispatched by \<open>rpcs\<close>
  to a thread pool (\<open>thr_pool.cc\<close>, \<open>fifo.h\<close>), and carried by connections (\<open>connection.cc\<close>) that a
  polling thread (\<open>pollmgr.cc\<close>) calls back.

  \<^bold>\<open>Which theory models what.\<close>
  \<^item> \<open>Prelude\<close>: machine types, \<open>std::map\<close> subscripts, \<open>std::string\<close> operations that may throw, the
    type \<open>outcome\<close> of ways a C++ call ends.
  \<^item> \<open>Extent_Server\<close>: the record \<open>extent_server\<close> has the maps of \<open>extent_server.h\<close>; one definition per
    handler; \<open>extent_handle\<close> is the registration table of \<open>extent_smain.cc\<close>.  Its lemmas show that
    attributes and contents stay consistent, what an unauthorised request cannot do, and that the
    group handlers implement a membership relation.  \<open>reg\<close>, which takes no mutex, is also cut between
    its test and its store (\<open>reg_test\<close>, \<open>reg_finish\<close>; \<open>reg_sections\<close> joins them again) and interleaved
    with itself and all other requests (\<open>reg_step\<close>).
  \<^item> \<open>Lock_Server\<close>: the handlers in the sections between waits, and their interleaving \<open>lock_step\<close>:
    mutual exclusion and no lost wake-up.
  \<^item> \<open>Dir_Format\<close>, \<open>Yfs_Client\<close>, \<open>Yfs_Theorems\<close>: the directory strings, and each operation of
    \<open>yfs_client.cc\<close> as a function on \<open>world\<close>s that hold both servers and the client's identity.
    What becomes of each remote call is read from a script, so a theorem about all scripts is one
    about all losses.  \<open>achieves\<close> says that an operation returns, frees its locks and has a result;
    the refinement lemmas state what reading, writing, creating and unlinking mean.
  \<^item> \<open>Fuse\<close>: each handler of \<open>fuse.cc\<close>, with the reply it sends; inode numbers and types, changes of
    size, access checks, listings read in pieces.
  \<^item> \<open>Session\<close>: \<open>main\<close> of \<open>fuse.cc\<close>, from the command line through a session of any requests to the exit
    status, and \<open>lock_demo.cc\<close>.  Under any losses the program makes requests in its user's name only
    (\<open>asks\<close>), so it cannot change what its user may not change, and its replies do not depend on
    the bytes its user may not read (\<open>reveal\<close>); the number of these bytes is told to everybody.
  \<^item> \<open>Group_Util\<close>: the administration program, from its arguments to its exit status.
  \<^item> \<open>Rpc_Const\<close>, \<open>Marshall\<close>, \<open>Rpc_Typed\<close>: failure codes, both buffers and all operators with their
    round trips (for messages below 1 GiB; a marshaller remembers in \<open>mover\<close> when one of its \<open>int\<close>
    fields would have overflowed), the call templates and the wrappers of \<open>reg\<close>; a delivered call behaves as the
    handler called directly, which is what the stubs of \<open>Yfs_Client\<close> take a call to be.
  \<^item> \<open>Rpc_Client\<close>, \<open>Rpc_Server\<close>: the bookkeeping of calls, acknowledgements and replies, the retry
    loop over what it observes, with each wait on the condition variable, and \<open>dispatch\<close> with its connection references.
  \<^item> \<open>Fifo\<close>, \<open>Thr_Pool\<close>: the bounded queue and the pool as step relations over any number of threads.
  \<^item> \<open>Connection\<close>: \<open>send\<close> in the sections between its waits, both readiness callbacks, and \<open>link_step\<close>,
    a sender and a receiver with a byte stream between them.
  \<^item> \<open>Rpc_Channel\<close>: the connections a client shares among its threads, as objects in a heap with their
    reference counts (\<open>get_refconn\<close>, the end of \<open>call1\<close>, \<open>~rpcc\<close>), the accept loop, and the parsing of
    addresses.
  \<^item> \<open>Poll_Mgr\<close>: both descriptor managers, shown equal where only watched descriptors are unwatched,
    and the polling loop interleaved with threads that add and remove callbacks, with spurious
    wake-ups of a removing thread.
  \<^item> \<open>Rpc_System\<close>: a client with any number of open calls and a server composed over a network that
    loses requests and delivers replies late and repeatedly, with other clients and concurrent
    server threads (\<open>rpc_step\<close>).  \<open>dispatch\<close> is cut where the handler starts (\<open>dispatch_check\<close>,
    \<open>dispatch_run\<close>; \<open>dispatch_halves\<close> joins them again).  In the runs that are \<open>orderly\<close> (calls do not
    overlap, and no request is checked before an older one that is still under way) every call of
    the client runs at most once, and what a call returns is the answer of its one run.
  \<^item> \<open>Services\<close>: the tables of procedures of \<open>extent_smain.cc\<close> and \<open>lock_smain.cc\<close> and the messages of the
    stubs.  A request that arrives, looked up in the table, is the handler called directly, for all
    ten procedures; and in an orderly run the extent server behind the RPC system is a server that
    handles one sequence of requests, in which each call that returned occurs exactly once.
  \<^item> \<open>Rpc_Lifetime\<close>: the server object with its listener and its thread pool, from construction to
    the end of the destructor (\<open>server_step\<close>).
  \<^item> \<open>Threads\<close>: the thread starters of \<open>method_thread.h\<close> with the blocks they pass arguments in, and the
    scoped mutex.
  \<^item> \<open>Lock_Tester\<close>: the lock tester \<open>lock_tester.cc\<close> as client threads of the lock server, in all their
    interleavings: no check fails and no deadlock.
  \<^item> \<open>Rpc_Test\<close>: parts of the test program of the RPC library, \<open>rpc/rpctest.cc\<close>: its handlers and
    server, the marshalling test, and the bodies of its client threads on calls that are delivered.
  \<^item> \<open>Sys_Calls\<close>, \<open>Fs_Test\<close>, \<open>Fs_Kernel\<close>, \<open>Fs_Passes\<close>, \<open>Fs_Shared\<close>, \<open>Fs_Verdict\<close>: the file system test programs
    \<open>test-lab-3-b.c\<close> and \<open>test-lab-3-c.c\<close>.  A process is the tree of its system calls; the kernel is a
    parameter, and \<open>posix\<close> states what its manual pages promise for a file system mounted at two
    places (\<open>Fs_Kernel\<close> has one that keeps the promises).  A rely-guarantee calculus (\<open>rg\<close>) gives one
    rule for each function of the tests on names a process owns, on names two processes create at
    once, and on two parts of one file; parent and child are put together by \<open>fork_join\<close>.  Every run
    ends, and with \<open>exit(0)\<close>.

  \<^bold>\<open>Interfaces.\<close>  \<open>extent_store\<close> is the contract of an extent store; the server meets it (\<open>es\<close>) and so
  do the client's stubs over a reliable network (\<open>ec\<close>), which is what the operations of the client
  rest on.  \<open>codec\<close>, \<open>codec2\<close> and \<open>map_codec\<close> are the contract of a pair of marshalling operators,
  interpreted for every type.  \<open>aio_mgr\<close> is the contract of a descriptor manager, met by both
  implementations.  \<open>handlers\<close> is the contract of a table of procedures towards the RPC system: a
  handler returns a code and a reply the library can send; the extent server's table meets it
  (\<open>ext\<close>).  \<open>world_sim\<close> is the contract of a change of the world that the stubs do not notice, from
  which no operation, handler or session notices it; it is met by no change with the invariant
  \<open>asks\<close> (\<open>ask\<close>) and by a change of a private content (\<open>hide\<close>).  \<open>lock_service\<close> is the contract of a lock table (\<open>lsrv\<close>), from which
  scoped locks are balanced.

  \<^bold>\<open>Bounds and fuel.\<close>  Words have the width of the C++ types, so wrap-around is that of the code.
  No definition takes fuel: loops are structural recursion, recursion with a measure (the split of
  a directory string, the carry of \<open>add_timespec\<close>), or a step relation when they wait; the retry
  loop of \<open>call1\<close> runs over the list of what it observes, and a theorem bounds how many rounds it
  needs when its waits end.  A call that waits for a lock for ever has the outcome \<open>Blocked\<close>.  Statements about file
  contents have the bounds of the code as hypotheses (2 GiB for a write, 4 GiB for a size).

  \<^bold>\<open>What the model assumes.\<close>  A handler is one atomic step; the extent server's mutex makes it so for
  the extent handlers.  The user and group handlers take no mutex: \<open>reg\<close> is cut into sections in
  \<open>reg_step\<close>, the group handlers are atomic everywhere.  A signal wakes at least one waiter; waits may
  return without one, also the wait of \<open>block_remove_fd\<close>, which no loop repeats (the lifetime of the
  server, which closes connections through it, is followed for proper wake-ups).  \<open>select\<close> and \<open>epoll\<close>
  report arbitrary descriptors among those they watch; \<open>read\<close> and \<open>write\<close> transfer any positive number
  of bytes.  The client of \<open>Rpc_System\<close> does not test duplicates (\<open>RPC_LOSSY\<close> is 0 or unset) and issues
  fewer than \<open>2 ^ 32\<close> requests; that its runs are orderly is a hypothesis of each theorem that needs
  it, and \<open>acknowledged_request_runs_again\<close> and \<open>remembered_request_runs_again\<close> show what happens in
  runs that are not.  A remembered reply is sent in the same step in which it is found.  Incrementing
  the end iterator of a list, as \<open>checkduplicate_and_update\<close> may, gives its first element
  (libstdc++; the standard leaves it undefined).  A server is reachable (\<open>reachable_\<close> stays true,
  since nothing in the repository calls \<open>set_reachable\<close>).  The kernel of the file system tests does not run out of
  resources.  Time and indeterminate memory are arguments.  Memory is unbounded.

  \<^bold>\<open>Not modelled.\<close>  Tracing and statistics output (\<open>jsl_log.h\<close>), and the replacement of \<open>clock_gettime\<close>
  for one platform (it computes in floating point from kernel clocks).
\<close>

end
